(* ===== verification/Go_Prelude.thy ===== *)
theory Go_Prelude
  imports Main "HOL-Library.Word" "HOL-Library.Sublist" "HOL-Library.Multiset"
    "HOL-Library.Signed_Division"
begin

text \<open>
  The shared prelude of the development: the parts of the Go language and of its standard
  library that the modelled files use, and the generic lemmas on lists, options and integers
  that the component theories share.

  \<^item> A Go \<^verbatim>\<open>string\<close> is a sequence of bytes; HOL's \<^typ>\<open>char\<close> is a byte, so a Go string is a
    \<^typ>\<open>string\<close> and \<^verbatim>\<open>len(s)\<close> is \<^const>\<open>length\<close>.
  \<^item> A \<^verbatim>\<open>time.Time\<close> is the integer number of nanoseconds since Go's zero time (January 1,
    year 1, UTC), so that \<^verbatim>\<open>t.IsZero()\<close> is \<open>t = 0\<close>; a \<^verbatim>\<open>time.Duration\<close> is an integer of
    nanoseconds that the type keeps inside 64 bits.  Comparisons of instants are the ones of
    the integers; \<^verbatim>\<open>t.Sub(u)\<close> saturates, as the library documents.
  \<^item> \<^verbatim>\<open>/\<close> and \<^verbatim>\<open>%\<close> on integers truncate towards zero: \<^verbatim>\<open>sdiv\<close> and \<^verbatim>\<open>smod\<close> of
    \<^verbatim>\<open>HOL-Library.Signed_Division\<close>.
  \<^item> Errors are values of a sum type, \<open>Inl\<close> the error.
\<close>

named_theorems go_string \<open>facts on Go's string functions\<close>
named_theorems go_time \<open>facts on Go's time and duration arithmetic\<close>

type_synonym go_time = int
type_synonym duration = int
type_synonym ('e, 'a) result = "'e + 'a"

section \<open>Integers, durations and instants\<close>

definition min_int64 :: int where
  "min_int64 = - (2 ^ 63)"

definition max_int64 :: int where
  "max_int64 = 2 ^ 63 - 1"

text \<open>Two's complement wrap-around of a 64-bit signed result.\<close>

definition wrap64 :: "int \<Rightarrow> int" where
  "wrap64 n = signed_take_bit 63 n"

definition is_int64 :: "int \<Rightarrow> bool" where
  "is_int64 n \<longleftrightarrow> min_int64 \<le> n \<and> n \<le> max_int64"

lemma wrap64_id [go_time]: "is_int64 n \<Longrightarrow> wrap64 n = n"
  unfolding is_int64_def wrap64_def min_int64_def max_int64_def
  by (rule signed_take_bit_int_eq_self) auto

lemma is_int64_wrap64 [go_time, simp]: "is_int64 (wrap64 n)"
  unfolding is_int64_def wrap64_def min_int64_def max_int64_def
  using signed_take_bit_int_greater_eq_minus_exp [of 63 n] signed_take_bit_int_less_exp [of 63 n]
  by simp

definition time_Add :: "go_time \<Rightarrow> duration \<Rightarrow> go_time" where
  "time_Add t d = t + d"

text \<open>\<^verbatim>\<open>Time.Sub\<close>: the maximum (or minimum) duration is returned when the difference does not fit.\<close>

definition time_Sub :: "go_time \<Rightarrow> go_time \<Rightarrow> duration" where
  "time_Sub t u = max min_int64 (min max_int64 (t - u))"

definition time_IsZero :: "go_time \<Rightarrow> bool" where
  "time_IsZero t \<longleftrightarrow> t = 0"

definition time_After :: "go_time \<Rightarrow> go_time \<Rightarrow> bool" where
  "time_After t u \<longleftrightarrow> u < t"

definition time_Before :: "go_time \<Rightarrow> go_time \<Rightarrow> bool" where
  "time_Before t u \<longleftrightarrow> t < u"

lemmas time_defs [go_time, simp] =
  time_Add_def time_IsZero_def time_After_def time_Before_def

definition Nanosecond :: duration where "Nanosecond = 1"
definition Millisecond :: duration where "Millisecond = 1000000"
definition Second :: duration where "Second = 1000000000"
definition Minute :: duration where "Minute = 60 * Second"
definition Hour :: duration where "Hour = 60 * Minute"

lemmas unit_defs [go_time] =
  Nanosecond_def Millisecond_def Second_def Minute_def Hour_def

lemma time_Sub_small [go_time]: "is_int64 (t - u) \<Longrightarrow> time_Sub t u = t - u"
  by (simp add: time_Sub_def is_int64_def)

lemma time_Sub_nonpos_iff [go_time]: "time_Sub t u \<le> 0 \<longleftrightarrow> t \<le> u"
  by (auto simp: time_Sub_def min_int64_def max_int64_def)

lemma time_Sub_pos_iff [go_time]: "0 < time_Sub t u \<longleftrightarrow> u < t"
  using time_Sub_nonpos_iff [of t u] by linarith

lemma time_Sub_bounds [go_time]: "is_int64 (time_Sub t u)"
  by (auto simp: time_Sub_def is_int64_def min_int64_def max_int64_def)

lemma time_Sub_gt_iff [go_time]:
  "is_int64 d \<Longrightarrow> d < max_int64 \<Longrightarrow> d < time_Sub t u \<longleftrightarrow> d < t - u"
  by (auto simp: time_Sub_def is_int64_def min_int64_def max_int64_def)

lemma sdiv_nonneg [go_time]:
  fixes a b :: int
  assumes "0 \<le> a" and "0 < b"
  shows "a sdiv b = a div b"
  using assms by (cases "a = 0") (simp_all add: signed_divide_int_def)

section \<open>Results\<close>

fun result_bind :: "('e, 'a) result \<Rightarrow> ('a \<Rightarrow> ('e, 'b) result) \<Rightarrow> ('e, 'b) result" where
  "result_bind (Inl e) f = Inl e"
| "result_bind (Inr a) f = f a"

lemma result_bind_Inr_iff:
  "result_bind r f = Inr b \<longleftrightarrow> (\<exists>a. r = Inr a \<and> f a = Inr b)"
  by (cases r) auto

section \<open>Strings\<close>

definition is_ascii :: "string \<Rightarrow> bool" where
  "is_ascii s \<longleftrightarrow> list_all (\<lambda>c. of_char c < (128 :: nat)) s"

definition byte_lower :: "char \<Rightarrow> char" where
  "byte_lower c = (if 65 \<le> (of_char c :: nat) \<and> of_char c \<le> (90 :: nat)
     then char_of (of_char c + 32 :: nat) else c)"

definition byte_upper :: "char \<Rightarrow> char" where
  "byte_upper c = (if 97 \<le> (of_char c :: nat) \<and> of_char c \<le> (122 :: nat)
     then char_of (of_char c - 32 :: nat) else c)"

text \<open>
  \<^verbatim>\<open>strings.ToLower\<close> and \<^verbatim>\<open>ToUpper\<close> work byte by byte on an ASCII string, and map every rune through the
  Unicode case tables otherwise.  The tables are data of the Go distribution: the mapping of
  a string that is not ASCII is the parameter \<open>ulow\<close> (\<open>uupp\<close>).
\<close>

definition ToLower :: "(string \<Rightarrow> string) \<Rightarrow> string \<Rightarrow> string" where
  "ToLower ulow s = (if is_ascii s then map byte_lower s else ulow s)"

definition ToUpper :: "(string \<Rightarrow> string) \<Rightarrow> string \<Rightarrow> string" where
  "ToUpper uupp s = (if is_ascii s then map byte_upper s else uupp s)"

text \<open>
  The UTF-8 encodings of the runes for which \<^verbatim>\<open>unicode.IsSpace\<close> holds (the White\_Space property):
  the six ASCII ones, U+0085, U+00A0, U+1680, U+2000 to U+200A, U+2028, U+2029, U+202F, U+205F
  and U+3000.
\<close>

definition space_runes :: "string list" where
  "space_runes = map (map char_of) ([[9], [10], [11], [12], [13], [32],
     [194, 133], [194, 160], [225, 154, 128]]
     @ map (\<lambda>b. [226, 128, b]) ([128 ..< 139] @ [168, 169, 175])
     @ [[226, 129, 159], [227, 128, 128]] :: nat list list)"

fun strip_one :: "string list \<Rightarrow> string \<Rightarrow> string option" where
  "strip_one [] s = None"
| "strip_one (r # rs) s =
     (if r \<noteq> [] \<and> prefix r s then Some (drop (length r) s) else strip_one rs s)"

lemma strip_one_length: "strip_one rs s = Some s' \<Longrightarrow> length s' < length s"
proof (induction rs)
  case Nil
  then show ?case by simp
next
  case (Cons r rs)
  then show ?case by (cases "r \<noteq> [] \<and> prefix r s") (auto simp: prefix_def)
qed

function trim_left :: "string list \<Rightarrow> string \<Rightarrow> string" where
  "trim_left rs s = (case strip_one rs s of None \<Rightarrow> s | Some s' \<Rightarrow> trim_left rs s')"
  by pat_completeness auto
termination
  by (relation "measure (\<lambda>(rs, s). length s)") (auto dest: strip_one_length)

declare trim_left.simps [simp del]

definition TrimSpace :: "string \<Rightarrow> string" where
  "TrimSpace s = rev (trim_left (map rev space_runes) (rev (trim_left space_runes s)))"

abbreviation HasPrefix :: "string \<Rightarrow> string \<Rightarrow> bool" where
  "HasPrefix s p \<equiv> prefix p s"

abbreviation HasSuffix :: "string \<Rightarrow> string \<Rightarrow> bool" where
  "HasSuffix s p \<equiv> suffix p s"

definition TrimPrefix :: "string \<Rightarrow> string \<Rightarrow> string" where
  "TrimPrefix s p = (if prefix p s then drop (length p) s else s)"

definition TrimSuffix :: "string \<Rightarrow> string \<Rightarrow> string" where
  "TrimSuffix s p = (if suffix p s then take (length s - length p) s else s)"

text \<open>\<^verbatim>\<open>strings.TrimRight(s, string(c))\<close> for a single-byte cutset.\<close>

definition TrimRight :: "string \<Rightarrow> char \<Rightarrow> string" where
  "TrimRight s c = rev (dropWhile (\<lambda>x. x = c) (rev s))"

definition IndexByte :: "string \<Rightarrow> char \<Rightarrow> nat option" where
  "IndexByte s c = (if c \<in> set s then Some (length (takeWhile (\<lambda>x. x \<noteq> c) s)) else None)"

text \<open>\<^verbatim>\<open>strings.Cut(s, string(c))\<close>: the parts around the first separator, and whether it occurs.\<close>

definition Cut :: "string \<Rightarrow> char \<Rightarrow> string \<times> string \<times> bool" where
  "Cut s c = (if c \<in> set s
     then (takeWhile (\<lambda>x. x \<noteq> c) s, tl (dropWhile (\<lambda>x. x \<noteq> c) s), True)
     else (s, [], False))"

text \<open>\<^verbatim>\<open>strings.Split(s, string(c))\<close>.\<close>

fun Split :: "string \<Rightarrow> char \<Rightarrow> string list" where
  "Split [] c = [[]]"
| "Split (x # xs) c =
     (if x = c then [] # Split xs c
      else (case Split xs c of [] \<Rightarrow> [[x]] | p # ps \<Rightarrow> (x # p) # ps))"

text \<open>\<^verbatim>\<open>strings.Index(s, sub)\<close>: the first position where \<open>sub\<close> occurs.\<close>

fun Index :: "string \<Rightarrow> string \<Rightarrow> nat option" where
  "Index [] sub = (if sub = [] then Some 0 else None)"
| "Index (x # xs) sub =
     (if prefix sub (x # xs) then Some 0 else map_option Suc (Index xs sub))"

definition Contains :: "string \<Rightarrow> string \<Rightarrow> bool" where
  "Contains s sub = (Index s sub \<noteq> None)"

definition RemoveByte :: "string \<Rightarrow> char \<Rightarrow> string" where
  "RemoveByte s c = filter (\<lambda>x. x \<noteq> c) s"

subsection \<open>Lemmas on the string functions\<close>

lemma Split_not_Nil [simp, go_string]: "Split s c \<noteq> []"
  by (cases s) (auto split: list.splits)

lemma Split_no_sep [go_string]: "c \<notin> set s \<Longrightarrow> Split s c = [s]"
  by (induction s) auto

lemma Split_parts_no_sep [go_string]: "p \<in> set (Split s c) \<Longrightarrow> c \<notin> set p"
proof (induction s arbitrary: p)
  case Nil
  then show ?case by simp
next
  case (Cons x xs)
  then show ?case by (cases "Split xs c") (auto split: if_splits)
qed

lemma Split_length [go_string]: "length (Split s c) = Suc (count_list s c)"
proof (induction s)
  case Nil
  then show ?case by simp
next
  case (Cons x xs)
  then show ?case by (cases "Split xs c") auto
qed

lemma Index_Some [go_string]:
  "Index s sub = Some i \<Longrightarrow> i + length sub \<le> length s \<and> s = take i s @ sub @ drop (i + length sub) s"
proof (induction s arbitrary: i)
  case Nil
  then show ?case by (auto split: if_splits)
next
  case (Cons x xs)
  show ?case
  proof (cases "prefix sub (x # xs)")
    case True
    with Cons.prems have "i = 0" by simp
    moreover from True obtain r where "x # xs = sub @ r" by (auto simp: prefix_def)
    ultimately show ?thesis by simp
  next
    case False
    with Cons.prems obtain j where "Index xs sub = Some j" and "i = Suc j" by auto
    with Cons.IH show ?thesis by auto
  qed
qed

lemma Index_prefix [simp]: "Index (sub @ v) sub = Some 0"
proof (cases "sub @ v")
  case Nil
  then show ?thesis by simp
next
  case (Cons x xs)
  then have "prefix sub (x # xs)" by (metis prefixI)
  then show ?thesis unfolding Cons by simp
qed

lemma Index_least [go_string]:
  assumes "s = u @ sub @ v"
  shows "\<exists>i. Index s sub = Some i \<and> i \<le> length u"
  using assms
proof (induction u arbitrary: s)
  case Nil
  then show ?case by simp
next
  case (Cons x u)
  then obtain i where "Index (u @ sub @ v) sub = Some i" and "i \<le> length u" by blast
  with Cons.prems show ?case by auto
qed

lemma Contains_iff [go_string]: "Contains s sub \<longleftrightarrow> sublist sub s"
proof
  assume "Contains s sub"
  then obtain i where "Index s sub = Some i" by (auto simp: Contains_def)
  then show "sublist sub s" using Index_Some [of s sub i] by (metis sublist_appendI)
next
  assume "sublist sub s"
  then obtain u v where "s = u @ sub @ v" by (auto simp: sublist_def)
  then show "Contains s sub" using Index_least [of s u sub v] by (auto simp: Contains_def)
qed

lemma Cut_found [go_string]:
  "Cut s c = (a, b, True) \<Longrightarrow> s = a @ c # b \<and> c \<notin> set a"
proof -
  assume h: "Cut s c = (a, b, True)"
  then have c: "c \<in> set s" by (auto simp: Cut_def split: if_splits)
  with h have a: "a = takeWhile (\<lambda>x. x \<noteq> c) s" and b: "b = tl (dropWhile (\<lambda>x. x \<noteq> c) s)"
    by (auto simp: Cut_def)
  from c have ne: "dropWhile (\<lambda>x. x \<noteq> c) s \<noteq> []" by (simp add: dropWhile_eq_Nil_conv)
  then have "hd (dropWhile (\<lambda>x. x \<noteq> c) s) = c" using hd_dropWhile [of "\<lambda>x. x \<noteq> c" s] by simp
  with ne have "dropWhile (\<lambda>x. x \<noteq> c) s = c # b" by (metis b list.collapse)
  moreover have "c \<notin> set a" using a by (auto dest: set_takeWhileD)
  ultimately show ?thesis using a takeWhile_dropWhile_id [of "\<lambda>x. x \<noteq> c" s] by simp
qed

lemma ToLower_ascii [go_string]: "is_ascii s \<Longrightarrow> ToLower ulow s = map byte_lower s"
  by (simp add: ToLower_def)

text \<open>Printable ASCII text without blanks is left alone by \<^verbatim>\<open>strings.TrimSpace\<close>.\<close>

definition is_graphic :: "char \<Rightarrow> bool" where
  "is_graphic c \<longleftrightarrow> 33 \<le> (of_char c :: nat) \<and> of_char c \<le> (126 :: nat)"

lemma strip_one_None:
  "(\<And>r. r \<in> set rs \<Longrightarrow> r = [] \<or> hd r \<noteq> hd s \<or> s = []) \<Longrightarrow> strip_one rs s = None"
proof (induction rs)
  case Nil
  then show ?case by simp
next
  case (Cons r rs)
  have "r = [] \<or> \<not> prefix r s" using Cons.prems [of r] by (cases r; cases s) auto
  with Cons show ?case by auto
qed

lemma space_runes_not_graphic:
  "list_all (\<lambda>r. r = [] \<or> (\<not> is_graphic (hd r) \<and> \<not> is_graphic (last r))) space_runes"
  by code_simp

lemma trim_left_graphic:
  "s \<noteq> [] \<Longrightarrow> is_graphic (hd s) \<Longrightarrow> trim_left space_runes s = s"
  "s \<noteq> [] \<Longrightarrow> is_graphic (hd s) \<Longrightarrow> trim_left (map rev space_runes) s = s"
proof -
  assume s: "s \<noteq> []" and g: "is_graphic (hd s)"
  have edge: "r = [] \<or> (hd r \<noteq> hd s \<and> last r \<noteq> hd s)" if "r \<in> set space_runes" for r
    using space_runes_not_graphic g that by (auto simp: list_all_iff)
  have "strip_one space_runes s = None"
    by (rule strip_one_None) (use edge in blast)
  moreover have "strip_one (map rev space_runes) s = None"
  proof (rule strip_one_None)
    fix r assume "r \<in> set (map rev space_runes)"
    then obtain x where "x \<in> set space_runes" and "r = rev x" by auto
    with edge [of x] show "r = [] \<or> hd r \<noteq> hd s \<or> s = []" by (auto simp: hd_rev)
  qed
  ultimately show "trim_left space_runes s = s" and "trim_left (map rev space_runes) s = s"
    by (simp_all add: trim_left.simps [of _ s])
qed

lemma TrimSpace_graphic [go_string]:
  assumes "s \<noteq> []" and "is_graphic (hd s)" and "is_graphic (last s)"
  shows "TrimSpace s = s"
  using assms by (simp add: TrimSpace_def trim_left_graphic hd_rev)

lemma trim_left_suffix: "suffix (trim_left rs s) s"
proof (induction rs s rule: trim_left.induct)
  case (1 rs s)
  show ?case
  proof (cases "strip_one rs s")
    case None
    then show ?thesis by (simp add: trim_left.simps [of rs s])
  next
    case (Some s')
    have "suffix s' s" using Some
      by (induction rs) (auto split: if_splits simp: suffix_drop)
    with 1 Some show ?thesis by (auto simp: trim_left.simps [of rs s])
  qed
qed

text \<open>What trimming removes are whole white-space runes at the two ends.\<close>

lemma trim_left_concat: "\<exists>us. set us \<subseteq> set rs \<and> s = concat us @ trim_left rs s"
proof (induction rs s rule: trim_left.induct)
  case (1 rs s)
  show ?case
  proof (cases "strip_one rs s")
    case None
    then show ?thesis by (intro exI [of _ "[]"]) (simp add: trim_left.simps [of rs s])
  next
    case (Some s')
    then obtain r where r: "r \<in> set rs" "s = r @ s'"
      by (induction rs) (auto split: if_splits simp: prefix_def)
    from 1 [OF Some] obtain us where "set us \<subseteq> set rs" "s' = concat us @ trim_left rs s'" by blast
    moreover have "trim_left rs s = trim_left rs s'" using Some by (simp add: trim_left.simps [of rs s])
    ultimately show ?thesis using r by (intro exI [of _ "r # us"]) simp
  qed
qed

lemma TrimSpace_split:
  "\<exists>us vs. set us \<subseteq> set space_runes \<and> set vs \<subseteq> set space_runes \<and> s = concat us @ TrimSpace s @ concat vs"
proof -
  obtain us where us: "set us \<subseteq> set space_runes" "s = concat us @ trim_left space_runes s"
    using trim_left_concat by blast
  obtain vs where vs: "set vs \<subseteq> set (map rev space_runes)"
    "rev (trim_left space_runes s) = concat vs @ trim_left (map rev space_runes) (rev (trim_left space_runes s))"
    using trim_left_concat by blast
  from arg_cong [OF vs(2), of rev] have "trim_left space_runes s = TrimSpace s @ rev (concat vs)"
    by (simp add: TrimSpace_def)
  moreover have "rev (concat vs) = concat (rev (map rev vs))" by (simp add: rev_concat rev_map)
  ultimately show ?thesis using us vs(1)
    by (intro exI [of _ us] exI [of _ "rev (map rev vs)"]) (auto simp: image_subset_iff)
qed

lemma space_runes_blank: "r \<in> set space_runes \<Longrightarrow> \<not> list_ex is_graphic r"
proof -
  have "list_all (\<lambda>r. \<not> list_ex is_graphic r) space_runes" by code_simp
  then show "r \<in> set space_runes \<Longrightarrow> \<not> list_ex is_graphic r" by (simp add: list_all_iff)
qed

lemma TrimSpace_keeps_graphic:
  assumes "c \<in> set s" and "is_graphic c"
  shows "c \<in> set (TrimSpace s)"
proof -
  obtain us vs where *: "set us \<subseteq> set space_runes" "set vs \<subseteq> set space_runes"
    "s = concat us @ TrimSpace s @ concat vs" using TrimSpace_split by blast
  have "c \<notin> set (concat xs)" if "set xs \<subseteq> set space_runes" for xs
    using that space_runes_blank assms(2) by (auto simp: list_ex_iff)
  with * assms(1) show ?thesis by (metis Un_iff set_append)
qed

lemma TrimSpace_Nil [simp]: "TrimSpace [] = []"
  using trim_left_suffix [of space_runes "[]"] trim_left_suffix [of "map rev space_runes" "[]"]
  by (simp add: TrimSpace_def)

lemma trim_left_idem: "trim_left rs (trim_left rs s) = trim_left rs s"
proof (induction rs s rule: trim_left.induct)
  case (1 rs s)
  then show ?case
    by (cases "strip_one rs s") (simp_all add: trim_left.simps [of rs s])
qed

section \<open>Lists\<close>

text \<open>
  \<^verbatim>\<open>sort.SliceStable\<close>: the elements in the order of \<open>less\<close>, equivalent elements in their original
  order.  For a strict weak order the result is unique, so insertion from the right computes it.
\<close>

fun insert_stable :: "('a \<Rightarrow> 'a \<Rightarrow> bool) \<Rightarrow> 'a \<Rightarrow> 'a list \<Rightarrow> 'a list" where
  "insert_stable lt x [] = [x]"
| "insert_stable lt x (y # ys) =
     (if lt y x then y # insert_stable lt x ys else x # y # ys)"

definition slice_stable :: "('a \<Rightarrow> 'a \<Rightarrow> bool) \<Rightarrow> 'a list \<Rightarrow> 'a list" where
  "slice_stable lt xs = foldr (insert_stable lt) xs []"

lemma mset_insert_stable [simp]: "mset (insert_stable lt x ys) = add_mset x (mset ys)"
  by (induction ys) auto

lemma mset_slice_stable [simp]: "mset (slice_stable lt xs) = mset xs"
  by (induction xs) (simp_all add: slice_stable_def)

lemma set_slice_stable [simp]: "set (slice_stable lt xs) = set xs"
  by (metis mset_slice_stable set_mset_mset)

lemma length_slice_stable [simp]: "length (slice_stable lt xs) = length xs"
  by (metis mset_slice_stable size_mset)

lemma slice_stable_Nil_iff [simp]: "slice_stable lt xs = [] \<longleftrightarrow> xs = []"
  by (metis length_0_conv length_slice_stable)

text \<open>
  The interface of a comparison function: a strict weak order given by a key into a linear
  order.  Sorting by such a comparison yields a list sorted by the key.
\<close>

locale keyed_less =
  fixes lt :: "'a \<Rightarrow> 'a \<Rightarrow> bool" and key :: "'a \<Rightarrow> 'k::linorder"
  assumes less_key: "lt a b \<longleftrightarrow> key a < key b"
begin

lemma sorted_insert_stable:
  "sorted (map key ys) \<Longrightarrow> sorted (map key (insert_stable lt x ys))"
proof (induction ys)
  case Nil
  then show ?case by simp
next
  case (Cons y ys)
  have set: "set (insert_stable lt x ys) = insert x (set ys)"
    by (metis mset_insert_stable set_mset_add_mset_insert set_mset_mset)
  show ?case
  proof (cases "lt y x")
    case True
    with Cons set show ?thesis by (auto simp: less_key [of y x])
  next
    case False
    with Cons show ?thesis by (fastforce simp: less_key [of y x] not_less)
  qed
qed

lemma sorted_slice_stable: "sorted (map key (slice_stable lt xs))"
  by (induction xs) (simp_all add: slice_stable_def sorted_insert_stable)

lemma slice_stable_hd_min:
  assumes "x \<in> set xs"
  shows "key (hd (slice_stable lt xs)) \<le> key x"
proof -
  let ?ys = "slice_stable lt xs"
  from assms have ne: "?ys \<noteq> []" and x: "x \<in> set ?ys" by auto
  from ne obtain y ys where ys: "?ys = y # ys" by (cases ?ys) auto
  have "sorted (map key (y # ys))" using sorted_slice_stable [of xs] ys by simp
  then show ?thesis using x ys by auto
qed

lemma filter_insert_stable:
  assumes "sorted (map key ys)"
  shows "filter (\<lambda>y. key y = k) (insert_stable lt x ys) =
    (if key x = k then x # filter (\<lambda>y. key y = k) ys else filter (\<lambda>y. key y = k) ys)"
  using assms
proof (induction ys)
  case Nil
  then show ?case by simp
next
  case (Cons y ys)
  then show ?case using less_key [of y x] by auto
qed

lemma slice_stable_stable:
  "filter (\<lambda>y. key y = k) (slice_stable lt xs) = filter (\<lambda>y. key y = k) xs"
  by (induction xs) (simp_all add: slice_stable_def filter_insert_stable
      sorted_slice_stable [unfolded slice_stable_def])

end

lemma Min_filter_set:
  assumes "xs \<noteq> []"
  shows "filter (\<lambda>x. f x = Min (f ` set xs)) xs \<noteq> []"
proof -
  have "Min (f ` set xs) \<in> f ` set xs" using assms by (intro Min_in) auto
  then show ?thesis by (auto simp: filter_empty_conv)
qed

lemma find_SomeD:
  "find P xs = Some x \<Longrightarrow> x \<in> set xs \<and> P x"
  by (induction xs) (auto split: if_splits)

lemma find_distinct_iff:
  assumes "distinct (map f xs)"
  shows "find (\<lambda>x. f x = k) xs = Some x \<longleftrightarrow> x \<in> set xs \<and> f x = k"
  using assms
proof (induction xs)
  case Nil
  then show ?case by simp
next
  case (Cons y ys)
  then show ?case by (auto simp: image_iff)
qed

section \<open>Go maps\<close>

text \<open>
  A Go map as an association list with distinct keys.  A \<^verbatim>\<open>range\<close> loop visits the entries in an
  arbitrary order: definitions that contain one have the order as an argument, a function that
  permutes the list (\<open>range_order\<close>).
\<close>

type_synonym ('k, 'v) gomap = "('k \<times> 'v) list"

definition mdel :: "'k \<Rightarrow> ('k, 'v) gomap \<Rightarrow> ('k, 'v) gomap" where
  "mdel k m = filter (\<lambda>p. fst p \<noteq> k) m"

definition mput :: "'k \<Rightarrow> 'v \<Rightarrow> ('k, 'v) gomap \<Rightarrow> ('k, 'v) gomap" where
  "mput k v m = (k, v) # mdel k m"

definition range_order :: "(('k, 'v) gomap \<Rightarrow> ('k, 'v) gomap) \<Rightarrow> bool" where
  "range_order ord \<longleftrightarrow> (\<forall>m. mset (ord m) = mset m)"

definition mkeys :: "('k, 'v) gomap \<Rightarrow> bool" where
  "mkeys m \<longleftrightarrow> distinct (map fst m)"

lemma map_of_mdel [simp]: "map_of (mdel k m) j = (if j = k then None else map_of m j)"
  by (induction m) (auto simp: mdel_def)

lemma map_of_mput [simp]: "map_of (mput k v m) j = (if j = k then Some v else map_of m j)"
  by (simp add: mput_def)

lemma mkeys_mdel [simp]: "mkeys m \<Longrightarrow> mkeys (mdel k m)"
  by (simp add: mkeys_def mdel_def distinct_map_filter)

lemma mkeys_mput [simp]: "mkeys m \<Longrightarrow> mkeys (mput k v m)"
  using mkeys_mdel [of m k] by (auto simp: mkeys_def mput_def mdel_def)

lemma mkeys_filter [simp]: "mkeys m \<Longrightarrow> mkeys (filter P m)"
  by (simp add: mkeys_def distinct_map_filter)

lemma mkeys_Nil [simp]: "mkeys []"
  by (simp add: mkeys_def)

lemma map_of_filter_fst:
  "mkeys m \<Longrightarrow> map_of (filter P m) k = (case map_of m k of None \<Rightarrow> None | Some v \<Rightarrow> if P (k, v) then Some v else None)"
proof (induction m)
  case (Cons p m)
  obtain k' v' where p: "p = (k', v')" by fastforce
  have "map_of m k' = None" "mkeys m" using Cons.prems by (auto simp: mkeys_def p map_of_eq_None_iff)
  with Cons.IH show ?case by (auto simp: p split: option.splits)
qed simp

lemma mdel_absent: "map_of m k = None \<Longrightarrow> mdel k m = m"
  by (auto simp: mdel_def filter_id_conv map_of_eq_None_iff)

lemma length_mdel:
  assumes "mkeys m"
  shows "length (mdel k m) = (if map_of m k = None then length m else length m - 1)"
  using assms
proof (induction m)
  case (Cons p m)
  then have "mkeys m" by (simp add: mkeys_def)
  show ?case
  proof (cases "fst p = k")
    case True
    then have "map_of m k = None" using Cons.prems by (auto simp: mkeys_def map_of_eq_None_iff)
    with True mdel_absent [OF this] show ?thesis by (cases p) (simp add: mdel_def)
  next
    case False
    have "map_of m k \<noteq> None \<Longrightarrow> m \<noteq> []" by auto
    with False Cons.IH [OF \<open>mkeys m\<close>] show ?thesis by (cases p) (auto simp: mdel_def)
  qed
qed (simp add: mdel_def)

lemma length_mput: "mkeys m \<Longrightarrow> length (mput k v m) = (if map_of m k = None then Suc (length m) else length m)"
  using length_mdel [of m k] by (cases m) (auto simp: mput_def)

end
