(* ===== verification/App_Errors.thy ===== *)
theory App_Errors
  imports Go_Prelude
begin

text \<open>
  The application error type (\<^verbatim>\<open>backend/internal/pkg/errors\<close>: \<^verbatim>\<open>errors.go\<close>, \<^verbatim>\<open>types.go\<close>, \<^verbatim>\<open>http.go\<close>)
  and the decimal conversions of \<^verbatim>\<open>strconv\<close> that carry numbers in error metadata.

  An error value is a \<^verbatim>\<open>*ApplicationError\<close> (a status and an optional cause), an error made with
  \<^verbatim>\<open>fmt.Errorf("...%w", err)\<close> that wraps another one, or any other error.  \<^verbatim>\<open>errors.As\<close> follows the
  chain of wrapped errors until it meets an \<^verbatim>\<open>*ApplicationError\<close>.  A Go map in a status is an
  association list whose first binding of a key counts; nil is \<^const>\<open>None\<close>.
\<close>

section \<open>Decimal numbers\<close>

definition digit_char :: "nat \<Rightarrow> char" where
  "digit_char d = char_of (48 + d)"

definition char_digit :: "char \<Rightarrow> nat option" where
  "char_digit c = (if 48 \<le> (of_char c :: nat) \<and> of_char c \<le> (57 :: nat)
     then Some (of_char c - 48) else None)"

fun digits10 :: "nat \<Rightarrow> string" where
  "digits10 n = (if n < 10 then [digit_char n] else digits10 (n div 10) @ [digit_char (n mod 10)])"

declare digits10.simps [simp del]

definition Itoa :: "int \<Rightarrow> string" where
  "Itoa i = (if i < 0 then CHR ''-'' # digits10 (nat (- i)) else digits10 (nat i))"

fun parse_digits :: "nat \<Rightarrow> string \<Rightarrow> nat option" where
  "parse_digits acc [] = Some acc"
| "parse_digits acc (c # cs) =
     (case char_digit c of None \<Rightarrow> None | Some d \<Rightarrow> parse_digits (10 * acc + d) cs)"

definition Atoi :: "string \<Rightarrow> int option" where
  "Atoi s = (let neg = prefix ''-'' s;
                 body = (if prefix ''-'' s \<or> prefix ''+'' s then tl s else s)
     in if body = [] then None
        else (case parse_digits 0 body of
                None \<Rightarrow> None
              | Some n \<Rightarrow> (let v = (if neg then - int n else int n)
                  in if is_int64 v then Some v else None)))"

lemma char_digit_digit_char: "d < 10 \<Longrightarrow> char_digit (digit_char d) = Some d"
  by (simp add: char_digit_def digit_char_def)

lemma parse_digits_append:
  "parse_digits acc (xs @ ys) =
     (case parse_digits acc xs of None \<Rightarrow> None | Some a \<Rightarrow> parse_digits a ys)"
  by (induction xs arbitrary: acc) (auto split: option.splits)

lemma parse_digits10: "parse_digits 0 (digits10 n) = Some n"
proof (induction n rule: digits10.induct)
  case (1 n)
  show ?case
  proof (cases "n < 10")
    case True
    then show ?thesis by (simp add: digits10.simps [of n] char_digit_digit_char)
  next
    case False
    with "1.IH" have "parse_digits 0 (digits10 (n div 10)) = Some (n div 10)" by simp
    with False show ?thesis
      by (simp add: digits10.simps [of n] parse_digits_append char_digit_digit_char)
  qed
qed

lemma digits10_not_Nil: "digits10 n \<noteq> []"
  by (subst digits10.simps) simp

lemma digits10_hd: "\<exists>d cs. d < 10 \<and> digits10 n = digit_char d # cs"
proof (induction n rule: digits10.induct)
  case (1 n)
  show ?case
  proof (cases "n < 10")
    case True
    then show ?thesis by (auto simp: digits10.simps [of n])
  next
    case False
    with "1.IH" obtain d cs where "d < 10" and "digits10 (n div 10) = digit_char d # cs" by auto
    with False show ?thesis by (simp add: digits10.simps [of n]) blast
  qed
qed

lemma digit_char_not_sign: "d < 10 \<Longrightarrow> digit_char d \<noteq> CHR ''-'' \<and> digit_char d \<noteq> CHR ''+''"
  using char_digit_digit_char [of d] by (auto simp: char_digit_def)

lemma Atoi_Itoa: "is_int64 i \<Longrightarrow> Atoi (Itoa i) = Some i"
proof (cases "i < 0")
  case True
  assume "is_int64 i"
  with True show ?thesis
    by (simp add: Atoi_def Itoa_def parse_digits10 digits10_not_Nil)
next
  case False
  assume i: "is_int64 i"
  obtain d cs where "d < 10" and d: "digits10 (nat i) = digit_char d # cs"
    using digits10_hd by blast
  then have "\<not> prefix ''-'' (digits10 (nat i)) \<and> \<not> prefix ''+'' (digits10 (nat i))"
    using digit_char_not_sign by (auto simp: prefix_def)
  with False i show ?thesis
    by (simp add: Atoi_def Itoa_def parse_digits10 digits10_not_Nil)
qed

section \<open>The error values\<close>

record app_status =
  st_Code :: int
  st_Reason :: string
  st_Message :: string
  st_Metadata :: "(string \<times> string) list option"

datatype go_error =
    AppError app_status "go_error option"
  | WrapError string go_error
  | PlainError string

type_synonym app_error = "app_status \<times> go_error option"

fun to_error :: "app_error \<Rightarrow> go_error" where
  "to_error (st, c) = AppError st c"

text \<open>\<^verbatim>\<open>errors.As(err, &appErr)\<close>.\<close>

fun errors_As :: "go_error \<Rightarrow> app_error option" where
  "errors_As (AppError st c) = Some (st, c)"
| "errors_As (WrapError m e) = errors_As e"
| "errors_As (PlainError m) = None"

definition UnknownCode :: int where "UnknownCode = 500"
definition UnknownReason :: string where "UnknownReason = []"
definition UnknownMessage :: string where "UnknownMessage = ''internal error''"

definition wrap32 :: "int \<Rightarrow> int" where
  "wrap32 n = signed_take_bit 31 n"

definition New :: "int \<Rightarrow> string \<Rightarrow> string \<Rightarrow> app_error" where
  "New c reason msg =
     (\<lparr>st_Code = wrap32 c, st_Reason = reason, st_Message = msg, st_Metadata = None\<rparr>, None)"

definition Clone :: "app_error option \<Rightarrow> app_error option" where
  "Clone err = (case err of None \<Rightarrow> None
     | Some (st, c) \<Rightarrow>
         Some (\<lparr>st_Code = st_Code st, st_Reason = st_Reason st, st_Message = st_Message st,
                st_Metadata = st_Metadata st\<rparr>, c))"

definition WithCause :: "app_error \<Rightarrow> go_error option \<Rightarrow> app_error" where
  "WithCause e c = (case Clone (Some e) of None \<Rightarrow> e | Some (st, _) \<Rightarrow> (st, c))"

definition WithMetadata :: "app_error \<Rightarrow> (string \<times> string) list option \<Rightarrow> app_error" where
  "WithMetadata e md = (case Clone (Some e) of None \<Rightarrow> e
     | Some (st, c) \<Rightarrow> (case md of
           None \<Rightarrow> (st\<lparr>st_Metadata := None\<rparr>, c)
         | Some kvs \<Rightarrow> (st\<lparr>st_Metadata := Some kvs\<rparr>, c)))"

definition FromError :: "go_error option \<Rightarrow> app_error option" where
  "FromError err = (case err of None \<Rightarrow> None
     | Some e \<Rightarrow> (case errors_As e of
           Some se \<Rightarrow> Some se
         | None \<Rightarrow> Some (WithCause (New UnknownCode UnknownReason UnknownMessage) (Some e))))"

definition Code :: "go_error option \<Rightarrow> int" where
  "Code err = (case FromError err of None \<Rightarrow> 200 | Some (st, _) \<Rightarrow> st_Code st)"

definition Reason :: "go_error option \<Rightarrow> string" where
  "Reason err = (case FromError err of None \<Rightarrow> UnknownReason | Some (st, _) \<Rightarrow> st_Reason st)"

definition Message :: "go_error option \<Rightarrow> string" where
  "Message err = (case FromError err of None \<Rightarrow> [] | Some (st, _) \<Rightarrow> st_Message st)"

text \<open>The method \<^verbatim>\<open>(*ApplicationError).Is\<close>.\<close>

definition Is :: "app_error \<Rightarrow> go_error \<Rightarrow> bool" where
  "Is e err = (case errors_As err of
       Some se \<Rightarrow> st_Code (fst se) = st_Code (fst e) \<and> st_Reason (fst se) = st_Reason (fst e)
     | None \<Rightarrow> False)"

definition BadRequest :: "string \<Rightarrow> string \<Rightarrow> app_error" where
  "BadRequest = New 400"
definition TooManyRequests :: "string \<Rightarrow> string \<Rightarrow> app_error" where
  "TooManyRequests = New 429"
definition Unauthorized :: "string \<Rightarrow> string \<Rightarrow> app_error" where
  "Unauthorized = New 401"
definition Forbidden :: "string \<Rightarrow> string \<Rightarrow> app_error" where
  "Forbidden = New 403"
definition NotFound :: "string \<Rightarrow> string \<Rightarrow> app_error" where
  "NotFound = New 404"
definition Conflict :: "string \<Rightarrow> string \<Rightarrow> app_error" where
  "Conflict = New 409"
definition InternalServer :: "string \<Rightarrow> string \<Rightarrow> app_error" where
  "InternalServer = New 500"
definition ServiceUnavailable :: "string \<Rightarrow> string \<Rightarrow> app_error" where
  "ServiceUnavailable = New 503"
definition GatewayTimeout :: "string \<Rightarrow> string \<Rightarrow> app_error" where
  "GatewayTimeout = New 504"
definition ClientClosed :: "string \<Rightarrow> string \<Rightarrow> app_error" where
  "ClientClosed = New 499"

definition IsConflict :: "go_error option \<Rightarrow> bool" where
  "IsConflict err \<longleftrightarrow> Code err = 409"
definition IsBadRequest :: "go_error option \<Rightarrow> bool" where
  "IsBadRequest err \<longleftrightarrow> Code err = 400"
definition IsNotFound :: "go_error option \<Rightarrow> bool" where
  "IsNotFound err \<longleftrightarrow> Code err = 404"
definition IsServiceUnavailable :: "go_error option \<Rightarrow> bool" where
  "IsServiceUnavailable err \<longleftrightarrow> Code err = 503"

definition ToHTTP :: "go_error option \<Rightarrow> int \<times> app_status" where
  "ToHTTP err = (case FromError err of
       None \<Rightarrow> (200, \<lparr>st_Code = 200, st_Reason = [], st_Message = [], st_Metadata = None\<rparr>)
     | Some (st, _) \<Rightarrow>
         (st_Code st, \<lparr>st_Code = st_Code st, st_Reason = st_Reason st, st_Message = st_Message st,
                       st_Metadata = st_Metadata st\<rparr>))"

lemmas app_error_defs =
  New_def WithCause_def WithMetadata_def Clone_def FromError_def Code_def Reason_def Message_def
  Is_def wrap32_def UnknownCode_def UnknownReason_def UnknownMessage_def

lemmas constructor_defs =
  BadRequest_def TooManyRequests_def Unauthorized_def Forbidden_def NotFound_def Conflict_def
  InternalServer_def ServiceUnavailable_def GatewayTimeout_def ClientClosed_def

section \<open>Laws\<close>

lemma errors_As_to_error [simp]: "errors_As (to_error e) = Some e"
  by (cases e) simp

lemma Reason_to_error [simp]: "Reason (Some (to_error e)) = st_Reason (fst e)"
  by (cases e) (simp add: app_error_defs)

lemma Code_to_error [simp]: "Code (Some (to_error e)) = st_Code (fst e)"
  by (cases e) (simp add: app_error_defs)

lemma status_With [simp]:
  "st_Code (fst (WithCause e c)) = st_Code (fst e)"
  "st_Reason (fst (WithCause e c)) = st_Reason (fst e)"
  "st_Metadata (fst (WithCause e c)) = st_Metadata (fst e)"
  "st_Code (fst (WithMetadata e md)) = st_Code (fst e)"
  "st_Reason (fst (WithMetadata e md)) = st_Reason (fst e)"
  "st_Metadata (fst (WithMetadata e md)) = md"
  by (cases e; simp add: app_error_defs split: option.splits)+

text \<open>
  An HTTP response never loses the class of an error: decorating an application error with a
  cause or with metadata, and wrapping it any number of times, keeps what \<^const>\<open>Code\<close>,
  \<^const>\<open>Reason\<close> and \<^const>\<open>ToHTTP\<close> read, and \<^const>\<open>Is\<close> still identifies it.
\<close>

fun wrap_chain :: "string list \<Rightarrow> go_error \<Rightarrow> go_error" where
  "wrap_chain [] e = e"
| "wrap_chain (m # ms) e = WrapError m (wrap_chain ms e)"

lemma errors_As_wrap_chain [simp]: "errors_As (wrap_chain ms e) = errors_As e"
  by (induction ms) auto

end
