(* ===== verification/Idempotency_Store.thy ===== *)
theory Idempotency_Store
  imports App_Errors
begin

text \<open>
  The table of idempotency records and the repository that works on it
  (\<^verbatim>\<open>backend/internal/service/idempotency.go\<close>: the record, the statuses and the interface
  \<^verbatim>\<open>IdempotencyRepository\<close>; \<^verbatim>\<open>backend/internal/repository/idempotency_repo.go\<close>: the SQL).

  The table is a list of rows with the identifier the next insertion gets; each repository
  method is one SQL statement, hence one atomic step on the table.  A call may fail: the
  database may refuse the statement or lose the answer of one that it has carried out, so a
  fault says on which side of the effect it fell.  \<open>dbnow\<close> is the database's \<^verbatim>\<open>NOW()\<close>.

  The locale \<open>idem_store\<close> states what the callers rely on, over the view \<open>row\<close> of the table as
  a map from identifiers to rows; the interpretation at the end proves it for the SQL.
\<close>

section \<open>Records and statuses\<close>

definition IdempotencyStatusProcessing :: string where
  "IdempotencyStatusProcessing = ''processing''"
definition IdempotencyStatusSucceeded :: string where
  "IdempotencyStatusSucceeded = ''succeeded''"
definition IdempotencyStatusFailedRetryable :: string where
  "IdempotencyStatusFailedRetryable = ''failed_retryable''"

lemmas status_defs =
  IdempotencyStatusProcessing_def IdempotencyStatusSucceeded_def
  IdempotencyStatusFailedRetryable_def

record idem_record =
  RecID :: int
  Scope :: string
  IdempotencyKeyHash :: string
  RequestFingerprint :: string
  Status :: string
  ResponseStatus :: "int option"
  ResponseBody :: "string option"
  ErrorReason :: "string option"
  LockedUntil :: "go_time option"
  ExpiresAt :: go_time
  CreatedAt :: go_time
  UpdatedAt :: go_time

record idem_db =
  rows :: "idem_record list"
  next_id :: int

definition empty_db :: idem_db where
  "empty_db = \<lparr>rows = [], next_id = 1\<rparr>"

datatype db_fault = NoFault | FaultBefore string | FaultAfter string

text \<open>One statement: its answer and the table, or an error before or after its effect.\<close>

definition sql_call ::
    "db_fault \<Rightarrow> (idem_db \<Rightarrow> 'a \<times> idem_db) \<Rightarrow> idem_db \<Rightarrow> (go_error, 'a) result \<times> idem_db" where
  "sql_call f stmt db = (case f of
       NoFault \<Rightarrow> (case stmt db of (a, db') \<Rightarrow> (Inr a, db'))
     | FaultBefore e \<Rightarrow> (Inl (PlainError e), db)
     | FaultAfter e \<Rightarrow> (Inl (PlainError e), snd (stmt db)))"

section \<open>The statements\<close>

definition row_of :: "idem_db \<Rightarrow> int \<Rightarrow> idem_record option" where
  "row_of db i = find (\<lambda>r. RecID r = i) (rows db)"

definition find_key :: "idem_db \<Rightarrow> string \<Rightarrow> string \<Rightarrow> idem_record option" where
  "find_key db scope kh =
     find (\<lambda>r. Scope r = scope \<and> IdempotencyKeyHash r = kh) (rows db)"

text \<open>\<^verbatim>\<open>UPDATE ... WHERE id = i AND guard\<close>, with the number of affected rows.\<close>

definition update_where ::
    "int \<Rightarrow> (idem_record \<Rightarrow> bool) \<Rightarrow> (idem_record \<Rightarrow> idem_record) \<Rightarrow> idem_db \<Rightarrow> nat \<times> idem_db" where
  "update_where i guard f db =
     (length (filter (\<lambda>r. RecID r = i \<and> guard r) (rows db)),
      db\<lparr>rows := map (\<lambda>r. if RecID r = i \<and> guard r then f r else r) (rows db)\<rparr>)"

text \<open>
  \<^verbatim>\<open>CreateProcessing\<close>: \<^verbatim>\<open>INSERT ... ON CONFLICT DO NOTHING RETURNING\<close>.  The method fills in the
  caller's record, which is returned.
\<close>

definition insert_record ::
    "go_time \<Rightarrow> idem_record \<Rightarrow> idem_db \<Rightarrow> (bool \<times> idem_record) \<times> idem_db" where
  "insert_record dbnow r db =
     (case find_key db (Scope r) (IdempotencyKeyHash r) of
        Some _ \<Rightarrow> ((False, r), db)
      | None \<Rightarrow>
          ((True, r\<lparr>RecID := next_id db, CreatedAt := dbnow, UpdatedAt := dbnow\<rparr>),
           \<lparr>rows = rows db @ [r\<lparr>RecID := next_id db, ResponseStatus := None, ResponseBody := None,
              ErrorReason := None, CreatedAt := dbnow, UpdatedAt := dbnow\<rparr>],
            next_id = next_id db + 1\<rparr>))"

definition CreateProcessing ::
    "db_fault \<Rightarrow> go_time \<Rightarrow> idem_record option \<Rightarrow> idem_db
       \<Rightarrow> (go_error, bool \<times> idem_record option) result \<times> idem_db" where
  "CreateProcessing f dbnow rec db = (case rec of
       None \<Rightarrow> (Inr (False, None), db)
     | Some r \<Rightarrow> sql_call f (\<lambda>d. case insert_record dbnow r d of ((b, r'), d') \<Rightarrow> ((b, Some r'), d')) db)"

definition GetByScopeAndKeyHash ::
    "db_fault \<Rightarrow> string \<Rightarrow> string \<Rightarrow> idem_db \<Rightarrow> (go_error, idem_record option) result \<times> idem_db" where
  "GetByScopeAndKeyHash f scope kh db = sql_call f (\<lambda>d. (find_key d scope kh, d)) db"

text \<open>The lock column is NULL or has run out.\<close>

definition lock_free :: "go_time \<Rightarrow> idem_record \<Rightarrow> bool" where
  "lock_free now r = (case LockedUntil r of None \<Rightarrow> True | Some l \<Rightarrow> l \<le> now)"

definition reclaim_row ::
    "go_time \<Rightarrow> int \<Rightarrow> string \<Rightarrow> go_time \<Rightarrow> go_time \<Rightarrow> go_time \<Rightarrow> idem_db \<Rightarrow> bool \<times> idem_db" where
  "reclaim_row dbnow i fromStatus now newLockedUntil newExpiresAt db =
     (case update_where i
        (\<lambda>r. Status r = fromStatus \<and> lock_free now r)
        (\<lambda>r. r\<lparr>Status := IdempotencyStatusProcessing, LockedUntil := Some newLockedUntil,
               ErrorReason := None, UpdatedAt := dbnow, ExpiresAt := newExpiresAt\<rparr>) db
      of (n, db') \<Rightarrow> (0 < n, db'))"

definition TryReclaim ::
    "db_fault \<Rightarrow> go_time \<Rightarrow> int \<Rightarrow> string \<Rightarrow> go_time \<Rightarrow> go_time \<Rightarrow> go_time \<Rightarrow> idem_db
       \<Rightarrow> (go_error, bool) result \<times> idem_db" where
  "TryReclaim f dbnow i fromStatus now newLockedUntil newExpiresAt db =
     sql_call f (reclaim_row dbnow i fromStatus now newLockedUntil newExpiresAt) db"

definition extend_row ::
    "go_time \<Rightarrow> int \<Rightarrow> string \<Rightarrow> go_time \<Rightarrow> go_time \<Rightarrow> idem_db \<Rightarrow> bool \<times> idem_db" where
  "extend_row dbnow i fingerprint newLockedUntil newExpiresAt db =
     (case update_where i
        (\<lambda>r. Status r = IdempotencyStatusProcessing \<and> RequestFingerprint r = fingerprint)
        (\<lambda>r. r\<lparr>LockedUntil := Some newLockedUntil, ExpiresAt := newExpiresAt, UpdatedAt := dbnow\<rparr>) db
      of (n, db') \<Rightarrow> (0 < n, db'))"

definition ExtendProcessingLock ::
    "db_fault \<Rightarrow> go_time \<Rightarrow> int \<Rightarrow> string \<Rightarrow> go_time \<Rightarrow> go_time \<Rightarrow> idem_db
       \<Rightarrow> (go_error, bool) result \<times> idem_db" where
  "ExtendProcessingLock f dbnow i fingerprint newLockedUntil newExpiresAt db =
     sql_call f (extend_row dbnow i fingerprint newLockedUntil newExpiresAt) db"

definition succeed_row ::
    "go_time \<Rightarrow> int \<Rightarrow> int \<Rightarrow> string \<Rightarrow> go_time \<Rightarrow> idem_db \<Rightarrow> unit \<times> idem_db" where
  "succeed_row dbnow i responseStatus responseBody expiresAt db =
     ((), snd (update_where i (\<lambda>r. True)
        (\<lambda>r. r\<lparr>Status := IdempotencyStatusSucceeded, ResponseStatus := Some responseStatus,
               ResponseBody := Some responseBody, ErrorReason := None, LockedUntil := None,
               ExpiresAt := expiresAt, UpdatedAt := dbnow\<rparr>) db))"

definition MarkSucceeded ::
    "db_fault \<Rightarrow> go_time \<Rightarrow> int \<Rightarrow> int \<Rightarrow> string \<Rightarrow> go_time \<Rightarrow> idem_db
       \<Rightarrow> (go_error, unit) result \<times> idem_db" where
  "MarkSucceeded f dbnow i responseStatus responseBody expiresAt db =
     sql_call f (succeed_row dbnow i responseStatus responseBody expiresAt) db"

definition fail_row ::
    "go_time \<Rightarrow> int \<Rightarrow> string \<Rightarrow> go_time \<Rightarrow> go_time \<Rightarrow> idem_db \<Rightarrow> unit \<times> idem_db" where
  "fail_row dbnow i errorReason lockedUntil expiresAt db =
     ((), snd (update_where i (\<lambda>r. True)
        (\<lambda>r. r\<lparr>Status := IdempotencyStatusFailedRetryable, ErrorReason := Some errorReason,
               LockedUntil := Some lockedUntil, ExpiresAt := expiresAt, UpdatedAt := dbnow\<rparr>) db))"

definition MarkFailedRetryable ::
    "db_fault \<Rightarrow> go_time \<Rightarrow> int \<Rightarrow> string \<Rightarrow> go_time \<Rightarrow> go_time \<Rightarrow> idem_db
       \<Rightarrow> (go_error, unit) result \<times> idem_db" where
  "MarkFailedRetryable f dbnow i errorReason lockedUntil expiresAt db =
     sql_call f (fail_row dbnow i errorReason lockedUntil expiresAt) db"

text \<open>\<^verbatim>\<open>DeleteExpired\<close>: at most \<open>limit\<close> expired rows, the oldest expiry first; 500 when the limit is not positive.\<close>

definition delete_expired_rows :: "go_time \<Rightarrow> int \<Rightarrow> idem_db \<Rightarrow> int \<times> idem_db" where
  "delete_expired_rows now limit db =
     (let lim = (if limit \<le> 0 then 500 else limit);
          victims = map RecID (take (nat lim)
            (sort_key ExpiresAt (filter (\<lambda>r. ExpiresAt r \<le> now) (rows db))))
      in (int (length (filter (\<lambda>r. RecID r \<in> set victims) (rows db))),
          db\<lparr>rows := filter (\<lambda>r. RecID r \<notin> set victims) (rows db)\<rparr>))"

definition DeleteExpired ::
    "db_fault \<Rightarrow> go_time \<Rightarrow> int \<Rightarrow> idem_db \<Rightarrow> (go_error, int) result \<times> idem_db" where
  "DeleteExpired f now limit db = sql_call f (delete_expired_rows now limit) db"

section \<open>The invariant of the table\<close>

text \<open>Two versions of a row belong to the same request: same key, same fingerprint.\<close>

definition same_request :: "idem_record \<Rightarrow> idem_record \<Rightarrow> bool" where
  "same_request r r' \<longleftrightarrow> Scope r' = Scope r \<and> IdempotencyKeyHash r' = IdempotencyKeyHash r
     \<and> RequestFingerprint r' = RequestFingerprint r"

text \<open>
  Identifiers and keys are unique and the next identifier is fresh; the columns of a row agree
  with its status: a record in processing or in retry backoff carries its lock, a finished one
  has its answer and no lock.
\<close>

definition row_ok :: "idem_record \<Rightarrow> bool" where
  "row_ok r \<longleftrightarrow>
     (Status r = IdempotencyStatusProcessing \<and> LockedUntil r \<noteq> None \<and> ErrorReason r = None)
   \<or> (Status r = IdempotencyStatusSucceeded \<and> LockedUntil r = None \<and> ErrorReason r = None
        \<and> ResponseBody r \<noteq> None \<and> ResponseStatus r \<noteq> None)
   \<or> (Status r = IdempotencyStatusFailedRetryable \<and> LockedUntil r \<noteq> None \<and> ErrorReason r \<noteq> None)"

definition wf_db :: "idem_db \<Rightarrow> bool" where
  "wf_db db \<longleftrightarrow> distinct (map RecID (rows db))
     \<and> distinct (map (\<lambda>r. (Scope r, IdempotencyKeyHash r)) (rows db))
     \<and> list_all (\<lambda>r. 0 < RecID r \<and> RecID r < next_id db) (rows db)
     \<and> 0 < next_id db
     \<and> list_all row_ok (rows db)"

lemma wf_empty_db: "wf_db empty_db"
  by (simp add: wf_db_def empty_db_def)

section \<open>The statements on the map of rows\<close>

lemma wf_dbD:
  assumes "wf_db db"
  shows "distinct (map RecID (rows db))"
    and "distinct (map (\<lambda>r. (Scope r, IdempotencyKeyHash r)) (rows db))"
    and "\<And>r. r \<in> set (rows db) \<Longrightarrow> 0 < RecID r \<and> RecID r < next_id db \<and> row_ok r"
    and "0 < next_id db"
  using assms by (auto simp: wf_db_def list_all_iff)

lemma row_of_iff: "wf_db db \<Longrightarrow> row_of db i = Some r \<longleftrightarrow> r \<in> set (rows db) \<and> RecID r = i"
  unfolding row_of_def by (rule find_distinct_iff) (rule wf_dbD)

lemma find_key_iff:
  assumes "wf_db db"
  shows "find_key db s k = Some r \<longleftrightarrow>
    r \<in> set (rows db) \<and> Scope r = s \<and> IdempotencyKeyHash r = k"
proof -
  have "find_key db s k = find (\<lambda>r. (Scope r, IdempotencyKeyHash r) = (s, k)) (rows db)"
    by (simp add: find_key_def)
  with find_distinct_iff [OF wf_dbD(2) [OF assms], of "(s, k)" r] show ?thesis by simp
qed

lemma find_key_row_of:
  "wf_db db \<Longrightarrow> find_key db s k = Some r \<longleftrightarrow>
     row_of db (RecID r) = Some r \<and> Scope r = s \<and> IdempotencyKeyHash r = k"
  by (simp add: find_key_iff row_of_iff)

text \<open>An update of a row by a function that keeps its identity, on the map of rows.\<close>

definition keeps_identity :: "(idem_record \<Rightarrow> idem_record) \<Rightarrow> bool" where
  "keeps_identity f \<longleftrightarrow> (\<forall>r. RecID (f r) = RecID r \<and> Scope (f r) = Scope r
     \<and> IdempotencyKeyHash (f r) = IdempotencyKeyHash r)"

lemma keeps_identityD:
  "keeps_identity f \<Longrightarrow> RecID (f r) = RecID r"
  "keeps_identity f \<Longrightarrow> Scope (f r) = Scope r"
  "keeps_identity f \<Longrightarrow> IdempotencyKeyHash (f r) = IdempotencyKeyHash r"
  by (simp_all add: keeps_identity_def)

lemma map_keeps_identity:
  assumes "keeps_identity f"
  shows "map RecID (map (\<lambda>r. if P r then f r else r) rs) = map RecID rs"
    and "map (\<lambda>r. (Scope r, IdempotencyKeyHash r)) (map (\<lambda>r. if P r then f r else r) rs)
       = map (\<lambda>r. (Scope r, IdempotencyKeyHash r)) rs"
  using assms by (auto simp: keeps_identityD)

lemma update_where_wf:
  assumes wf: "wf_db db" and f: "keeps_identity f"
    and ok: "\<And>r. row_ok r \<Longrightarrow> guard r \<Longrightarrow> row_ok (f r)"
  shows "wf_db (snd (update_where i guard f db))"
proof -
  have "list_all row_ok (rows db)" and "list_all (\<lambda>r. 0 < RecID r \<and> RecID r < next_id db) (rows db)"
    using wf by (simp_all add: wf_db_def)
  then show ?thesis
    using wf_dbD(1,2,4) [OF wf] map_keeps_identity [OF f, of "\<lambda>r. RecID r = i \<and> guard r" "rows db"] f ok
    by (auto simp: wf_db_def update_where_def list_all_iff keeps_identityD simp del: map_map)
qed

lemma update_where_row:
  assumes wf: "wf_db db" and f: "keeps_identity f"
  shows "row_of (snd (update_where i guard f db)) j =
    map_option (\<lambda>r. if j = i \<and> guard r then f r else r) (row_of db j)"
proof -
  let ?g = "\<lambda>r. if RecID r = i \<and> guard r then f r else r"
  have "find (\<lambda>r. RecID r = j) (map ?g rs) =
      map_option (\<lambda>r. if j = i \<and> guard r then f r else r) (find (\<lambda>r. RecID r = j) rs)" for rs
    using f by (induction rs) (auto simp: keeps_identityD)
  then show ?thesis by (simp add: update_where_def row_of_def)
qed

lemma update_where_count:
  assumes wf: "wf_db db"
  shows "0 < fst (update_where i guard f db) \<longleftrightarrow> (\<exists>r. row_of db i = Some r \<and> guard r)"
  using row_of_iff [OF wf] by (auto simp: update_where_def filter_empty_conv)

lemma insert_record_fresh:
  assumes wf: "wf_db db" and free: "find_key db (Scope r) (IdempotencyKeyHash r) = None"
  shows "row_of db (next_id db) = None"
    and "row_of (snd (insert_record now r db)) = (row_of db)(next_id db \<mapsto>
          r\<lparr>RecID := next_id db, ResponseStatus := None, ResponseBody := None,
             ErrorReason := None, CreatedAt := now, UpdatedAt := now\<rparr>)"
    and "fst (insert_record now r db) =
          (True, r\<lparr>RecID := next_id db, CreatedAt := now, UpdatedAt := now\<rparr>)"
proof -
  have old: "\<And>x. x \<in> set (rows db) \<Longrightarrow> RecID x \<noteq> next_id db" using wf_dbD(3) [OF wf] by fastforce
  then show "row_of db (next_id db) = None" using row_of_iff [OF wf, of "next_id db"]
    by (cases "row_of db (next_id db)") auto
  have app: "find P (xs @ [x]) = (case find P xs of None \<Rightarrow> (if P x then Some x else None) | s \<Rightarrow> s)"
    for P :: "idem_record \<Rightarrow> bool" and xs x
    by (induction xs) auto
  show "row_of (snd (insert_record now r db)) = (row_of db)(next_id db \<mapsto>
          r\<lparr>RecID := next_id db, ResponseStatus := None, ResponseBody := None,
             ErrorReason := None, CreatedAt := now, UpdatedAt := now\<rparr>)"
    using free \<open>row_of db (next_id db) = None\<close>
    by (auto simp: insert_record_def row_of_def app fun_eq_iff split: option.splits)
  show "fst (insert_record now r db) =
          (True, r\<lparr>RecID := next_id db, CreatedAt := now, UpdatedAt := now\<rparr>)"
    using free by (simp add: insert_record_def)
qed

lemma insert_record_wf:
  assumes wf: "wf_db db" and r: "Status r = IdempotencyStatusProcessing" "LockedUntil r \<noteq> None"
  shows "wf_db (snd (insert_record now r db))"
proof (cases "find_key db (Scope r) (IdempotencyKeyHash r)")
  case None
  have "row_ok (r\<lparr>RecID := next_id db, ResponseStatus := None, ResponseBody := None,
      ErrorReason := None, CreatedAt := now, UpdatedAt := now\<rparr>)"
    using r by (simp add: row_ok_def)
  moreover have "\<And>x. x \<in> set (rows db) \<Longrightarrow>
      \<not> (Scope x = Scope r \<and> IdempotencyKeyHash x = IdempotencyKeyHash r)"
    using None find_key_iff [OF wf] by (metis option.distinct(1))
  ultimately show ?thesis using None wf
    by (fastforce simp: insert_record_def wf_db_def list_all_iff)
next
  case (Some x)
  with wf show ?thesis by (simp add: insert_record_def)
qed

lemma delete_expired_row:
  assumes wf: "wf_db db"
  shows "row_of (snd (delete_expired_rows now limit db)) j = Some r \<Longrightarrow> row_of db j = Some r"
    and "row_of db j = Some r \<Longrightarrow> now < ExpiresAt r \<Longrightarrow>
      row_of (snd (delete_expired_rows now limit db)) j = Some r"
    and "wf_db (snd (delete_expired_rows now limit db))"
proof -
  define lim where "lim = nat (if limit \<le> 0 then 500 else limit)"
  define ex where "ex = filter (\<lambda>r. ExpiresAt r \<le> now) (rows db)"
  define victims where "victims = set (map RecID (take lim (sort_key ExpiresAt ex)))"
  have db': "snd (delete_expired_rows now limit db) =
      db\<lparr>rows := filter (\<lambda>r. RecID r \<notin> victims) (rows db)\<rparr>"
    by (simp add: delete_expired_rows_def Let_def lim_def ex_def victims_def)
  show wf': "wf_db (snd (delete_expired_rows now limit db))"
    unfolding db' using wf
    by (auto simp: wf_db_def list_all_iff distinct_map_filter)
  have sub: "x \<in> set (take lim (sort_key ExpiresAt ex)) \<Longrightarrow> x \<in> set ex" for x
    by (metis in_set_takeD set_sort)
  have mem: "row_of (snd (delete_expired_rows now limit db)) j = Some x \<longleftrightarrow>
      row_of db j = Some x \<and> j \<notin> victims" for x
    using row_of_iff [OF wf'] row_of_iff [OF wf] by (auto simp: db')
  then show "row_of (snd (delete_expired_rows now limit db)) j = Some r \<Longrightarrow> row_of db j = Some r"
    by simp
  assume r: "row_of db j = Some r" and "now < ExpiresAt r"
  have "j \<notin> victims"
  proof
    assume "j \<in> victims"
    then obtain x where "x \<in> set ex" and "RecID x = j" unfolding victims_def using sub by auto
    then have "row_of db j = Some x" using row_of_iff [OF wf] by (simp add: ex_def)
    with r \<open>x \<in> set ex\<close> \<open>now < ExpiresAt r\<close> show False by (simp add: ex_def)
  qed
  with r mem show "row_of (snd (delete_expired_rows now limit db)) j = Some r" by simp
qed

section \<open>The interface the callers rely on\<close>

locale idem_store =
  fixes wf :: "'db \<Rightarrow> bool"
    and row :: "'db \<Rightarrow> int \<Rightarrow> idem_record option"
    and lookup :: "'db \<Rightarrow> string \<Rightarrow> string \<Rightarrow> idem_record option"
    and insert_new :: "go_time \<Rightarrow> idem_record \<Rightarrow> 'db \<Rightarrow> (bool \<times> idem_record) \<times> 'db"
    and reclaim :: "go_time \<Rightarrow> int \<Rightarrow> string \<Rightarrow> go_time \<Rightarrow> go_time \<Rightarrow> go_time \<Rightarrow> 'db \<Rightarrow> bool \<times> 'db"
    and extend :: "go_time \<Rightarrow> int \<Rightarrow> string \<Rightarrow> go_time \<Rightarrow> go_time \<Rightarrow> 'db \<Rightarrow> bool \<times> 'db"
    and succeed :: "go_time \<Rightarrow> int \<Rightarrow> int \<Rightarrow> string \<Rightarrow> go_time \<Rightarrow> 'db \<Rightarrow> unit \<times> 'db"
    and fail :: "go_time \<Rightarrow> int \<Rightarrow> string \<Rightarrow> go_time \<Rightarrow> go_time \<Rightarrow> 'db \<Rightarrow> unit \<times> 'db"
    and cleanup :: "go_time \<Rightarrow> int \<Rightarrow> 'db \<Rightarrow> int \<times> 'db"
  assumes row_ident: "wf db \<Longrightarrow> row db i = Some r \<Longrightarrow> RecID r = i \<and> 0 < i \<and> row_ok r"
    and lookup_row: "wf db \<Longrightarrow> lookup db s k = Some r \<longleftrightarrow>
          row db (RecID r) = Some r \<and> Scope r = s \<and> IdempotencyKeyHash r = k"
    and insert_taken: "wf db \<Longrightarrow> lookup db (Scope r) (IdempotencyKeyHash r) = Some x \<Longrightarrow>
          insert_new n r db = ((False, r), db)"
    and insert_free: "wf db \<Longrightarrow> lookup db (Scope r) (IdempotencyKeyHash r) = None \<Longrightarrow>
          \<exists>i. 0 < i \<and> row db i = None
            \<and> fst (insert_new n r db) = (True, r\<lparr>RecID := i, CreatedAt := n, UpdatedAt := n\<rparr>)
            \<and> row (snd (insert_new n r db)) = (row db)(i \<mapsto>
                r\<lparr>RecID := i, ResponseStatus := None, ResponseBody := None,
                   ErrorReason := None, CreatedAt := n, UpdatedAt := n\<rparr>)"
    and insert_wf: "wf db \<Longrightarrow> Status r = IdempotencyStatusProcessing \<Longrightarrow> LockedUntil r \<noteq> None \<Longrightarrow>
          wf (snd (insert_new n r db))"
    and reclaim_taken: "wf db \<Longrightarrow> fst (reclaim n i s t l e db) \<longleftrightarrow>
          (\<exists>r. row db i = Some r \<and> Status r = s \<and> lock_free t r)"
    and reclaim_rows: "wf db \<Longrightarrow> row (snd (reclaim n i s t l e db)) j =
          map_option (\<lambda>r. if j = i \<and> Status r = s \<and> lock_free t r
            then r\<lparr>Status := IdempotencyStatusProcessing, LockedUntil := Some l,
                    ErrorReason := None, UpdatedAt := n, ExpiresAt := e\<rparr> else r) (row db j)"
    and reclaim_wf: "wf db \<Longrightarrow> wf (snd (reclaim n i s t l e db))"
    and extend_taken: "wf db \<Longrightarrow> fst (extend n i fp l e db) \<longleftrightarrow>
          (\<exists>r. row db i = Some r \<and> Status r = IdempotencyStatusProcessing \<and> RequestFingerprint r = fp)"
    and extend_rows: "wf db \<Longrightarrow> row (snd (extend n i fp l e db)) j =
          map_option (\<lambda>r. if j = i \<and> Status r = IdempotencyStatusProcessing \<and> RequestFingerprint r = fp
            then r\<lparr>LockedUntil := Some l, ExpiresAt := e, UpdatedAt := n\<rparr> else r) (row db j)"
    and extend_wf: "wf db \<Longrightarrow> wf (snd (extend n i fp l e db))"
    and succeed_rows: "wf db \<Longrightarrow> row (snd (succeed n i st b e db)) j =
          map_option (\<lambda>r. if j = i
            then r\<lparr>Status := IdempotencyStatusSucceeded, ResponseStatus := Some st,
                    ResponseBody := Some b, ErrorReason := None, LockedUntil := None,
                    ExpiresAt := e, UpdatedAt := n\<rparr> else r) (row db j)"
    and succeed_wf: "wf db \<Longrightarrow> wf (snd (succeed n i st b e db))"
    and fail_rows: "wf db \<Longrightarrow> row (snd (fail n i why l e db)) j =
          map_option (\<lambda>r. if j = i
            then r\<lparr>Status := IdempotencyStatusFailedRetryable, ErrorReason := Some why,
                    LockedUntil := Some l, ExpiresAt := e, UpdatedAt := n\<rparr> else r) (row db j)"
    and fail_wf: "wf db \<Longrightarrow> wf (snd (fail n i why l e db))"
    and cleanup_keeps: "wf db \<Longrightarrow> row db j = Some r \<Longrightarrow> t < ExpiresAt r \<Longrightarrow>
          row (snd (cleanup t lim db)) j = Some r"
    and cleanup_subset: "wf db \<Longrightarrow> row (snd (cleanup t lim db)) j = Some r \<Longrightarrow> row db j = Some r"
    and cleanup_wf: "wf db \<Longrightarrow> wf (snd (cleanup t lim db))"
begin

lemmas store_rows = reclaim_rows extend_rows succeed_rows fail_rows
lemmas store_wf = insert_wf reclaim_wf extend_wf succeed_wf fail_wf cleanup_wf

text \<open>A reclaimed record is the caller's: in processing, locked, with its fingerprint untouched.\<close>

lemma reclaim_claims:
  assumes "wf db" and "fst (reclaim n i s t l e db)"
  shows "\<exists>r r'. row db i = Some r \<and> row (snd (reclaim n i s t l e db)) i = Some r'
    \<and> Status r' = IdempotencyStatusProcessing \<and> LockedUntil r' = Some l \<and> ExpiresAt r' = e
    \<and> same_request r r'"
proof -
  from assms reclaim_taken [of db n i s t l e] obtain r
    where r: "row db i = Some r" "Status r = s" "lock_free t r" by auto
  with reclaim_rows [OF assms(1), of n i s t l e i]
  have "row (snd (reclaim n i s t l e db)) i = Some (r\<lparr>Status := IdempotencyStatusProcessing,
      LockedUntil := Some l, ErrorReason := None, UpdatedAt := n, ExpiresAt := e\<rparr>)" by simp
  with r(1) show ?thesis by (intro exI conjI) (assumption, assumption, simp_all add: same_request_def)
qed

text \<open>Until the new lock runs out, nobody can reclaim the record again.\<close>

lemma reclaim_excludes:
  assumes "wf db" and "fst (reclaim n i s t l e db)" and "t' < l"
  shows "\<not> fst (reclaim n' i s' t' l' e' (snd (reclaim n i s t l e db)))"
  using assms reclaim_claims [of db n i s t l e]
    reclaim_taken [OF reclaim_wf [of db n i s t l e], of n' i s' t' l' e']
  by (auto simp: lock_free_def)

text \<open>No statement but an insertion ever sets the key or the fingerprint of a row.\<close>

lemma request_stable:
  assumes "wf db" and "row db j = Some r"
  shows "\<exists>r'. row (snd (reclaim n i s t l e db)) j = Some r' \<and> same_request r r'"
    and "\<exists>r'. row (snd (extend n i fp l e db)) j = Some r' \<and> same_request r r'"
    and "\<exists>r'. row (snd (succeed n i st b e db)) j = Some r' \<and> same_request r r'"
    and "\<exists>r'. row (snd (fail n i why l e db)) j = Some r' \<and> same_request r r'"
  using assms by (auto simp: store_rows same_request_def)

lemma lookup_fresh_insert:
  assumes "wf db" and "Status r = IdempotencyStatusProcessing" and "LockedUntil r \<noteq> None"
    and "fst (fst (insert_new n r db))"
  shows "\<exists>i x. 0 < i \<and> snd (fst (insert_new n r db)) = r\<lparr>RecID := i, CreatedAt := n, UpdatedAt := n\<rparr>
    \<and> row (snd (insert_new n r db)) i = Some x \<and> same_request r x
    \<and> Status x = Status r \<and> LockedUntil x = LockedUntil r \<and> ExpiresAt x = ExpiresAt r
    \<and> lookup (snd (insert_new n r db)) (Scope r) (IdempotencyKeyHash r) = Some x"
proof -
  have free: "lookup db (Scope r) (IdempotencyKeyHash r) = None"
  proof (rule ccontr)
    assume "lookup db (Scope r) (IdempotencyKeyHash r) \<noteq> None"
    then obtain x where "lookup db (Scope r) (IdempotencyKeyHash r) = Some x" by blast
    from insert_taken [OF assms(1) this, of n] assms(4) show False by simp
  qed
  from insert_free [OF assms(1) this, of n] obtain i where i: "0 < i"
    "fst (insert_new n r db) = (True, r\<lparr>RecID := i, CreatedAt := n, UpdatedAt := n\<rparr>)"
    "row (snd (insert_new n r db)) = (row db)(i \<mapsto>
       r\<lparr>RecID := i, ResponseStatus := None, ResponseBody := None,
          ErrorReason := None, CreatedAt := n, UpdatedAt := n\<rparr>)" by blast
  then show ?thesis
    using lookup_row [OF insert_wf [OF assms(1-3), of n], of "Scope r" "IdempotencyKeyHash r"]
    by (auto intro!: exI [of _ i] simp: same_request_def)
qed

end

text \<open>The SQL repository provides the interface.\<close>

lemmas statement_defs = reclaim_row_def extend_row_def succeed_row_def fail_row_def

lemma keeps_identity_statements:
  "keeps_identity (\<lambda>r. r\<lparr>Status := a, LockedUntil := b, ErrorReason := c, UpdatedAt := d, ExpiresAt := e\<rparr>)"
  "keeps_identity (\<lambda>r. r\<lparr>LockedUntil := b, ExpiresAt := e, UpdatedAt := d\<rparr>)"
  "keeps_identity (\<lambda>r. r\<lparr>Status := a, ResponseStatus := f, ResponseBody := g, ErrorReason := c,
      LockedUntil := b, ExpiresAt := e, UpdatedAt := d\<rparr>)"
  "keeps_identity (\<lambda>r. r\<lparr>Status := a, ErrorReason := c, LockedUntil := b, ExpiresAt := e, UpdatedAt := d\<rparr>)"
  by (simp_all add: keeps_identity_def)

lemmas update_rows = update_where_row [OF _ keeps_identity_statements(1)]
  update_where_row [OF _ keeps_identity_statements(2)]
  update_where_row [OF _ keeps_identity_statements(3)]
  update_where_row [OF _ keeps_identity_statements(4)]

lemmas update_wf = update_where_wf [OF _ keeps_identity_statements(1)]
  update_where_wf [OF _ keeps_identity_statements(2)]
  update_where_wf [OF _ keeps_identity_statements(3)]
  update_where_wf [OF _ keeps_identity_statements(4)]

lemma statement_snd:
  "snd (case update_where i g f db of (n, db') \<Rightarrow> (0 < n, db')) = snd (update_where i g f db)"
  "fst (case update_where i g f db of (n, db') \<Rightarrow> (0 < n, db')) \<longleftrightarrow> 0 < fst (update_where i g f db)"
  by (simp_all split: prod.split)

interpretation sql: idem_store wf_db row_of find_key insert_record reclaim_row extend_row
  succeed_row fail_row delete_expired_rows
proof unfold_locales
  fix db i r n s t l e fp st b why lim j x k
  assume wf: "wf_db db"
  show "row_of db i = Some r \<Longrightarrow> RecID r = i \<and> 0 < i \<and> row_ok r"
    using row_of_iff [OF wf] wf_dbD(3) [OF wf] by auto
  show "(find_key db s k = Some r) =
      (row_of db (RecID r) = Some r \<and> Scope r = s \<and> IdempotencyKeyHash r = k)"
    by (rule find_key_row_of [OF wf])
  show "find_key db (Scope r) (IdempotencyKeyHash r) = Some x \<Longrightarrow>
      insert_record n r db = ((False, r), db)"
    by (simp add: insert_record_def)
  show "find_key db (Scope r) (IdempotencyKeyHash r) = None \<Longrightarrow>
      \<exists>i. 0 < i \<and> row_of db i = None
        \<and> fst (insert_record n r db) = (True, r\<lparr>RecID := i, CreatedAt := n, UpdatedAt := n\<rparr>)
        \<and> row_of (snd (insert_record n r db)) = (row_of db)(i \<mapsto>
            r\<lparr>RecID := i, ResponseStatus := None, ResponseBody := None,
               ErrorReason := None, CreatedAt := n, UpdatedAt := n\<rparr>)"
    using insert_record_fresh [OF wf] wf_dbD(4) [OF wf] by (intro exI [of _ "next_id db"]) blast
  show "Status r = IdempotencyStatusProcessing \<Longrightarrow> LockedUntil r \<noteq> None \<Longrightarrow>
      wf_db (snd (insert_record n r db))"
    by (rule insert_record_wf [OF wf])
  show "fst (reclaim_row n i s t l e db) =
      (\<exists>r. row_of db i = Some r \<and> Status r = s \<and> lock_free t r)"
    by (simp add: statement_defs statement_snd update_where_count [OF wf])
  show "row_of (snd (reclaim_row n i s t l e db)) j =
      map_option (\<lambda>r. if j = i \<and> Status r = s \<and> lock_free t r
        then r\<lparr>Status := IdempotencyStatusProcessing, LockedUntil := Some l,
                ErrorReason := None, UpdatedAt := n, ExpiresAt := e\<rparr> else r) (row_of db j)"
    by (simp add: statement_defs statement_snd update_rows [OF wf])
  show "wf_db (snd (reclaim_row n i s t l e db))"
    by (auto simp: statement_defs statement_snd row_ok_def intro!: update_wf [OF wf])
  show "fst (extend_row n i fp l e db) =
      (\<exists>r. row_of db i = Some r \<and> Status r = IdempotencyStatusProcessing \<and> RequestFingerprint r = fp)"
    by (simp add: statement_defs statement_snd update_where_count [OF wf])
  show "row_of (snd (extend_row n i fp l e db)) j =
      map_option (\<lambda>r. if j = i \<and> Status r = IdempotencyStatusProcessing \<and> RequestFingerprint r = fp
        then r\<lparr>LockedUntil := Some l, ExpiresAt := e, UpdatedAt := n\<rparr> else r) (row_of db j)"
    by (simp add: statement_defs statement_snd update_rows [OF wf])
  show "wf_db (snd (extend_row n i fp l e db))"
    by (auto simp: statement_defs statement_snd row_ok_def status_defs intro!: update_wf [OF wf])
  show "row_of (snd (succeed_row n i st b e db)) j =
      map_option (\<lambda>r. if j = i
        then r\<lparr>Status := IdempotencyStatusSucceeded, ResponseStatus := Some st,
                ResponseBody := Some b, ErrorReason := None, LockedUntil := None,
                ExpiresAt := e, UpdatedAt := n\<rparr> else r) (row_of db j)"
    by (simp add: statement_defs update_rows [OF wf])
  show "wf_db (snd (succeed_row n i st b e db))"
    by (auto simp: statement_defs row_ok_def intro!: update_wf [OF wf])
  show "row_of (snd (fail_row n i why l e db)) j =
      map_option (\<lambda>r. if j = i
        then r\<lparr>Status := IdempotencyStatusFailedRetryable, ErrorReason := Some why,
                LockedUntil := Some l, ExpiresAt := e, UpdatedAt := n\<rparr> else r) (row_of db j)"
    by (simp add: statement_defs update_rows [OF wf])
  show "wf_db (snd (fail_row n i why l e db))"
    by (auto simp: statement_defs row_ok_def intro!: update_wf [OF wf])
  show "row_of db j = Some r \<Longrightarrow> t < ExpiresAt r \<Longrightarrow>
      row_of (snd (delete_expired_rows t lim db)) j = Some r"
    by (rule delete_expired_row(2) [OF wf])
  show "row_of (snd (delete_expired_rows t lim db)) j = Some r \<Longrightarrow> row_of db j = Some r"
    by (rule delete_expired_row(1) [OF wf])
  show "wf_db (snd (delete_expired_rows t lim db))"
    by (rule delete_expired_row(3) [OF wf])
qed

end
