(* ===== verification/Idempotency.thy ===== *)
theory Idempotency
  imports Idempotency_Store
begin

text \<open>
  The idempotency coordinator (\<^verbatim>\<open>backend/internal/service/idempotency.go\<close>): \<^verbatim>\<open>Execute\<close> runs a request at
  most once per key, answers a repeated request from the stored response and keeps concurrent
  ones apart.

  \<^verbatim>\<open>Execute\<close> makes up to five calls to the repository.  Every call site has a fault of its own, and
  before each call other processes may have changed the table (\<open>interfere\<close>, which includes the
  lease renewals of this request before the last call).  The executor is given by its outcome;
  the model says whether it was run.  The SHA-256 digest, the JSON codec, \<^verbatim>\<open>logredact.RedactText\<close>
  and the Unicode case table are parameters (\<open>idem_ext\<close>); metrics and audit logs are left out,
  since they do not feed back into the result.
\<close>

section \<open>Configuration, options and errors\<close>

record idem_config =
  DefaultTTL :: duration
  SystemOperationTTL :: duration
  ProcessingTimeout :: duration
  FailedRetryBackoff :: duration
  MaxStoredResponseLen :: int
  ObserveOnly :: bool

definition DefaultIdempotencyConfig :: idem_config where
  "DefaultIdempotencyConfig =
     \<lparr>DefaultTTL = 24 * Hour, SystemOperationTTL = 1 * Hour, ProcessingTimeout = 30 * Second,
      FailedRetryBackoff = 5 * Second, MaxStoredResponseLen = 64 * 1024, ObserveOnly = True\<rparr>"

text \<open>The process-wide coordinator may be unset; its configured lifetimes win when positive.\<close>

definition DefaultWriteIdempotencyTTL :: "idem_config option \<Rightarrow> duration" where
  "DefaultWriteIdempotencyTTL coordinator = (case coordinator of
       Some cfg \<Rightarrow> (if 0 < DefaultTTL cfg then DefaultTTL cfg else DefaultTTL DefaultIdempotencyConfig)
     | None \<Rightarrow> DefaultTTL DefaultIdempotencyConfig)"

definition DefaultSystemOperationIdempotencyTTL :: "idem_config option \<Rightarrow> duration" where
  "DefaultSystemOperationIdempotencyTTL coordinator = (case coordinator of
       Some cfg \<Rightarrow> (if 0 < SystemOperationTTL cfg then SystemOperationTTL cfg
                    else SystemOperationTTL DefaultIdempotencyConfig)
     | None \<Rightarrow> SystemOperationTTL DefaultIdempotencyConfig)"

record 'p idem_opts =
  OptScope :: string
  ActorScope :: string
  Method :: string
  Route :: string
  IdempotencyKey :: string
  Payload :: 'p
  TTL :: duration
  RequireKey :: bool
  ExecutionTimeout :: duration

definition ErrIdempotencyKeyRequired :: app_error where
  "ErrIdempotencyKeyRequired = BadRequest ''IDEMPOTENCY_KEY_REQUIRED'' ''idempotency key is required''"
definition ErrIdempotencyKeyInvalid :: app_error where
  "ErrIdempotencyKeyInvalid = BadRequest ''IDEMPOTENCY_KEY_INVALID'' ''idempotency key is invalid''"
definition ErrIdempotencyKeyConflict :: app_error where
  "ErrIdempotencyKeyConflict =
     Conflict ''IDEMPOTENCY_KEY_CONFLICT'' ''idempotency key reused with different payload''"
definition ErrIdempotencyInProgress :: app_error where
  "ErrIdempotencyInProgress =
     Conflict ''IDEMPOTENCY_IN_PROGRESS'' ''idempotent request is still processing''"
definition ErrIdempotencyRetryBackoff :: app_error where
  "ErrIdempotencyRetryBackoff =
     Conflict ''IDEMPOTENCY_RETRY_BACKOFF'' ''idempotent request is in retry backoff window''"
definition ErrIdempotencyStoreUnavail :: app_error where
  "ErrIdempotencyStoreUnavail =
     ServiceUnavailable ''IDEMPOTENCY_STORE_UNAVAILABLE'' ''idempotency store unavailable''"
definition ErrIdempotencyInvalidPayload :: app_error where
  "ErrIdempotencyInvalidPayload =
     BadRequest ''IDEMPOTENCY_PAYLOAD_INVALID'' ''failed to normalize request payload''"

lemmas idem_error_defs =
  ErrIdempotencyKeyRequired_def ErrIdempotencyKeyInvalid_def ErrIdempotencyKeyConflict_def
  ErrIdempotencyInProgress_def ErrIdempotencyRetryBackoff_def ErrIdempotencyStoreUnavail_def
  ErrIdempotencyInvalidPayload_def

definition store_unavail :: "go_error option \<Rightarrow> go_error" where
  "store_unavail c = to_error (WithCause ErrIdempotencyStoreUnavail c)"

record ('p, 'd) idem_ext =
  sha256hex :: "string \<Rightarrow> string"
  uupper :: "string \<Rightarrow> string"
  marshal_payload :: "'p \<Rightarrow> (go_error, string) result"
  marshal_data :: "'d \<Rightarrow> (go_error, string) result"
  unmarshal :: "string \<Rightarrow> (go_error, 'd) result"
  empty_object :: 'd
  RedactText :: "string \<Rightarrow> string"

section \<open>Keys and fingerprints\<close>

text \<open>
  The loop ranges over runes: a byte outside ASCII starts a rune above 126, so the key is
  accepted exactly when every byte is in 33 to 126.
\<close>

definition NormalizeIdempotencyKey :: "string \<Rightarrow> (go_error, string) result" where
  "NormalizeIdempotencyKey raw = (let key = TrimSpace raw in
     if key = [] then Inr []
     else if 128 < length key then Inl (to_error ErrIdempotencyKeyInvalid)
     else if \<not> list_all (\<lambda>c. 33 \<le> (of_char c :: nat) \<and> of_char c \<le> (126 :: nat)) key
       then Inl (to_error ErrIdempotencyKeyInvalid)
     else Inr key)"

definition HashIdempotencyKey :: "('p, 'd) idem_ext \<Rightarrow> string \<Rightarrow> string" where
  "HashIdempotencyKey ext key = sha256hex ext key"

definition BuildIdempotencyFingerprint ::
    "('p, 'd) idem_ext \<Rightarrow> string \<Rightarrow> string \<Rightarrow> string \<Rightarrow> 'p \<Rightarrow> (go_error, string) result" where
  "BuildIdempotencyFingerprint ext method route actorScope payload =
     (let m = (if method = [] then ''POST'' else method);
          rt = (if route = [] then ''/'' else route);
          a = (if actorScope = [] then ''anonymous'' else actorScope)
      in case marshal_payload ext payload of
           Inl e \<Rightarrow> Inl (to_error (WithCause ErrIdempotencyInvalidPayload (Some e)))
         | Inr raw \<Rightarrow> Inr (sha256hex ext
             (ToUpper (uupper ext) m @ [CHR 0x0A] @ rt @ [CHR 0x0A] @ a @ [CHR 0x0A] @ raw)))"

section \<open>Retry hints\<close>

text \<open>
  \<^verbatim>\<open>int(d.Seconds())\<close>: the number of whole seconds, towards zero.  (The code goes through a
  \<^verbatim>\<open>float64\<close>, which is exact enough for this below \<open>2 ^ 22\<close> seconds, about 48 days; the leases and
  backoffs it is used for are seconds to minutes.)
\<close>

definition whole_seconds :: "duration \<Rightarrow> int" where
  "whole_seconds d = d sdiv Second"

definition conflictWithRetryAfter :: "app_error \<Rightarrow> go_time option \<Rightarrow> go_time \<Rightarrow> go_error" where
  "conflictWithRetryAfter base lockedUntil now = (case lockedUntil of
       None \<Rightarrow> to_error base
     | Some l \<Rightarrow>
         (let sec = whole_seconds (time_Sub l now); sec' = (if sec \<le> 0 then 1 else sec)
          in to_error (WithMetadata base (Some [(''retry_after'', Itoa sec')]))))"

definition RetryAfterSecondsFromError :: "go_error \<Rightarrow> int" where
  "RetryAfterSecondsFromError err = (case errors_As err of
       None \<Rightarrow> 0
     | Some (st, _) \<Rightarrow> (case st_Metadata st of
           None \<Rightarrow> 0
         | Some md \<Rightarrow>
             (let v = TrimSpace (case map_of md ''retry_after'' of None \<Rightarrow> [] | Some s \<Rightarrow> s)
              in if v = [] then 0
                 else (case Atoi v of None \<Rightarrow> 0 | Some n \<Rightarrow> if n \<le> 0 then 0 else n))))"

section \<open>Stored responses\<close>

text \<open>\<^verbatim>\<open>utf8.ValidString\<close>, over the byte values.\<close>

definition cont :: "nat \<Rightarrow> nat \<Rightarrow> char \<Rightarrow> bool" where
  "cont lo hi c \<longleftrightarrow> lo \<le> of_char c \<and> of_char c \<le> hi"

fun utf8_valid :: "string \<Rightarrow> bool" where
  "utf8_valid [] = True"
| "utf8_valid (a # s) =
     (if cont 0 127 a then utf8_valid s
      else if cont 194 223 a then
        (case s of b # s1 \<Rightarrow> cont 128 191 b \<and> utf8_valid s1 | _ \<Rightarrow> False)
      else if cont 224 239 a then
        (case s of b # c # s2 \<Rightarrow>
             cont (if of_char a = (224 :: nat) then 160 else 128)
                  (if of_char a = (237 :: nat) then 159 else 191) b
             \<and> cont 128 191 c \<and> utf8_valid s2
         | _ \<Rightarrow> False)
      else if cont 240 244 a then
        (case s of b # c # d # s3 \<Rightarrow>
             cont (if of_char a = (240 :: nat) then 144 else 128)
                  (if of_char a = (244 :: nat) then 143 else 191) b
             \<and> cont 128 191 c \<and> cont 128 191 d \<and> utf8_valid s3
         | _ \<Rightarrow> False)
      else False)"

text \<open>The loop of \<^verbatim>\<open>truncateUTF8\<close>: the longest valid prefix of at most \<open>n\<close> bytes.\<close>

fun utf8_cut :: "string \<Rightarrow> nat \<Rightarrow> nat" where
  "utf8_cut s 0 = 0"
| "utf8_cut s (Suc n) = (if utf8_valid (take (Suc n) s) then Suc n else utf8_cut s n)"

definition truncateUTF8 :: "string \<Rightarrow> int \<Rightarrow> string" where
  "truncateUTF8 s maxBytes =
     (if maxBytes \<le> 0 \<or> int (length s) \<le> maxBytes then s
      else take (utf8_cut s (nat maxBytes)) s)"

definition marshalStoredResponse ::
    "('p, 'd) idem_ext \<Rightarrow> idem_config \<Rightarrow> 'd \<Rightarrow> (go_error, string) result" where
  "marshalStoredResponse ext cfg data = (case marshal_data ext data of
       Inl e \<Rightarrow> Inl e
     | Inr raw \<Rightarrow>
         (let redacted = RedactText ext raw in
          Inr (if 0 < MaxStoredResponseLen cfg \<and> MaxStoredResponseLen cfg < int (length redacted)
               then truncateUTF8 redacted (MaxStoredResponseLen cfg) @ ''...(truncated)''
               else redacted)))"

definition decodeStoredResponse ::
    "('p, 'd) idem_ext \<Rightarrow> string option \<Rightarrow> (go_error, 'd) result" where
  "decodeStoredResponse ext stored = (case stored of
       None \<Rightarrow> Inr (empty_object ext)
     | Some b \<Rightarrow>
         (if TrimSpace b = [] then Inr (empty_object ext)
          else (case unmarshal ext b of
                  Inl e \<Rightarrow> Inl (WrapError ''decode stored response: '' e)
                | Inr d \<Rightarrow> Inr d)))"

section \<open>Execute\<close>

datatype call_site = AtCreate | AtGet | AtReclaimExpired | AtGetLatest | AtReclaim | AtMark

record idem_env =
  fault :: "call_site \<Rightarrow> db_fault"
  interfere :: "call_site \<Rightarrow> idem_db \<Rightarrow> idem_db"
  dbnow :: "call_site \<Rightarrow> go_time"
  now_start :: go_time
  now_done :: go_time
  now_fail :: go_time

text \<open>What the calls before the executor decide: an error, a stored answer, or the claim of a record.\<close>

datatype 'd claim = Refused go_error | Replayed 'd | Claimed int

text \<open>
  The request has a non-empty key: \<open>claim_args\<close> carries what \<^verbatim>\<open>Execute\<close> has computed by then (its scope,
  the key hash, the fingerprint, the time of the call and the instants derived from it).
\<close>

record claim_args =
  ca_scope :: string
  ca_keyHash :: string
  ca_fingerprint :: string
  ca_now :: go_time
  ca_lockedUntil :: go_time
  ca_expiresAt :: go_time

definition processing_record :: "claim_args \<Rightarrow> idem_record" where
  "processing_record a =
     \<lparr>RecID = 0, Scope = ca_scope a, IdempotencyKeyHash = ca_keyHash a,
      RequestFingerprint = ca_fingerprint a, Status = IdempotencyStatusProcessing,
      ResponseStatus = None, ResponseBody = None, ErrorReason = None,
      LockedUntil = Some (ca_lockedUntil a), ExpiresAt = ca_expiresAt a,
      CreatedAt = 0, UpdatedAt = 0\<rparr>"

text \<open>
  The record exists and has expired: reclaim it, or read it again when another process was
  faster.  The result says whether the record was reclaimed, and which version of it counts.
\<close>

definition reclaim_expired ::
    "idem_env \<Rightarrow> claim_args \<Rightarrow> idem_record \<Rightarrow> idem_db
       \<Rightarrow> (go_error, bool \<times> idem_record) result \<times> idem_db" where
  "reclaim_expired env a existing db =
     (if time_After (ExpiresAt existing) (ca_now a) then (Inr (False, existing), db)
      else (case TryReclaim (fault env AtReclaimExpired) (dbnow env AtReclaimExpired) (RecID existing)
                   (Status existing) (ca_now a) (ca_lockedUntil a) (ca_expiresAt a)
                   (interfere env AtReclaimExpired db) of
          (Inl e, db1) \<Rightarrow> (Inl (store_unavail (Some e)), db1)
        | (Inr True, db1) \<Rightarrow> (Inr (True, existing), db1)
        | (Inr False, db1) \<Rightarrow>
            (case GetByScopeAndKeyHash (fault env AtGetLatest) (ca_scope a) (ca_keyHash a)
                    (interfere env AtGetLatest db1) of
               (Inl e, db2) \<Rightarrow> (Inl (store_unavail (Some e)), db2)
             | (Inr None, db2) \<Rightarrow> (Inl (to_error ErrIdempotencyStoreUnavail), db2)
             | (Inr (Some latest), db2) \<Rightarrow>
                 (if RequestFingerprint latest \<noteq> ca_fingerprint a
                  then (Inl (to_error ErrIdempotencyKeyConflict), db2)
                  else (Inr (False, latest), db2)))))"

text \<open>The switch on the status of a record that was not reclaimed as expired.\<close>

definition dispatch_existing ::
    "('p, 'd) idem_ext \<Rightarrow> idem_env \<Rightarrow> claim_args \<Rightarrow> idem_record \<Rightarrow> idem_db \<Rightarrow> 'd claim \<times> idem_db" where
  "dispatch_existing ext env a existing db =
     (if Status existing = IdempotencyStatusSucceeded then
        (case decodeStoredResponse ext (ResponseBody existing) of
           Inl e \<Rightarrow> (Refused (store_unavail (Some e)), db)
         | Inr d \<Rightarrow> (Replayed d, db))
      else if Status existing = IdempotencyStatusProcessing then
        (Refused (conflictWithRetryAfter ErrIdempotencyInProgress (LockedUntil existing) (ca_now a)), db)
      else if Status existing = IdempotencyStatusFailedRetryable then
        (if (case LockedUntil existing of None \<Rightarrow> False | Some l \<Rightarrow> time_After l (ca_now a)) then
           (Refused (conflictWithRetryAfter ErrIdempotencyRetryBackoff (LockedUntil existing) (ca_now a)), db)
         else
           (case TryReclaim (fault env AtReclaim) (dbnow env AtReclaim) (RecID existing)
                   IdempotencyStatusFailedRetryable (ca_now a) (ca_lockedUntil a) (ca_expiresAt a)
                   (interfere env AtReclaim db) of
              (Inl e, db1) \<Rightarrow> (Refused (store_unavail (Some e)), db1)
            | (Inr False, db1) \<Rightarrow>
                (Refused (conflictWithRetryAfter ErrIdempotencyInProgress (LockedUntil existing) (ca_now a)), db1)
            | (Inr True, db1) \<Rightarrow> (Claimed (RecID existing), db1)))
      else (Refused (to_error ErrIdempotencyKeyConflict), db))"

text \<open>The key is taken: read the record and decide.\<close>

definition resolve_existing ::
    "('p, 'd) idem_ext \<Rightarrow> idem_env \<Rightarrow> claim_args \<Rightarrow> idem_db \<Rightarrow> 'd claim \<times> idem_db" where
  "resolve_existing ext env a db =
     (case GetByScopeAndKeyHash (fault env AtGet) (ca_scope a) (ca_keyHash a) (interfere env AtGet db) of
        (Inl e, db1) \<Rightarrow> (Refused (store_unavail (Some e)), db1)
      | (Inr None, db1) \<Rightarrow> (Refused (to_error ErrIdempotencyStoreUnavail), db1)
      | (Inr (Some existing), db1) \<Rightarrow>
          (if RequestFingerprint existing \<noteq> ca_fingerprint a
           then (Refused (to_error ErrIdempotencyKeyConflict), db1)
           else (case reclaim_expired env a existing db1 of
                   (Inl e, db2) \<Rightarrow> (Refused e, db2)
                 | (Inr (True, _), db2) \<Rightarrow> (Claimed (RecID existing), db2)
                 | (Inr (False, current), db2) \<Rightarrow> dispatch_existing ext env a current db2)))"

definition claim_record ::
    "('p, 'd) idem_ext \<Rightarrow> idem_env \<Rightarrow> claim_args \<Rightarrow> idem_db \<Rightarrow> 'd claim \<times> idem_db" where
  "claim_record ext env a db =
     (case CreateProcessing (fault env AtCreate) (dbnow env AtCreate) (Some (processing_record a))
             (interfere env AtCreate db) of
        (Inl e, db1) \<Rightarrow> (Refused (store_unavail (Some e)), db1)
      | (Inr (True, r), db1) \<Rightarrow> (Claimed (case r of None \<Rightarrow> 0 | Some r' \<Rightarrow> RecID r'), db1)
      | (Inr (False, _), db1) \<Rightarrow> resolve_existing ext env a db1)"

text \<open>
  The rest of \<^verbatim>\<open>Execute\<close> for a claimed record: run the executor and store its outcome.  The second
  component says whether the executor was run.
\<close>

definition execute_claimed ::
    "('p, 'd) idem_ext \<Rightarrow> idem_config \<Rightarrow> idem_env \<Rightarrow> claim_args \<Rightarrow> duration \<Rightarrow> duration
       \<Rightarrow> (go_error, 'd) result \<Rightarrow> int \<Rightarrow> idem_db \<Rightarrow> (go_error, 'd \<times> bool) result \<times> bool \<times> idem_db" where
  "execute_claimed ext cfg env a ttl timeout outcome i db =
     (if i = 0 then (Inl (to_error ErrIdempotencyStoreUnavail), False, db)
      else (let expiresAt = (if 0 < timeout then time_Add (now_done env) ttl else ca_expiresAt a);
                db1 = interfere env AtMark db
            in case outcome of
                 Inl execErr \<Rightarrow>
                   (let backoffUntil = time_Add (now_fail env) (FailedRetryBackoff cfg);
                        reason = (if Reason (Some execErr) = [] then ''EXECUTION_FAILED''
                                  else Reason (Some execErr));
                        db2 = snd (MarkFailedRetryable (fault env AtMark) (dbnow env AtMark) i reason
                                     backoffUntil expiresAt db1)
                    in (Inl execErr, True, db2))
               | Inr data \<Rightarrow>
                   (case marshalStoredResponse ext cfg data of
                      Inl e \<Rightarrow> (Inl (store_unavail (Some e)), True, db1)
                    | Inr body \<Rightarrow>
                        (case MarkSucceeded (fault env AtMark) (dbnow env AtMark) i 200 body expiresAt db1 of
                           (Inl e, db2) \<Rightarrow> (Inl (store_unavail (Some e)), True, db2)
                         | (Inr _, db2) \<Rightarrow> (Inr (data, False), True, db2)))))"

definition claim_args_of ::
    "('p, 'd) idem_ext \<Rightarrow> idem_config \<Rightarrow> idem_env \<Rightarrow> 'p idem_opts \<Rightarrow> string \<Rightarrow> string \<Rightarrow> claim_args" where
  "claim_args_of ext cfg env opts key fingerprint =
     (let ttl = (if TTL opts \<le> 0 then DefaultTTL cfg else TTL opts) in
      \<lparr>ca_scope = OptScope opts, ca_keyHash = HashIdempotencyKey ext key,
       ca_fingerprint = fingerprint, ca_now = now_start env,
       ca_lockedUntil = time_Add (now_start env) (ProcessingTimeout cfg),
       ca_expiresAt = time_Add (now_start env) ttl\<rparr>)"

text \<open>
  \<^verbatim>\<open>Execute\<close>.  \<open>repo_nil\<close> says that the coordinator has no repository; the executor is \<^const>\<open>None\<close> when the
  caller passes nil, and its outcome otherwise.
\<close>

definition Execute ::
    "('p, 'd) idem_ext \<Rightarrow> idem_config \<Rightarrow> bool \<Rightarrow> idem_env \<Rightarrow> 'p idem_opts
       \<Rightarrow> (go_error, 'd) result option \<Rightarrow> idem_db \<Rightarrow> (go_error, 'd \<times> bool) result \<times> bool \<times> idem_db" where
  "Execute ext cfg repo_nil env opts execute db =
     (case execute of
        None \<Rightarrow> (Inl (to_error (InternalServer ''IDEMPOTENCY_EXECUTOR_NIL'' ''idempotency executor is nil'')),
                 False, db)
      | Some outcome \<Rightarrow>
          (case NormalizeIdempotencyKey (IdempotencyKey opts) of
             Inl e \<Rightarrow> (Inl e, False, db)
           | Inr key \<Rightarrow>
               if key = [] then
                 (if RequireKey opts \<and> \<not> ObserveOnly cfg
                  then (Inl (to_error ErrIdempotencyKeyRequired), False, db)
                  else (case outcome of Inl e \<Rightarrow> (Inl e, True, db) | Inr d \<Rightarrow> (Inr (d, False), True, db)))
               else if repo_nil then (Inl (to_error ErrIdempotencyStoreUnavail), False, db)
               else if OptScope opts = [] then
                 (Inl (to_error (BadRequest ''IDEMPOTENCY_SCOPE_REQUIRED'' ''idempotency scope is required'')),
                  False, db)
               else (case BuildIdempotencyFingerprint ext (Method opts) (Route opts) (ActorScope opts) (Payload opts) of
                       Inl e \<Rightarrow> (Inl e, False, db)
                     | Inr fingerprint \<Rightarrow>
                         (let a = claim_args_of ext cfg env opts key fingerprint;
                              ttl = (if TTL opts \<le> 0 then DefaultTTL cfg else TTL opts)
                          in case claim_record ext env a db of
                               (Refused e, db1) \<Rightarrow> (Inl e, False, db1)
                             | (Replayed d, db1) \<Rightarrow> (Inr (d, True), False, db1)
                             | (Claimed i, db1) \<Rightarrow>
                                 execute_claimed ext cfg env a ttl (ExecutionTimeout opts) outcome i db1))))"

section \<open>Lease renewal\<close>

text \<open>
  \<^verbatim>\<open>renewProcessingLease\<close>: the period of the renewals, and one renewal.  A failed call is retried at
  the next tick; the loop stops when the row is no longer in processing for this fingerprint.
\<close>

definition renew_lease :: "idem_config \<Rightarrow> duration" where
  "renew_lease cfg = (if ProcessingTimeout cfg \<le> 0 then ProcessingTimeout DefaultIdempotencyConfig
                      else ProcessingTimeout cfg)"

definition renew_interval :: "idem_config \<Rightarrow> duration \<Rightarrow> duration" where
  "renew_interval cfg ttl =
     (let interval = min (renew_lease cfg sdiv 3) (ttl sdiv 3)
      in if interval < Millisecond then Millisecond else interval)"

datatype renew_next = RenewContinue | RenewStop

definition renew_tick ::
    "idem_config \<Rightarrow> duration \<Rightarrow> db_fault \<Rightarrow> go_time \<Rightarrow> go_time \<Rightarrow> int \<Rightarrow> string \<Rightarrow> idem_db \<Rightarrow> renew_next \<times> idem_db" where
  "renew_tick cfg ttl f sqlnow now i fingerprint db =
     (case ExtendProcessingLock f sqlnow i fingerprint (time_Add now (renew_lease cfg)) (time_Add now ttl) db of
        (Inl e, db1) \<Rightarrow> (RenewContinue, db1)
      | (Inr True, db1) \<Rightarrow> (RenewContinue, db1)
      | (Inr False, db1) \<Rightarrow> (RenewStop, db1))"

section \<open>What the other processes may do\<close>

text \<open>
  Between two calls the other users of the table run statements of the repository: these keep
  the invariant and never change the key or the fingerprint of a row (\<open>sql.request_stable\<close>).
\<close>

definition env_ok :: "idem_env \<Rightarrow> bool" where
  "env_ok env \<longleftrightarrow> (\<forall>s d. wf_db d \<longrightarrow> wf_db (interfere env s d)
     \<and> (\<forall>i r r'. row_of d i = Some r \<longrightarrow> row_of (interfere env s d) i = Some r'
          \<longrightarrow> same_request r r'))"

definition quiet_env :: "go_time \<Rightarrow> idem_env" where
  "quiet_env t = \<lparr>fault = (\<lambda>_. NoFault), interfere = (\<lambda>_ d. d), dbnow = (\<lambda>_. t),
     now_start = t, now_done = t, now_fail = t\<rparr>"

lemma quiet_env_simps [simp]:
  "fault (quiet_env t) s = NoFault" "interfere (quiet_env t) s d = d" "dbnow (quiet_env t) s = t"
  "now_start (quiet_env t) = t" "now_done (quiet_env t) = t" "now_fail (quiet_env t) = t"
  by (simp_all add: quiet_env_def)

lemma env_ok_quiet: "env_ok (quiet_env t)"
  by (auto simp: env_ok_def same_request_def)

lemma env_okD:
  assumes "env_ok env" and "wf_db d"
  shows "wf_db (interfere env s d)"
    and "row_of d i = Some r \<Longrightarrow> row_of (interfere env s d) i = Some r' \<Longrightarrow> same_request r r'"
  using assms unfolding env_ok_def by blast+

section \<open>The repository calls\<close>

lemma sql_call_NoFault [simp]: "sql_call NoFault stmt db = (case stmt db of (x, db') \<Rightarrow> (Inr x, db'))"
  by (simp add: sql_call_def)

lemma sql_call_InrE:
  assumes "sql_call f stmt db = (Inr x, db')"
  obtains "stmt db = (x, db')"
  using assms by (auto simp: sql_call_def split: db_fault.splits prod.splits)

lemma sql_call_db:
  assumes "sql_call f stmt db = (r, db')"
  shows "db' = db \<or> db' = snd (stmt db)"
  using assms by (auto simp: sql_call_def split: db_fault.splits prod.splits)

lemma Get_db:
  assumes "GetByScopeAndKeyHash f s k db = (r, db')"
  shows "db' = db" and "r = Inr x \<Longrightarrow> x = find_key db s k"
  using assms sql_call_db [of f "\<lambda>d. (find_key d s k, d)" db r db']
  by (auto simp: GetByScopeAndKeyHash_def elim: sql_call_InrE)

lemma TryReclaim_wf:
  "wf_db db \<Longrightarrow> TryReclaim f n i s t l e db = (r, db') \<Longrightarrow> wf_db db'"
  unfolding TryReclaim_def by (auto dest!: sql_call_db intro: sql.reclaim_wf)

lemma TryReclaim_True:
  assumes "wf_db db" and "TryReclaim f n i s t l e db = (Inr True, db')"
  shows "\<exists>r r'. row_of db i = Some r \<and> row_of db' i = Some r' \<and> Status r = s \<and> lock_free t r
    \<and> Status r' = IdempotencyStatusProcessing \<and> LockedUntil r' = Some l \<and> ExpiresAt r' = e
    \<and> same_request r r'"
proof -
  from assms(2) have stmt: "reclaim_row n i s t l e db = (True, db')"
    unfolding TryReclaim_def by (elim sql_call_InrE)
  then have "fst (reclaim_row n i s t l e db)" by simp
  with sql.reclaim_claims [OF assms(1) this] sql.reclaim_taken [OF assms(1), of n i s t l e] stmt
  show ?thesis by auto
qed

section \<open>A claim\<close>

text \<open>The row that a caller holding a claim finds in the table.\<close>

definition holds_claim :: "claim_args \<Rightarrow> int \<Rightarrow> idem_db \<Rightarrow> bool" where
  "holds_claim a i db \<longleftrightarrow> 0 < i \<and> (\<exists>r. row_of db i = Some r
     \<and> Status r = IdempotencyStatusProcessing \<and> same_request (processing_record a) r
     \<and> LockedUntil r = Some (ca_lockedUntil a) \<and> ExpiresAt r = ca_expiresAt a)"

lemma reclaim_holds:
  assumes wf: "wf_db d" and env: "env_ok env"
    and r: "row_of d i = Some r" "same_request (processing_record a) r"
    and call: "TryReclaim f n i s t (ca_lockedUntil a) (ca_expiresAt a) (interfere env c d) = (Inr True, db')"
  shows "holds_claim a i db'" and "wf_db db'"
proof -
  have wf': "wf_db (interfere env c d)" by (rule env_okD(1) [OF env wf])
  from TryReclaim_True [OF wf' call] obtain x y where
    x: "row_of (interfere env c d) i = Some x" and
    y: "row_of db' i = Some y" "Status y = IdempotencyStatusProcessing"
      "LockedUntil y = Some (ca_lockedUntil a)" "ExpiresAt y = ca_expiresAt a"
      "same_request x y"
    by blast
  have "same_request (processing_record a) y"
    using env_okD(2) [OF env wf r(1) x] r(2) y(5) by (simp add: same_request_def)
  moreover have "0 < i" using sql.row_ident [OF wf r(1)] by simp
  ultimately show "holds_claim a i db'" using y by (auto simp: holds_claim_def)
  show "wf_db db'" by (rule TryReclaim_wf [OF wf' call])
qed

lemma create_holds:
  assumes wf: "wf_db d"
    and call: "CreateProcessing f n (Some (processing_record a)) d = (Inr (True, Some x), db')"
  shows "holds_claim a (RecID x) db'" and "wf_db db'"
proof -
  let ?r = "processing_record a"
  from call have stmt: "insert_record n ?r d = ((True, x), db')"
    by (auto simp: CreateProcessing_def elim!: sql_call_InrE split: prod.splits)
  have ok: "Status ?r = IdempotencyStatusProcessing" "LockedUntil ?r \<noteq> None"
    by (simp_all add: processing_record_def)
  from stmt have ins: "fst (fst (insert_record n ?r d))" by simp
  from sql.lookup_fresh_insert [OF wf ok ins] stmt
  show "holds_claim a (RecID x) db'" by (auto simp: holds_claim_def processing_record_def)
  show "wf_db db'" using sql.insert_wf [OF wf ok, of n] stmt by simp
qed

lemma CreateProcessing_wf:
  assumes wf: "wf_db d" and call: "CreateProcessing f n (Some (processing_record a)) d = (res, db')"
  shows "wf_db db'"
proof -
  have "wf_db (snd (insert_record n (processing_record a) d))"
    by (rule sql.insert_wf [OF wf]) (simp_all add: processing_record_def)
  with wf call show ?thesis
    by (auto simp: CreateProcessing_def dest!: sql_call_db split: prod.splits)
qed

lemma same_request_processing:
  "same_request (processing_record a) r \<longleftrightarrow> Scope r = ca_scope a
     \<and> IdempotencyKeyHash r = ca_keyHash a \<and> RequestFingerprint r = ca_fingerprint a"
  by (simp add: same_request_def processing_record_def)

lemma reclaim_expired_holds:
  assumes wf: "wf_db d" and env: "env_ok env"
    and r: "row_of d (RecID r) = Some r" "same_request (processing_record a) r"
    and call: "reclaim_expired env a r d = (Inr (b, x), db')"
  shows "b \<Longrightarrow> holds_claim a (RecID r) db'" and "wf_db db'"
    and "\<not> b \<Longrightarrow> row_of db' (RecID x) = Some x \<and> same_request (processing_record a) x"
proof -
  have wf1: "\<And>c. wf_db (interfere env c d)" using env_okD(1) [OF env wf] .
  show "b \<Longrightarrow> holds_claim a (RecID r) db'"
    using call reclaim_holds(1) [OF wf env r] by (auto simp: reclaim_expired_def split: if_splits prod.splits sum.splits bool.splits option.splits)
  have get: "wf_db db2 \<and> row_of db2 (RecID y) = Some y
      \<and> Scope y = ca_scope a \<and> IdempotencyKeyHash y = ca_keyHash a"
    if "wf_db db1" and "GetByScopeAndKeyHash f (ca_scope a) (ca_keyHash a) (interfere env c db1)
      = (Inr (Some y), db2)" for f c db1 db2 y
    using Get_db [OF that(2)] env_okD(1) [OF env that(1), of c] find_key_row_of by metis
  show "wf_db db'"
    using call wf
    by (auto simp: reclaim_expired_def split: if_splits prod.splits sum.splits bool.splits option.splits
        dest!: TryReclaim_wf [OF wf1] dest: get)
  show "\<not> b \<Longrightarrow> row_of db' (RecID x) = Some x \<and> same_request (processing_record a) x"
    using call r
    by (auto simp: reclaim_expired_def same_request_processing split: if_splits prod.splits sum.splits bool.splits option.splits
        dest!: TryReclaim_wf [OF wf1] dest: get)
qed

lemma claim_record_granted:
  assumes wf: "wf_db db" and env: "env_ok env"
    and call: "claim_record ext env a db = (Claimed i, db')"
  shows "holds_claim a i db'" and "wf_db db'"
proof -
  have both: "holds_claim a i db' \<and> wf_db db'"
  proof -
    let ?d0 = "interfere env AtCreate db"
    have wf0: "wf_db ?d0" by (rule env_okD(1) [OF env wf])
    obtain res d1 where create: "CreateProcessing (fault env AtCreate) (dbnow env AtCreate)
        (Some (processing_record a)) ?d0 = (res, d1)" by fastforce
    consider (claimed) x where "res = Inr (True, Some x)" "i = RecID x" "db' = d1"
      | (existing) x where "res = Inr (False, x)" "resolve_existing ext env a d1 = (Claimed i, db')"
      using call create
      by (auto simp: claim_record_def CreateProcessing_def sql_call_def
          split: sum.splits prod.splits bool.splits option.splits db_fault.splits)
    then show ?thesis
    proof cases
      case claimed
      with create create_holds [OF wf0] show ?thesis by auto
    next
      case existing
      have wf1: "wf_db d1" by (rule CreateProcessing_wf [OF wf0 create])
      from existing(2) obtain e d2 where
        get: "GetByScopeAndKeyHash (fault env AtGet) (ca_scope a) (ca_keyHash a) (interfere env AtGet d1) = (Inr (Some e), d2)"
        and fp: "RequestFingerprint e = ca_fingerprint a"
        and rest: "(case reclaim_expired env a e d2 of
              (Inl err, d3) \<Rightarrow> (Refused err, d3)
            | (Inr (True, _), d3) \<Rightarrow> (Claimed (RecID e), d3)
            | (Inr (False, current), d3) \<Rightarrow> dispatch_existing ext env a current d3) = (Claimed i, db')"
        by (auto simp: resolve_existing_def split: sum.splits prod.splits option.splits if_splits)
      have wf2: "wf_db d2" and e: "row_of d2 (RecID e) = Some e"
        and key: "Scope e = ca_scope a" "IdempotencyKeyHash e = ca_keyHash a"
        using Get_db [OF get] env_okD(1) [OF env wf1, of AtGet] find_key_row_of by metis+
      with fp have req: "same_request (processing_record a) e" by (simp add: same_request_processing)
      from rest obtain b c d3 where rc: "reclaim_expired env a e d2 = (Inr (b, c), d3)"
        by (auto split: sum.splits prod.splits)
      note rh = reclaim_expired_holds [OF wf2 env e req rc]
      show ?thesis
      proof (cases b)
        case True
        with rest rc rh show ?thesis by auto
      next
        case False
        with rest rc have disp: "dispatch_existing ext env a c d3 = (Claimed i, db')" by simp
        from False rh have c: "row_of d3 (RecID c) = Some c" "same_request (processing_record a) c"
          and wf3: "wf_db d3" by auto
        from disp reclaim_holds [OF wf3 env c] show ?thesis
          by (auto simp: dispatch_existing_def split: if_splits sum.splits prod.splits bool.splits)
      qed
    qed
  qed
  then show "holds_claim a i db'" and "wf_db db'" by auto
qed

section \<open>Running a claimed request\<close>

abbreviation effective_ttl :: "idem_config \<Rightarrow> 'p idem_opts \<Rightarrow> duration" where
  "effective_ttl cfg opts \<equiv> (if TTL opts \<le> 0 then DefaultTTL cfg else TTL opts)"

lemma Execute_keyed:
  assumes "NormalizeIdempotencyKey (IdempotencyKey opts) = Inr key" and "key \<noteq> []"
    and "OptScope opts \<noteq> []"
    and "BuildIdempotencyFingerprint ext (Method opts) (Route opts) (ActorScope opts) (Payload opts) = Inr fp"
  shows "Execute ext cfg False env opts (Some outcome) db =
    (case claim_record ext env (claim_args_of ext cfg env opts key fp) db of
       (Refused e, db1) \<Rightarrow> (Inl e, False, db1)
     | (Replayed d, db1) \<Rightarrow> (Inr (d, True), False, db1)
     | (Claimed i, db1) \<Rightarrow>
         execute_claimed ext cfg env (claim_args_of ext cfg env opts key fp) (effective_ttl cfg opts)
           (ExecutionTimeout opts) outcome i db1)"
  using assms by (simp add: Execute_def Let_def)

lemma Execute_ranE:
  assumes run: "Execute ext cfg repo_nil env opts (Some outcome) db = (res, True, db')"
    and key: "NormalizeIdempotencyKey (IdempotencyKey opts) = Inr key" "key \<noteq> []"
  obtains fp i db1 where
    "\<not> repo_nil" "OptScope opts \<noteq> []"
    "BuildIdempotencyFingerprint ext (Method opts) (Route opts) (ActorScope opts) (Payload opts) = Inr fp"
    "claim_record ext env (claim_args_of ext cfg env opts key fp) db = (Claimed i, db1)"
    "execute_claimed ext cfg env (claim_args_of ext cfg env opts key fp) (effective_ttl cfg opts)
       (ExecutionTimeout opts) outcome i db1 = (res, True, db')"
  using run key
  by (auto simp: Execute_def Let_def split: if_splits sum.splits prod.splits claim.splits)

text \<open>The table after a successful run whose outcome was stored.\<close>

lemma execute_claimed_stored:
  assumes wf: "wf_db db" and i: "row_of db i = Some r" and still: "interfere env AtMark = (\<lambda>d. d)"
    and run: "execute_claimed ext cfg env a ttl timeout (Inr data) i db = (Inr (data', b), True, db')"
  shows "\<exists>body. marshalStoredResponse ext cfg data = Inr body \<and> wf_db db'
    \<and> row_of db' i = Some (r\<lparr>Status := IdempotencyStatusSucceeded, ResponseStatus := Some 200,
        ResponseBody := Some body, ErrorReason := None, LockedUntil := None,
        ExpiresAt := (if 0 < timeout then now_done env + ttl else ca_expiresAt a),
        UpdatedAt := dbnow env AtMark\<rparr>)"
proof -
  define e where "e = (if 0 < timeout then now_done env + ttl else ca_expiresAt a)"
  from run obtain body where body: "marshalStoredResponse ext cfg data = Inr body"
    by (auto simp: execute_claimed_def Let_def split: if_splits sum.splits)
  obtain res d where mark: "MarkSucceeded (fault env AtMark) (dbnow env AtMark) i 200 body e db = (res, d)"
    by fastforce
  have same: "interfere env AtMark db = db" by (simp only: still)
  have "i \<noteq> 0" using run by (auto simp: execute_claimed_def)
  then have "execute_claimed ext cfg env a ttl timeout (Inr data) i db =
      (case res of Inl x \<Rightarrow> (Inl (store_unavail (Some x)), True, d) | Inr _ \<Rightarrow> (Inr (data, False), True, d))"
    using mark body
    by (cases "0 < timeout"; simp add: execute_claimed_def Let_def same e_def split: sum.splits unit.splits)
  with run have "res = Inr ()" and "d = db'" by (simp_all split: sum.splits)
  with mark have "db' = snd (succeed_row (dbnow env AtMark) i 200 body e db)"
    by (auto simp: MarkSucceeded_def elim!: sql_call_InrE)
  with body i sql.succeed_rows [OF wf] sql.succeed_wf [OF wf] show ?thesis by (simp add: e_def)
qed

lemma execute_claimed_failed:
  assumes wf: "wf_db db" and i: "row_of db i = Some r" and still: "interfere env AtMark = (\<lambda>d. d)"
    and mark: "fault env AtMark = NoFault"
    and run: "execute_claimed ext cfg env a ttl timeout (Inl err) i db = (res, True, db')"
  shows "res = Inl err \<and> wf_db db' \<and> (\<exists>why. row_of db' i =
     Some (r\<lparr>Status := IdempotencyStatusFailedRetryable, ErrorReason := Some why,
        LockedUntil := Some (now_fail env + FailedRetryBackoff cfg),
        ExpiresAt := (if 0 < timeout then now_done env + ttl else ca_expiresAt a),
        UpdatedAt := dbnow env AtMark\<rparr>))"
proof -
  define e where "e = (if 0 < timeout then now_done env + ttl else ca_expiresAt a)"
  define why where "why = (if Reason (Some err) = [] then ''EXECUTION_FAILED'' else Reason (Some err))"
  have "res = Inl err" and "db' = snd (fail_row (dbnow env AtMark) i why
      (now_fail env + FailedRetryBackoff cfg) e db)"
    using run still mark
    by (simp_all add: execute_claimed_def Let_def MarkFailedRetryable_def e_def why_def
        split: if_splits prod.splits)
  with i sql.fail_rows [OF wf] sql.fail_wf [OF wf] show ?thesis by (auto simp: e_def)
qed

text \<open>A quiet claim of a key whose record is in the table.\<close>

lemma claim_record_existing:
  assumes wf: "wf_db db" and r: "find_key db (ca_scope a) (ca_keyHash a) = Some r"
  shows "RequestFingerprint r \<noteq> ca_fingerprint a \<Longrightarrow>
      claim_record ext (quiet_env t) a db = (Refused (to_error ErrIdempotencyKeyConflict), db)"
    and "RequestFingerprint r = ca_fingerprint a \<Longrightarrow> ca_now a < ExpiresAt r \<Longrightarrow>
      claim_record ext (quiet_env t) a db = dispatch_existing ext (quiet_env t) a r db"
proof -
  have "insert_record n (processing_record a) db = ((False, processing_record a), db)" for n
    using sql.insert_taken [OF wf, of "processing_record a" r] r by (simp add: processing_record_def)
  then show "RequestFingerprint r \<noteq> ca_fingerprint a \<Longrightarrow>
      claim_record ext (quiet_env t) a db = (Refused (to_error ErrIdempotencyKeyConflict), db)"
    and "RequestFingerprint r = ca_fingerprint a \<Longrightarrow> ca_now a < ExpiresAt r \<Longrightarrow>
      claim_record ext (quiet_env t) a db = dispatch_existing ext (quiet_env t) a r db"
    using r by (simp_all add: claim_record_def CreateProcessing_def resolve_existing_def
        GetByScopeAndKeyHash_def reclaim_expired_def)
qed

lemma claim_args_of_simps [simp]:
  "ca_scope (claim_args_of ext cfg env opts key fp) = OptScope opts"
  "ca_keyHash (claim_args_of ext cfg env opts key fp) = HashIdempotencyKey ext key"
  "ca_fingerprint (claim_args_of ext cfg env opts key fp) = fp"
  "ca_now (claim_args_of ext cfg env opts key fp) = now_start env"
  "ca_lockedUntil (claim_args_of ext cfg env opts key fp) = now_start env + ProcessingTimeout cfg"
  "ca_expiresAt (claim_args_of ext cfg env opts key fp) = now_start env + effective_ttl cfg opts"
  by (simp_all add: claim_args_of_def)

text \<open>A quiet request whose key is in the table with an unexpired record.\<close>

definition replay_answer :: "('p, 'd) idem_ext \<Rightarrow> string option \<Rightarrow> (go_error, 'd \<times> bool) result" where
  "replay_answer ext body = (case decodeStoredResponse ext body of
       Inl e \<Rightarrow> Inl (store_unavail (Some e)) | Inr d \<Rightarrow> Inr (d, True))"

lemma execute_claimed_runs: "i \<noteq> 0 \<Longrightarrow> fst (snd (execute_claimed ext cfg env a ttl timeout out i db))"
  unfolding execute_claimed_def Let_def
  by (simp only: if_False split: sum.splits prod.splits unit.splits) simp

lemma find_key_same_request:
  assumes wf: "wf_db db" and r: "row_of db i = Some r" "same_request (processing_record a) r"
  shows "find_key db (ca_scope a) (ca_keyHash a) = Some r"
proof -
  have "RecID r = i" using sql.row_ident [OF wf r(1)] by simp
  with r show ?thesis by (simp add: find_key_row_of [OF wf] same_request_processing)
qed

lemma Execute_mismatch:
  assumes wf: "wf_db db" and r: "row_of db i = Some r" "same_request (processing_record a) r"
    and opts: "OptScope opts = ca_scope a" "OptScope opts \<noteq> []"
      "NormalizeIdempotencyKey (IdempotencyKey opts) = Inr key" "key \<noteq> []"
      "HashIdempotencyKey ext key = ca_keyHash a"
      "BuildIdempotencyFingerprint ext (Method opts) (Route opts) (ActorScope opts) (Payload opts) = Inr fp"
    and fp: "fp \<noteq> ca_fingerprint a"
  shows "Execute ext cfg False (quiet_env t) opts (Some out) db =
      (Inl (to_error ErrIdempotencyKeyConflict), False, db)"
proof -
  let ?a = "claim_args_of ext cfg (quiet_env t) opts key fp"
  from find_key_same_request [OF wf r] opts have "find_key db (ca_scope ?a) (ca_keyHash ?a) = Some r"
    by simp
  moreover have "RequestFingerprint r \<noteq> ca_fingerprint ?a"
    using r(2) fp by (simp add: same_request_processing)
  ultimately have "claim_record ext (quiet_env t) ?a db = (Refused (to_error ErrIdempotencyKeyConflict), db)"
    by (rule claim_record_existing(1) [OF wf])
  then show ?thesis using Execute_keyed [OF opts(3,4,2,6), of cfg "quiet_env t" out db] by simp
qed

lemma Execute_existing:
  assumes wf: "wf_db db" and r: "row_of db i = Some r" "same_request (processing_record a) r"
    and live: "t < ExpiresAt r"
    and opts: "OptScope opts = ca_scope a" "OptScope opts \<noteq> []"
      "NormalizeIdempotencyKey (IdempotencyKey opts) = Inr key" "key \<noteq> []"
      "HashIdempotencyKey ext key = ca_keyHash a"
      "BuildIdempotencyFingerprint ext (Method opts) (Route opts) (ActorScope opts) (Payload opts)
        = Inr (ca_fingerprint a)"
  shows "Status r = IdempotencyStatusSucceeded \<Longrightarrow>
      Execute ext cfg False (quiet_env t) opts (Some out) db =
        (replay_answer ext (ResponseBody r), False, db)"
    and "Status r = IdempotencyStatusProcessing \<Longrightarrow>
      Execute ext cfg False (quiet_env t) opts (Some out) db =
        (Inl (conflictWithRetryAfter ErrIdempotencyInProgress (LockedUntil r) t), False, db)"
    and "Status r = IdempotencyStatusFailedRetryable \<Longrightarrow> LockedUntil r = Some l \<Longrightarrow> t < l \<Longrightarrow>
      Execute ext cfg False (quiet_env t) opts (Some out) db =
        (Inl (conflictWithRetryAfter ErrIdempotencyRetryBackoff (LockedUntil r) t), False, db)"
    and "Status r = IdempotencyStatusFailedRetryable \<Longrightarrow> LockedUntil r = Some l \<Longrightarrow> l \<le> t \<Longrightarrow>
      fst (snd (Execute ext cfg False (quiet_env t) opts (Some out) db))"
proof -
  let ?a = "claim_args_of ext cfg (quiet_env t) opts key (ca_fingerprint a)"
  from r have fp: "RequestFingerprint r = ca_fingerprint ?a"
    by (simp add: same_request_processing)
  from find_key_same_request [OF wf r] opts have find: "find_key db (ca_scope ?a) (ca_keyHash ?a) = Some r"
    by simp
  have claim: "claim_record ext (quiet_env t) ?a db = dispatch_existing ext (quiet_env t) ?a r db"
    using claim_record_existing(2) [OF wf find fp, of ext t] live by simp
  note run = Execute_keyed [OF opts(3,4,2,6), of cfg "quiet_env t" out db, unfolded claim]
  show "Status r = IdempotencyStatusSucceeded \<Longrightarrow>
      Execute ext cfg False (quiet_env t) opts (Some out) db =
        (replay_answer ext (ResponseBody r), False, db)"
    using run by (simp add: dispatch_existing_def replay_answer_def split: sum.splits)
  show "Status r = IdempotencyStatusProcessing \<Longrightarrow>
      Execute ext cfg False (quiet_env t) opts (Some out) db =
        (Inl (conflictWithRetryAfter ErrIdempotencyInProgress (LockedUntil r) t), False, db)"
    using run by (simp add: dispatch_existing_def status_defs)
  show "Status r = IdempotencyStatusFailedRetryable \<Longrightarrow> LockedUntil r = Some l \<Longrightarrow> t < l \<Longrightarrow>
      Execute ext cfg False (quiet_env t) opts (Some out) db =
        (Inl (conflictWithRetryAfter ErrIdempotencyRetryBackoff (LockedUntil r) t), False, db)"
    using run by (simp add: dispatch_existing_def status_defs time_defs)
  assume st: "Status r = IdempotencyStatusFailedRetryable" and l: "LockedUntil r = Some l" "l \<le> t"
  have i: "RecID r = i" "0 < i" using sql.row_ident [OF wf r(1)] by simp_all
  obtain d where "reclaim_row t i IdempotencyStatusFailedRetryable t (ca_lockedUntil ?a) (ca_expiresAt ?a) db
      = (True, d)"
    using sql.reclaim_taken [OF wf, of t i IdempotencyStatusFailedRetryable t "ca_lockedUntil ?a" "ca_expiresAt ?a"]
      r(1) st l by (cases "reclaim_row t i IdempotencyStatusFailedRetryable t (ca_lockedUntil ?a) (ca_expiresAt ?a) db")
      (auto simp: lock_free_def)
  then have "dispatch_existing ext (quiet_env t) ?a r db = (Claimed i, d)"
    using st l i by (simp add: dispatch_existing_def TryReclaim_def status_defs time_defs)
  with run i show "fst (snd (Execute ext cfg False (quiet_env t) opts (Some out) db))"
    by (simp only: prod.case claim.case) (rule execute_claimed_runs, simp)
qed

end
