(* ===== verification/Idempotency_Once.thy ===== *)
theory Idempotency_Once
  imports Idempotency
begin

text \<open>
  What \<^verbatim>\<open>Execute\<close> promises to its callers: the executor runs only under a claim of the key, a
  request whose outcome is stored is answered from the table and not run again, a key is bound
  to the fingerprint of its first request, failures are retried after their backoff, and the
  retry hints, keys and stored bodies have the form the handlers rely on.
\<close>

section \<open>The row of a run\<close>

text \<open>Whatever happens when the outcome is stored, the row keeps its request.\<close>

lemma execute_claimed_row:
  assumes wf: "wf_db db" and i: "row_of db i = Some r" and still: "interfere env AtMark db = db"
    and run: "execute_claimed ext cfg env a ttl timeout out i db = (res, True, db')"
  shows "wf_db db' \<and> (\<exists>r'. row_of db' i = Some r' \<and> same_request r r')"
proof -
  have self: "wf_db db \<and> (\<exists>r'. row_of db i = Some r' \<and> same_request r r')"
    using wf i by (simp add: same_request_def)
  have succ: "wf_db d \<and> (\<exists>r'. row_of d i = Some r' \<and> same_request r r')"
    if "MarkSucceeded f n i st b e db = (x, d)" for f n st b e x d
    using that self sql.succeed_wf [OF wf] sql.request_stable(3) [OF wf i]
    unfolding MarkSucceeded_def by (auto dest!: sql_call_db)
  have fail: "wf_db d \<and> (\<exists>r'. row_of d i = Some r' \<and> same_request r r')"
    if "d = snd (MarkFailedRetryable f n i why l e db)" for f n why l e d
    using that self sql.fail_wf [OF wf] sql.request_stable(4) [OF wf i]
      sql_call_db [of f "fail_row n i why l e" db]
    unfolding MarkFailedRetryable_def by (metis prod.collapse)
  show ?thesis
  proof (cases out)
    case (Inl err)
    with run still show ?thesis
      by (auto simp: execute_claimed_def Let_def fail [OF refl] split: if_splits)
  next
    case (Inr data)
    with run still self show ?thesis
      by (auto simp: execute_claimed_def Let_def split: if_splits sum.splits prod.splits unit.splits
          dest: succ)
  qed
qed

lemma Execute_claim_row:
  assumes wf: "wf_db db" and env: "env_ok env"
    and run: "Execute ext cfg rn env opts (Some out) db = (res, True, db')"
    and key: "NormalizeIdempotencyKey (IdempotencyKey opts) = Inr key" "key \<noteq> []"
  obtains fp i d r where
    "BuildIdempotencyFingerprint ext (Method opts) (Route opts) (ActorScope opts) (Payload opts) = Inr fp"
    "OptScope opts \<noteq> []" "wf_db d" "row_of d i = Some r"
    "same_request (processing_record (claim_args_of ext cfg env opts key fp)) r"
    "execute_claimed ext cfg env (claim_args_of ext cfg env opts key fp) (effective_ttl cfg opts)
       (ExecutionTimeout opts) out i d = (res, True, db')"
proof -
  from Execute_ranE [OF run key] obtain fp i d where *: "OptScope opts \<noteq> []"
    "BuildIdempotencyFingerprint ext (Method opts) (Route opts) (ActorScope opts) (Payload opts) = Inr fp"
    "claim_record ext env (claim_args_of ext cfg env opts key fp) db = (Claimed i, d)"
    "execute_claimed ext cfg env (claim_args_of ext cfg env opts key fp) (effective_ttl cfg opts)
       (ExecutionTimeout opts) out i d = (res, True, db')" by metis
  from claim_record_granted [OF wf env *(3)] have "wf_db d"
    and "holds_claim (claim_args_of ext cfg env opts key fp) i d" by simp_all
  then obtain r where "row_of d i = Some r"
    "same_request (processing_record (claim_args_of ext cfg env opts key fp)) r"
    unfolding holds_claim_def by auto
  with * \<open>wf_db d\<close> show thesis by (rule_tac that) assumption+
qed

text \<open>The other requests with the same key and fingerprint.\<close>

definition same_call :: "('p, 'd) idem_ext \<Rightarrow> 'p idem_opts \<Rightarrow> 'p idem_opts \<Rightarrow> bool" where
  "same_call ext o1 o2 \<longleftrightarrow> OptScope o2 = OptScope o1
     \<and> NormalizeIdempotencyKey (IdempotencyKey o2) = NormalizeIdempotencyKey (IdempotencyKey o1)
     \<and> BuildIdempotencyFingerprint ext (Method o2) (Route o2) (ActorScope o2) (Payload o2)
       = BuildIdempotencyFingerprint ext (Method o1) (Route o1) (ActorScope o1) (Payload o1)"

lemma same_call_refl [simp]: "same_call ext opts opts"
  by (simp add: same_call_def)

text \<open>When the outcome of a run may be replayed or retried.\<close>

abbreviation outcome_expiry :: "idem_config \<Rightarrow> idem_env \<Rightarrow> 'p idem_opts \<Rightarrow> go_time" where
  "outcome_expiry cfg env opts \<equiv>
     (if 0 < ExecutionTimeout opts then now_done env else now_start env) + effective_ttl cfg opts"

section \<open>A concrete service for the examples\<close>

definition demo_ext :: "(string, string) idem_ext" where
  "demo_ext = \<lparr>sha256hex = (\<lambda>s. s), uupper = (\<lambda>s. s), marshal_payload = Inr, marshal_data = Inr,
     unmarshal = Inr, empty_object = ''{}'', RedactText = (\<lambda>s. s)\<rparr>"

definition demo_opts :: "string \<Rightarrow> string idem_opts" where
  "demo_opts payload = \<lparr>OptScope = ''s'', ActorScope = [], Method = [], Route = [],
     IdempotencyKey = ''k1'', Payload = payload, TTL = 0, RequireKey = True, ExecutionTimeout = 0\<rparr>"

lemma quiet_env_still: "interfere (quiet_env t) s = (\<lambda>d. d)"
  by (simp add: quiet_env_def)

section \<open>At most once\<close>

text \<open>C1. For a request with a key, the executor runs only after the claim of the record of that key
  succeeded: at that moment the table holds the record in processing, with this request's scope,
  key hash and fingerprint and with the lease and expiry of this call, whatever the other
  processes did between the calls and whatever calls to the database failed.\<close>

theorem Execute_runs_only_claimed:
  assumes "wf_db db" and "env_ok env"
    and "Execute ext cfg rn env opts (Some out) db = (res, True, db')"
    and "NormalizeIdempotencyKey (IdempotencyKey opts) = Inr key" and "key \<noteq> []"
  shows "\<exists>fp i db1. BuildIdempotencyFingerprint ext (Method opts) (Route opts) (ActorScope opts) (Payload opts) = Inr fp
    \<and> holds_claim (claim_args_of ext cfg env opts key fp) i db1 \<and> wf_db db1
    \<and> claim_record ext env (claim_args_of ext cfg env opts key fp) db = (Claimed i, db1)
    \<and> execute_claimed ext cfg env (claim_args_of ext cfg env opts key fp) (effective_ttl cfg opts)
         (ExecutionTimeout opts) out i db1 = (res, True, db')"
  using Execute_ranE [OF assms(3-5)] claim_record_granted [OF assms(1,2)] by metis

lemma stored_replay:
  assumes "wf_db db" and "env_ok env" and "interfere env AtMark = (\<lambda>d. d)"
    and "Execute ext cfg rn env opts (Some (Inr data)) db = (Inr (data', b), True, db')"
    and "NormalizeIdempotencyKey (IdempotencyKey opts) = Inr key" and "key \<noteq> []"
    and "same_call ext opts opts2" and "t < outcome_expiry cfg env opts"
  shows "\<exists>body. marshalStoredResponse ext cfg data = Inr body
    \<and> Execute ext cfg2 False (quiet_env t) opts2 (Some out2) db' = (replay_answer ext (Some body), False, db')"
proof -
  obtain fp i d r where fp: "BuildIdempotencyFingerprint ext (Method opts) (Route opts) (ActorScope opts) (Payload opts) = Inr fp"
    and sc: "OptScope opts \<noteq> []" and d: "wf_db d" "row_of d i = Some r"
    and req: "same_request (processing_record (claim_args_of ext cfg env opts key fp)) r"
    and run: "execute_claimed ext cfg env (claim_args_of ext cfg env opts key fp) (effective_ttl cfg opts)
       (ExecutionTimeout opts) (Inr data) i d = (Inr (data', b), True, db')"
    by (rule Execute_claim_row [OF assms(1,2,4,5,6)])
  from execute_claimed_stored [OF d assms(3) run] obtain body r' where
    body: "marshalStoredResponse ext cfg data = Inr body" and wf': "wf_db db'"
    and row: "row_of db' i = Some r'" "same_request r r'" "Status r' = IdempotencyStatusSucceeded"
      "ResponseBody r' = Some body" "ExpiresAt r' = outcome_expiry cfg env opts"
    by (auto simp: same_request_def)
  have req': "same_request (processing_record (claim_args_of ext cfg env opts key fp)) r'"
    using req row(2) by (simp add: same_request_def)
  have "Execute ext cfg2 False (quiet_env t) opts2 (Some out2) db' = (replay_answer ext (ResponseBody r'), False, db')"
    by (rule Execute_existing(1) [OF wf' row(1) req'])
      (use assms(5-8) fp sc row in \<open>auto simp: same_call_def\<close>)
  with body row(4) show ?thesis by auto
qed

text \<open>C20. Replay: once a run has stored its success, and its response fits the configured limit, the same
  request made again before the record expires is not executed, leaves the table as it is and gets the
  outcome of that run: what the stored (redacted) text of the response decodes to, marked as replayed,
  whatever its own executor would do.  The second request is undisturbed: no call to the database fails and no
  other process acts between its calls.  Of the first run it is assumed that its call of \<^verbatim>\<open>MarkSucceeded\<close> meets
  the row as it was claimed; any of its calls may fail, as long as it returned its outcome.\<close>

theorem Execute_replays:
  assumes "wf_db db" and "env_ok env" and "interfere env AtMark = (\<lambda>d. d)"
    and "Execute ext cfg rn env opts (Some (Inr data)) db = (Inr (data', b), True, db')"
    and "NormalizeIdempotencyKey (IdempotencyKey opts) = Inr key" and "key \<noteq> []"
    and "same_call ext opts opts2" and "t < outcome_expiry cfg env opts"
    and "marshal_data ext data = Inr raw" and "TrimSpace (RedactText ext raw) \<noteq> []"
    and "MaxStoredResponseLen cfg \<le> 0 \<or> int (length (RedactText ext raw)) \<le> MaxStoredResponseLen cfg"
    and "unmarshal ext (RedactText ext raw) = Inr stored"
  shows "Execute ext cfg2 False (quiet_env t) opts2 (Some out2) db' = (Inr (stored, True), False, db')"
proof -
  have "marshalStoredResponse ext cfg data = Inr (RedactText ext raw)"
    using assms(9,11) by (auto simp: marshalStoredResponse_def Let_def)
  then have "Execute ext cfg2 False (quiet_env t) opts2 (Some out2) db'
      = (replay_answer ext (Some (RedactText ext raw)), False, db')"
    using stored_replay [OF assms(1-8), of cfg2 out2] by simp
  then show ?thesis using assms(10,12) by (simp add: replay_answer_def decodeStoredResponse_def)
qed

text \<open>A key is bound to its first request: after a run, a request with the same scope and key
  but another fingerprint (method, route, actor or payload) is refused with a conflict at any
  later time, also after the record has expired, without being executed or changing the table.\<close>

theorem Execute_key_conflict:
  assumes "wf_db db" and "env_ok env" and "interfere env AtMark = (\<lambda>d. d)"
    and "Execute ext cfg rn env opts (Some out) db = (res, True, db')"
    and "NormalizeIdempotencyKey (IdempotencyKey opts) = Inr key" and "key \<noteq> []"
    and "OptScope opts2 = OptScope opts" and "NormalizeIdempotencyKey (IdempotencyKey opts2) = Inr key"
    and "BuildIdempotencyFingerprint ext (Method opts2) (Route opts2) (ActorScope opts2) (Payload opts2) = Inr fp2"
    and "BuildIdempotencyFingerprint ext (Method opts) (Route opts) (ActorScope opts) (Payload opts) \<noteq> Inr fp2"
  shows "Execute ext cfg2 False (quiet_env t) opts2 (Some out2) db'
    = (Inl (to_error ErrIdempotencyKeyConflict), False, db')"
proof -
  obtain fp i d r where fp: "BuildIdempotencyFingerprint ext (Method opts) (Route opts) (ActorScope opts) (Payload opts) = Inr fp"
    and sc: "OptScope opts \<noteq> []" and d: "wf_db d" "row_of d i = Some r"
    and req: "same_request (processing_record (claim_args_of ext cfg env opts key fp)) r"
    and run: "execute_claimed ext cfg env (claim_args_of ext cfg env opts key fp) (effective_ttl cfg opts)
       (ExecutionTimeout opts) out i d = (res, True, db')"
    by (rule Execute_claim_row [OF assms(1,2,4,5,6)])
  have "interfere env AtMark d = d" by (simp only: assms(3))
  from execute_claimed_row [OF d this run] obtain r' where wf': "wf_db db'"
    and row: "row_of db' i = Some r'" "same_request r r'" by blast
  have req': "same_request (processing_record (claim_args_of ext cfg env opts key fp)) r'"
    using req row(2) by (simp add: same_request_def)
  show ?thesis
    by (rule Execute_mismatch [OF wf' row(1) req'])
      (use assms(6-10) fp sc in \<open>auto\<close>)
qed



section \<open>Retry hints, keys and stored bodies\<close>

lemma digits10_graphic: "list_all is_graphic (digits10 n)"
proof (induction n rule: digits10.induct)
  case (1 n)
  have d: "is_graphic (digit_char (n mod 10))" for n
    by (simp add: is_graphic_def digit_char_def)
  show ?case
    using 1 d [of n] d [of "n mod 10"] by (cases "n < 10") (auto simp: digits10.simps [of n])
qed

lemma Itoa_not_Nil [simp]: "Itoa i \<noteq> []"
  by (simp add: Itoa_def digits10_not_Nil)

lemma TrimSpace_Itoa [simp]: "TrimSpace (Itoa i) = Itoa i"
proof (rule TrimSpace_graphic)
  have "list_all is_graphic (Itoa i)"
    using digits10_graphic by (simp add: Itoa_def) (simp add: is_graphic_def)
  moreover show "Itoa i \<noteq> []" by simp
  ultimately show "is_graphic (hd (Itoa i))" and "is_graphic (last (Itoa i))"
    by (simp_all add: list_all_iff)
qed

lemma whole_seconds_nonneg: "0 \<le> d \<Longrightarrow> whole_seconds d = d div 1000000000"
  by (simp add: whole_seconds_def unit_defs signed_divide_int_def sgn_if )

lemma whole_seconds_neg: "d \<le> 0 \<Longrightarrow> whole_seconds d \<le> 0"
  by (simp add: whole_seconds_def unit_defs signed_divide_int_def sgn_if)
    (meson div_int_pos_iff neg_0_le_iff_le zero_le_numeral)

lemma is_int64_whole_seconds: "is_int64 (max 1 (whole_seconds (time_Sub l t)))"
proof (cases "0 \<le> time_Sub l t")
  case True
  with time_Sub_bounds [of l t] show ?thesis
    by (simp add: whole_seconds_nonneg is_int64_def min_int64_def max_int64_def) linarith
next
  case False
  with whole_seconds_neg [of "time_Sub l t"] show ?thesis
    by (simp add: is_int64_def min_int64_def max_int64_def max_def)
qed

text \<open>C30. The retry hint survives the round trip through the error value: a handler that asks
  \<^verbatim>\<open>RetryAfterSecondsFromError\<close> of a (possibly wrapped) conflict error reads the whole seconds
  left until the lock runs out, and at least one.\<close>

theorem retry_after_roundtrip:
  "RetryAfterSecondsFromError (wrap_chain ms (conflictWithRetryAfter base (Some l) t))
     = max 1 (whole_seconds (time_Sub l t))"
proof -
  let ?n = "max 1 (whole_seconds (time_Sub l t))"
  have n: "(if whole_seconds (time_Sub l t) \<le> 0 then 1 else whole_seconds (time_Sub l t)) = ?n"
    by (simp add: max_def)
  show ?thesis
    using Atoi_Itoa [OF is_int64_whole_seconds [of l t]] Itoa_not_Nil [of ?n]
    by (simp add: RetryAfterSecondsFromError_def conflictWithRetryAfter_def Let_def n case_prod_beta)
qed

text \<open>A normalized key is empty or has 1 to 128 visible ASCII bytes, is stable under
  normalization, and a key is refused with the one error \<^verbatim>\<open>IDEMPOTENCY_KEY_INVALID\<close> exactly when its
  trimmed form is longer or has another byte.\<close>

theorem NormalizeIdempotencyKey_spec:
  "NormalizeIdempotencyKey raw =
     (if length (TrimSpace raw) \<le> 128 \<and> list_all is_graphic (TrimSpace raw) then Inr (TrimSpace raw)
      else Inl (to_error ErrIdempotencyKeyInvalid))
   \<and> (case NormalizeIdempotencyKey raw of Inl _ \<Rightarrow> True | Inr key \<Rightarrow> NormalizeIdempotencyKey key = Inr key)"
proof -
  have "list_all is_graphic (TrimSpace raw) \<Longrightarrow> TrimSpace (TrimSpace raw) = TrimSpace raw"
    by (cases "TrimSpace raw = []") (simp, auto intro!: TrimSpace_graphic simp: list_all_iff)
  then show ?thesis
    by (auto simp: NormalizeIdempotencyKey_def Let_def is_graphic_def [abs_def])
qed

lemma utf8_cut_spec:
  "utf8_cut s n \<le> n \<and> utf8_valid (take (utf8_cut s n) s)
     \<and> (\<forall>m. utf8_cut s n < m \<and> m \<le> n \<longrightarrow> \<not> utf8_valid (take m s))"
proof (induction n)
  case (Suc n)
  then show ?case by (auto simp: le_Suc_eq)
qed auto

text \<open>Cutting a stored body: a text over the limit is cut to its longest prefix that is valid
  UTF-8 and fits the limit; a text within the limit is kept as it is.\<close>

theorem truncateUTF8_longest:
  assumes "0 < maxBytes"
  shows "if int (length s) \<le> maxBytes then truncateUTF8 s maxBytes = s
    else prefix (truncateUTF8 s maxBytes) s \<and> int (length (truncateUTF8 s maxBytes)) \<le> maxBytes
      \<and> utf8_valid (truncateUTF8 s maxBytes)
      \<and> (\<forall>p. prefix p s \<and> utf8_valid p \<and> int (length p) \<le> maxBytes
            \<longrightarrow> length p \<le> length (truncateUTF8 s maxBytes))"
proof (cases "int (length s) \<le> maxBytes")
  case False
  let ?n = "utf8_cut s (nat maxBytes)"
  note cut = utf8_cut_spec [of s "nat maxBytes"]
  have t: "truncateUTF8 s maxBytes = take ?n s" using False assms by (simp add: truncateUTF8_def)
  have "?n \<le> length s" using conjunct1 [OF cut] False by linarith
  then have len: "length (take ?n s) = ?n" by simp
  have "length p \<le> ?n" if "prefix p s" "utf8_valid p" "int (length p) \<le> maxBytes" for p
  proof (rule ccontr)
    assume "\<not> length p \<le> ?n"
    moreover have "length p \<le> nat maxBytes" using that(3) by linarith
    ultimately have "\<not> utf8_valid (take (length p) s)" using cut by simp
    moreover have "take (length p) s = p" using that(1) by (auto simp: prefix_def)
    ultimately show False using that(2) by simp
  qed
  with False t len cut assms show ?thesis by (auto simp: take_is_prefix)
qed (simp add: truncateUTF8_def)

theorem truncateUTF8_longest_witness:
  "0 < (2 :: int) \<and> truncateUTF8 [CHR ''a'', CHR 0xE2, CHR 0x82, CHR 0xAC] 2 = ''a''
    \<and> prefix (truncateUTF8 [CHR ''a'', CHR 0xE2, CHR 0x82, CHR 0xAC] 2) [CHR ''a'', CHR 0xE2, CHR 0x82, CHR 0xAC]"
  using truncateUTF8_longest [of 2 "[CHR ''a'', CHR 0xE2, CHR 0x82, CHR 0xAC]"]
  by (simp add: truncateUTF8_def numeral_2_eq_2 cont_def)

section \<open>Examples\<close>

abbreviation demo_execute :: "go_time \<Rightarrow> string \<Rightarrow> (go_error, string) result \<Rightarrow> idem_db
    \<Rightarrow> (go_error, string \<times> bool) result \<times> bool \<times> idem_db" where
  "demo_execute t payload out db \<equiv>
     Execute demo_ext DefaultIdempotencyConfig False (quiet_env t) (demo_opts payload) (Some out) db"

definition demo_db :: idem_db where
  "demo_db = \<lparr>rows = [\<lparr>RecID = 1, Scope = ''s'', IdempotencyKeyHash = ''k1'',
     RequestFingerprint = ''POST'' @ [CHR 0x0A] @ ''/'' @ [CHR 0x0A] @ ''anonymous'' @ [CHR 0x0A] @ ''p'',
     Status = IdempotencyStatusSucceeded, ResponseStatus = Some 200, ResponseBody = Some ''ok'',
     ErrorReason = None, LockedUntil = None, ExpiresAt = 86400000000100,
     CreatedAt = 100, UpdatedAt = 100\<rparr>], next_id = 2\<rparr>"

lemma demo_key: "NormalizeIdempotencyKey (IdempotencyKey (demo_opts p)) = Inr ''k1''"
  by (simp add: demo_opts_def NormalizeIdempotencyKey_def TrimSpace_graphic is_graphic_def)

lemma demo_opts_simps [simp]:
  "TTL (demo_opts p) = 0" "ExecutionTimeout (demo_opts p) = 0" "OptScope (demo_opts p) = ''s''"
  by (simp_all add: demo_opts_def)

lemma demo_fingerprint:
  "BuildIdempotencyFingerprint demo_ext (Method (demo_opts p)) (Route (demo_opts p))
     (ActorScope (demo_opts p)) (Payload (demo_opts p)) =
   Inr (''POST'' @ [CHR 0x0A] @ ''/'' @ [CHR 0x0A] @ ''anonymous'' @ [CHR 0x0A] @ p)"
  by (simp add: demo_opts_def demo_ext_def BuildIdempotencyFingerprint_def Let_def ToUpper_def
      is_ascii_def byte_upper_def)

lemmas demo_claim_defs = claim_record_def CreateProcessing_def insert_record_def find_key_def
  empty_db_def execute_claimed_def Let_def DefaultIdempotencyConfig_def unit_defs

lemma demo_run: "demo_execute 100 ''p'' (Inr ''ok'') empty_db = (Inr (''ok'', False), True, demo_db)"
  by (subst Execute_keyed [OF demo_key _ _ demo_fingerprint])
    (simp_all add: demo_claim_defs demo_db_def
      marshalStoredResponse_def demo_ext_def HashIdempotencyKey_def MarkSucceeded_def succeed_row_def
      update_where_def processing_record_def)


theorem Execute_runs_only_claimed_witness:
  "\<exists>fp i db1. holds_claim (claim_args_of demo_ext DefaultIdempotencyConfig (quiet_env 100) (demo_opts ''p'') ''k1'' fp) i db1
    \<and> claim_record demo_ext (quiet_env 100)
         (claim_args_of demo_ext DefaultIdempotencyConfig (quiet_env 100) (demo_opts ''p'') ''k1'' fp) empty_db
       = (Claimed i, db1)"
  using Execute_runs_only_claimed [OF wf_empty_db env_ok_quiet demo_run demo_key] by auto

theorem Execute_replays_witness:
  "demo_execute 200 ''p'' (Inr ''again'') demo_db = (Inr (''ok'', True), False, demo_db)"
proof (rule Execute_replays [OF wf_empty_db env_ok_quiet quiet_env_still demo_run demo_key _ same_call_refl])
  show "(200 :: int) < outcome_expiry DefaultIdempotencyConfig (quiet_env 100) (demo_opts ''p'')"
    by (simp add: DefaultIdempotencyConfig_def unit_defs)
qed (simp_all add: demo_ext_def TrimSpace_graphic is_graphic_def DefaultIdempotencyConfig_def)

theorem Execute_key_conflict_witness:
  "demo_execute 99999999999999999 ''q'' (Inr ''again'') demo_db
     = (Inl (to_error ErrIdempotencyKeyConflict), False, demo_db)"
  using Execute_key_conflict [OF wf_empty_db env_ok_quiet quiet_env_still demo_run demo_key _ _ demo_key
      demo_fingerprint [of "''q''"]]
  by (simp add: demo_fingerprint)


section \<open>Two limits of the design\<close>

text \<open>C31. A response that is longer than the configured limit is stored cut, with the marker
  \<^verbatim>\<open>...(truncated)\<close> behind it.  When the decoder rejects every text that ends in a closing
  parenthesis (as a JSON decoder does), the replay of such a request is not answered at all: it
  fails with the error of an unavailable store.\<close>

theorem Execute_replay_oversized:
  assumes "wf_db db" and "env_ok env" and "interfere env AtMark = (\<lambda>d. d)"
    and "Execute ext cfg rn env opts (Some (Inr data)) db = (Inr (data', b), True, db')"
    and "NormalizeIdempotencyKey (IdempotencyKey opts) = Inr key" and "key \<noteq> []"
    and "same_call ext opts opts2" and "t < outcome_expiry cfg env opts"
    and "marshal_data ext data = Inr raw"
    and "0 < MaxStoredResponseLen cfg" and "MaxStoredResponseLen cfg < int (length (RedactText ext raw))"
    and json: "\<And>s. \<exists>e. unmarshal ext (s @ '')'') = Inl e"
  shows "\<exists>e. Execute ext cfg2 False (quiet_env t) opts2 (Some out2) db' = (Inl (store_unavail (Some e)), False, db')"
proof -
  let ?body = "truncateUTF8 (RedactText ext raw) (MaxStoredResponseLen cfg) @ ''...(truncated)''"
  from stored_replay [OF assms(1-8), of cfg2 out2] assms(9-11)
  have run: "Execute ext cfg2 False (quiet_env t) opts2 (Some out2) db' = (replay_answer ext (Some ?body), False, db')"
    by (auto simp: marshalStoredResponse_def Let_def)
  have "?body = (truncateUTF8 (RedactText ext raw) (MaxStoredResponseLen cfg) @ ''...(truncated'') @ '')''" by simp
  with json obtain e where e: "unmarshal ext ?body = Inl e" by metis
  have "TrimSpace ?body \<noteq> []"
    using TrimSpace_keeps_graphic [of "CHR '')''" ?body] by (auto simp: is_graphic_def)
  with e run show ?thesis by (simp add: replay_answer_def decodeStoredResponse_def) blast
qed

definition strict_ext :: "(string, string) idem_ext" where
  "strict_ext = demo_ext\<lparr>unmarshal := (\<lambda>s. if s \<noteq> [] \<and> last s = CHR '')'' then Inl (PlainError ''json'') else Inr s)\<rparr>"

definition short_config :: idem_config where
  "short_config = DefaultIdempotencyConfig\<lparr>MaxStoredResponseLen := 4\<rparr>"

lemma strict_fingerprint:
  "BuildIdempotencyFingerprint strict_ext (Method (demo_opts p)) (Route (demo_opts p))
     (ActorScope (demo_opts p)) (Payload (demo_opts p)) =
   Inr (''POST'' @ [CHR 0x0A] @ ''/'' @ [CHR 0x0A] @ ''anonymous'' @ [CHR 0x0A] @ p)"
  by (simp add: demo_opts_def demo_ext_def strict_ext_def BuildIdempotencyFingerprint_def Let_def ToUpper_def
      is_ascii_def byte_upper_def)

lemma short_run:
  "Execute strict_ext short_config False (quiet_env 100) (demo_opts ''p'') (Some (Inr ''[1,2,3]'')) empty_db
    = (Inr (''[1,2,3]'', False), True, snd (snd
       (Execute strict_ext short_config False (quiet_env 100) (demo_opts ''p'') (Some (Inr ''[1,2,3]'')) empty_db)))"
  by (subst (1 2) Execute_keyed [OF demo_key _ _ strict_fingerprint])
    (simp_all add: demo_claim_defs marshalStoredResponse_def strict_ext_def short_config_def demo_ext_def
      MarkSucceeded_def succeed_row_def)

theorem Execute_replay_oversized_witness:
  "\<exists>e. Execute strict_ext short_config False (quiet_env 200) (demo_opts ''p'') (Some (Inr ''again''))
      (snd (snd (Execute strict_ext short_config False (quiet_env 100) (demo_opts ''p'') (Some (Inr ''[1,2,3]'')) empty_db)))
    = (Inl (store_unavail (Some e)), False,
       snd (snd (Execute strict_ext short_config False (quiet_env 100) (demo_opts ''p'') (Some (Inr ''[1,2,3]'')) empty_db)))"
  by (rule Execute_replay_oversized [OF wf_empty_db env_ok_quiet quiet_env_still short_run demo_key _ same_call_refl,
        where raw = "''[1,2,3]''"])
    (simp_all add: short_config_def DefaultIdempotencyConfig_def unit_defs strict_ext_def demo_ext_def)

definition race_env :: "go_time \<Rightarrow> idem_env" where
  "race_env t = (quiet_env t)\<lparr>interfere := (\<lambda>s d. if s = AtReclaimExpired
     then snd (snd (demo_execute t ''p'' (Inr ''first'') d)) else d)\<rparr>"

lemma race_env_simps [simp]:
  "fault (race_env t) s = NoFault" "dbnow (race_env t) s = t"
  "now_start (race_env t) = t" "now_done (race_env t) = t" "now_fail (race_env t) = t"
  "s \<noteq> AtReclaimExpired \<Longrightarrow> interfere (race_env t) s d = d"
  "interfere (race_env t) AtReclaimExpired d = snd (snd (demo_execute t ''p'' (Inr ''first'') d))"
  by (simp_all add: race_env_def)

lemmas demo_existing_defs = claim_record_def CreateProcessing_def insert_record_def find_key_def
  execute_claimed_def Let_def resolve_existing_def GetByScopeAndKeyHash_def reclaim_expired_def
  TryReclaim_def reclaim_row_def update_where_def lock_free_def processing_record_def
  HashIdempotencyKey_def marshalStoredResponse_def MarkSucceeded_def succeed_row_def time_defs

definition demo_db2 :: idem_db where
  "demo_db2 = \<lparr>rows = [\<lparr>RecID = 1, Scope = ''s'', IdempotencyKeyHash = ''k1'',
     RequestFingerprint = ''POST'' @ [CHR 0x0A] @ ''/'' @ [CHR 0x0A] @ ''anonymous'' @ [CHR 0x0A] @ ''p'',
     Status = IdempotencyStatusSucceeded, ResponseStatus = Some 200, ResponseBody = Some ''first'',
     ErrorReason = None, LockedUntil = None, ExpiresAt = 172800000000200,
     CreatedAt = 100, UpdatedAt = 86400000000200\<rparr>], next_id = 2\<rparr>"

lemma demo_ext_simps [simp]:
  "sha256hex demo_ext s = s" "marshal_data demo_ext d = Inr d" "RedactText demo_ext s = s"
  by (simp_all add: demo_ext_def)

lemma demo_config_simps [simp]:
  "DefaultTTL DefaultIdempotencyConfig = 86400000000000"
  "ProcessingTimeout DefaultIdempotencyConfig = 30000000000"
  "MaxStoredResponseLen DefaultIdempotencyConfig = 65536"
  by (simp_all add: DefaultIdempotencyConfig_def unit_defs)

lemma demo_second_run:
  "demo_execute 86400000000200 ''p'' (Inr ''first'') demo_db = (Inr (''first'', False), True, demo_db2)"
  by (subst Execute_keyed [OF demo_key _ _ demo_fingerprint])
    (simp_all add: demo_existing_defs demo_db_def demo_db2_def)

text \<open>C32. \<^verbatim>\<open>TryReclaim\<close> checks the status and the lock of a record but not its expiry.  Two requests that
  both find the record of an earlier success expired can therefore both run: the second one's
  conditional update still matches after the first has reclaimed the record, run and stored a
  fresh success.\<close>

theorem Execute_expired_race:
  "demo_execute 86400000000200 ''p'' (Inr ''first'') demo_db = (Inr (''first'', False), True, demo_db2)
   \<and> (let (res, ran, db') = Execute demo_ext DefaultIdempotencyConfig False (race_env 86400000000200)
          (demo_opts ''p'') (Some (Inr ''second'')) demo_db
      in ran \<and> res = Inr (''second'', False))"
proof -
  have db: "interfere (race_env 86400000000200) AtReclaimExpired demo_db = demo_db2"
    by (simp add: demo_second_run)
  let ?a = "claim_args_of demo_ext DefaultIdempotencyConfig (race_env 86400000000200) (demo_opts ''p'') ''k1''
    (''POST'' @ [CHR 0x0A] @ ''/'' @ [CHR 0x0A] @ ''anonymous'' @ [CHR 0x0A] @ ''p'')"
  have found: "find_key demo_db ''s'' ''k1'' = Some (hd (rows demo_db))"
    by (simp add: find_key_def demo_db_def)
  have "\<exists>d. reclaim_row 86400000000200 1 IdempotencyStatusSucceeded 86400000000200
      (ca_lockedUntil ?a) (ca_expiresAt ?a) demo_db2 = (True, d)"
    by (simp add: reclaim_row_def update_where_def lock_free_def demo_db2_def)
  then obtain d where "reclaim_row 86400000000200 1 IdempotencyStatusSucceeded 86400000000200
      (ca_lockedUntil ?a) (ca_expiresAt ?a) demo_db2 = (True, d)" ..
  then have "reclaim_expired (race_env 86400000000200) ?a (hd (rows demo_db)) demo_db
      = (Inr (True, hd (rows demo_db)), d)"
    by (simp add: reclaim_expired_def TryReclaim_def db time_defs del: race_env_simps(7))
      (simp add: demo_db_def)
  with found have "claim_record demo_ext (race_env 86400000000200) ?a demo_db = (Claimed 1, d)"
    by (simp add: claim_record_def CreateProcessing_def insert_record_def resolve_existing_def
        GetByScopeAndKeyHash_def processing_record_def HashIdempotencyKey_def) (simp add: demo_db_def)
  then have "Execute demo_ext DefaultIdempotencyConfig False (race_env 86400000000200) (demo_opts ''p'')
      (Some (Inr ''second'')) demo_db =
      execute_claimed demo_ext DefaultIdempotencyConfig (race_env 86400000000200) ?a 86400000000000 0 (Inr ''second'') 1 d"
    by (subst Execute_keyed [OF demo_key _ _ demo_fingerprint]) simp_all
  then show ?thesis using demo_second_run
    by (simp add: execute_claimed_def marshalStoredResponse_def MarkSucceeded_def succeed_row_def Let_def)
qed

end
