(* ===== verification/Idempotency_Leases.thy ===== *)
theory Idempotency_Leases
  imports Idempotency_Store
begin

text \<open>
  Leases on idempotency records as a state machine.  The processes that share the table
  (\<^verbatim>\<open>Execute\<close> and its renewals, the system operation lock, the cleanup service) act on it by the
  atomic statements of the repository; a step is one such statement, in any order.  Beside the
  table, the state has the clock and the leases handed out: a process that created or reclaimed a
  record holds a lease on it until the instant it wrote into \<^verbatim>\<open>locked_until\<close>, and a renewal moves
  that instant.  A lease stays in the state after its end, until its process writes its outcome.

  \<^verbatim>\<open>MarkSucceeded\<close> and \<^verbatim>\<open>MarkFailedRetryable\<close> write by the identifier of the record alone, and
  \<^verbatim>\<open>ExtendProcessingLock\<close> by its fingerprint: a process whose lease has ended can still write, to a
  record that another process may hold by then.  The state notes such records as strays; it
  is history and no step reads it.

  A statement uses the instant \<open>now\<close> at which its process last looked at the clock, so \<open>now\<close> is
  at most the time of the step.  Expiries are never before the lock they are written with: this
  is the condition on the configuration (processing timeout at most the record's lifetime).
\<close>

record lease =
  owner :: nat
  leased :: int
  leased_until :: go_time

record lease_state =
  clock :: go_time
  table :: idem_db
  leases :: "lease set"
  strays :: "int set"

definition live :: "lease_state \<Rightarrow> lease \<Rightarrow> bool" where
  "live s x \<longleftrightarrow> x \<in> leases s \<and> clock s < leased_until x"

text \<open>The records with stray writes, after a write of the holder of \<open>x\<close>.\<close>

definition note_stray :: "lease_state \<Rightarrow> lease \<Rightarrow> int set" where
  "note_stray s x = (if live s x then strays s else insert (leased x) (strays s))"

inductive lease_step :: "lease_state \<Rightarrow> lease_state \<Rightarrow> bool" where
  pass: "clock s \<le> t \<Longrightarrow> lease_step s (s\<lparr>clock := t\<rparr>)"
| create: "insert_record dbnow r (table s) = ((True, r'), db') \<Longrightarrow>
     Status r = IdempotencyStatusProcessing \<Longrightarrow> LockedUntil r = Some l \<Longrightarrow> l \<le> ExpiresAt r \<Longrightarrow>
     lease_step s (s\<lparr>table := db',
       leases := insert \<lparr>owner = p, leased = RecID r', leased_until = l\<rparr> (leases s)\<rparr>)"
| reclaim: "now \<le> clock s \<Longrightarrow> l \<le> e \<Longrightarrow> reclaim_row dbnow i st now l e (table s) = (True, db') \<Longrightarrow>
     lease_step s (s\<lparr>table := db',
       leases := insert \<lparr>owner = p, leased = i, leased_until = l\<rparr> (leases s)\<rparr>)"
| renew: "x \<in> leases s \<Longrightarrow> l \<le> e \<Longrightarrow> extend_row dbnow (leased x) fp l e (table s) = (True, db') \<Longrightarrow>
     lease_step s (s\<lparr>table := db',
       leases := insert (x\<lparr>leased_until := l\<rparr>) (leases s - {x}), strays := note_stray s x\<rparr>)"
| renew_lost: "extend_row dbnow i fp l e (table s) = (False, db') \<Longrightarrow>
     lease_step s (s\<lparr>table := db'\<rparr>)"
| finish_succeeded: "x \<in> leases s \<Longrightarrow>
     lease_step s (s\<lparr>table := snd (succeed_row dbnow (leased x) code body e (table s)),
       leases := leases s - {x}, strays := note_stray s x\<rparr>)"
| finish_failed: "x \<in> leases s \<Longrightarrow>
     lease_step s (s\<lparr>table := snd (fail_row dbnow (leased x) why l e (table s)),
       leases := leases s - {x}, strays := note_stray s x\<rparr>)"
| cleanup: "now \<le> clock s \<Longrightarrow>
     lease_step s (s\<lparr>table := snd (delete_expired_rows now lim (table s))\<rparr>)"

inductive reachable_leases :: "lease_state \<Rightarrow> bool" where
  start: "reachable_leases \<lparr>clock = t, table = empty_db, leases = {}, strays = {}\<rparr>"
| step: "reachable_leases s \<Longrightarrow> lease_step s s' \<Longrightarrow> reachable_leases s'"

inductive_cases lease_stepE: "lease_step s s'"

section \<open>The invariant\<close>

text \<open>A live lease on a record without stray writes is what the table says: its row is in processing and
  locked until its end.\<close>

definition backed :: "idem_db \<Rightarrow> lease \<Rightarrow> bool" where
  "backed db x \<longleftrightarrow> (\<exists>r. row_of db (leased x) = Some r \<and> Status r = IdempotencyStatusProcessing
     \<and> LockedUntil r = Some (leased_until x) \<and> leased_until x \<le> ExpiresAt r)"

definition sound :: "lease_state \<Rightarrow> lease \<Rightarrow> bool" where
  "sound s x \<longleftrightarrow> live s x \<and> leased x \<notin> strays s"

definition lease_inv :: "lease_state \<Rightarrow> bool" where
  "lease_inv s \<longleftrightarrow> wf_db (table s) \<and> (\<forall>x. sound s x \<longrightarrow> backed (table s) x)
     \<and> (\<forall>x y. sound s x \<longrightarrow> sound s y \<longrightarrow> leased x = leased y \<longrightarrow> x = y)"

lemma lease_invD:
  assumes "lease_inv s"
  shows "wf_db (table s)" and "sound s x \<Longrightarrow> backed (table s) x"
    and "sound s x \<Longrightarrow> sound s y \<Longrightarrow> leased x = leased y \<Longrightarrow> x = y"
  using assms unfolding lease_inv_def by blast+

lemma lease_invI:
  assumes "wf_db (table s)" and "\<And>x. sound s x \<Longrightarrow> backed (table s) x"
    and "\<And>x y. sound s x \<Longrightarrow> sound s y \<Longrightarrow> leased x = leased y \<Longrightarrow> x = y"
  shows "lease_inv s"
  using assms unfolding lease_inv_def by blast

text \<open>A change of the row of one record keeps the leases on the others.\<close>

lemma backed_other:
  "backed db x \<Longrightarrow> row_of db' (leased x) = row_of db (leased x) \<Longrightarrow> backed db' x"
  by (simp add: backed_def)

lemma inv_grant:
  assumes inv: "lease_inv s" and wf: "wf_db db'"
    and free: "\<And>x. sound s x \<Longrightarrow> leased x \<noteq> leased z"
    and others: "\<And>j. j \<noteq> leased z \<Longrightarrow> row_of db' j = row_of (table s) j"
    and z: "backed db' z"
  shows "lease_inv (s\<lparr>table := db', leases := insert z (leases s)\<rparr>)"
proof -
  let ?s = "s\<lparr>table := db', leases := insert z (leases s)\<rparr>"
  have new: "sound ?s x \<Longrightarrow> x = z \<or> sound s x" for x by (auto simp: live_def sound_def)
  show ?thesis
  proof (rule lease_invI)
    fix x assume "sound ?s x"
    then show "backed (table ?s) x"
      using new [of x] z backed_other [OF lease_invD(2) [OF inv] others [OF free]] by auto
  next
    fix x y assume "sound ?s x" "sound ?s y" "leased x = leased y"
    then show "x = y" using new [of x] new [of y] free [of x] free [of y] lease_invD(3) [OF inv, of x y] by metis
  qed (simp add: wf)
qed

text \<open>A write of a holder to its record: only a live holder may claim what the row is then.\<close>

lemma inv_change:
  assumes inv: "lease_inv s" and x: "x \<in> leases s" and wf: "wf_db db'"
    and others: "\<And>j. j \<noteq> leased x \<Longrightarrow> row_of db' j = row_of (table s) j"
    and L: "L \<subseteq> insert z (leases s - {x})" "leased z = leased x" "z \<in> L \<Longrightarrow> backed db' z"
  shows "lease_inv (s\<lparr>table := db', leases := L, strays := note_stray s x\<rparr>)"
proof -
  let ?s = "s\<lparr>table := db', leases := L, strays := note_stray s x\<rparr>"
  have new: "sound ?s y \<Longrightarrow> (y = z \<and> z \<in> L) \<or> (sound s y \<and> leased y \<noteq> leased x)" for y
  proof -
    assume y: "sound ?s y"
    then have y1: "y \<in> L" "clock s < leased_until y" "leased y \<notin> note_stray s x" by (simp_all add: sound_def live_def)
    show ?thesis
    proof (cases "y = z")
      case False
      then have s: "sound s y" "y \<noteq> x" using y1 L(1) by (auto simp: sound_def live_def note_stray_def split: if_splits)
      have "leased y \<noteq> leased x"
      proof (cases "live s x")
        case True
        then show ?thesis using s lease_invD(3) [OF inv s(1), of x] by (auto simp: sound_def)
      next
        case False
        then show ?thesis using y1(3) by (auto simp: note_stray_def)
      qed
      with s show ?thesis by simp
    qed (use y1 in simp)
  qed
  show ?thesis
  proof (rule lease_invI)
    fix y assume "sound ?s y"
    then show "backed (table ?s) y"
      using new [of y] L(3) backed_other [OF lease_invD(2) [OF inv] others, of y] by auto
  next
    fix y y' assume "sound ?s y" "sound ?s y'" "leased y = leased y'"
    then show "y = y'" using new [of y] new [of y'] L(2) lease_invD(3) [OF inv, of y y'] by metis
  qed (simp add: wf)
qed

section \<open>Every step keeps it\<close>

lemma lease_step_inv:
  assumes "lease_step s s'" and inv: "lease_inv s"
  shows "lease_inv s'"
  using assms(1)
proof (cases rule: lease_step.cases)
  case (pass t)
  with inv show ?thesis by (auto simp: lease_inv_def sound_def live_def)
next
  case (create dbnow r r' db' l p)
  have ok: "LockedUntil r \<noteq> None" using create by simp
  obtain i x where ix: "r' = r\<lparr>RecID := i, CreatedAt := dbnow, UpdatedAt := dbnow\<rparr>"
    "row_of db' i = Some x" "Status x = Status r" "LockedUntil x = LockedUntil r" "ExpiresAt x = ExpiresAt r"
    using sql.lookup_fresh_insert [OF lease_invD(1) [OF inv] create(3) ok, of dbnow] create(2) by auto
  obtain j where j: "row_of (table s) j = None" "RecID r' = j"
     "\<And>k. k \<noteq> j \<Longrightarrow> row_of db' k = row_of (table s) k"
  proof -
    have "find_key (table s) (Scope r) (IdempotencyKeyHash r) = None"
      using create(2) by (auto simp: insert_record_def split: option.splits)
    from sql.insert_free [OF lease_invD(1) [OF inv] this, of dbnow] create(2) that show thesis by fastforce
  qed
  have "lease_inv (s\<lparr>table := db', leases := insert \<lparr>owner = p, leased = RecID r', leased_until = l\<rparr> (leases s)\<rparr>)"
  proof (rule inv_grant [OF inv])
    show "wf_db db'" using sql.insert_wf [OF lease_invD(1) [OF inv] create(3) ok, of dbnow] create(2) by simp
    show "sound s x \<Longrightarrow> leased x \<noteq> leased \<lparr>owner = p, leased = RecID r', leased_until = l\<rparr>" for x
      using lease_invD(2) [OF inv, of x] j by (auto simp: backed_def)
  qed (use j ix create in \<open>auto simp: backed_def\<close>)
  with create show ?thesis by simp
next
  case (reclaim now l e dbnow i st db' p)
  note wf = lease_invD(1) [OF inv]
  obtain r where r: "row_of (table s) i = Some r" "Status r = st" "lock_free now r"
    using sql.reclaim_taken [OF wf, of dbnow i st now l e] reclaim by auto
  have db': "row_of db' j = map_option (\<lambda>r. if j = i \<and> Status r = st \<and> lock_free now r
      then r\<lparr>Status := IdempotencyStatusProcessing, LockedUntil := Some l,
              ErrorReason := None, UpdatedAt := dbnow, ExpiresAt := e\<rparr> else r) (row_of (table s) j)" for j
    using sql.reclaim_rows [OF wf, of dbnow i st now l e j] reclaim by simp
  have "lease_inv (s\<lparr>table := db', leases := insert \<lparr>owner = p, leased = i, leased_until = l\<rparr> (leases s)\<rparr>)"
  proof (rule inv_grant [OF inv])
    show "wf_db db'" using sql.reclaim_wf [OF wf, of dbnow i st now l e] reclaim by simp
    show "sound s x \<Longrightarrow> leased x \<noteq> leased \<lparr>owner = p, leased = i, leased_until = l\<rparr>" for x
      using lease_invD(2) [OF inv, of x] r reclaim by (auto simp: backed_def lock_free_def sound_def live_def)
    show "row_of db' j = row_of (table s) j" if "j \<noteq> leased \<lparr>owner = p, leased = i, leased_until = l\<rparr>" for j
      using db' that by (simp add: option.map_ident)
  qed (use db' r reclaim in \<open>auto simp: backed_def\<close>)
  with reclaim show ?thesis by simp
next
  case (renew x l e dbnow fp db')
  note wf = lease_invD(1) [OF inv]
  have db': "row_of db' j = map_option (\<lambda>r. if j = leased x \<and> Status r = IdempotencyStatusProcessing
      \<and> RequestFingerprint r = fp then r\<lparr>LockedUntil := Some l, ExpiresAt := e, UpdatedAt := dbnow\<rparr> else r)
      (row_of (table s) j)" for j
    using sql.extend_rows [OF wf, of dbnow "leased x" fp l e j] renew by simp
  obtain r where r: "row_of (table s) (leased x) = Some r" "Status r = IdempotencyStatusProcessing"
      "RequestFingerprint r = fp"
    using sql.extend_taken [OF wf, of dbnow "leased x" fp l e] renew by auto
  have "lease_inv (s\<lparr>table := db', leases := insert (x\<lparr>leased_until := l\<rparr>) (leases s - {x}), strays := note_stray s x\<rparr>)"
  proof (rule inv_change [OF inv renew(2), where z = "x\<lparr>leased_until := l\<rparr>"])
    show "wf_db db'" using sql.extend_wf [OF wf, of dbnow "leased x" fp l e] renew by simp
    show "row_of db' j = row_of (table s) j" if "j \<noteq> leased x" for j
      using db' that by (simp add: option.map_ident)
  qed (use db' r renew in \<open>auto simp: backed_def\<close>)
  with renew show ?thesis by simp
next
  case (renew_lost dbnow i fp l e db')
  note wf = lease_invD(1) [OF inv]
  have "\<not> (\<exists>r. row_of (table s) i = Some r \<and> Status r = IdempotencyStatusProcessing \<and> RequestFingerprint r = fp)"
    using sql.extend_taken [OF wf, of dbnow i fp l e] renew_lost by simp
  then have "row_of db' j = row_of (table s) j" for j
    using sql.extend_rows [OF wf, of dbnow i fp l e j] renew_lost
    by (cases "row_of (table s) j") auto
  moreover have "wf_db db'" using sql.extend_wf [OF wf, of dbnow i fp l e] renew_lost by simp
  ultimately show ?thesis using inv renew_lost(1)
    by (auto simp: lease_inv_def sound_def live_def intro: backed_other)
next
  case (finish_succeeded x dbnow code body e)
  have "row_of (snd (succeed_row dbnow (leased x) code body e (table s))) j = row_of (table s) j"
    if "j \<noteq> leased x" for j
    using sql.succeed_rows [OF lease_invD(1) [OF inv]] that by (simp add: option.map_ident)
  from inv_change [OF inv finish_succeeded(2) sql.succeed_wf [OF lease_invD(1) [OF inv]] this,
      of "leases s - {x}" x]
  show ?thesis using finish_succeeded(1) by (simp add: subset_insertI2)
next
  case (finish_failed x dbnow why l e)
  have "row_of (snd (fail_row dbnow (leased x) why l e (table s))) j = row_of (table s) j"
    if "j \<noteq> leased x" for j
    using sql.fail_rows [OF lease_invD(1) [OF inv]] that by (simp add: option.map_ident)
  from inv_change [OF inv finish_failed(2) sql.fail_wf [OF lease_invD(1) [OF inv]] this,
      of "leases s - {x}" x]
  show ?thesis using finish_failed(1) by (simp add: subset_insertI2)
next
  case (cleanup now lim)
  note wf = lease_invD(1) [OF inv]
  have "backed (table s) x \<Longrightarrow> sound s x \<Longrightarrow> backed (snd (delete_expired_rows now lim (table s))) x" for x
    using sql.cleanup_keeps [OF wf, of "leased x" _ now lim] cleanup(2) by (fastforce simp: backed_def sound_def live_def)
  then show ?thesis using inv sql.cleanup_wf [OF wf] cleanup(1)
    by (auto simp: lease_inv_def sound_def live_def)
qed

lemma reachable_lease_inv: "reachable_leases s \<Longrightarrow> lease_inv s"
proof (induction rule: reachable_leases.induct)
  case (start t)
  then show ?case by (simp add: lease_inv_def sound_def live_def wf_empty_db)
qed (rule lease_step_inv)

definition lease_key :: "lease_state \<Rightarrow> lease \<Rightarrow> (string \<times> string) option" where
  "lease_key s x = map_option (\<lambda>r. (Scope r, IdempotencyKeyHash r)) (row_of (table s) (leased x))"

text \<open>C4. Mutual exclusion: in every state the processes can reach by creating, reclaiming,
  renewing, finishing and cleaning up records in any order, at most one live lease exists for a
  scope and key, and its record is in processing and locked in the table until the lease ends,
  unless a process has written its outcome to that record, or renewed it, after its own lease had ended.\<close>

theorem lease_exclusion:
  assumes "reachable_leases s" and "live s x" and "live s y" and "lease_key s x = lease_key s y"
    and "leased x \<notin> strays s"
  shows "x = y \<and> backed (table s) x"
proof -
  have inv: "lease_inv s" by (rule reachable_lease_inv [OF assms(1)])
  note wf = lease_invD(1) [OF inv]
  have x: "sound s x" using assms(2,5) by (simp add: sound_def)
  then have "backed (table s) x" by (rule lease_invD(2) [OF inv])
  then obtain r where r: "row_of (table s) (leased x) = Some r" by (auto simp: backed_def)
  with assms(4) obtain r' where r': "row_of (table s) (leased y) = Some r'"
    "Scope r = Scope r'" "IdempotencyKeyHash r = IdempotencyKeyHash r'"
    by (cases "row_of (table s) (leased y)") (auto simp: lease_key_def)
  have ids: "RecID r = leased x" "RecID r' = leased y" using sql.row_ident [OF wf] r r'(1) by auto
  from r r' ids have "find_key (table s) (Scope r) (IdempotencyKeyHash r) = Some r"
    and "find_key (table s) (Scope r) (IdempotencyKeyHash r) = Some r'"
    by (simp_all add: find_key_row_of [OF wf])
  with ids have "leased x = leased y" by simp
  moreover from this have "sound s y" using assms(3,5) by (simp add: sound_def)
  ultimately show ?thesis using lease_invD(2,3) [OF inv] x by blast
qed

definition demo_record :: idem_record where
  "demo_record = \<lparr>RecID = 0, Scope = ''s'', IdempotencyKeyHash = ''h'', RequestFingerprint = ''f'',
     Status = IdempotencyStatusProcessing, ResponseStatus = None, ResponseBody = None, ErrorReason = None,
     LockedUntil = Some 30, ExpiresAt = 100, CreatedAt = 0, UpdatedAt = 0\<rparr>"

text \<open>One process creates a record, its lease runs out and a second one reclaims it.\<close>

definition demo_taken :: lease_state where
  "demo_taken = \<lparr>clock = 40, table = snd (reclaim_row 40 1 IdempotencyStatusProcessing 40 70 140
       (snd (insert_record 0 demo_record empty_db))),
     leases = {\<lparr>owner = 2, leased = 1, leased_until = 70\<rparr>, \<lparr>owner = 1, leased = 1, leased_until = 30\<rparr>}, strays = {}\<rparr>"

lemma demo_taken_reachable: "reachable_leases demo_taken"
proof -
  let ?s0 = "\<lparr>clock = 0, table = empty_db, leases = {}, strays = {}\<rparr> :: lease_state"
  let ?a = "\<lparr>owner = 1, leased = 1, leased_until = 30\<rparr>"
  let ?s1 = "?s0\<lparr>table := snd (insert_record 0 demo_record empty_db), leases := insert ?a {}\<rparr>"
  have "lease_step ?s0 ?s1"
    using lease_step.create [of 0 demo_record ?s0 "demo_record\<lparr>RecID := 1\<rparr>" _ 30 1]
    by (simp add: insert_record_def find_key_def empty_db_def demo_record_def)
  moreover have "lease_step ?s1 (?s1\<lparr>clock := 40\<rparr>)" by (rule lease_step.pass) simp
  moreover have "lease_step (?s1\<lparr>clock := 40\<rparr>) demo_taken"
    using lease_step.reclaim [of 40 "?s1\<lparr>clock := 40\<rparr>" 70 140 40 1 IdempotencyStatusProcessing _ 2]
    by (simp add: demo_taken_def reclaim_row_def update_where_def lock_free_def insert_record_def
        find_key_def empty_db_def demo_record_def)
  ultimately show ?thesis by (meson reachable_leases.intros)
qed

theorem lease_exclusion_witness:
  "\<lparr>owner = 2, leased = 1, leased_until = 70\<rparr> = \<lparr>owner = 2, leased = 1, leased_until = 70\<rparr>
    \<and> backed (table demo_taken) \<lparr>owner = 2, leased = 1, leased_until = 70\<rparr>"
  by (rule lease_exclusion [OF demo_taken_reachable]) (simp_all add: live_def demo_taken_def)

text \<open>
  The exception is real: the first process, whose lease has ended, reports its failure.  That frees
  the record of the second one, a third process reclaims it, and two leases on it are alive.
\<close>

definition demo_overlap :: lease_state where
  "demo_overlap = \<lparr>clock = 40, table = snd (reclaim_row 40 1 IdempotencyStatusFailedRetryable 40 75 145
       (snd (fail_row 40 1 ''late'' 40 140 (table demo_taken)))),
     leases = {\<lparr>owner = 3, leased = 1, leased_until = 75\<rparr>, \<lparr>owner = 2, leased = 1, leased_until = 70\<rparr>}, strays = {1}\<rparr>"

theorem late_outcome_frees_record:
  "reachable_leases demo_overlap
   \<and> live demo_overlap \<lparr>owner = 2, leased = 1, leased_until = 70\<rparr> \<and> live demo_overlap \<lparr>owner = 3, leased = 1, leased_until = 75\<rparr>"
proof -
  let ?a = "\<lparr>owner = 1, leased = 1, leased_until = 30\<rparr>"
  let ?s = "demo_taken\<lparr>table := snd (fail_row 40 1 ''late'' 40 140 (table demo_taken)), leases := leases demo_taken - {?a}, strays := {1}\<rparr>"
  have "lease_step demo_taken ?s"
    using lease_step.finish_failed [of ?a demo_taken 40 "''late''" 40 140]
    by (simp add: note_stray_def live_def demo_taken_def)
  moreover have "lease_step ?s demo_overlap"
    using lease_step.reclaim [of 40 ?s 75 145 40 1 IdempotencyStatusFailedRetryable _ 3]
    by (simp add: demo_overlap_def demo_taken_def fail_row_def reclaim_row_def update_where_def lock_free_def
        insert_record_def find_key_def empty_db_def demo_record_def insert_commute)
  ultimately have "reachable_leases demo_overlap" using demo_taken_reachable by (meson reachable_leases.step)
  then show ?thesis by (simp add: live_def demo_overlap_def)
qed

end
