(* ===== verification/System_Lock.thy ===== *)
theory System_Lock
  imports Idempotency
begin

text \<open>
  The global lock of the admin's system operations
  (\<^verbatim>\<open>backend/internal/service/system_operation_lock_service.go\<close>) and the cleanup of expired records
  (\<^verbatim>\<open>backend/internal/service/idempotency_cleanup_service.go\<close>), both on the table of idempotency
  records.  The calls of one \<^verbatim>\<open>Acquire\<close> may fail and may be interleaved with other processes, as in
  \<^const>\<open>Execute\<close>; the renewal goroutine is given by one turn of its loop.
\<close>

section \<open>The lock service\<close>

definition systemOperationLockScope :: string where
  "systemOperationLockScope = ''admin.system.operations.global_lock''"
definition systemOperationLockKey :: string where
  "systemOperationLockKey = ''global-system-operation-lock''"

definition ErrSystemOperationBusy :: app_error where
  "ErrSystemOperationBusy = Conflict ''SYSTEM_OPERATION_BUSY'' ''another system operation is in progress''"

record sys_lock =
  recordID :: int
  operationID :: string

definition OperationID :: "sys_lock option \<Rightarrow> string" where
  "OperationID l = (case l of None \<Rightarrow> [] | Some x \<Rightarrow> operationID x)"

record lock_service =
  lock_lease :: duration
  lock_renewInterval :: duration
  lock_ttl :: duration

definition NewSystemOperationLockService :: "idem_config \<Rightarrow> lock_service" where
  "NewSystemOperationLockService cfg =
     (let lease = (if ProcessingTimeout cfg \<le> 0 then 30 * Second else ProcessingTimeout cfg);
          renewInterval = (if lease sdiv 3 < Second then Second else lease sdiv 3);
          ttl = (if SystemOperationTTL cfg \<le> 0 then Hour else SystemOperationTTL cfg)
      in \<lparr>lock_lease = lease, lock_renewInterval = renewInterval, lock_ttl = ttl\<rparr>)"

definition busyError :: "string \<Rightarrow> go_time option \<Rightarrow> go_time \<Rightarrow> go_error" where
  "busyError opID lockedUntil now =
     (let m1 = (if opID \<noteq> [] then [(''operation_id'', opID)] else []);
          m2 = (case lockedUntil of
                  None \<Rightarrow> []
                | Some l \<Rightarrow> (let sec = whole_seconds (time_Sub l now); sec' = (if sec \<le> 0 then 1 else sec)
                             in [(''retry_after'', Itoa sec')]))
      in if m1 @ m2 = [] then to_error ErrSystemOperationBusy
         else to_error (WithMetadata ErrSystemOperationBusy (Some (m1 @ m2))))"

definition lock_record :: "string \<Rightarrow> string \<Rightarrow> go_time \<Rightarrow> go_time \<Rightarrow> idem_record" where
  "lock_record keyHash opID lockedUntil expiresAt =
     \<lparr>RecID = 0, Scope = systemOperationLockScope, IdempotencyKeyHash = keyHash,
      RequestFingerprint = opID, Status = IdempotencyStatusProcessing,
      ResponseStatus = None, ResponseBody = None, ErrorReason = None,
      LockedUntil = Some lockedUntil, ExpiresAt = expiresAt, CreatedAt = 0, UpdatedAt = 0\<rparr>"

text \<open>
  The part of \<^verbatim>\<open>Acquire\<close> for a record that exists already: the identifier of the reclaimed record.
  The error of the second read is dropped, as in the code.
\<close>

definition acquire_existing ::
    "idem_env \<Rightarrow> string \<Rightarrow> go_time \<Rightarrow> go_time \<Rightarrow> go_time \<Rightarrow> idem_db \<Rightarrow> (go_error, int) result \<times> idem_db" where
  "acquire_existing env keyHash now lockedUntil expiresAt db =
     (case GetByScopeAndKeyHash (fault env AtGet) systemOperationLockScope keyHash (interfere env AtGet db) of
        (Inl e, db1) \<Rightarrow> (Inl (store_unavail (Some e)), db1)
      | (Inr None, db1) \<Rightarrow> (Inl (to_error ErrIdempotencyStoreUnavail), db1)
      | (Inr (Some existing), db1) \<Rightarrow>
          (if Status existing = IdempotencyStatusProcessing
              \<and> (case LockedUntil existing of None \<Rightarrow> False | Some l \<Rightarrow> time_After l now)
           then (Inl (busyError (RequestFingerprint existing) (LockedUntil existing) now), db1)
           else (case TryReclaim (fault env AtReclaim) (dbnow env AtReclaim) (RecID existing) (Status existing)
                        now lockedUntil expiresAt (interfere env AtReclaim db1) of
                   (Inl e, db2) \<Rightarrow> (Inl (store_unavail (Some e)), db2)
                 | (Inr True, db2) \<Rightarrow> (Inr (RecID existing), db2)
                 | (Inr False, db2) \<Rightarrow>
                     (case GetByScopeAndKeyHash (fault env AtGetLatest) systemOperationLockScope keyHash
                             (interfere env AtGetLatest db2) of
                        (Inr (Some latest), db3) \<Rightarrow>
                          (Inl (busyError (RequestFingerprint latest) (LockedUntil latest) now), db3)
                      | (_, db3) \<Rightarrow> (Inl (to_error ErrSystemOperationBusy), db3)))))"

definition Acquire ::
    "(string \<Rightarrow> string) \<Rightarrow> lock_service option \<Rightarrow> idem_env \<Rightarrow> string \<Rightarrow> idem_db
       \<Rightarrow> (go_error, sys_lock) result \<times> idem_db" where
  "Acquire hash service env opID db = (case service of
       None \<Rightarrow> (Inl (to_error ErrIdempotencyStoreUnavail), db)
     | Some s \<Rightarrow>
         if opID = [] then
           (Inl (to_error (BadRequest ''SYSTEM_OPERATION_ID_REQUIRED'' ''operation id is required'')), db)
         else (let now = now_start env;
                   expiresAt = time_Add now (lock_ttl s);
                   lockedUntil = time_Add now (lock_lease s);
                   keyHash = hash systemOperationLockKey
               in case CreateProcessing (fault env AtCreate) (dbnow env AtCreate)
                         (Some (lock_record keyHash opID lockedUntil expiresAt)) (interfere env AtCreate db) of
                    (Inl e, db1) \<Rightarrow> (Inl (store_unavail (Some e)), db1)
                  | (Inr (owned, r), db1) \<Rightarrow>
                      (case (if owned then (Inr (case r of None \<Rightarrow> 0 | Some r' \<Rightarrow> RecID r'), db1)
                             else acquire_existing env keyHash now lockedUntil expiresAt db1) of
                         (Inl e, db2) \<Rightarrow> (Inl e, db2)
                       | (Inr i, db2) \<Rightarrow>
                           (if i = 0 then (Inl (to_error ErrIdempotencyStoreUnavail), db2)
                            else (Inr \<lparr>recordID = i, operationID = opID\<rparr>, db2)))))"

text \<open>
  \<^verbatim>\<open>Release\<close> reads the clock for the expiry and, after a failure, again for the lock.  (\<^verbatim>\<open>updated_at\<close>
  gets the first of these instants here and in the renewal.)
\<close>

definition Release ::
    "lock_service option \<Rightarrow> db_fault \<Rightarrow> go_time \<Rightarrow> go_time \<Rightarrow> sys_lock option \<Rightarrow> bool \<Rightarrow> string \<Rightarrow> idem_db
       \<Rightarrow> (go_error, unit) result \<times> idem_db" where
  "Release service f now now2 lock succeeded failureReason db = (case (service, lock) of
       (Some s, Some l) \<Rightarrow>
         (let expiresAt = time_Add now (lock_ttl s) in
          if succeeded then
            MarkSucceeded f now (recordID l) 200
              (''{\"operation_id\":\"'' @ operationID l @ ''\",\"released\":true}'') expiresAt db
          else MarkFailedRetryable f now (recordID l)
                 (if failureReason = [] then ''SYSTEM_OPERATION_FAILED'' else failureReason) now2 expiresAt db)
     | _ \<Rightarrow> (Inr (), db))"

text \<open>One turn of \<^verbatim>\<open>renewLoop\<close>.\<close>

definition renewLoop_tick ::
    "lock_service \<Rightarrow> db_fault \<Rightarrow> go_time \<Rightarrow> sys_lock \<Rightarrow> idem_db \<Rightarrow> renew_next \<times> idem_db" where
  "renewLoop_tick s f now lock db =
     (case ExtendProcessingLock f now (recordID lock) (operationID lock)
             (time_Add now (lock_lease s)) (time_Add now (lock_ttl s)) db of
        (Inl e, db1) \<Rightarrow> (RenewContinue, db1)
      | (Inr True, db1) \<Rightarrow> (RenewContinue, db1)
      | (Inr False, db1) \<Rightarrow> (RenewStop, db1))"

section \<open>The cleanup service\<close>

record cleanup_service =
  cleanup_interval :: duration
  cleanup_batch :: int

text \<open>The configured period in seconds and batch size, when a configuration is given.\<close>

definition NewIdempotencyCleanupService :: "(int \<times> int) option \<Rightarrow> cleanup_service" where
  "NewIdempotencyCleanupService cfg = (case cfg of
       None \<Rightarrow> \<lparr>cleanup_interval = 60 * Second, cleanup_batch = 500\<rparr>
     | Some (secs, n) \<Rightarrow>
         \<lparr>cleanup_interval = (if 0 < secs then wrap64 (secs * Second) else 60 * Second),
          cleanup_batch = (if 0 < n then n else 500)\<rparr>)"

definition cleanupOnce :: "cleanup_service \<Rightarrow> db_fault \<Rightarrow> go_time \<Rightarrow> idem_db \<Rightarrow> idem_db" where
  "cleanupOnce s f now db = snd (DeleteExpired f now (cleanup_batch s) db)"

section \<open>Laws\<close>

lemma NewSystemOperationLockService_pos:
  "0 < lock_lease (NewSystemOperationLockService cfg)"
  "0 < lock_ttl (NewSystemOperationLockService cfg)"
  "Second \<le> lock_renewInterval (NewSystemOperationLockService cfg)"
  by (simp_all add: NewSystemOperationLockService_def Let_def unit_defs)

definition lock_row :: "(string \<Rightarrow> string) \<Rightarrow> idem_record \<Rightarrow> bool" where
  "lock_row hash r \<longleftrightarrow> Scope r = systemOperationLockScope \<and> IdempotencyKeyHash r = hash systemOperationLockKey"

lemma lock_row_same_request: "same_request r r' \<Longrightarrow> lock_row hash r' = lock_row hash r"
  by (auto simp: same_request_def lock_row_def)

lemma lock_row_find:
  "wf_db db \<Longrightarrow> row_of db i = Some r \<Longrightarrow> lock_row hash r \<Longrightarrow>
     find_key db systemOperationLockScope (hash systemOperationLockKey) = Some r"
  using sql.row_ident [of db i r] by (simp add: find_key_row_of lock_row_def)

text \<open>What \<^verbatim>\<open>Acquire\<close> leaves in the table when it grants the lock.\<close>

lemma Acquire_create:
  assumes wf: "wf_db d"
    and call: "CreateProcessing f n (Some (lock_record (hash systemOperationLockKey) opID l e)) d
      = (Inr (True, Some x), db')"
  shows "wf_db db' \<and> RecID x \<noteq> 0 \<and> (\<exists>r. row_of db' (RecID x) = Some r \<and> lock_row hash r
    \<and> Status r = IdempotencyStatusProcessing \<and> LockedUntil r = Some l \<and> ExpiresAt r = e
    \<and> RequestFingerprint r = opID)"
proof -
  let ?r = "lock_record (hash systemOperationLockKey) opID l e"
  from call have stmt: "insert_record n ?r d = ((True, x), db')"
    by (auto simp: CreateProcessing_def elim!: sql_call_InrE split: prod.splits)
  have ok: "Status ?r = IdempotencyStatusProcessing" "LockedUntil ?r \<noteq> None"
    by (simp_all add: lock_record_def)
  have ins: "fst (fst (insert_record n ?r d))" using stmt by simp
  from sql.lookup_fresh_insert [OF wf ok ins] sql.insert_wf [OF wf ok, of n] stmt show ?thesis
    by (auto simp: lock_record_def lock_row_def same_request_def)
qed

lemma acquire_existing_holds:
  assumes wf: "wf_db db" and env: "env_ok env"
    and call: "acquire_existing env (hash systemOperationLockKey) now l e db = (Inr i, db')"
  shows "wf_db db' \<and> i \<noteq> 0 \<and> (\<exists>r. row_of db' i = Some r \<and> lock_row hash r
    \<and> Status r = IdempotencyStatusProcessing \<and> LockedUntil r = Some l \<and> ExpiresAt r = e)"
proof -
  from call obtain x d1 where
    get: "GetByScopeAndKeyHash (fault env AtGet) systemOperationLockScope (hash systemOperationLockKey)
        (interfere env AtGet db) = (Inr (Some x), d1)"
    and rc: "TryReclaim (fault env AtReclaim) (dbnow env AtReclaim) (RecID x) (Status x) now l e
        (interfere env AtReclaim d1) = (Inr True, db')" and i: "i = RecID x"
    by (auto simp: acquire_existing_def split: sum.splits prod.splits option.splits if_splits bool.splits)
  have wf1: "wf_db d1" and x: "row_of d1 (RecID x) = Some x" "lock_row hash x"
    using Get_db [OF get] env_okD(1) [OF env wf, of AtGet] find_key_row_of
    by (metis, metis, metis lock_row_def)
  have wf2: "wf_db (interfere env AtReclaim d1)" by (rule env_okD(1) [OF env wf1])
  from TryReclaim_True [OF wf2 rc] obtain r r' where
    r: "row_of (interfere env AtReclaim d1) (RecID x) = Some r" and
    r': "row_of db' (RecID x) = Some r'" "Status r' = IdempotencyStatusProcessing"
      "LockedUntil r' = Some l" "ExpiresAt r' = e" "same_request r r'" by blast
  from env_okD(2) [OF env wf1 x(1) r] r'(5) x(2) have "lock_row hash r'"
    using lock_row_same_request by metis
  moreover have "RecID x \<noteq> 0" using sql.row_ident [OF wf1 x(1)] by simp
  ultimately show ?thesis using TryReclaim_wf [OF wf2 rc] r' i by auto
qed

lemma Acquire_holds:
  assumes wf: "wf_db db" and env: "env_ok env"
    and call: "Acquire hash (Some s) env opID db = (Inr lk, db')"
  shows "operationID lk = opID \<and> wf_db db' \<and> (\<exists>r. row_of db' (recordID lk) = Some r \<and> lock_row hash r
    \<and> Status r = IdempotencyStatusProcessing \<and> LockedUntil r = Some (now_start env + lock_lease s)
    \<and> ExpiresAt r = now_start env + lock_ttl s)"
proof -
  let ?l = "now_start env + lock_lease s" and ?e = "now_start env + lock_ttl s"
  let ?d = "interfere env AtCreate db"
  have wf0: "wf_db ?d" by (rule env_okD(1) [OF env wf])
  obtain res d1 where create: "CreateProcessing (fault env AtCreate) (dbnow env AtCreate)
      (Some (lock_record (hash systemOperationLockKey) opID ?l ?e)) ?d = (res, d1)" by fastforce
  with call obtain owned x where res: "res = Inr (owned, Some x)"
    by (auto simp: Acquire_def Let_def CreateProcessing_def sql_call_def
        split: if_splits sum.splits prod.splits db_fault.splits)
  have wf1: "wf_db d1"
  proof -
    have "wf_db (snd (insert_record (dbnow env AtCreate) (lock_record (hash systemOperationLockKey) opID ?l ?e) ?d))"
      by (rule sql.insert_wf [OF wf0]) (simp_all add: lock_record_def)
    with wf0 create show ?thesis
      by (auto simp: CreateProcessing_def dest!: sql_call_db split: prod.splits)
  qed
  show ?thesis
  proof (cases owned)
    case True
    with Acquire_create [OF wf0, of "fault env AtCreate" "dbnow env AtCreate" hash opID ?l ?e x d1] create res call
    show ?thesis by (auto simp: Acquire_def Let_def split: if_splits)
  next
    case False
    with create res call obtain i where
      ex: "acquire_existing env (hash systemOperationLockKey) (now_start env) ?l ?e d1 = (Inr i, db')"
      and lk: "lk = \<lparr>recordID = i, operationID = opID\<rparr>"
      by (auto simp: Acquire_def Let_def split: if_splits sum.splits prod.splits)
    from acquire_existing_holds [where hash = hash, OF wf1 env ex] lk show ?thesis by auto
  qed
qed

text \<open>A quiet \<^verbatim>\<open>Acquire\<close> when the record exists.\<close>

lemma Acquire_existing:
  assumes wf: "wf_db db" and r: "row_of db i = Some r" "lock_row hash r" and opID: "opID \<noteq> []"
  shows "Status r = IdempotencyStatusProcessing \<Longrightarrow> LockedUntil r = Some l \<Longrightarrow> t < l \<Longrightarrow>
      Acquire hash (Some s) (quiet_env t) opID db = (Inl (busyError (RequestFingerprint r) (Some l) t), db)"
    and "lock_free t r \<Longrightarrow> Acquire hash (Some s) (quiet_env t) opID db =
      (Inr \<lparr>recordID = i, operationID = opID\<rparr>,
       snd (reclaim_row t i (Status r) t (t + lock_lease s) (t + lock_ttl s) db))"
proof -
  have find: "find_key db systemOperationLockScope (hash systemOperationLockKey) = Some r"
    by (rule lock_row_find [OF wf r])
  have i: "RecID r = i" "i \<noteq> 0" using sql.row_ident [OF wf r(1)] by auto
  have ins: "insert_record n (lock_record (hash systemOperationLockKey) opID l e) db =
      ((False, lock_record (hash systemOperationLockKey) opID l e), db)" for n l e
    using sql.insert_taken [OF wf, of "lock_record (hash systemOperationLockKey) opID l e" r] find
    by (simp add: lock_record_def)
  have acq: "Acquire hash (Some s) (quiet_env t) opID db =
      (case acquire_existing (quiet_env t) (hash systemOperationLockKey) t (t + lock_lease s) (t + lock_ttl s) db of
         (Inl e, db2) \<Rightarrow> (Inl e, db2)
       | (Inr i, db2) \<Rightarrow>
           (if i = 0 then (Inl (to_error ErrIdempotencyStoreUnavail), db2)
            else (Inr \<lparr>recordID = i, operationID = opID\<rparr>, db2)))"
    using opID by (simp add: Acquire_def Let_def CreateProcessing_def ins)
  show "Status r = IdempotencyStatusProcessing \<Longrightarrow> LockedUntil r = Some l \<Longrightarrow> t < l \<Longrightarrow>
      Acquire hash (Some s) (quiet_env t) opID db = (Inl (busyError (RequestFingerprint r) (Some l) t), db)"
    using find by (simp add: acq acquire_existing_def GetByScopeAndKeyHash_def time_defs)
  assume free: "lock_free t r"
  let ?rc = "reclaim_row t i (Status r) t (t + lock_lease s) (t + lock_ttl s) db"
  have "fst ?rc" using sql.reclaim_taken [OF wf] r(1) free by blast
  then obtain d where rc: "?rc = (True, d)" by (metis prod.collapse)
  have nb: "\<not> (case LockedUntil r of None \<Rightarrow> False | Some l \<Rightarrow> time_After l t)"
    using free by (simp add: lock_free_def time_defs split: option.splits)
  have "acquire_existing (quiet_env t) (hash systemOperationLockKey) t (t + lock_lease s) (t + lock_ttl s) db
      = (Inr i, d)"
    using find i rc nb by (simp add: acquire_existing_def GetByScopeAndKeyHash_def TryReclaim_def)
  with i show "Acquire hash (Some s) (quiet_env t) opID db =
      (Inr \<lparr>recordID = i, operationID = opID\<rparr>, snd ?rc)" by (simp add: acq rc)
qed

section \<open>Properties\<close>

text \<open>The lock is held until \<open>l\<close> at least: its record is in processing and locked until then or later.\<close>

definition lock_held :: "(string \<Rightarrow> string) \<Rightarrow> go_time \<Rightarrow> idem_db \<Rightarrow> bool" where
  "lock_held hash l db \<longleftrightarrow> wf_db db \<and> (\<exists>i r m. row_of db i = Some r \<and> lock_row hash r
     \<and> Status r = IdempotencyStatusProcessing \<and> LockedUntil r = Some m \<and> l \<le> m)"

lemma lock_held_find:
  assumes "lock_held hash l db"
  obtains r m where "find_key db systemOperationLockScope (hash systemOperationLockKey) = Some r"
    "Status r = IdempotencyStatusProcessing" "LockedUntil r = Some m" "l \<le> m"
  using assms lock_row_find unfolding lock_held_def by metis

lemma held_create:
  assumes "lock_held hash l db" and "CreateProcessing f n (Some (lock_record (hash systemOperationLockKey) opID k e)) db = (res, db')"
  shows "db' = db \<and> (case res of Inl x \<Rightarrow> f \<noteq> NoFault | Inr (owned, x) \<Rightarrow> \<not> owned)"
proof -
  let ?r = "lock_record (hash systemOperationLockKey) opID k e"
  obtain r where "find_key db systemOperationLockScope (hash systemOperationLockKey) = Some r"
    by (rule lock_held_find [OF assms(1)])
  then have "insert_record n ?r db = ((False, ?r), db)" by (simp add: insert_record_def lock_record_def)
  then show ?thesis using assms(2) by (cases f) (auto simp: CreateProcessing_def sql_call_def)
qed

lemma held_existing:
  assumes "lock_held hash l (interfere env AtGet db)" and "now < l"
    and "acquire_existing env (hash systemOperationLockKey) now k e db = (res, db')"
  shows "db' = interfere env AtGet db \<and> (\<exists>x. res = Inl x)
    \<and> (fault env AtGet = NoFault \<longrightarrow> (\<exists>holder m. l \<le> m \<and> res = Inl (busyError holder (Some m) now)))"
proof -
  let ?d = "interfere env AtGet db"
  obtain r m where r: "find_key ?d systemOperationLockScope (hash systemOperationLockKey) = Some r"
    "Status r = IdempotencyStatusProcessing" "LockedUntil r = Some m" "l \<le> m"
    by (rule lock_held_find [OF assms(1)])
  have "time_After m now" using r(4) assms(2) by (simp add: time_defs)
  with r assms(3) show ?thesis
    by (cases "fault env AtGet") (auto simp: acquire_existing_def GetByScopeAndKeyHash_def sql_call_def)
qed

text \<open>C27. The system lock excludes: \<^verbatim>\<open>Acquire\<close> leaves the record of the lock it grants in processing and locked
  until the end of the lease.  As long as that is so (nobody released the lock, the holder's renewals only
  move the end), no other \<^verbatim>\<open>Acquire\<close> that reads the clock before the end of the lease gets the lock, whichever
  of its calls to the database fail and whatever other processes do between them that keeps the record
  so; it leaves the record so too, and when its first two calls do not fail, its answer is the busy error
  with an end of the lease that is not earlier.  A former holder whose lease ran out can release the
  record of the current one, since \<^verbatim>\<open>Release\<close> writes by the identifier alone; from then on nothing is claimed.\<close>

theorem Acquire_excludes:
  assumes "wf_db db" and "env_ok env"
    and "Acquire hash (Some s) env opID db = (Inr lk, db1)" and "l = now_start env + lock_lease s"
    and "lock_held hash l db2" and "\<And>site d. lock_held hash l d \<Longrightarrow> lock_held hash l (interfere env2 site d)"
    and "now_start env2 < l" and "opID2 \<noteq> []" and "Acquire hash (Some s2) env2 opID2 db2 = (res, db3)"
  shows "lock_held hash l db1 \<and> (\<exists>e. res = Inl e) \<and> lock_held hash l db3
    \<and> (fault env2 AtCreate = NoFault \<and> fault env2 AtGet = NoFault \<longrightarrow>
        (\<exists>holder m. l \<le> m \<and> res = Inl (busyError holder (Some m) (now_start env2))))"
proof -
  have granted: "lock_held hash l db1" using Acquire_holds [OF assms(1-3)] unfolding lock_held_def assms(4) by blast
  let ?n = "now_start env2"
  let ?r = "Some (lock_record (hash systemOperationLockKey) opID2 (time_Add ?n (lock_lease s2)) (time_Add ?n (lock_ttl s2)))"
  have h1: "lock_held hash l (interfere env2 AtCreate db2)" by (rule assms(6) [OF assms(5)])
  obtain c d1 where c: "CreateProcessing (fault env2 AtCreate) (dbnow env2 AtCreate) ?r (interfere env2 AtCreate db2) = (c, d1)"
    by fastforce
  note k = held_create [OF h1 c]
  show ?thesis
  proof (cases c)
    case (Inl x)
    then show ?thesis using granted k h1 assms(8,9) c by (auto simp: Acquire_def Let_def)
  next
    case (Inr y)
    obtain z where y: "y = (False, z)" using k Inr by (cases y) auto
    obtain res2 d2 where ex: "acquire_existing env2 (hash systemOperationLockKey) ?n (time_Add ?n (lock_lease s2)) (time_Add ?n (lock_ttl s2)) d1 = (res2, d2)"
      by fastforce
    have h2: "lock_held hash l (interfere env2 AtGet d1)" using assms(6) [OF h1] k by simp
    note e = held_existing [OF h2 assms(7) ex]
    then obtain x where x: "res2 = Inl x" by blast
    have "res = Inl x \<and> db3 = d2" using assms(8,9) c Inr y ex x by (auto simp: Acquire_def Let_def)
    with granted e h2 x show ?thesis by auto
  qed
qed

text \<open>What \<^verbatim>\<open>Release\<close> does to the row of its lock.\<close>

lemma Release_frees:
  assumes wf: "wf_db db" and r: "row_of db (recordID lk) = Some r" "lock_row hash r"
  shows "\<exists>db' r'. Release (Some s) NoFault now now2 (Some lk) ok why db = (Inr (), db') \<and> wf_db db'
    \<and> row_of db' (recordID lk) = Some r' \<and> lock_row hash r' \<and> (now2 \<le> t \<longrightarrow> lock_free t r')"
proof (cases ok)
  case True
  show ?thesis
    using sql.succeed_rows [OF wf] sql.succeed_wf [OF wf] r
    by (simp add: Release_def True MarkSucceeded_def Let_def lock_row_def lock_free_def split: prod.splits)
      (simp add: succeed_row_def lock_row_def lock_free_def)
next
  case False
  show ?thesis
    using sql.fail_rows [OF wf] sql.fail_wf [OF wf] r
    by (simp add: Release_def False MarkFailedRetryable_def Let_def lock_row_def lock_free_def split: prod.splits)
      (simp add: fail_row_def lock_row_def lock_free_def)
qed

text \<open>The system lock is free again after its release: an operation that got the lock and
  released it, with success or with a failure, does not keep a later operation waiting.\<close>

theorem Acquire_after_Release:
  assumes "wf_db db" and "env_ok env"
    and "Acquire hash (Some s) env opID db = (Inr lk, db1)"
    and "Release (Some s) NoFault now now2 (Some lk) ok why db1 = (res, db2)"
    and "now2 \<le> t" and "opID2 \<noteq> []"
  shows "res = Inr () \<and>
    fst (Acquire hash (Some s2) (quiet_env t) opID2 db2) = Inr \<lparr>recordID = recordID lk, operationID = opID2\<rparr>"
proof -
  from Acquire_holds [OF assms(1-3)] obtain r where wf1: "wf_db db1"
    and r: "row_of db1 (recordID lk) = Some r" "lock_row hash r" by blast
  from Release_frees [OF wf1 r, of s now now2 ok why t] assms(4,5) obtain r' where
    "res = Inr ()" "wf_db db2" "row_of db2 (recordID lk) = Some r'" "lock_row hash r'" "lock_free t r'" by auto
  with Acquire_existing(2) [of db2 "recordID lk" r' hash opID2 t s2] assms(6) show ?thesis by simp
qed

text \<open>C33. The lock is not kept for a second operation.  \<^verbatim>\<open>TryReclaim\<close> does not write the new operation's
  identifier, so when an operation reclaims the record of another one (which happens whenever the
  lock was used before) its first renewal finds no row and the renewal loop ends.  The lease
  then runs out while the operation is still at work, and the lock is granted to a third one.\<close>

theorem reclaimed_lock_not_renewed:
  assumes "wf_db db" and "row_of db i = Some r" and "lock_row hash r" and "lock_free t r"
    and "RequestFingerprint r \<noteq> opID" and "opID \<noteq> []"
    and "Acquire hash (Some s) (quiet_env t) opID db = (res, db1)"
    and "t + lock_lease s \<le> t3" and "opID3 \<noteq> []"
  shows "res = Inr \<lparr>recordID = i, operationID = opID\<rparr>
    \<and> fst (renewLoop_tick s NoFault t2 \<lparr>recordID = i, operationID = opID\<rparr> db1) = RenewStop
    \<and> fst (Acquire hash (Some s) (quiet_env t3) opID3
        (snd (renewLoop_tick s NoFault t2 \<lparr>recordID = i, operationID = opID\<rparr> db1)))
      = Inr \<lparr>recordID = i, operationID = opID3\<rparr>"
proof -
  note acq = Acquire_existing(2) [OF assms(1,2,3,6,4), of s]
  let ?rc = "reclaim_row t i (Status r) t (t + lock_lease s) (t + lock_ttl s) db"
  define r1 where "r1 = r\<lparr>Status := IdempotencyStatusProcessing, LockedUntil := Some (t + lock_lease s),
      ErrorReason := None, UpdatedAt := t, ExpiresAt := t + lock_ttl s\<rparr>"
  have db1: "db1 = snd ?rc" using acq assms(7) by simp
  have wf1: "wf_db db1" unfolding db1 by (rule sql.reclaim_wf [OF assms(1)])
  have r1: "row_of db1 i = Some r1"
    using sql.reclaim_rows [OF assms(1), of t i "Status r" t "t + lock_lease s" "t + lock_ttl s" i] assms(2,4)
    by (simp add: db1 r1_def)
  let ?ex = "extend_row t2 i opID (t2 + lock_lease s) (t2 + lock_ttl s) db1"
  have nomatch: "\<not> fst ?ex"
    using sql.extend_taken [OF wf1, of t2 i opID "t2 + lock_lease s" "t2 + lock_ttl s"] r1 assms(5)
    by (simp add: r1_def)
  have row2: "row_of (snd ?ex) i = Some r1"
    using sql.extend_rows [OF wf1, of t2 i opID "t2 + lock_lease s" "t2 + lock_ttl s" i] r1 assms(5)
    by (simp add: r1_def)
  have wf2: "wf_db (snd ?ex)" by (rule sql.extend_wf [OF wf1])
  have tick: "renewLoop_tick s NoFault t2 \<lparr>recordID = i, operationID = opID\<rparr> db1 = (RenewStop, snd ?ex)"
    using nomatch by (cases ?ex) (simp add: renewLoop_tick_def ExtendProcessingLock_def)
  have "lock_row hash r1" "lock_free t3 r1"
    using assms(3,8) by (simp_all add: r1_def lock_row_def lock_free_def)
  from Acquire_existing(2) [OF wf2 row2 this(1) assms(9) this(2), of s] acq assms(7) tick show ?thesis by simp
qed

text \<open>A lock that was created for its operation is kept: each renewal of the loop before the
  record is released or deleted pushes the end of the lease to the instant of the renewal plus the
  lease, and the loop goes on, also when the call to the database fails.\<close>

theorem created_lock_renewed:
  assumes "wf_db db" and "row_of db (recordID lk) = Some r"
    and "Status r = IdempotencyStatusProcessing" and "RequestFingerprint r = operationID lk"
  shows "\<exists>db'. renewLoop_tick s f t lk db = (RenewContinue, db') \<and> wf_db db' \<and>
    (f = NoFault \<longrightarrow> (\<exists>r'. row_of db' (recordID lk) = Some r' \<and> same_request r r'
       \<and> Status r' = IdempotencyStatusProcessing
       \<and> LockedUntil r' = Some (t + lock_lease s) \<and> ExpiresAt r' = t + lock_ttl s))"
proof -
  let ?ex = "extend_row t (recordID lk) (operationID lk) (t + lock_lease s) (t + lock_ttl s) db"
  have "fst ?ex" using sql.extend_taken [OF assms(1)] assms(2-4) by blast
  then obtain d where d: "?ex = (True, d)" by (metis prod.collapse)
  have "wf_db d" using sql.extend_wf [OF assms(1)] d by (metis snd_conv)
  moreover have "row_of d (recordID lk) = Some (r\<lparr>LockedUntil := Some (t + lock_lease s),
      ExpiresAt := t + lock_ttl s, UpdatedAt := t\<rparr>)"
    using sql.extend_rows [OF assms(1), of t "recordID lk" "operationID lk" "t + lock_lease s" "t + lock_ttl s"
        "recordID lk"] d assms(2-4) by simp
  ultimately show ?thesis using d assms
    by (cases f) (auto simp: renewLoop_tick_def ExtendProcessingLock_def sql_call_def same_request_def)
qed

section \<open>Examples\<close>

definition demo_service :: lock_service where
  "demo_service = NewSystemOperationLockService DefaultIdempotencyConfig"

lemma demo_service_simps [simp]:
  "lock_lease demo_service = 30000000000" "lock_ttl demo_service = 3600000000000"
  by (simp_all add: demo_service_def NewSystemOperationLockService_def Let_def
      DefaultIdempotencyConfig_def unit_defs)

definition held_db :: idem_db where
  "held_db = \<lparr>rows = [(lock_record systemOperationLockKey ''a'' 30000000000 3600000000000)\<lparr>RecID := 1\<rparr>],
     next_id = 2\<rparr>"

lemma demo_acquire:
  "Acquire (\<lambda>k. k) (Some demo_service) (quiet_env 0) ''a'' empty_db
     = (Inr \<lparr>recordID = 1, operationID = ''a''\<rparr>, held_db)"
  by (simp add: Acquire_def Let_def CreateProcessing_def insert_record_def find_key_def empty_db_def
      held_db_def lock_record_def)

lemma wf_held_db: "wf_db held_db"
  using Acquire_holds [OF wf_empty_db env_ok_quiet demo_acquire] by simp

lemma held_db_held: "lock_held (\<lambda>k. k) 30000000000 held_db"
  using Acquire_holds [OF wf_empty_db env_ok_quiet demo_acquire] by (force simp: lock_held_def)

theorem Acquire_excludes_witness:
  "\<exists>holder m. 30000000000 \<le> m \<and> fst (Acquire (\<lambda>k. k) (Some demo_service) (quiet_env 7) ''b'' held_db)
    = Inl (busyError holder (Some m) 7)"
  using Acquire_excludes [OF wf_empty_db env_ok_quiet demo_acquire _ held_db_held, of "quiet_env 7" "''b''" demo_service
      "fst (Acquire (\<lambda>k. k) (Some demo_service) (quiet_env 7) ''b'' held_db)"
      "snd (Acquire (\<lambda>k. k) (Some demo_service) (quiet_env 7) ''b'' held_db)"] by simp

theorem Acquire_after_Release_witness:
  "fst (Acquire (\<lambda>k. k) (Some demo_service) (quiet_env 7) ''b''
      (snd (Release (Some demo_service) NoFault 5 6 (Some \<lparr>recordID = 1, operationID = ''a''\<rparr>) False [] held_db)))
    = Inr \<lparr>recordID = 1, operationID = ''b''\<rparr>"
  using Acquire_after_Release [OF wf_empty_db env_ok_quiet demo_acquire prod.collapse [symmetric],
      of 6 7 "''b''"] by simp

lemma held_db_simps:
  "row_of held_db 1 = Some (hd (rows held_db))" "lock_row (\<lambda>k. k) (hd (rows held_db))"
  "RequestFingerprint (hd (rows held_db)) = ''a''" "Status (hd (rows held_db)) = IdempotencyStatusProcessing"
  "30000000000 \<le> t \<Longrightarrow> lock_free t (hd (rows held_db))"
  by (simp_all add: held_db_def row_of_def lock_row_def lock_record_def lock_free_def)

theorem reclaimed_lock_not_renewed_witness:
  "fst (renewLoop_tick demo_service NoFault 40000000000 \<lparr>recordID = 1, operationID = ''b''\<rparr>
     (snd (Acquire (\<lambda>k. k) (Some demo_service) (quiet_env 30000000000) ''b'' held_db))) = RenewStop"
  using reclaimed_lock_not_renewed [OF wf_held_db held_db_simps(1,2,5) _ _ prod.collapse [symmetric],
      of 30000000000 "''b''" demo_service 60000000000 "''c''"] by (simp add: held_db_simps)

theorem created_lock_renewed_witness:
  "\<exists>db'. renewLoop_tick demo_service (FaultBefore ''down'') 10 \<lparr>recordID = 1, operationID = ''a''\<rparr> held_db
     = (RenewContinue, db')"
  using created_lock_renewed [OF wf_held_db, of "\<lparr>recordID = 1, operationID = ''a''\<rparr>" "hd (rows held_db)"
      demo_service "FaultBefore ''down''" 10] by (auto simp: held_db_simps)

end
