(* ===== verification/Keyword_Trie.thy ===== *)
theory Keyword_Trie
  imports Keyword_Matcher
begin

text \<open>
  The first phases of the keyword matcher: the trie that the insertions build and the failure
  links of the breadth-first pass.  A trie is described by the list \<open>ps\<close> of the paths of its
  nodes; the failure link of a node leads to the longest proper suffix of its path that is a path,
  and its keyword is the least one that is a suffix of the path.
\<close>

section \<open>Longest suffixes\<close>

fun lsuf :: "string set \<Rightarrow> string \<Rightarrow> string" where
  "lsuf P [] = []"
| "lsuf P (c # w) = (if c # w \<in> P then c # w else lsuf P w)"

definition prefix_closed :: "string set \<Rightarrow> bool" where
  "prefix_closed P \<longleftrightarrow> [] \<in> P \<and> (\<forall>p c. p @ [c] \<in> P \<longrightarrow> p \<in> P)"

lemma lsuf_in: "[] \<in> P \<Longrightarrow> lsuf P w \<in> P"
  by (induction w) auto

lemma lsuf_suffix: "suffix (lsuf P w) w"
  by (induction w) (auto simp: suffix_Cons)

lemma lsuf_max: "v \<in> P \<Longrightarrow> suffix v w \<Longrightarrow> suffix v (lsuf P w)"
  by (induction w) (auto simp: suffix_Cons)

lemma lsuf_id: "w \<in> P \<Longrightarrow> lsuf P w = w"
  by (cases w) auto

lemma suffix_snocD: "suffix u (w @ [c]) \<Longrightarrow> u = [] \<or> (\<exists>v. u = v @ [c] \<and> suffix v w)"
  by (cases u rule: rev_cases) (auto simp: suffix_def)

lemma lsuf_snoc:
  assumes "prefix_closed P"
  shows "lsuf P (w @ [c]) = lsuf P (lsuf P w @ [c])"
proof (rule suffix_order.antisym)
  have nil: "[] \<in> P" using assms by (simp add: prefix_closed_def)
  let ?L = "lsuf P (w @ [c])" and ?R = "lsuf P (lsuf P w @ [c])"
  show "suffix ?R ?L"
  proof (rule lsuf_max [OF lsuf_in [OF nil]])
    have "suffix (lsuf P w @ [c]) (w @ [c])" using lsuf_suffix [of P w] by (auto simp: suffix_def)
    then show "suffix ?R (w @ [c])" using lsuf_suffix [of P "lsuf P w @ [c]"] suffix_order.trans by blast
  qed
  from suffix_snocD [OF lsuf_suffix [of P "w @ [c]"]] show "suffix ?L ?R"
  proof
    assume "\<exists>v. ?L = v @ [c] \<and> suffix v w"
    then obtain v where v: "?L = v @ [c]" "suffix v w" by blast
    have "v \<in> P" using assms lsuf_in [OF nil, of "w @ [c]"] v(1) by (auto simp: prefix_closed_def)
    with v(2) have "suffix (v @ [c]) (lsuf P w @ [c])" using lsuf_max by (auto simp: suffix_def)
    with v(1) show ?thesis using lsuf_max [OF lsuf_in [OF nil]] by metis
  qed simp
qed

text \<open>The step of the automaton: follow the failure links until a child with the label is found.\<close>

lemma lsuf_goto:
  assumes "prefix_closed P"
  shows "lsuf P (u @ [c]) = (if u @ [c] \<in> P then u @ [c] else if u = [] then [] else lsuf P (lsuf P (tl u) @ [c]))"
proof (cases u)
  case (Cons x t)
  then show ?thesis using lsuf_snoc [OF assms, of t c] by simp
qed simp

section \<open>Least indices\<close>

definition least :: "nat \<Rightarrow> (nat \<Rightarrow> bool) \<Rightarrow> int" where
  "least n Q = (case find Q [0..<n] of None \<Rightarrow> -1 | Some i \<Rightarrow> int i)"

lemma find_upt: "find Q [0..<n] = Some i \<longleftrightarrow> i < n \<and> Q i \<and> (\<forall>j<i. \<not> Q j)"
  by (auto simp: find_Some_iff)

lemma least_cases:
  obtains (none) "least n Q = -1" "\<And>i. i < n \<Longrightarrow> \<not> Q i"
  | (some) i where "least n Q = int i" "i < n" "Q i" "\<And>j. j < i \<Longrightarrow> \<not> Q j"
proof (cases "find Q [0..<n]")
  case None
  then have "least n Q = -1" "\<And>i. i < n \<Longrightarrow> \<not> Q i" by (simp add: least_def, auto simp: find_None_iff)
  then show thesis by (rule none)
next
  case (Some i)
  then have "least n Q = int i" by (simp add: least_def)
  moreover have "i < n" "Q i" "\<And>j. j < i \<Longrightarrow> \<not> Q j" using Some by (simp_all add: find_upt)
  ultimately show thesis by (rule some)
qed

lemma least_eqI: "i < n \<Longrightarrow> Q i \<Longrightarrow> (\<And>j. j < i \<Longrightarrow> \<not> Q j) \<Longrightarrow> least n Q = int i"
  using find_upt [of Q n i] by (simp add: least_def)

lemma least_none: "(\<And>i. i < n \<Longrightarrow> \<not> Q i) \<Longrightarrow> least n Q = -1"
  by (cases n Q rule: least_cases) auto

lemma least_cong: "(\<And>i. i < n \<Longrightarrow> Q i = R i) \<Longrightarrow> least n Q = least n R"
  by (cases n R rule: least_cases) (auto intro!: least_none least_eqI)

lemma minKeywordIndex_least:
  "minKeywordIndex (least n Q) (least n R) = least n (\<lambda>i. Q i \<or> R i)"
proof (cases n Q rule: least_cases)
  case none
  then show ?thesis by (auto simp: minKeywordIndex_def intro!: least_cong)
next
  case (some i)
  note i = this
  show ?thesis
  proof (cases n R rule: least_cases)
    case none
    with i have "least n (\<lambda>i. Q i \<or> R i) = int i" by (intro least_eqI) auto
    with none i show ?thesis by (simp add: minKeywordIndex_def)
  next
    case (some j)
    have "k < min i j \<Longrightarrow> \<not> (Q k \<or> R k)" for k using i(4) some(4) by auto
    then have "least n (\<lambda>i. Q i \<or> R i) = int (min i j)"
      using i some by (intro least_eqI) (auto simp: min_def)
    with some i show ?thesis by (auto simp: minKeywordIndex_def min_def)
  qed
qed

lemma least_Suc:
  "least (Suc n) Q = (if least n Q < 0 \<and> Q n then int n else least n Q)"
  by (cases n Q rule: least_cases) (auto intro!: least_none least_eqI simp: less_Suc_eq)

lemma least_less: "least n Q < int n"
  by (cases n Q rule: least_cases) auto

section \<open>Arrays and chains of siblings\<close>

lemma at_nat [simp]: "at xs (int i) = (if i < length xs then Some (xs ! i) else None)"
  by (simp add: at_def)

lemma at_0 [simp]: "at (x # xs) 0 = Some x"
  by (simp add: at_def)

lemma at_append: "at xs i = Some x \<Longrightarrow> at (xs @ ys) i = Some x"
  by (auto simp: at_def nth_append split: if_splits)

lemma foldM_append: "foldM f (xs @ ys) s = Option.bind (foldM f xs s) (foldM f ys)"
  by (induction xs arbitrary: s) (auto split: bind_splits)

lemma sibling_chain_append:
  "sibling_chain k es i = Some cs \<Longrightarrow> sibling_chain (k + d) (es @ xs) i = Some cs"
proof (induction k arbitrary: i cs)
  case 0
  then show ?case by (cases d) (auto split: if_splits)
next
  case (Suc k)
  show ?case
  proof (cases "i < 0")
    case False
    with Suc.prems obtain e cs' where "at es i = Some e" "sibling_chain k es (b_nextSibling e) = Some cs'"
      "cs = e # cs'" by (auto simp: bind_eq_Some_conv)
    with Suc.IH False show ?thesis by (simp add: at_append)
  qed (use Suc.prems in auto)
qed

definition edges_ok :: "build_edge list \<Rightarrow> bool" where
  "edges_ok es \<longleftrightarrow> (\<forall>i<length es. b_nextSibling (es ! i) < int i)"

lemma sibling_chain_ex:
  "edges_ok es \<Longrightarrow> i < int k \<Longrightarrow> i < int (length es) \<Longrightarrow> \<exists>cs. sibling_chain k es i = Some cs"
proof (induction k arbitrary: i)
  case (Suc k)
  show ?case
  proof (cases "i < 0")
    case False
    then have "nat i < length es" "int (nat i) = i" using Suc.prems by simp_all
    then have e: "b_nextSibling (es ! nat i) < i" using Suc.prems(1) by (metis edges_ok_def)
    with Suc.prems have "\<exists>cs. sibling_chain k es (b_nextSibling (es ! nat i)) = Some cs"
      by (intro Suc.IH) auto
    with False Suc.prems show ?thesis by (auto simp: at_def)
  qed simp
qed simp

section \<open>Tries\<close>

text \<open>The edges of a node lead to the nodes whose path has one more label.\<close>

definition children_ok :: "string list \<Rightarrow> nat \<Rightarrow> build_edge list \<Rightarrow> bool" where
  "children_ok ps n cs \<longleftrightarrow> distinct (map b_label cs)
     \<and> (\<forall>e\<in>set cs. \<exists>m<length ps. b_target e = int m \<and> ps ! m = ps ! n @ [b_label e])
     \<and> (\<forall>m<length ps. \<forall>c. ps ! m = ps ! n @ [c] \<longrightarrow> (\<exists>e\<in>set cs. b_label e = c \<and> b_target e = int m))"

definition trie :: "string list \<Rightarrow> knode list \<Rightarrow> build_edge list \<Rightarrow> bool" where
  "trie ps nodes es \<longleftrightarrow> length nodes = length ps \<and> ps \<noteq> [] \<and> ps ! 0 = [] \<and> distinct ps
     \<and> prefix_closed (set ps) \<and> edges_ok es
     \<and> (\<forall>n<length ps. \<exists>cs. out_edges nodes es (int n) = Some cs \<and> children_ok ps n cs)"

lemma trieD:
  assumes "trie ps nodes es"
  shows "length nodes = length ps" "ps \<noteq> []" "ps ! 0 = []" "distinct ps" "prefix_closed (set ps)" "edges_ok es"
    and "n < length ps \<Longrightarrow> \<exists>cs. out_edges nodes es (int n) = Some cs \<and> children_ok ps n cs"
  using assms by (auto simp: trie_def)

lemma trie_start: "trie [[]] [newContentModerationKeywordNode] []"
  by (auto simp: trie_def prefix_closed_def edges_ok_def out_edges_def BuildFirstEdge_def
      newContentModerationKeywordNode_def children_ok_def)

lemma BuildTransition_trie:
  assumes t: "trie ps nodes es" and n: "n < length ps"
  shows "(ps ! n @ [c] \<notin> set ps \<and> BuildTransition nodes es (int n) c = Some (-1))
    \<or> (\<exists>m<length ps. ps ! m = ps ! n @ [c] \<and> BuildTransition nodes es (int n) c = Some (int m))"
proof -
  obtain cs where cs: "out_edges nodes es (int n) = Some cs" "children_ok ps n cs"
    using trieD(7) [OF t n] by blast
  have len: "length nodes = length ps" by (rule trieD [OF t])
  show ?thesis
  proof (cases "find (\<lambda>e. b_label e = c) cs")
    case None
    then have no: "e \<in> set cs \<Longrightarrow> b_label e \<noteq> c" for e by (auto simp: find_None_iff)
    have "ps ! n @ [c] \<notin> set ps"
    proof
      assume "ps ! n @ [c] \<in> set ps"
      then obtain m where "m < length ps" "ps ! m = ps ! n @ [c]" by (auto simp: in_set_conv_nth)
      with cs(2) no show False unfolding children_ok_def by blast
    qed
    with None cs n len show ?thesis by (simp add: BuildTransition_def)
  next
    case (Some e)
    then have "e \<in> set cs" "b_label e = c" by (auto dest: find_SomeD)
    with cs(2) obtain m where "m < length ps" "b_target e = int m" "ps ! m = ps ! n @ [c]"
      unfolding children_ok_def by blast
    with Some cs n len show ?thesis by (auto simp: BuildTransition_def)
  qed
qed

text \<open>The edges do not depend on the other fields of the nodes.\<close>

lemma out_edges_cong:
  assumes "length nodes' = length nodes" and "\<And>i. i < length nodes \<Longrightarrow> edgeStart (nodes' ! i) = edgeStart (nodes ! i)"
  shows "out_edges nodes' es s = out_edges nodes es s"
proof (cases "0 \<le> s \<and> s < int (length nodes)")
  case True
  then have "nat s < length nodes" by linarith
  with assms(2) [of "nat s"] show ?thesis by (simp add: out_edges_def at_def assms(1) BuildFirstEdge_def)
next
  case False
  then show ?thesis by (auto simp: out_edges_def at_def assms(1))
qed

lemma trie_cong:
  assumes "trie ps nodes es" and "length nodes' = length nodes"
    and "\<And>i. i < length nodes \<Longrightarrow> edgeStart (nodes' ! i) = edgeStart (nodes ! i)"
  shows "trie ps nodes' es"
  using assms out_edges_cong [OF assms(2,3), of es] by (simp add: trie_def)

section \<open>Inserting a keyword\<close>

text \<open>All failure links are 0, and the keyword of the node with path \<open>p\<close> is \<open>B p\<close>.\<close>

definition labelled :: "(string \<Rightarrow> int) \<Rightarrow> string list \<Rightarrow> knode list \<Rightarrow> bool" where
  "labelled B ps nodes \<longleftrightarrow> (\<forall>i<length ps. failure (nodes ! i) = 0 \<and> bestKeyword (nodes ! i) = B (ps ! i))
     \<and> (\<forall>p. p \<notin> set ps \<longrightarrow> B p = -1)"

lemma sibling_chain_push:
  assumes "edges_ok es" and "sibling_chain (length es) es i = Some cs"
  shows "sibling_chain (length (es @ [e])) (es @ [e]) i = Some cs"
  using sibling_chain_append [OF assms(2), of 1 "[e]"] by simp

lemma children_ok_leaf:
  assumes "prefix_closed (set ps)" and "p \<notin> set ps"
  shows "children_ok (ps @ [p]) (length ps) []"
proof -
  have "(ps @ [p]) ! k \<noteq> p @ [d]" if "k < length (ps @ [p])" for k d
  proof -
    have "p @ [d] \<notin> set ps" using assms by (auto simp: prefix_closed_def)
    moreover have "ps ! k \<in> set ps" if "k < length ps" using that by simp
    ultimately show ?thesis using that by (metis append_self_conv length_append_singleton less_SucE
          not_Cons_self2 nth_append nth_append_length)
  qed
  then show ?thesis by (auto simp: children_ok_def)
qed

lemma children_ok_grow:
  assumes "m < length ps" and "children_ok ps m cs" and "e \<in> set cs"
  shows "\<exists>k<length (ps @ [p]). b_target e = int k \<and> (ps @ [p]) ! k = (ps @ [p]) ! m @ [b_label e]"
proof -
  obtain k where "k < length ps" "b_target e = int k" "ps ! k = ps ! m @ [b_label e]"
    using assms(2,3) unfolding children_ok_def by blast
  with assms(1) show ?thesis by (intro exI [of _ k]) (simp add: nth_append)
qed

lemma children_okI:
  assumes "distinct (map b_label cs)"
    and "\<And>e. e \<in> set cs \<Longrightarrow> \<exists>m<length ps. b_target e = int m \<and> ps ! m = ps ! n @ [b_label e]"
    and "\<And>m c. m < length ps \<Longrightarrow> ps ! m = ps ! n @ [c] \<Longrightarrow> \<exists>e\<in>set cs. b_label e = c \<and> b_target e = int m"
  shows "children_ok ps n cs"
  using assms unfolding children_ok_def by blast

lemma children_okD:
  assumes "children_ok ps n cs"
  shows "distinct (map b_label cs)"
    and "e \<in> set cs \<Longrightarrow> \<exists>m<length ps. b_target e = int m \<and> ps ! m = ps ! n @ [b_label e]"
    and "m < length ps \<Longrightarrow> ps ! m = ps ! n @ [c] \<Longrightarrow> \<exists>e\<in>set cs. b_label e = c \<and> b_target e = int m"
  using assms unfolding children_ok_def by blast+

lemma children_ok_other:
  assumes "m < length ps" and "children_ok ps m cs" and "ps ! n \<noteq> ps ! m"
  shows "children_ok (ps @ [ps ! n @ [c]]) m cs"
proof (rule children_okI)
  fix k d assume k: "k < length (ps @ [ps ! n @ [c]])"
    and path: "(ps @ [ps ! n @ [c]]) ! k = (ps @ [ps ! n @ [c]]) ! m @ [d]"
  have "k \<noteq> length ps" using path assms(1,3) by (auto simp: nth_append)
  with k have "k < length ps" by simp
  moreover from this path assms(1) have "ps ! k = ps ! m @ [d]" by (simp add: nth_append)
  ultimately show "\<exists>e\<in>set cs. b_label e = d \<and> b_target e = int k" by (rule children_okD(3) [OF assms(2)])
qed (rule children_okD(1) [OF assms(2)], rule children_ok_grow [OF assms(1,2)])

lemma children_ok_push:
  assumes "n < length ps" and "children_ok ps n cs" and "ps ! n @ [c] \<notin> set ps"
  shows "children_ok (ps @ [ps ! n @ [c]]) n (\<lparr>b_target = int (length ps), b_nextSibling = i, b_label = c\<rparr> # cs)"
proof (rule children_okI)
  have "b_label e \<noteq> c" if "e \<in> set cs" for e
  proof
    assume "b_label e = c"
    with children_okD(2) [OF assms(2) that] assms(3) show False by (metis nth_mem)
  qed
  with children_okD(1) [OF assms(2)]
  show "distinct (map b_label (\<lparr>b_target = int (length ps), b_nextSibling = i, b_label = c\<rparr> # cs))" by auto
next
  fix e assume "e \<in> set (\<lparr>b_target = int (length ps), b_nextSibling = i, b_label = c\<rparr> # cs)"
  then consider "e = \<lparr>b_target = int (length ps), b_nextSibling = i, b_label = c\<rparr>" | "e \<in> set cs" by auto
  then show "\<exists>m<length (ps @ [ps ! n @ [c]]). b_target e = int m \<and>
      (ps @ [ps ! n @ [c]]) ! m = (ps @ [ps ! n @ [c]]) ! n @ [b_label e]"
  proof cases
    case 1
    with assms(1) show ?thesis by (intro exI [of _ "length ps"]) (simp add: nth_append)
  qed (rule children_ok_grow [OF assms(1,2)])
next
  fix k d assume k: "k < length (ps @ [ps ! n @ [c]])"
    and path: "(ps @ [ps ! n @ [c]]) ! k = (ps @ [ps ! n @ [c]]) ! n @ [d]"
  show "\<exists>e\<in>set (\<lparr>b_target = int (length ps), b_nextSibling = i, b_label = c\<rparr> # cs).
      b_label e = d \<and> b_target e = int k"
  proof (cases "k = length ps")
    case True
    with path assms(1) show ?thesis by (simp add: nth_append)
  next
    case False
    with k have "k < length ps" by simp
    moreover from this path assms(1) have "ps ! k = ps ! n @ [d]" by (simp add: nth_append)
    ultimately show ?thesis using children_okD(3) [OF assms(2)] by auto
  qed
qed

lemma insert_label_new:
  assumes t: "trie ps nodes es" and n: "n < length ps" and new: "ps ! n @ [c] \<notin> set ps"
    and l: "labelled B ps nodes"
  shows "\<exists>nodes' es'. insert_label c (int n, nodes, es) = Some (int (length ps), nodes', es')
    \<and> trie (ps @ [ps ! n @ [c]]) nodes' es' \<and> labelled B (ps @ [ps ! n @ [c]]) nodes'"
proof -
  note T = trieD [OF t]
  let ?e = "\<lparr>b_target = int (length ps), b_nextSibling = BuildFirstEdge (nodes ! n), b_label = c\<rparr>"
  let ?es = "es @ [?e]"
  let ?nodes = "(nodes @ [newContentModerationKeywordNode])[n := (nodes ! n)\<lparr>edgeStart := Suc (length es)\<rparr>]"
  let ?ps = "ps @ [ps ! n @ [c]]"
  have bt: "BuildTransition nodes es (int n) c = Some (-1)"
    using BuildTransition_trie [OF t n, of c] new by (auto simp: in_set_conv_nth)
  have run: "insert_label c (int n, nodes, es) = Some (int (length ps), ?nodes, ?es)"
    using bt n T(1) by (simp add: insert_label_def Let_def nth_append)
  have old: "out_edges nodes es (int m) = Some cs \<Longrightarrow> m < length ps \<Longrightarrow>
      sibling_chain (length ?es) ?es (BuildFirstEdge (nodes ! m)) = Some cs" for m cs
    using sibling_chain_push [OF T(6)] T(1) by (simp add: out_edges_def)
  have node: "m < length ps \<Longrightarrow> ?nodes ! m = (if m = n then (nodes ! n)\<lparr>edgeStart := Suc (length es)\<rparr> else nodes ! m)"
    "?nodes ! length ps = newContentModerationKeywordNode" for m
    using n T(1) by (auto simp: nth_list_update nth_append)
  have first: "BuildFirstEdge (nodes ! n) < int (length es)"
  proof -
    obtain cs where cs: "out_edges nodes es (int n) = Some cs" using T(7) [OF n] by blast
    then show ?thesis using n T(1)
      by (cases es) (auto simp: out_edges_def at_def bind_eq_Some_conv split: if_splits)
  qed
  have kids: "\<exists>cs. out_edges ?nodes ?es (int m) = Some cs \<and> children_ok ?ps m cs" if m: "m < length ?ps" for m
  proof (cases "m = length ps")
    case True
    have "out_edges ?nodes ?es (int m) = Some []"
      using True T(1) node(2) by (simp add: out_edges_def BuildFirstEdge_def newContentModerationKeywordNode_def)
    with children_ok_leaf [OF T(5) new] True show ?thesis by blast
  next
    case False
    with m have m': "m < length ps" by simp
    obtain cs where cs: "out_edges nodes es (int m) = Some cs" "children_ok ps m cs" using T(7) [OF m'] by blast
    show ?thesis
    proof (cases "m = n")
      case True
      have "sibling_chain (length es) ?es (BuildFirstEdge (nodes ! n)) = Some cs"
        using cs(1) True n T(1) sibling_chain_append [of "length es" es _ cs 0 "[?e]"] by (simp add: out_edges_def)
      then have "out_edges ?nodes ?es (int m) = Some (?e # cs)"
        using True n T(1) node(1) [OF n] by (simp add: out_edges_def BuildFirstEdge_def at_def nth_append)
      with children_ok_push [OF n _ new] cs(2) True show ?thesis by auto
    next
      case False
      have "out_edges ?nodes ?es (int m) = Some cs"
        using old [OF cs(1) m'] m' T(1) node(1) [OF m'] False by (simp add: out_edges_def)
      moreover have "ps ! n \<noteq> ps ! m" using False T(4) m' n by (simp add: nth_eq_iff_index_eq)
      ultimately show ?thesis using children_ok_other [OF m' cs(2)] by blast
    qed
  qed
  have pc: "prefix_closed (set ?ps)"
    using T(5) n by (auto simp: prefix_closed_def)
  have ok: "edges_ok ?es" using T(6) first by (auto simp: edges_ok_def nth_append less_Suc_eq)
  have "trie ?ps ?nodes ?es" unfolding trie_def
    using T new kids pc ok by (auto simp: nth_append simp del: of_nat_Suc)
  moreover have "labelled B ?ps ?nodes" unfolding labelled_def
  proof (intro conjI allI impI)
    fix i assume "i < length ?ps"
    then consider "i < length ps" | "i = length ps" by fastforce
    then show "failure (?nodes ! i) = 0" and "bestKeyword (?nodes ! i) = B (?ps ! i)"
      using l new node n
      by (cases; auto simp: labelled_def newContentModerationKeywordNode_def nth_append
          simp del: nth_list_update_neq nth_list_update_eq)+
  qed (use l in \<open>auto simp: labelled_def\<close>)
  ultimately show ?thesis using run by blast
qed

lemma insert_label_trie:
  assumes t: "trie ps nodes es" and n: "n < length ps" and l: "labelled B ps nodes"
  shows "\<exists>ps' n' nodes' es'. insert_label c (int n, nodes, es) = Some (int n', nodes', es')
    \<and> trie ps' nodes' es' \<and> labelled B ps' nodes' \<and> n' < length ps' \<and> ps' ! n' = ps ! n @ [c]
    \<and> set ps' = insert (ps ! n @ [c]) (set ps)"
proof (cases "ps ! n @ [c] \<in> set ps")
  case True
  then obtain m where m: "m < length ps" "ps ! m = ps ! n @ [c]"
    "BuildTransition nodes es (int n) c = Some (int m)"
    using BuildTransition_trie [OF t n, of c] by blast
  then have "insert_label c (int n, nodes, es) = Some (int m, nodes, es)" by (simp add: insert_label_def)
  with t l m True show ?thesis by (metis insert_absorb)
next
  case False
  from insert_label_new [OF t n False l] obtain nodes' es' where
    "insert_label c (int n, nodes, es) = Some (int (length ps), nodes', es')"
    "trie (ps @ [ps ! n @ [c]]) nodes' es'" "labelled B (ps @ [ps ! n @ [c]]) nodes'" by blast
  then show ?thesis
    by (intro exI [of _ "ps @ [ps ! n @ [c]]"] exI [of _ "length ps"] exI [of _ nodes'] exI [of _ es']) simp
qed

lemma insert_word:
  assumes "trie ps nodes es" and "n < length ps" and "labelled B ps nodes"
  shows "\<exists>ps' n' nodes' es'. foldM insert_label w (int n, nodes, es) = Some (int n', nodes', es')
    \<and> trie ps' nodes' es' \<and> labelled B ps' nodes' \<and> n' < length ps' \<and> ps' ! n' = ps ! n @ w
    \<and> set ps' = set ps \<union> {ps ! n @ u |u. prefix u w}"
  using assms
proof (induction w arbitrary: ps n nodes es)
  case Nil
  then have "set ps = set ps \<union> {ps ! n @ u |u. prefix u []}" by auto
  with Nil show ?case by (intro exI [of _ ps] exI [of _ n] exI [of _ nodes] exI [of _ es]) simp
next
  case (Cons c w)
  from insert_label_trie [OF Cons.prems, of c] obtain ps1 n1 nodes1 es1 where
    1: "insert_label c (int n, nodes, es) = Some (int n1, nodes1, es1)" "trie ps1 nodes1 es1"
    "labelled B ps1 nodes1" "n1 < length ps1" "ps1 ! n1 = ps ! n @ [c]"
    "set ps1 = insert (ps ! n @ [c]) (set ps)" by blast
  from Cons.IH [OF 1(2,4,3)] obtain ps2 n2 nodes2 es2 where
    2: "foldM insert_label w (int n1, nodes1, es1) = Some (int n2, nodes2, es2)" "trie ps2 nodes2 es2"
    "labelled B ps2 nodes2" "n2 < length ps2" "ps2 ! n2 = ps1 ! n1 @ w"
    "set ps2 = set ps1 \<union> {ps1 ! n1 @ u |u. prefix u w}" by blast
  have "{ps ! n @ u |u. prefix u (c # w)} = {ps ! n} \<union> {(ps ! n @ [c]) @ u |u. prefix u w}"
    by (auto simp: prefix_Cons)
  moreover have "ps ! n @ [c] \<in> {(ps ! n @ [c]) @ u |u. prefix u w}" by auto
  moreover have "ps ! n \<in> set ps" using Cons.prems(2) by simp
  ultimately have "set ps2 = set ps \<union> {ps ! n @ u |u. prefix u (c # w)}" using 1(5,6) 2(6) by auto
  with 1 2 show ?case
    by (intro exI [of _ ps2] exI [of _ n2] exI [of _ nodes2] exI [of _ es2]) simp
qed

text \<open>The keywords that the first \<open>k\<close> insertions have put into the trie.\<close>

definition keyword_at :: "(string \<Rightarrow> string) \<Rightarrow> string list \<Rightarrow> (string \<Rightarrow> bool) \<Rightarrow> nat \<Rightarrow> bool" where
  "keyword_at ulow kws R i \<longleftrightarrow> kws ! i \<noteq> [] \<and> R (ToLower ulow (kws ! i))"

definition own :: "(string \<Rightarrow> string) \<Rightarrow> string list \<Rightarrow> nat \<Rightarrow> string \<Rightarrow> int" where
  "own ulow kws k p = least k (keyword_at ulow kws (\<lambda>w. w = p))"

definition paths :: "(string \<Rightarrow> string) \<Rightarrow> string list \<Rightarrow> nat \<Rightarrow> string set" where
  "paths ulow kws k = insert [] {p. \<exists>i<k. keyword_at ulow kws (prefix p) i}"

lemma own_Suc:
  "own ulow kws (Suc k) p =
     (if own ulow kws k p < 0 \<and> kws ! k \<noteq> [] \<and> ToLower ulow (kws ! k) = p then int k else own ulow kws k p)"
  by (simp add: own_def least_Suc keyword_at_def)

lemma paths_Suc:
  "paths ulow kws (Suc k) = (if kws ! k = [] then paths ulow kws k
     else paths ulow kws k \<union> {u. prefix u (ToLower ulow (kws ! k))})"
  by (auto simp: paths_def keyword_at_def less_Suc_eq)

lemma insert_keyword_trie:
  assumes t: "trie ps nodes es" and l: "labelled (own ulow kws k) ps nodes" and ps: "set ps = paths ulow kws k"
  shows "\<exists>ps' nodes' es'. insert_keyword ulow (k, kws ! k) (nodes, es) = Some (nodes', es')
    \<and> trie ps' nodes' es' \<and> labelled (own ulow kws (Suc k)) ps' nodes' \<and> set ps' = paths ulow kws (Suc k)"
proof (cases "kws ! k = []")
  case True
  then have "own ulow kws (Suc k) = own ulow kws k" by (simp add: fun_eq_iff own_Suc)
  with True t l ps show ?thesis by (auto simp: insert_keyword_def paths_Suc)
next
  case False
  let ?w = "ToLower ulow (kws ! k)"
  have ne: "0 < length ps" using trieD(2) [OF t] by simp
  from insert_word [OF t ne l, of ?w] trieD(3) [OF t] obtain ps' n' nodes' es' where
    1: "foldM insert_label ?w (0, nodes, es) = Some (int n', nodes', es')" "trie ps' nodes' es'"
    "labelled (own ulow kws k) ps' nodes'" "n' < length ps'" "ps' ! n' = ?w"
    "set ps' = set ps \<union> {u. prefix u ?w}" by auto
  have n': "n' < length nodes'" using 1(2,4) trieD(1) by metis
  have best: "bestKeyword (nodes' ! n') = own ulow kws k ?w" using 1(3,4,5) by (simp add: labelled_def)
  have lt: "\<not> int k < own ulow kws k ?w" using least_less [of k] unfolding own_def by (simp add: not_less less_imp_le)
  let ?nodes = "if own ulow kws k ?w < 0 then nodes'[n' := (nodes' ! n')\<lparr>bestKeyword := int k\<rparr>] else nodes'"
  have run: "insert_keyword ulow (k, kws ! k) (nodes, es) = Some (?nodes, es')"
    using False 1(1) n' best lt by (simp add: insert_keyword_def)
  have "trie ps' ?nodes es'"
    by (rule trie_cong [OF 1(2)]) (use n' in \<open>auto simp: nth_list_update\<close>)
  moreover have "labelled (own ulow kws (Suc k)) ps' ?nodes"
  proof -
    have here: "ps' ! i = ?w \<longleftrightarrow> i = n'" if "i < length ps'" for i
      using that 1(4,5) trieD(4) [OF 1(2)] by (metis nth_eq_iff_index_eq)
    have mem: "?w \<in> set ps'" using 1(4,5) by (metis nth_mem)
    have old: "failure (nodes' ! i) = 0 \<and> bestKeyword (nodes' ! i) = own ulow kws k (ps' ! i)"
      if "i < length ps'" for i using 1(3) that by (simp add: labelled_def)
    show ?thesis unfolding labelled_def
    proof (intro conjI allI impI)
      fix i assume "i < length ps'"
      then show "failure (?nodes ! i) = 0" and "bestKeyword (?nodes ! i) = own ulow kws (Suc k) (ps' ! i)"
        using here [of i] old [of i] False n' by (auto simp: own_Suc nth_list_update)
    next
      fix p assume "p \<notin> set ps'"
      with mem 1(3) show "own ulow kws (Suc k) p = -1" by (auto simp: own_Suc labelled_def)
    qed
  qed
  moreover have "set ps' = paths ulow kws (Suc k)" using 1(6) ps False by (simp add: paths_Suc)
  ultimately show ?thesis using run by blast
qed

lemma insert_keywords_trie:
  "k \<le> length kws \<Longrightarrow> \<exists>ps nodes es.
     foldM (insert_keyword ulow) (zip [0..<k] (take k kws)) ([newContentModerationKeywordNode], []) = Some (nodes, es)
     \<and> trie ps nodes es \<and> labelled (own ulow kws k) ps nodes \<and> set ps = paths ulow kws k"
proof (induction k)
  case 0
  have "labelled (own ulow kws 0) [[]] [newContentModerationKeywordNode]"
    by (auto simp: labelled_def own_def newContentModerationKeywordNode_def least_none)
  with trie_start show ?case by (intro exI [of _ "[[]]"]) (simp add: paths_def)
next
  case (Suc k)
  then obtain ps nodes es where
    IH: "foldM (insert_keyword ulow) (zip [0..<k] (take k kws)) ([newContentModerationKeywordNode], []) = Some (nodes, es)"
    "trie ps nodes es" "labelled (own ulow kws k) ps nodes" "set ps = paths ulow kws k" by auto
  from insert_keyword_trie [OF IH(2-4)] obtain ps' nodes' es' where
    "insert_keyword ulow (k, kws ! k) (nodes, es) = Some (nodes', es')"
    "trie ps' nodes' es'" "labelled (own ulow kws (Suc k)) ps' nodes'" "set ps' = paths ulow kws (Suc k)" by blast
  moreover have "zip [0..<Suc k] (take (Suc k) kws) = zip [0..<k] (take k kws) @ [(k, kws ! k)]"
    using Suc.prems by (simp add: take_Suc_conv_app_nth)
  ultimately show ?case using IH(1)
    by (intro exI [of _ ps'] exI [of _ nodes'] exI [of _ es']) (simp add: foldM_append)
qed

end
