(* ===== verification/Keyword_Links.thy ===== *)
theory Keyword_Links
  imports Keyword_Trie
begin

text \<open>
  The breadth-first pass of the keyword matcher: when it ends, the failure link of every node
  leads to the longest proper suffix of its path in the trie and its keyword is the least one that
  is a suffix of its path.
\<close>

section \<open>Keywords that end at a node\<close>

text \<open>\<^verbatim>\<open>strings.ToLower\<close> maps every rune to a rune, so it leaves no keyword empty.\<close>

definition lower_nonempty :: "(string \<Rightarrow> string) \<Rightarrow> string list \<Rightarrow> bool" where
  "lower_nonempty ulow kws \<longleftrightarrow> (\<forall>k\<in>set kws. k \<noteq> [] \<longrightarrow> ToLower ulow k \<noteq> [])"

definition suf :: "(string \<Rightarrow> string) \<Rightarrow> string list \<Rightarrow> string \<Rightarrow> int" where
  "suf ulow kws p = least (length kws) (keyword_at ulow kws (\<lambda>w. suffix w p))"

lemma keyword_in_paths:
  "i < length kws \<Longrightarrow> kws ! i \<noteq> [] \<Longrightarrow> ToLower ulow (kws ! i) \<in> paths ulow kws (length kws)"
  by (auto simp: paths_def keyword_at_def)

lemma suffix_tl: "p \<noteq> [] \<Longrightarrow> suffix w p \<longleftrightarrow> w = p \<or> suffix w (tl p)"
  by (cases p) (auto simp: suffix_Cons)

lemma suffix_lsuf_iff: "w \<in> P \<Longrightarrow> suffix w (lsuf P v) \<longleftrightarrow> suffix w v"
  using lsuf_max lsuf_suffix suffix_order.trans by metis

lemma suf_lsuf:
  assumes "P = paths ulow kws (length kws)"
  shows "suf ulow kws (lsuf P w) = suf ulow kws w"
  unfolding suf_def using keyword_in_paths assms
  by (intro least_cong) (auto simp: keyword_at_def suffix_lsuf_iff)

lemma suf_unfold:
  assumes "P = paths ulow kws (length kws)" and "p \<noteq> []"
  shows "suf ulow kws p = minKeywordIndex (own ulow kws (length kws) p) (suf ulow kws (lsuf P (tl p)))"
proof -
  have "suf ulow kws p = minKeywordIndex (own ulow kws (length kws) p) (suf ulow kws (tl p))"
    unfolding suf_def own_def minKeywordIndex_least
    by (intro least_cong) (auto simp: keyword_at_def suffix_tl [OF assms(2)])
  then show ?thesis by (simp only: suf_lsuf [OF assms(1)])
qed

lemma suf_Nil: "lower_nonempty ulow kws \<Longrightarrow> suf ulow kws [] = -1"
  unfolding suf_def by (rule least_none) (auto simp: keyword_at_def lower_nonempty_def)

lemma own_Nil: "lower_nonempty ulow kws \<Longrightarrow> own ulow kws (length kws) [] = -1"
  unfolding own_def by (rule least_none) (auto simp: keyword_at_def lower_nonempty_def)

section \<open>Linked nodes\<close>

definition linked :: "(string \<Rightarrow> string) \<Rightarrow> string list \<Rightarrow> string list \<Rightarrow> nat set \<Rightarrow> knode list \<Rightarrow> bool" where
  "linked ulow kws ps D nodes \<longleftrightarrow> (\<forall>i<length ps.
     if i \<in> D then bestKeyword (nodes ! i) = suf ulow kws (ps ! i)
       \<and> (\<exists>j<length ps. failure (nodes ! i) = int j \<and> ps ! j = lsuf (set ps) (tl (ps ! i)))
     else failure (nodes ! i) = 0 \<and> bestKeyword (nodes ! i) = own ulow kws (length kws) (ps ! i))"

lemma linkedD:
  assumes "linked ulow kws ps D nodes" and "i < length ps"
  shows "i \<in> D \<Longrightarrow> bestKeyword (nodes ! i) = suf ulow kws (ps ! i)"
    and "i \<in> D \<Longrightarrow> \<exists>j<length ps. failure (nodes ! i) = int j \<and> ps ! j = lsuf (set ps) (tl (ps ! i))"
    and "i \<notin> D \<Longrightarrow> failure (nodes ! i) = 0 \<and> bestKeyword (nodes ! i) = own ulow kws (length kws) (ps ! i)"
  using assms unfolding linked_def by metis+

lemma lsuf_tl_length: "p \<noteq> [] \<Longrightarrow> length (lsuf P (tl p)) < length p"
  using suffix_length_le [OF lsuf_suffix [of P "tl p"]] by (cases p) auto

lemma trie_root: "trie ps nodes es \<Longrightarrow> i < length ps \<Longrightarrow> ps ! i = [] \<longleftrightarrow> i = 0"
  using trieD(2-4) [of ps nodes es] by (metis length_greater_0_conv nth_eq_iff_index_eq)

lemma prefix_closed_take: "prefix_closed P \<Longrightarrow> p \<in> P \<Longrightarrow> take n p \<in> P"
proof (induction p rule: rev_induct)
  case (snoc c p)
  then have "p \<in> P" unfolding prefix_closed_def by blast
  with snoc show ?case by (cases "n \<le> length p") auto
qed simp

lemma trie_depth:
  assumes "trie ps nodes es" and "j < length ps"
  shows "length (ps ! j) < length ps"
proof -
  let ?T = "(\<lambda>n. take n (ps ! j)) ` {..length (ps ! j)}"
  have "inj_on (\<lambda>n. take n (ps ! j)) {..length (ps ! j)}"
    by (rule inj_onI) (metis atMost_iff length_take min.absorb2)
  then have "card ?T = Suc (length (ps ! j))" by (simp add: card_image)
  moreover have "?T \<subseteq> set ps"
    using prefix_closed_take [OF trieD(5) [OF assms(1)]] assms(2) by auto
  moreover have "card (set ps) = length ps" using trieD(4) [OF assms(1)] by (rule distinct_card)
  ultimately show ?thesis by (metis List.finite_set card_mono Suc_le_eq)
qed

text \<open>The loop along the failure links.\<close>

lemma fallback_lsuf:
  assumes t: "trie ps nodes es" and l: "linked ulow kws ps D nodes"
  shows "j < length ps \<Longrightarrow> length (ps ! j) < k \<Longrightarrow>
    (\<And>i. i < length ps \<Longrightarrow> length (ps ! i) \<le> length (ps ! j) \<Longrightarrow> i \<in> D) \<Longrightarrow>
    (fallback k nodes es (int j) c = Some (-1) \<and> lsuf (set ps) (ps ! j @ [c]) = [])
    \<or> (\<exists>m<length ps. fallback k nodes es (int j) c = Some (int m) \<and> ps ! m = lsuf (set ps) (ps ! j @ [c]))"
proof (induction k arbitrary: j)
  case (Suc k)
  note pc = trieD(5) [OF t]
  have len: "j < length nodes" using Suc.prems(1) trieD(1) [OF t] by simp
  from BuildTransition_trie [OF t Suc.prems(1), of c] show ?case
  proof
    assume "\<exists>m<length ps. ps ! m = ps ! j @ [c] \<and> BuildTransition nodes es (int j) c = Some (int m)"
    then obtain m where "m < length ps" "ps ! m = ps ! j @ [c]" "BuildTransition nodes es (int j) c = Some (int m)"
      by blast
    moreover from this have "lsuf (set ps) (ps ! j @ [c]) = ps ! j @ [c]" by (metis lsuf_id nth_mem)
    ultimately show ?thesis by (intro disjI2 exI [of _ m]) simp
  next
    assume no: "ps ! j @ [c] \<notin> set ps \<and> BuildTransition nodes es (int j) c = Some (-1)"
    show ?thesis
    proof (cases "j = 0")
      case True
      then have "ps ! j = []" using trieD(3) [OF t] by simp
      with True no show ?thesis by simp
    next
      case False
      then have ne: "ps ! j \<noteq> []" using trie_root [OF t Suc.prems(1)] by simp
      obtain f where f: "f < length ps" "failure (nodes ! j) = int f" "ps ! f = lsuf (set ps) (tl (ps ! j))"
        using linkedD(2) [OF l Suc.prems(1)] Suc.prems by blast
      have short: "length (ps ! f) < length (ps ! j)" using f(3) lsuf_tl_length [OF ne] by metis
      have eq: "lsuf (set ps) (ps ! j @ [c]) = lsuf (set ps) (ps ! f @ [c])"
        using no ne f(3) by (subst lsuf_goto [OF pc]) simp
      have "fallback (Suc k) nodes es (int j) c = fallback k nodes es (int f) c"
        using no False f(2) len by simp
      moreover have "(fallback k nodes es (int f) c = Some (-1) \<and> lsuf (set ps) (ps ! f @ [c]) = [])
        \<or> (\<exists>m<length ps. fallback k nodes es (int f) c = Some (int m) \<and> ps ! m = lsuf (set ps) (ps ! f @ [c]))"
        by (rule Suc.IH [OF f(1)]) (use short Suc.prems in auto)
      ultimately show ?thesis using eq by simp
    qed
  qed
qed simp

lemma link_edge_linked:
  assumes t: "trie ps nodes es" and l: "linked ulow kws ps D nodes"
    and P: "set ps = paths ulow kws (length kws)"
    and s: "s < length ps" "ps ! s \<noteq> []"
    and level: "\<And>i. i < length ps \<Longrightarrow> length (ps ! i) \<le> length (ps ! s) \<Longrightarrow> i \<in> D"
    and e: "b_target e = int m" "m < length ps" "ps ! m = ps ! s @ [b_label e]" "m \<notin> D"
  shows "\<exists>nodes'. link_edge es (int s) e nodes = Some nodes' \<and> trie ps nodes' es \<and> linked ulow kws ps (insert m D) nodes'"
proof -
  note T = trieD [OF t]
  have sD: "s \<in> D" using level s by simp
  obtain j where j: "j < length ps" "failure (nodes ! s) = int j" "ps ! j = lsuf (set ps) (tl (ps ! s))"
    using linkedD(2) [OF l s(1) sD] by blast
  have short: "length (ps ! j) < length (ps ! s)" using j(3) lsuf_tl_length [OF s(2)] by metis
  have target: "lsuf (set ps) (ps ! j @ [b_label e]) = lsuf (set ps) (tl (ps ! m))"
    using lsuf_snoc [OF T(5), of "tl (ps ! s)" "b_label e"] j(3) e(3) s(2) by simp
  have m: "failure (nodes ! m) = 0" "bestKeyword (nodes ! m) = own ulow kws (length kws) (ps ! m)"
    using linkedD(3) [OF l e(2,4)] by auto
  have fb: "(fallback (length nodes) nodes es (int j) (b_label e) = Some (-1) \<and> lsuf (set ps) (ps ! j @ [b_label e]) = [])
    \<or> (\<exists>m<length ps. fallback (length nodes) nodes es (int j) (b_label e) = Some (int m)
         \<and> ps ! m = lsuf (set ps) (ps ! j @ [b_label e]))"
    by (rule fallback_lsuf [OF t l j(1)]) (use trie_depth [OF t j(1)] T(1) short level in auto)
  obtain f fbv where f: "f < length ps" "ps ! f = lsuf (set ps) (tl (ps ! m))"
    and fbv: "fallback (length nodes) nodes es (int j) (b_label e) = Some fbv"
    and link: "(if 0 \<le> fbv then (nodes ! m)\<lparr>failure := fbv\<rparr> else nodes ! m) = (nodes ! m)\<lparr>failure := int f\<rparr>"
    using fb
  proof
    assume "fallback (length nodes) nodes es (int j) (b_label e) = Some (-1) \<and> lsuf (set ps) (ps ! j @ [b_label e]) = []"
    moreover have "(nodes ! m)\<lparr>failure := 0\<rparr> = nodes ! m" using m(1) by simp
    ultimately show thesis using that [of 0 "-1"] T(2,3) target by simp
  qed (use that target in force)
  have shortf: "length (ps ! f) < length (ps ! m)" using f(2) lsuf_tl_length [of "ps ! m"] e(3) by simp
  then have fm: "f \<noteq> m" by auto
  have fD: "f \<in> D" using level [OF f(1)] shortf e(3) by simp
  define t1 where "t1 = (nodes ! m)\<lparr>failure := int f,
    bestKeyword := minKeywordIndex (bestKeyword (nodes ! m)) (bestKeyword (nodes ! f))\<rparr>"
  have run: "link_edge es (int s) e nodes = Some (nodes[m := t1])"
    using s(1) e(1,2) j(2) fbv link f(1) fm T(1) by (simp add: link_edge_def Let_def t1_def)
  have best: "bestKeyword t1 = suf ulow kws (ps ! m)"
    using m(2) linkedD(1) [OF l f(1) fD] suf_unfold [OF P, of "ps ! m"] f(2) e(3) by (simp add: t1_def)
  have "trie ps (nodes[m := t1]) es"
    by (rule trie_cong [OF t]) (use e(2) T(1) in \<open>auto simp: nth_list_update t1_def\<close>)
  moreover have "linked ulow kws ps (insert m D) (nodes[m := t1])" unfolding linked_def
  proof (intro allI impI)
    fix i assume i: "i < length ps"
    show "if i \<in> insert m D then bestKeyword (nodes[m := t1] ! i) = suf ulow kws (ps ! i)
       \<and> (\<exists>j<length ps. failure (nodes[m := t1] ! i) = int j \<and> ps ! j = lsuf (set ps) (tl (ps ! i)))
     else failure (nodes[m := t1] ! i) = 0 \<and> bestKeyword (nodes[m := t1] ! i) = own ulow kws (length kws) (ps ! i)"
    proof (cases "i = m")
      case True
      with best f e(2) T(1) show ?thesis by (auto simp: t1_def)
    next
      case False
      with linkedD [OF l i] show ?thesis by simp
    qed
  qed
  ultimately show ?thesis using run by blast
qed

lemma link_edges_linked:
  assumes "trie ps nodes es" and "linked ulow kws ps D nodes"
    and P: "set ps = paths ulow kws (length kws)"
    and s: "s < length ps" "ps ! s \<noteq> []"
    and "\<And>i. i < length ps \<Longrightarrow> length (ps ! i) \<le> length (ps ! s) \<Longrightarrow> i \<in> D"
    and "map b_target cs = map int ms" "distinct ms" "set ms \<inter> D = {}"
    and "\<And>i. i < length cs \<Longrightarrow> ms ! i < length ps \<and> ps ! (ms ! i) = ps ! s @ [b_label (cs ! i)]"
  shows "\<exists>nodes'. foldM (link_edge es (int s)) cs nodes = Some nodes' \<and> trie ps nodes' es
    \<and> linked ulow kws ps (D \<union> set ms) nodes'"
  using assms(1,2,6-)
proof (induction cs arbitrary: nodes D ms)
  case (Cons e cs)
  then obtain m ms' where ms: "ms = m # ms'" by (cases ms) auto
  have e: "b_target e = int m" "m < length ps" "ps ! m = ps ! s @ [b_label e]" "m \<notin> D"
    using Cons.prems(4,6) Cons.prems(7) [of 0] ms by auto
  from link_edge_linked [OF Cons.prems(1,2) P s Cons.prems(3) e] obtain nodes1 where
    1: "link_edge es (int s) e nodes = Some nodes1" "trie ps nodes1 es" "linked ulow kws ps (insert m D) nodes1"
    by blast
  have "\<exists>nodes'. foldM (link_edge es (int s)) cs nodes1 = Some nodes' \<and> trie ps nodes' es
    \<and> linked ulow kws ps (insert m D \<union> set ms') nodes'"
  proof (rule Cons.IH [OF 1(2,3)])
    show "ms' ! i < length ps \<and> ps ! (ms' ! i) = ps ! s @ [b_label (cs ! i)]" if "i < length cs" for i
      using Cons.prems(7) [of "Suc i"] that ms by simp
  qed (use Cons.prems(3-6) ms in auto)
  with 1(1) ms show ?case by simp
qed auto

section \<open>The queue\<close>

text \<open>
  \<open>D\<close> are the root and the nodes that were put into the queue so far, \<open>q\<close> those still in it: the
  children of the others are in \<open>D\<close>, and the queue is in the order of depth.
\<close>

definition child :: "string list \<Rightarrow> nat \<Rightarrow> nat \<Rightarrow> bool" where
  "child ps n m \<longleftrightarrow> n < length ps \<and> m < length ps \<and> (\<exists>c. ps ! m = ps ! n @ [c])"

definition queue_ok :: "string list \<Rightarrow> nat set \<Rightarrow> nat list \<Rightarrow> bool" where
  "queue_ok ps D q \<longleftrightarrow> D \<subseteq> {..<length ps} \<and> 0 \<in> D \<and> set q \<subseteq> D \<and> 0 \<notin> set q \<and> distinct q
     \<and> (\<forall>n\<in>D - set q. \<forall>m. child ps n m \<longrightarrow> m \<in> D)
     \<and> (\<forall>m\<in>D. \<forall>n. child ps n m \<longrightarrow> n \<in> D - set q)
     \<and> sorted (map (\<lambda>x. length (ps ! x)) q)
     \<and> (\<forall>x\<in>set q. length (ps ! x) \<le> Suc (length (ps ! hd q)))"

lemma queue_okD:
  assumes "queue_ok ps D q"
  shows "D \<subseteq> {..<length ps}" "0 \<in> D" "set q \<subseteq> D" "0 \<notin> set q" "distinct q"
    and "n \<in> D \<Longrightarrow> n \<notin> set q \<Longrightarrow> child ps n m \<Longrightarrow> m \<in> D"
    and "m \<in> D \<Longrightarrow> child ps n m \<Longrightarrow> n \<in> D"
    and "m \<in> D \<Longrightarrow> child ps n m \<Longrightarrow> n \<notin> set q"
    and "sorted (map (\<lambda>x. length (ps ! x)) q)"
    and "x \<in> set q \<Longrightarrow> length (ps ! x) \<le> Suc (length (ps ! hd q))"
  using assms unfolding queue_ok_def by blast+

lemma queue_level:
  assumes t: "trie ps nodes es" and q: "queue_ok ps D q"
    and deep: "\<And>x. x \<in> set q \<Longrightarrow> d \<le> length (ps ! x)"
  shows "m < length ps \<Longrightarrow> length (ps ! m) \<le> d \<Longrightarrow> m \<in> D"
proof (induction "ps ! m" arbitrary: m rule: rev_induct)
  case Nil
  then have "m = 0" using trie_root [OF t] by metis
  then show ?case using queue_okD(2) [OF q] by simp
next
  case (snoc c p)
  have "p \<in> set ps" using trieD(5) [OF t] snoc(2,3) unfolding prefix_closed_def by (metis nth_mem)
  then obtain n where n: "n < length ps" "ps ! n = p" by (auto simp: in_set_conv_nth)
  have shorter: "length p < d" using snoc(2,4) by (metis Suc_le_eq length_append_singleton)
  have "n \<in> D" using snoc(1) n shorter by auto
  moreover have "n \<notin> set q" using deep [of n] shorter n(2) by auto
  moreover have "child ps n m" using n snoc(2,3) unfolding child_def by metis
  ultimately show ?case by (rule queue_okD(6) [OF q])
qed

lemma queue_step:
  assumes t: "trie ps nodes es" and q: "queue_ok ps D (s # q)"
    and ms: "distinct ms" "\<And>m. m \<in> set ms \<longleftrightarrow> child ps s m"
  shows "set ms \<inter> D = {}" and "queue_ok ps (D \<union> set ms) (q @ ms)"
proof -
  note Q = queue_okD [OF q]
  have parent: "n = s" if "m \<in> set ms" "child ps n m" for n m
    using that ms(2) trieD(4) [OF t] unfolding child_def by (metis butlast_snoc nth_eq_iff_index_eq)
  show fresh: "set ms \<inter> D = {}"
  proof (rule ccontr)
    assume "set ms \<inter> D \<noteq> {}"
    then obtain m where "m \<in> set ms" "m \<in> D" by blast
    then have "s \<notin> set (s # q)" using Q(8) ms(2) by blast
    then show False by simp
  qed
  have depth: "length (ps ! m) = Suc (length (ps ! s))" if "m \<in> set ms" for m
    using that ms(2) unfolding child_def by (metis length_append_singleton)
  have low: "length (ps ! s) \<le> length (ps ! x)" if "x \<in> set q" for x using Q(9) that by simp
  have up: "length (ps ! x) \<le> Suc (length (ps ! s))" if "x \<in> set q" for x using Q(10) [of x] that by simp
  have sD: "s \<in> D" "s \<notin> set q" using Q(3,5) by auto
  show "queue_ok ps (D \<union> set ms) (q @ ms)" unfolding queue_ok_def
  proof (intro conjI ballI allI impI)
    show "D \<union> set ms \<subseteq> {..<length ps}" using Q(1) ms(2) by (auto simp: child_def)
    show "0 \<in> D \<union> set ms" using Q(2) by simp
    show "set (q @ ms) \<subseteq> D \<union> set ms" using Q(3) by auto
    show "0 \<notin> set (q @ ms)" using Q(2,4) fresh by auto
    show "distinct (q @ ms)" using Q(3,5) ms(1) fresh by auto
    show "m \<in> D \<union> set ms" if "n \<in> D \<union> set ms - set (q @ ms)" "child ps n m" for n m
      using that Q(6) [of n m] ms(2) by auto
    show "n \<in> D \<union> set ms - set (q @ ms)" if "m \<in> D \<union> set ms" "child ps n m" for m n
      using that Q(7,8) [of m n] parent [of m n] sD fresh by auto
    show "sorted (map (\<lambda>x. length (ps ! x)) (q @ ms))"
    proof -
      have "map (\<lambda>x. length (ps ! x)) ms = replicate (length ms) (Suc (length (ps ! s)))"
        using depth by (simp add: map_replicate_const [symmetric])
      with Q(9) up show ?thesis by (auto simp: sorted_append depth)
    qed
    show "length (ps ! x) \<le> Suc (length (ps ! hd (q @ ms)))" if "x \<in> set (q @ ms)" for x
    proof (cases q)
      case Nil
      with that have "x \<in> set ms" "hd ms \<in> set ms" by (cases ms; auto)+
      with depth [of x] depth [of "hd ms"] Nil show ?thesis by simp
    next
      case (Cons y q'')
      have "length (ps ! x) \<le> Suc (length (ps ! s))" using that up [of x] depth [of x] by auto
      moreover have "length (ps ! s) \<le> length (ps ! hd (q @ ms))" using low [of y] Cons by simp
      ultimately show ?thesis by simp
    qed
  qed
qed

lemma children_targets:
  assumes t: "trie ps nodes es" and n: "n < length ps"
    and cs: "out_edges nodes es (int n) = Some cs" "children_ok ps n cs"
  shows "\<exists>ms. map b_target cs = map int ms \<and> distinct ms \<and> (\<forall>m. m \<in> set ms \<longleftrightarrow> child ps n m)
    \<and> (\<forall>i<length cs. ms ! i < length ps \<and> ps ! (ms ! i) = ps ! n @ [b_label (cs ! i)])"
proof -
  let ?ms = "map (nat \<circ> b_target) cs"
  have e: "nat (b_target e) < length ps \<and> int (nat (b_target e)) = b_target e
      \<and> ps ! nat (b_target e) = ps ! n @ [b_label e]" if "e \<in> set cs" for e
    using children_okD(2) [OF cs(2) that] by auto
  have "map b_target cs = map int ?ms" unfolding map_map using e by (intro map_cong) (simp_all add: o_def)
  moreover have "distinct ?ms"
  proof -
    have "b_label e = b_label e'" if "e \<in> set cs" "e' \<in> set cs" "nat (b_target e) = nat (b_target e')" for e e'
    proof -
      have "ps ! n @ [b_label e] = ps ! n @ [b_label e']" using e [OF that(1)] e [OF that(2)] that(3) by metis
      then show ?thesis by simp
    qed
    note same = this
    have d: "distinct cs" "inj_on b_label (set cs)" using children_okD(1) [OF cs(2)] by (simp_all add: distinct_map)
    have "inj_on (nat \<circ> b_target) (set cs)"
      by (rule inj_onI) (metis same inj_onD [OF d(2)] comp_apply)
    with d(1) show ?thesis by (simp add: distinct_map)
  qed
  moreover have "m \<in> set ?ms \<longleftrightarrow> child ps n m" for m
  proof
    assume "m \<in> set ?ms"
    then show "child ps n m" using e n by (auto simp: child_def)
  next
    assume "child ps n m"
    then obtain c where "m < length ps" "ps ! m = ps ! n @ [c]" by (auto simp: child_def)
    from children_okD(3) [OF cs(2) this] show "m \<in> set ?ms" by force
  qed
  moreover have "\<forall>i<length cs. ?ms ! i < length ps \<and> ps ! (?ms ! i) = ps ! n @ [b_label (cs ! i)]"
    using e by simp
  ultimately show ?thesis by blast
qed

lemma link_queue_linked:
  assumes P: "set ps = paths ulow kws (length kws)"
  shows "trie ps nodes es \<Longrightarrow> linked ulow kws ps D nodes \<Longrightarrow> queue_ok ps D q \<Longrightarrow>
    length q + (length ps - card D) \<le> k \<Longrightarrow>
    \<exists>nodes'. link_queue k (map int q) es nodes = Some nodes' \<and> trie ps nodes' es
      \<and> linked ulow kws ps {..<length ps} nodes'"
proof (induction k arbitrary: q D nodes)
  case 0
  then have "q = []" by simp
  have "{..<length ps} \<subseteq> D" using queue_level [OF 0(1,3)] \<open>q = []\<close> by auto
  then have "D = {..<length ps}" using queue_okD(1) [OF 0(3)] by blast
  with 0 \<open>q = []\<close> show ?case by simp
next
  case (Suc k)
  show ?case
  proof (cases q)
    case Nil
    have "{..<length ps} \<subseteq> D" using queue_level [OF Suc.prems(1,3)] Nil by auto
    then have "D = {..<length ps}" using queue_okD(1) [OF Suc.prems(3)] by blast
    with Suc.prems Nil show ?thesis by simp
  next
    case (Cons s q')
    note Q = queue_okD [OF Suc.prems(3)]
    have s: "s < length ps" "s \<noteq> 0" using Q(1,3,4) Cons by auto
    then have ne: "ps ! s \<noteq> []" using trie_root [OF Suc.prems(1)] by simp
    obtain cs where cs: "out_edges nodes es (int s) = Some cs" "children_ok ps s cs"
      using trieD(7) [OF Suc.prems(1) s(1)] by blast
    obtain ms where ms: "map b_target cs = map int ms" "distinct ms" "\<And>m. m \<in> set ms \<longleftrightarrow> child ps s m"
      "\<And>i. i < length cs \<Longrightarrow> ms ! i < length ps \<and> ps ! (ms ! i) = ps ! s @ [b_label (cs ! i)]"
      using children_targets [OF Suc.prems(1) s(1) cs] by blast
    note step = queue_step [OF Suc.prems(1) Suc.prems(3) [unfolded Cons] ms(2,3)]
    have level: "i \<in> D" if "i < length ps" "length (ps ! i) \<le> length (ps ! s)" for i
    proof (rule queue_level [OF Suc.prems(1,3)])
      show "length (ps ! s) \<le> length (ps ! x)" if "x \<in> set q" for x using Q(9) that Cons by auto
    qed (use that in auto)
    from link_edges_linked [OF Suc.prems(1,2) P s(1) ne level ms(1,2) step(1) ms(4)] obtain nodes1 where
      1: "foldM (link_edge es (int s)) cs nodes = Some nodes1" "trie ps nodes1 es"
      "linked ulow kws ps (D \<union> set ms) nodes1" by blast
    have "card (D \<union> set ms) = card D + length ms"
      using step(1) ms(2) Q(1) finite_subset [OF Q(1)] by (simp add: card_Un_disjoint Int_commute distinct_card)
    moreover have "card (D \<union> set ms) \<le> length ps"
      using card_mono [OF _ queue_okD(1) [OF step(2)]] by simp
    ultimately have "length (q' @ ms) + (length ps - card (D \<union> set ms)) \<le> k"
      using Suc.prems(4) Cons by simp
    from Suc.IH [OF 1(2,3) step(2) this] cs(1) 1(1) Cons ms(1) show ?thesis by simp
  qed
qed

text \<open>The state at the beginning of the pass: the children of the root are in the queue.\<close>

lemma link_start:
  assumes t: "trie ps nodes es" and l: "labelled (own ulow kws (length kws)) ps nodes"
    and P: "set ps = paths ulow kws (length kws)" and low: "lower_nonempty ulow kws"
    and ms: "distinct ms" "\<And>m. m \<in> set ms \<longleftrightarrow> child ps 0 m"
  shows "linked ulow kws ps (insert 0 (set ms)) nodes" and "queue_ok ps (insert 0 (set ms)) ms"
proof -
  note T = trieD [OF t]
  have path: "\<exists>c. ps ! m = [c]" if "m \<in> set ms" for m
    using that ms(2) T(3) by (auto simp: child_def)
  have own_suf: "own ulow kws (length kws) [c] = suf ulow kws [c]" for c
  proof -
    have "suf ulow kws [c] = minKeywordIndex (own ulow kws (length kws) [c]) (-1)"
      using suf_unfold [OF P, of "[c]"] suf_Nil [OF low] by simp
    moreover have "own ulow kws (length kws) [c] < 0 \<Longrightarrow> own ulow kws (length kws) [c] = -1"
      unfolding own_def by (cases "length kws" "keyword_at ulow kws (\<lambda>w. w = [c])" rule: least_cases) auto
    ultimately show ?thesis by (simp add: minKeywordIndex_def)
  qed
  show "linked ulow kws ps (insert 0 (set ms)) nodes" unfolding linked_def
  proof (intro allI impI)
    fix i assume i: "i < length ps"
    have f: "failure (nodes ! i) = 0" "bestKeyword (nodes ! i) = own ulow kws (length kws) (ps ! i)"
      using l i by (auto simp: labelled_def)
    have "bestKeyword (nodes ! i) = suf ulow kws (ps ! i)
        \<and> (\<exists>j<length ps. failure (nodes ! i) = int j \<and> ps ! j = lsuf (set ps) (tl (ps ! i)))"
      if "i \<in> insert 0 (set ms)"
    proof (cases "i = 0")
      case True
      with f T(2,3) own_Nil [OF low] suf_Nil [OF low] show ?thesis by (auto intro!: exI [of _ 0])
    next
      case False
      with that path obtain c where "ps ! i = [c]" by auto
      with f own_suf T(2,3) show ?thesis by (auto intro!: exI [of _ 0])
    qed
    with f show "if i \<in> insert 0 (set ms) then bestKeyword (nodes ! i) = suf ulow kws (ps ! i)
       \<and> (\<exists>j<length ps. failure (nodes ! i) = int j \<and> ps ! j = lsuf (set ps) (tl (ps ! i)))
     else failure (nodes ! i) = 0 \<and> bestKeyword (nodes ! i) = own ulow kws (length kws) (ps ! i)" by simp
  qed
  have root: "n = 0" if "child ps n m" "m \<in> insert 0 (set ms)" for n m
  proof -
    have "ps ! n = []" using that path [of m] T(3) by (auto simp: child_def)
    then show ?thesis using trie_root [OF t, of n] that(1) by (simp add: child_def)
  qed
  have zero: "0 \<notin> set ms" using path T(3) by fastforce
  show "queue_ok ps (insert 0 (set ms)) ms" unfolding queue_ok_def
  proof (intro conjI ballI allI impI)
    show "insert 0 (set ms) \<subseteq> {..<length ps}" using ms(2) T(2) by (auto simp: child_def)
    show "sorted (map (\<lambda>x. length (ps ! x)) ms)"
    proof -
      have "length (ps ! m) = 1" if "m \<in> set ms" for m using path [OF that] by auto
      then show ?thesis by (simp add: sorted_wrt_map sorted_wrt_iff_nth_less)
    qed
    show "length (ps ! x) \<le> Suc (length (ps ! hd ms))" if "x \<in> set ms" for x using path [OF that] by auto
    show "m \<in> insert 0 (set ms)" if "n \<in> insert 0 (set ms) - set ms" "child ps n m" for n m
      using that ms(2) by auto
    show "n \<in> insert 0 (set ms) - set ms" if "m \<in> insert 0 (set ms)" "child ps n m" for m n
      using root [OF that(2,1)] zero by simp
  qed (use ms(1) zero in auto)
qed

end
