(* ===== verification/Keyword_Search.thy ===== *)
theory Keyword_Search
  imports Keyword_Links
begin

text \<open>
  The final layout of the keyword matcher, its binary search and \<^verbatim>\<open>Match\<close>: the matcher answers with
  the first keyword of the list that occurs in the text, ignoring case.
\<close>

section \<open>Sorting and searching the edges of a node\<close>

abbreviation key :: "kedge \<Rightarrow> nat" where
  "key e \<equiv> of_char (label e)"

lemma insert_down_mset: "mset (insert_down c xs) = add_mset c (mset xs)"
  by (induction xs) auto

lemma insert_down_sorted:
  "sorted_wrt (\<lambda>x y. key y \<le> key x) xs \<Longrightarrow> sorted_wrt (\<lambda>x y. key y \<le> key x) (insert_down c xs)"
proof (induction xs)
  case (Cons x xs)
  have "set (insert_down c xs) = insert c (set xs)"
    by (metis insert_down_mset set_mset_add_mset_insert set_mset_mset)
  with Cons show ?case by (auto intro: order.trans)
qed simp

lemma fold_insert_down:
  "sorted_wrt (\<lambda>x y. key y \<le> key x) acc \<Longrightarrow>
     sorted_wrt (\<lambda>x y. key y \<le> key x) (fold insert_down cs acc) \<and> mset (fold insert_down cs acc) = mset cs + mset acc"
  by (induction cs arbitrary: acc) (simp_all add: insert_down_sorted insert_down_mset)

lemma sort_edges_spec: "sorted (map key (sort_edges cs))" "mset (sort_edges cs) = mset cs"
  using fold_insert_down [of "[]" cs] by (simp_all add: sort_edges_def sorted_wrt_rev sorted_wrt_map)

lemma lower_bound_spec:
  assumes "l \<le> r" and "r \<le> length edges"
    and "\<And>i j. l \<le> i \<Longrightarrow> i \<le> j \<Longrightarrow> j < r \<Longrightarrow> key (edges ! i) \<le> key (edges ! j)"
  shows "\<exists>x. lower_bound edges c (int l) (int r) = Some (int x) \<and> l \<le> x \<and> x \<le> r
    \<and> (\<forall>i. l \<le> i \<and> i < x \<longrightarrow> key (edges ! i) < of_char c) \<and> (\<forall>i. x \<le> i \<and> i < r \<longrightarrow> of_char c \<le> key (edges ! i))"
  using assms
proof (induction "r - l" arbitrary: l r rule: less_induct)
  case less
  show ?case
  proof (cases "l < r")
    case False
    with less.prems show ?thesis
      by (intro exI [of _ r]) (simp add: lower_bound.simps [of edges c "int r" "int r"])
  next
    case True
    define mid where "mid = l + (r - l) div 2"
    have m: "l \<le> mid" "mid < r" using True by (auto simp: mid_def)
    have "int l + (int r - int l) sdiv 2 = int mid"
    proof -
      have "int r - int l = int (r - l)" using True by simp
      moreover have "int (r - l) sdiv 2 = int ((r - l) div 2)"
        by (simp only: signed_divide_int_def) (simp add: sgn_if zdiv_int)
      ultimately show ?thesis by (simp only: mid_def of_nat_add)
    qed
    then have unfold: "lower_bound edges c (int l) (int r) =
        (if key (edges ! mid) < of_char c then lower_bound edges c (int (Suc mid)) (int r)
         else lower_bound edges c (int l) (int mid))"
      using True m less.prems(2) by (subst lower_bound.simps) (simp add: add.commute)
    show ?thesis
    proof (cases "key (edges ! mid) < of_char c")
      case True
      have "\<exists>x. lower_bound edges c (int (Suc mid)) (int r) = Some (int x) \<and> Suc mid \<le> x \<and> x \<le> r
        \<and> (\<forall>i. Suc mid \<le> i \<and> i < x \<longrightarrow> key (edges ! i) < of_char c)
        \<and> (\<forall>i. x \<le> i \<and> i < r \<longrightarrow> of_char c \<le> key (edges ! i))"
        using less.hyps [of r "Suc mid"] less.prems m by (simp add: diff_less_mono2)
      then obtain x where x: "lower_bound edges c (int (Suc mid)) (int r) = Some (int x)" "Suc mid \<le> x" "x \<le> r"
        "\<And>i. Suc mid \<le> i \<Longrightarrow> i < x \<Longrightarrow> key (edges ! i) < of_char c"
        "\<And>i. x \<le> i \<Longrightarrow> i < r \<Longrightarrow> of_char c \<le> key (edges ! i)" by blast
      have "key (edges ! i) < of_char c" if "l \<le> i" "i < x" for i
      proof (cases "i \<le> mid")
        case i: True
        then show ?thesis using less.prems(3) [OF that(1) i m(2)] True by simp
      qed (use x(4) [of i] that in simp)
      with x m show ?thesis by (intro exI [of _ x]) (simp add: unfold True)
    next
      case False
      have "\<exists>x. lower_bound edges c (int l) (int mid) = Some (int x) \<and> l \<le> x \<and> x \<le> mid
        \<and> (\<forall>i. l \<le> i \<and> i < x \<longrightarrow> key (edges ! i) < of_char c)
        \<and> (\<forall>i. x \<le> i \<and> i < mid \<longrightarrow> of_char c \<le> key (edges ! i))"
        using less.hyps [of mid l] less.prems m by (simp add: diff_less_mono)
      then obtain x where x: "lower_bound edges c (int l) (int mid) = Some (int x)" "l \<le> x" "x \<le> mid"
        "\<And>i. l \<le> i \<Longrightarrow> i < x \<Longrightarrow> key (edges ! i) < of_char c"
        "\<And>i. x \<le> i \<Longrightarrow> i < mid \<Longrightarrow> of_char c \<le> key (edges ! i)" by blast
      have "of_char c \<le> key (edges ! i)" if "x \<le> i" "i < r" for i
      proof (cases "i < mid")
        case i: False
        then have "key (edges ! mid) \<le> key (edges ! i)" using less.prems(3) [OF m(1), of i] that(2) by simp
        with False show ?thesis by simp
      qed (use x(5) [of i] that in simp)
      with x m False show ?thesis by (intro exI [of _ x]) (simp add: unfold)
    qed
  qed
qed

text \<open>The edge found in the segment \<open>seg\<close> of a node.\<close>

lemma search_segment:
  assumes seg: "take k (drop l edges) = seg" "l + k \<le> length edges" "length seg = k"
    and sorted: "sorted (map key seg)"
  shows "\<exists>x. lower_bound edges c (int l) (int (l + k)) = Some (int x) \<and> x \<le> l + k \<and>
    ((x < l + k \<and> label (edges ! x) = c \<and> edges ! x \<in> set seg)
     \<or> ((x = l + k \<or> label (edges ! x) \<noteq> c) \<and> (\<forall>e\<in>set seg. label e \<noteq> c)))"
proof -
  have nth: "edges ! (l + i) = seg ! i" if "i < k" for i
    using seg that by (metis add_leD1 nth_drop nth_take)
  have mono: "key (edges ! i) \<le> key (edges ! j)" if "l \<le> i" "i \<le> j" "j < l + k" for i j
  proof -
    have eq: "edges ! i = seg ! (i - l)" "edges ! j = seg ! (j - l)"
      using nth [of "i - l"] nth [of "j - l"] that by simp_all
    have "map key seg ! (i - l) \<le> map key seg ! (j - l)"
      using sorted that seg(3) by (intro sorted_nth_mono) auto
    then have "key (seg ! (i - l)) \<le> key (seg ! (j - l))" using that seg(3) by simp
    then show ?thesis by (simp only: eq)
  qed
  from lower_bound_spec [of l "l + k" edges c] seg(2) mono obtain x where
    x: "lower_bound edges c (int l) (int (l + k)) = Some (int x)" "l \<le> x" "x \<le> l + k"
    "\<And>i. l \<le> i \<Longrightarrow> i < x \<Longrightarrow> key (edges ! i) < of_char c"
    "\<And>i. x \<le> i \<Longrightarrow> i < l + k \<Longrightarrow> of_char c \<le> key (edges ! i)" by auto
  show ?thesis
  proof (cases "x < l + k \<and> label (edges ! x) = c")
    case True
    then have "x - l < k" "l + (x - l) = x" using x(2) by linarith+
    then have "edges ! x = seg ! (x - l)" using nth [of "x - l"] by simp
    with True x seg(3) show ?thesis by (intro exI [of _ x]) auto
  next
    case False
    have "label e \<noteq> c" if mem: "e \<in> set seg" for e
    proof
      assume c: "label e = c"
      obtain i where "i < length seg" and i2: "e = seg ! i" using mem unfolding in_set_conv_nth by blast
      then have i: "i < k" "e = seg ! i" using seg(3) by simp_all
      then have e: "edges ! (l + i) = e" using nth by simp
      have "\<not> l + i < x" using x(4) [of "l + i"] e c by auto
      then have "of_char c \<le> key (edges ! x)" "key (edges ! x) \<le> of_char c"
        using x(5) [of x] mono [of x "l + i"] x(2) i e c by auto
      then have "label (edges ! x) = c" by (metis of_char_eq_iff order.antisym)
      with False \<open>\<not> l + i < x\<close> i show False by simp
    qed
    with False x show ?thesis by (intro exI [of _ x]) auto
  qed
qed

section \<open>The layout\<close>

abbreviation plain_edge :: "build_edge \<Rightarrow> kedge" where
  "plain_edge e \<equiv> \<lparr>target = b_target e, label = b_label e\<rparr>"

definition laid_out :: "knode list \<Rightarrow> build_edge list \<Rightarrow> knode list \<Rightarrow> kedge list \<Rightarrow> nat \<Rightarrow> bool" where
  "laid_out nodes es nodes' edges i \<longleftrightarrow> failure (nodes' ! i) = failure (nodes ! i)
     \<and> bestKeyword (nodes' ! i) = bestKeyword (nodes ! i)
     \<and> (\<exists>cs. out_edges nodes es (int i) = Some cs \<and> edgeCount (nodes' ! i) = length cs
          \<and> edgeStart (nodes' ! i) + length cs \<le> length edges
          \<and> take (length cs) (drop (edgeStart (nodes' ! i)) edges) = sort_edges (map plain_edge cs))"

lemma laid_out_grow:
  assumes "laid_out nodes es nodes' edges i" and "i \<noteq> k"
  shows "laid_out nodes es (nodes'[k := n]) (edges @ xs) i"
  using assms by (auto simp: laid_out_def)

lemma children_bound:
  assumes "children_ok ps n cs"
  shows "length cs \<le> 256"
proof -
  have "card (set (map b_label cs)) \<le> card (UNIV :: char set)" by (intro card_mono) auto
  then show ?thesis using children_okD(1) [OF assms] by (metis card_UNIV_char distinct_card length_map)
qed

lemma lay_out_all:
  assumes t: "trie ps nodes es"
  shows "k \<le> length nodes \<Longrightarrow> \<exists>nodes' edges. foldM (lay_out es) [0..<k] (nodes, []) = Some (nodes', edges)
    \<and> length nodes' = length nodes \<and> (\<forall>i\<ge>k. nodes' ! i = nodes ! i)
    \<and> (\<forall>i<k. laid_out nodes es nodes' edges i)"
proof (induction k)
  case (Suc k)
  then obtain nodes' edges where
    IH: "foldM (lay_out es) [0..<k] (nodes, []) = Some (nodes', edges)" "length nodes' = length nodes"
    "\<And>i. k \<le> i \<Longrightarrow> nodes' ! i = nodes ! i" "\<And>i. i < k \<Longrightarrow> laid_out nodes es nodes' edges i" by auto
  have k: "k < length ps" "k < length nodes" using Suc.prems trieD(1) [OF t] by simp_all
  obtain cs where cs: "out_edges nodes es (int k) = Some cs" "children_ok ps k cs"
    using trieD(7) [OF t k(1)] by blast
  have "out_edges nodes' es (int k) = Some cs" using cs(1) IH(2,3) k by (simp add: out_edges_def)
  moreover define n where "n = (nodes' ! k)\<lparr>edgeStart := length edges, edgeCount := length cs\<rparr>"
  moreover define xs where "xs = sort_edges (map plain_edge cs)"
  ultimately have run: "lay_out es k (nodes', edges) = Some (nodes'[k := n], edges @ xs)"
    using children_bound [OF cs(2)] by (simp add: lay_out_def)
  have len: "length xs = length cs" unfolding xs_def by (metis length_map mset_eq_length sort_edges_spec(2))
  have "laid_out nodes es (nodes'[k := n]) (edges @ xs) k"
    using cs(1) k IH(2,3) len by (simp add: laid_out_def n_def) (simp add: xs_def)
  with laid_out_grow [OF IH(4)] have "\<forall>i<Suc k. laid_out nodes es (nodes'[k := n]) (edges @ xs) i"
    by (auto simp: less_Suc_eq)
  with run IH k show ?case
    by (intro exI [of _ "nodes'[k := n]"] exI [of _ "edges @ xs"]) (simp add: foldM_append)
qed simp

lemma root_transitions:
  assumes "distinct (map b_label cs)"
  shows "fold (\<lambda>e f. f(b_label e := b_target e)) cs g c =
    (case find (\<lambda>e. b_label e = c) cs of None \<Rightarrow> g c | Some e \<Rightarrow> b_target e)"
  using assms
proof (induction cs arbitrary: g)
  case (Cons e cs)
  then have "b_label e \<notin> b_label ` set cs" by simp
  then have "b_label e = c \<Longrightarrow> find (\<lambda>e. b_label e = c) cs = None"
    by (metis (mono_tags, lifting) find_None_iff imageI)
  with Cons show ?case by (auto split: option.splits)
qed simp

section \<open>The automaton\<close>

definition automaton :: "(string \<Rightarrow> string) \<Rightarrow> string list \<Rightarrow> string list \<Rightarrow> matcher \<Rightarrow> bool" where
  "automaton ulow kws ps m \<longleftrightarrow> length (m_nodes m) = length ps \<and> m_keywords m = kws
     \<and> ps \<noteq> [] \<and> ps ! 0 = [] \<and> distinct ps \<and> prefix_closed (set ps) \<and> set ps = paths ulow kws (length kws)
     \<and> linked ulow kws ps {..<length ps} (m_nodes m)
     \<and> (\<forall>n<length ps. \<forall>c. (ps ! n @ [c] \<notin> set ps \<and> matcher_next m (int n) c = Some 0)
          \<or> (\<exists>k<length ps. k \<noteq> 0 \<and> ps ! k = ps ! n @ [c] \<and> matcher_next m (int n) c = Some (int k)))"

lemma matcher_next_ok:
  assumes t: "trie ps nodes es" and n: "n < length ps" "n \<noteq> 0"
    and m: "length (m_nodes m) = length ps" "laid_out nodes es (m_nodes m) (m_edges m) n"
  shows "(ps ! n @ [c] \<notin> set ps \<and> matcher_next m (int n) c = Some 0)
    \<or> (\<exists>k<length ps. ps ! k = ps ! n @ [c] \<and> matcher_next m (int n) c = Some (int k))"
proof -
  let ?nd = "m_nodes m ! n"
  obtain cs0 where "out_edges nodes es (int n) = Some cs0" "children_ok ps n cs0" using trieD(7) [OF t n(1)] by blast
  with m(2) obtain cs where cs: "children_ok ps n cs" "edgeCount ?nd = length cs"
    "edgeStart ?nd + length cs \<le> length (m_edges m)"
    "take (length cs) (drop (edgeStart ?nd) (m_edges m)) = sort_edges (map plain_edge cs)"
    by (auto simp: laid_out_def)
  have len: "length (sort_edges (map plain_edge cs)) = length cs"
    by (metis length_map mset_eq_length sort_edges_spec(2))
  have set: "set (sort_edges (map plain_edge cs)) = plain_edge ` set cs"
    by (metis list.set_map mset_eq_setD sort_edges_spec(2))
  from search_segment [OF cs(4,3) len sort_edges_spec(1), of c] obtain x where
    x: "lower_bound (m_edges m) c (int (edgeStart ?nd)) (int (edgeStart ?nd + length cs)) = Some (int x)"
      "x \<le> edgeStart ?nd + length cs"
    and hit: "(x < edgeStart ?nd + length cs \<and> label (m_edges m ! x) = c
        \<and> m_edges m ! x \<in> plain_edge ` set cs)
      \<or> ((x = edgeStart ?nd + length cs \<or> label (m_edges m ! x) \<noteq> c) \<and> (\<forall>e\<in>set cs. b_label e \<noteq> c))"
    unfolding set by auto
  have next_eq: "matcher_next m (int n) c = (if x < edgeStart ?nd + length cs
      then Some (if label (m_edges m ! x) = c then target (m_edges m ! x) else 0) else Some 0)"
    using n m(1) x cs(2,3) by (simp add: matcher_next_def Let_def)
  from hit show ?thesis
  proof
    assume *: "x < edgeStart ?nd + length cs \<and> label (m_edges m ! x) = c \<and> m_edges m ! x \<in> plain_edge ` set cs"
    then obtain e where "e \<in> set cs" "m_edges m ! x = plain_edge e" by auto
    with children_okD(2) [OF cs(1)] * next_eq show ?thesis by fastforce
  next
    assume *: "(x = edgeStart ?nd + length cs \<or> label (m_edges m ! x) \<noteq> c) \<and> (\<forall>e\<in>set cs. b_label e \<noteq> c)"
    have "ps ! n @ [c] \<notin> set ps"
      using children_okD(3) [OF cs(1)] * by (metis in_set_conv_nth)
    with * next_eq show ?thesis by auto
  qed
qed

lemma new_matcher_automaton:
  assumes low: "lower_nonempty ulow kws" and kws: "k \<in> set kws" "k \<noteq> []"
  shows "\<exists>m ps. newContentModerationKeywordMatcher ulow kws = Some (Some m) \<and> automaton ulow kws ps m"
proof -
  from insert_keywords_trie [of "length kws" kws ulow] obtain ps nodes es where
    build: "foldM (insert_keyword ulow) (zip [0..<length kws] kws) ([newContentModerationKeywordNode], []) = Some (nodes, es)"
    and t: "trie ps nodes es" and l: "labelled (own ulow kws (length kws)) ps nodes"
    and P: "set ps = paths ulow kws (length kws)" by auto
  note T = trieD [OF t]
  have "ToLower ulow k \<in> set ps" "[] \<in> set ps" "ToLower ulow k \<noteq> []"
    using kws low keyword_in_paths [of _ kws ulow] P
    by (metis in_set_conv_nth, simp add: paths_def, simp add: lower_nonempty_def)
  then have many: "length nodes \<noteq> 1" using T(1)
    by (metis One_nat_def in_set_conv_nth less_one)
  have zero: "0 < length ps" using T(2) by simp
  obtain roots where roots: "out_edges nodes es 0 = Some roots" "children_ok ps 0 roots"
    using T(7) [OF zero] by auto
  obtain ms where ms: "map b_target roots = map int ms" "distinct ms" "\<And>m. m \<in> set ms \<longleftrightarrow> child ps 0 m"
    using children_targets [OF t zero _ roots(2)] roots(1) by auto
  note start = link_start [OF t l P low ms(2,3)]
  have "0 \<notin> set ms" using ms(3) T(3) by (auto simp: child_def)
  then have "card (insert 0 (set ms)) = Suc (length ms)" using ms(2) by (simp add: distinct_card)
  moreover have "card (insert 0 (set ms)) \<le> length ps"
    using card_mono [OF _ queue_okD(1) [OF start(2)]] by simp
  ultimately have "length ms + (length ps - card (insert 0 (set ms))) \<le> length nodes" using T(1) by simp
  from link_queue_linked [OF P t start this] ms(1) obtain nodes1 where
    link: "link_queue (length nodes) (map b_target roots) es nodes = Some nodes1" "trie ps nodes1 es"
    "linked ulow kws ps {..<length ps} nodes1" by auto
  from lay_out_all [OF link(2), of "length nodes1"] obtain nodes2 edges where
    lay: "foldM (lay_out es) [0..<length nodes1] (nodes1, []) = Some (nodes2, edges)"
    "length nodes2 = length nodes1" "\<And>i. i < length nodes1 \<Longrightarrow> laid_out nodes1 es nodes2 edges i" by auto
  define rt where "rt = fold (\<lambda>e f. f(b_label e := b_target e)) roots (\<lambda>_. 0)"
  let ?m = "\<lparr>m_nodes = nodes2, m_edges = edges, rootTransitions = rt, m_keywords = kws\<rparr>"
  have len: "length nodes2 = length ps" using lay(2) trieD(1) [OF link(2)] by simp
  have new: "newContentModerationKeywordMatcher ulow kws = Some (Some ?m)"
    using kws build many roots link(1) lay(1)
    by (auto simp: newContentModerationKeywordMatcher_def Let_def rt_def)
  have linked2: "linked ulow kws ps {..<length ps} nodes2"
    using link(3) lay(3) lay(2) len unfolding linked_def laid_out_def by simp
  have trans: "(ps ! n @ [c] \<notin> set ps \<and> matcher_next ?m (int n) c = Some 0)
      \<or> (\<exists>k<length ps. k \<noteq> 0 \<and> ps ! k = ps ! n @ [c] \<and> matcher_next ?m (int n) c = Some (int k))"
    if n: "n < length ps" for n c
  proof -
    have "(ps ! n @ [c] \<notin> set ps \<and> matcher_next ?m (int n) c = Some 0)
      \<or> (\<exists>k<length ps. ps ! k = ps ! n @ [c] \<and> matcher_next ?m (int n) c = Some (int k))"
    proof (cases "n = 0")
      case False
      with matcher_next_ok [OF link(2) n False, of ?m c] len lay(2,3) n show ?thesis by simp
    next
      case True
      have rt: "matcher_next ?m 0 c = Some (case find (\<lambda>e. b_label e = c) roots of None \<Rightarrow> 0 | Some e \<Rightarrow> b_target e)"
        using root_transitions [OF children_okD(1) [OF roots(2)], of "\<lambda>_. 0" c] by (simp add: matcher_next_def rt_def)
      have pos: "find (\<lambda>e. b_label e = c) roots = Some e \<Longrightarrow> b_target e \<noteq> -1" for e
        using children_okD(2) [OF roots(2)] find_SomeD [of "\<lambda>e. b_label e = c" roots e] by fastforce
      from BuildTransition_trie [OF t zero, of c] rt roots(1) T(1,2) True pos show ?thesis
        by (auto simp: BuildTransition_def split: option.splits)
    qed
    moreover have "k \<noteq> 0" if "ps ! k = ps ! n @ [c]" for k using that T(3) by (metis append_is_Nil_conv not_Cons_self2)
    ultimately show ?thesis by blast
  qed
  have "automaton ulow kws ps ?m" unfolding automaton_def
    using len T(2-5) P linked2 trans by auto
  with new show ?thesis by blast
qed

section \<open>Matching\<close>

lemma automatonD:
  assumes "automaton ulow kws ps m"
  shows "length (m_nodes m) = length ps" "m_keywords m = kws" "ps \<noteq> []" "ps ! 0 = []" "distinct ps"
    "prefix_closed (set ps)" "set ps = paths ulow kws (length kws)" "linked ulow kws ps {..<length ps} (m_nodes m)"
    and "n < length ps \<Longrightarrow> (ps ! n @ [c] \<notin> set ps \<and> matcher_next m (int n) c = Some 0)
          \<or> (\<exists>k<length ps. k \<noteq> 0 \<and> ps ! k = ps ! n @ [c] \<and> matcher_next m (int n) c = Some (int k))"
  using assms unfolding automaton_def by blast+

lemma automaton_depth:
  assumes "automaton ulow kws ps m" and "n < length ps"
  shows "length (ps ! n) < length ps"
proof -
  let ?T = "(\<lambda>i. take i (ps ! n)) ` {..length (ps ! n)}"
  have "inj_on (\<lambda>i. take i (ps ! n)) {..length (ps ! n)}"
    by (rule inj_onI) (metis atMost_iff length_take min.absorb2)
  then have "card ?T = Suc (length (ps ! n))" by (simp add: card_image)
  moreover have "?T \<subseteq> set ps"
    using prefix_closed_take [OF automatonD(6) [OF assms(1)]] assms(2) by auto
  moreover have "card (set ps) = length ps" using automatonD(5) [OF assms(1)] by (rule distinct_card)
  ultimately show ?thesis by (metis List.finite_set card_mono Suc_le_eq)
qed

lemma advance_lsuf:
  assumes a: "automaton ulow kws ps m"
  shows "n < length ps \<Longrightarrow> length (ps ! n) < k \<Longrightarrow>
    \<exists>n'<length ps. advance k m (int n) c = Some (int n') \<and> ps ! n' = lsuf (set ps) (ps ! n @ [c])"
proof (induction k arbitrary: n)
  case (Suc k)
  note A = automatonD [OF a]
  from A(9) [OF Suc.prems(1), of c] show ?case
  proof
    assume "\<exists>k<length ps. k \<noteq> 0 \<and> ps ! k = ps ! n @ [c] \<and> matcher_next m (int n) c = Some (int k)"
    then obtain j where j: "j < length ps" "j \<noteq> 0" "ps ! j = ps ! n @ [c]" "matcher_next m (int n) c = Some (int j)"
      by blast
    then have "lsuf (set ps) (ps ! n @ [c]) = ps ! n @ [c]" by (metis lsuf_id nth_mem)
    with j show ?thesis by (intro exI [of _ j]) simp
  next
    assume no: "ps ! n @ [c] \<notin> set ps \<and> matcher_next m (int n) c = Some 0"
    show ?thesis
    proof (cases "n = 0")
      case True
      with no A(4) Suc.prems(1) show ?thesis by (intro exI [of _ 0]) simp
    next
      case False
      then have ne: "ps ! n \<noteq> []" using A(3,4,5) Suc.prems(1)
        by (metis length_greater_0_conv nth_eq_iff_index_eq)
      obtain f where f: "f < length ps" "failure (m_nodes m ! n) = int f" "ps ! f = lsuf (set ps) (tl (ps ! n))"
        using linkedD(2) [OF A(8) Suc.prems(1)] Suc.prems(1) by blast
      have "length (ps ! f) < length (ps ! n)" using f(3) lsuf_tl_length [OF ne] by metis
      with Suc.IH [OF f(1)] Suc.prems(2) obtain n' where
        n': "n' < length ps" "advance k m (int f) c = Some (int n')" "ps ! n' = lsuf (set ps) (ps ! f @ [c])" by auto
      have "advance (Suc k) m (int n) c = Some (int n')"
        using no False f(2) n'(2) A(1) Suc.prems(1) by simp
      moreover have "lsuf (set ps) (ps ! n @ [c]) = lsuf (set ps) (ps ! f @ [c])"
        using no ne f(3) by (subst lsuf_goto [OF A(6)]) simp
      ultimately show ?thesis using n' by (intro exI [of _ n']) simp
    qed
  qed
qed simp

text \<open>The keywords that occur in a text.\<close>

definition occ :: "(string \<Rightarrow> string) \<Rightarrow> string list \<Rightarrow> string \<Rightarrow> int" where
  "occ ulow kws t = least (length kws) (keyword_at ulow kws (\<lambda>w. sublist w t))"

lemma sublist_snoc: "sublist w (t @ [c]) \<longleftrightarrow> sublist w t \<or> suffix w (t @ [c])"
proof
  assume "sublist w (t @ [c])"
  then obtain u v where *: "t @ [c] = u @ w @ v" by (auto simp: sublist_def)
  show "sublist w t \<or> suffix w (t @ [c])"
  proof (cases v rule: rev_cases)
    case Nil
    with * show ?thesis by (auto simp: suffix_def)
  next
    case (snoc v' d)
    with * have "t = u @ w @ v'" by simp
    then show ?thesis by (auto simp: sublist_def)
  qed
next
  assume "sublist w t \<or> suffix w (t @ [c])"
  then show "sublist w (t @ [c])"
    by (meson prefix_imp_sublist prefixI sublist_order.order_trans suffix_imp_sublist)
qed

lemma occ_snoc: "occ ulow kws (t @ [c]) = minKeywordIndex (occ ulow kws t) (suf ulow kws (t @ [c]))"
  unfolding occ_def suf_def minKeywordIndex_least
  by (intro least_cong) (auto simp: keyword_at_def sublist_snoc)

lemma occ_zero: "occ ulow kws t = 0 \<Longrightarrow> occ ulow kws (t @ u) = 0"
proof -
  assume z: "occ ulow kws t = 0"
  then have "0 < length kws \<and> keyword_at ulow kws (\<lambda>w. sublist w t) 0" unfolding occ_def
    by (cases "length kws" "keyword_at ulow kws (\<lambda>w. sublist w t)" rule: least_cases) auto
  moreover have "sublist w t \<Longrightarrow> sublist w (t @ u)" for w by (auto simp: sublist_def) (metis append.assoc)
  ultimately have "least (length kws) (keyword_at ulow kws (\<lambda>w. sublist w (t @ u))) = int 0"
    by (intro least_eqI) (auto simp: keyword_at_def)
  then show "occ ulow kws (t @ u) = 0" by (simp add: occ_def)
qed

lemma match_loop_occ:
  assumes a: "automaton ulow kws ps m"
  shows "n < length ps \<Longrightarrow> ps ! n = lsuf (set ps) t \<Longrightarrow>
    match_loop m cs (int n) (occ ulow kws t) = Some (occ ulow kws (t @ cs))"
proof (induction cs arbitrary: n t)
  case (Cons c cs)
  note A = automatonD [OF a]
  obtain n' where n': "n' < length ps" "advance (length (m_nodes m)) m (int n) c = Some (int n')"
    "ps ! n' = lsuf (set ps) (ps ! n @ [c])"
    using advance_lsuf [OF a Cons.prems(1)] automaton_depth [OF a Cons.prems(1)] A(1) by metis
  have path: "ps ! n' = lsuf (set ps) (t @ [c])" using n'(3) Cons.prems(2) lsuf_snoc [OF A(6)] by simp
  have "bestKeyword (m_nodes m ! n') = suf ulow kws (t @ [c])"
    using linkedD(1) [OF A(8) n'(1)] n'(1) path suf_lsuf [OF A(7)] by simp
  then have best: "minKeywordIndex (occ ulow kws t) (bestKeyword (m_nodes m ! n')) = occ ulow kws (t @ [c])"
    by (simp add: occ_snoc)
  show ?case
  proof (cases "occ ulow kws (t @ [c]) = 0")
    case True
    with occ_zero [OF True, of cs] n' A(1) best show ?thesis by simp
  next
    case False
    with Cons.IH [OF n'(1) path] n' A(1) best show ?thesis by simp
  qed
qed simp

text \<open>The specification: the first keyword that is not empty and occurs in the text.\<close>

definition first_keyword :: "(string \<Rightarrow> string) \<Rightarrow> string list \<Rightarrow> string \<Rightarrow> string \<times> bool" where
  "first_keyword ulow kws text =
     (case find (\<lambda>k. k \<noteq> [] \<and> Contains (ToLower ulow text) (ToLower ulow k)) kws of
        Some k \<Rightarrow> (k, True) | None \<Rightarrow> ([], False))"

lemma find_index: "find P kws = map_option ((!) kws) (find (\<lambda>i. P (kws ! i)) [0..<length kws])"
proof -
  have "find P (map f xs) = map_option f (find (\<lambda>i. P (f i)) xs)" for f :: "nat \<Rightarrow> 'a" and xs
    by (induction xs) auto
  from this [of "(!) kws" "[0..<length kws]"] show ?thesis by (simp add: map_nth)
qed

lemma first_keyword_occ:
  "first_keyword ulow kws text =
     (if occ ulow kws (ToLower ulow text) < 0 then ([], False)
      else (kws ! nat (occ ulow kws (ToLower ulow text)), True))"
proof -
  have "(\<lambda>i. kws ! i \<noteq> [] \<and> Contains (ToLower ulow text) (ToLower ulow (kws ! i))) =
      keyword_at ulow kws (\<lambda>w. sublist w (ToLower ulow text))"
    by (simp add: fun_eq_iff keyword_at_def Contains_iff)
  then have "find (\<lambda>k. k \<noteq> [] \<and> Contains (ToLower ulow text) (ToLower ulow k)) kws =
      map_option ((!) kws) (find (keyword_at ulow kws (\<lambda>w. sublist w (ToLower ulow text))) [0..<length kws])"
    using find_index [of "\<lambda>k. k \<noteq> [] \<and> Contains (ToLower ulow text) (ToLower ulow k)" kws] by simp
  then show ?thesis by (simp add: first_keyword_def occ_def least_def split: option.splits)
qed

text \<open>C3. The keyword matcher is correct: building the automaton for a list of keywords and matching a
  text never panics or loops, and answers with the first keyword of the list that is not empty
  and occurs in the text, both in lower case; when there is none, it reports no match.\<close>

theorem Match_first_keyword:
  assumes "lower_nonempty ulow kws"
  shows "Option.bind (newContentModerationKeywordMatcher ulow kws) (\<lambda>m. Match ulow m text)
    = Some (first_keyword ulow kws text)"
proof (cases "\<exists>k\<in>set kws. k \<noteq> []")
  case False
  then have "first_keyword ulow kws text = ([], False)"
    by (auto simp: first_keyword_def find_None_iff split: option.splits dest!: find_SomeD)
  moreover have "newContentModerationKeywordMatcher ulow kws = Some None"
  proof -
    have "foldM (insert_keyword ulow) ps s = Some s" if "\<forall>p\<in>set ps. snd p = []" for ps s
      using that by (induction ps arbitrary: s) (auto simp: insert_keyword_def split: prod.splits)
    moreover have "\<forall>p\<in>set (zip [0..<length kws] kws). snd p = []" using False
      by (auto dest: set_zip_rightD)
    ultimately show ?thesis by (simp add: newContentModerationKeywordMatcher_def)
  qed
  ultimately show ?thesis by (simp add: Match_def)
next
  case True
  then obtain m ps where m: "newContentModerationKeywordMatcher ulow kws = Some (Some m)"
    and a: "automaton ulow kws ps m" using new_matcher_automaton [OF assms] by blast
  note A = automatonD [OF a]
  have start: "occ ulow kws [] = -1" using assms unfolding occ_def
    by (intro least_none) (auto simp: keyword_at_def lower_nonempty_def)
  have run: "match_loop m (ToLower ulow text) 0 (-1) = Some (occ ulow kws (ToLower ulow text))"
    using match_loop_occ [OF a, of 0 "[]" "ToLower ulow text"] A(3,4) start by simp
  have bound: "occ ulow kws (ToLower ulow text) < int (length kws)"
    unfolding occ_def by (rule least_less)
  have empty: "text = [] \<Longrightarrow> ToLower ulow text = []" by (simp add: ToLower_def is_ascii_def)
  have "Match ulow (Some m) text = Some (first_keyword ulow kws text)"
    using run bound start empty A(1,2,3) True
    by (cases "text = []") (auto simp: Match_def first_keyword_occ at_def)
  with m show ?thesis by simp
qed

theorem Match_first_keyword_witness:
  "Option.bind (newContentModerationKeywordMatcher id [''she'', ''HERS'', [], ''his'']) (\<lambda>m. Match id m ''uSHErs'')
    = Some (''she'', True)"
proof -
  have "lower_nonempty id [''she'', ''HERS'', [], ''his'']"
    by (simp add: lower_nonempty_def ToLower_def)
  moreover have "first_keyword id [''she'', ''HERS'', [], ''his''] ''uSHErs'' = (''she'', True)" by code_simp
  ultimately show ?thesis using Match_first_keyword [of id _ "''uSHErs''"] by metis
qed

end
