(* ===== verification/Account_Order.thy ===== *)
theory Account_Order
  imports Go_Prelude "HOL-Library.Product_Lexorder"
begin

text \<open>
  Accounts and how the gateway orders them: the checks of \<^verbatim>\<open>backend/internal/service/account.go\<close> that
  decide whether an account may be scheduled, and the filters, sorts and shuffles of
  \<^verbatim>\<open>backend/internal/service/gateway_scheduling.go\<close>.  Of the struct \<^verbatim>\<open>Account\<close> the record has the fields
  that these functions read.

  \<^verbatim>\<open>mathrand\<close> is a source of draws: a function from the number of the draw to a natural number, of
  which a draw below \<open>n\<close> takes the remainder; the functions return what is left of it.  Every
  sequence of draws is covered.
\<close>

section \<open>Accounts\<close>

definition StatusActive :: string where "StatusActive = ''active''"
definition AccountTypeOAuth :: string where "AccountTypeOAuth = ''oauth''"
definition AccountTypeSetupToken :: string where "AccountTypeSetupToken = ''setup-token''"

record account =
  ID :: int
  Type :: string
  acc_Status :: string
  Schedulable :: bool
  Priority :: int
  Concurrency :: int
  LoadFactor :: "int option"
  LastUsedAt :: "go_time option"
  acc_ExpiresAt :: "go_time option"
  AutoPauseOnExpired :: bool
  RateLimitResetAt :: "go_time option"
  OverloadUntil :: "go_time option"
  TempUnschedulableUntil :: "go_time option"
  SessionWindowEnd :: "go_time option"

record load_info =
  LoadRate :: int

record account_with_load =
  account :: account
  loadInfo :: load_info

definition IsActive :: "account \<Rightarrow> bool" where
  "IsActive a \<longleftrightarrow> acc_Status a = StatusActive"

definition EffectiveLoadFactor :: "account option \<Rightarrow> int" where
  "EffectiveLoadFactor acc = (case acc of None \<Rightarrow> 1
     | Some a \<Rightarrow> (case LoadFactor a of
           Some f \<Rightarrow> (if 0 < f then f else if 0 < Concurrency a then Concurrency a else 1)
         | None \<Rightarrow> (if 0 < Concurrency a then Concurrency a else 1)))"

text \<open>\<^verbatim>\<open>t != nil && now.Before(*t)\<close>.\<close>

definition until :: "go_time \<Rightarrow> go_time option \<Rightarrow> bool" where
  "until now t = (case t of None \<Rightarrow> False | Some x \<Rightarrow> time_Before now x)"

text \<open>\<^verbatim>\<open>a.AutoPauseOnExpired && a.ExpiresAt != nil && !now.Before(*a.ExpiresAt)\<close>.\<close>

definition paused_expired :: "go_time \<Rightarrow> account \<Rightarrow> bool" where
  "paused_expired now a \<longleftrightarrow> AutoPauseOnExpired a
     \<and> (case acc_ExpiresAt a of None \<Rightarrow> False | Some x \<Rightarrow> \<not> time_Before now x)"

text \<open>
  \<^verbatim>\<open>IsSchedulable\<close>.  The two last conditions of the code, the exhausted MiniMax plan and the exceeded
  account quota, are arguments: they read provider data of the account that the record leaves out.
\<close>

definition IsSchedulable :: "bool \<Rightarrow> bool \<Rightarrow> go_time \<Rightarrow> account \<Rightarrow> bool" where
  "IsSchedulable planExhausted quotaExceeded now a =
     (if \<not> IsActive a \<or> \<not> Schedulable a then False
      else if paused_expired now a then False
      else if until now (OverloadUntil a) then False
      else if until now (RateLimitResetAt a) then False
      else if until now (TempUnschedulableUntil a) then False
      else if planExhausted then False
      else if quotaExceeded then False
      else True)"

definition IsCredentialUsableForShadow :: "go_time \<Rightarrow> account option \<Rightarrow> bool" where
  "IsCredentialUsableForShadow now acc = (case acc of None \<Rightarrow> False
     | Some a \<Rightarrow>
         (if \<not> IsActive a then False
          else if paused_expired now a then False
          else if until now (TempUnschedulableUntil a) then False
          else True))"

definition IsRateLimited :: "go_time \<Rightarrow> account \<Rightarrow> bool" where
  "IsRateLimited now a = until now (RateLimitResetAt a)"

definition IsOverloaded :: "go_time \<Rightarrow> account \<Rightarrow> bool" where
  "IsOverloaded now a = until now (OverloadUntil a)"

definition IsOAuth :: "account \<Rightarrow> bool" where
  "IsOAuth a \<longleftrightarrow> Type a = AccountTypeOAuth \<or> Type a = AccountTypeSetupToken"

section \<open>Random draws\<close>

type_synonym draws = "nat \<Rightarrow> nat"

definition Intn :: "nat \<Rightarrow> draws \<Rightarrow> nat \<times> draws" where
  "Intn n g = (g 0 mod n, \<lambda>k. g (Suc k))"

definition swap :: "'a list \<Rightarrow> nat \<Rightarrow> nat \<Rightarrow> 'a list" where
  "swap xs i j = xs[i := xs ! j, j := xs ! i]"

text \<open>\<^verbatim>\<open>mathrand.Shuffle\<close>: for \<open>i\<close> from the last index down to 1, swap with a drawn index up to \<open>i\<close>.\<close>

fun shuffle_from :: "nat \<Rightarrow> 'a list \<Rightarrow> draws \<Rightarrow> 'a list \<times> draws" where
  "shuffle_from 0 xs g = (xs, g)"
| "shuffle_from (Suc i) xs g =
     (case Intn (Suc (Suc i)) g of (j, g') \<Rightarrow> shuffle_from i (swap xs (Suc i) j) g')"

definition Shuffle :: "'a list \<Rightarrow> draws \<Rightarrow> 'a list \<times> draws" where
  "Shuffle xs g = shuffle_from (length xs - 1) xs g"

section \<open>The filters of the layered selection\<close>

text \<open>The running minimum of the two first filters, and its members.\<close>

definition min_by :: "('a \<Rightarrow> int) \<Rightarrow> 'a list \<Rightarrow> int" where
  "min_by f xs = fold (\<lambda>x m. if f x < m then f x else m) (tl xs) (f (hd xs))"

definition filterByMinPriority :: "account_with_load list \<Rightarrow> account_with_load list" where
  "filterByMinPriority accounts = (if accounts = [] then accounts
     else (let minPriority = min_by (\<lambda>a. Priority (account a)) accounts
           in filter (\<lambda>a. Priority (account a) = minPriority) accounts))"

definition filterByMinLoadRate :: "account_with_load list \<Rightarrow> account_with_load list" where
  "filterByMinLoadRate accounts = (if accounts = [] then accounts
     else (let minLoadRate = min_by (\<lambda>a. LoadRate (loadInfo a)) accounts
           in filter (\<lambda>a. LoadRate (loadInfo a) = minLoadRate) accounts))"

definition earliest_end :: "go_time \<Rightarrow> account_with_load list \<Rightarrow> go_time option" where
  "earliest_end now accounts = fold (\<lambda>acc minEnd.
     case SessionWindowEnd (account acc) of
       None \<Rightarrow> minEnd
     | Some e \<Rightarrow> if \<not> time_Before now e then minEnd
                 else (case minEnd of None \<Rightarrow> Some e | Some m \<Rightarrow> if time_Before e m then Some e else minEnd))
     accounts None"

definition filterBySoonestReset :: "go_time \<Rightarrow> account_with_load list \<Rightarrow> account_with_load list" where
  "filterBySoonestReset now accounts = (if length accounts \<le> 1 then accounts
     else (case earliest_end now accounts of
             None \<Rightarrow> accounts
           | Some m \<Rightarrow> filter (\<lambda>acc. case SessionWindowEnd (account acc) of None \<Rightarrow> False
               | Some e \<Rightarrow> time_Before now e \<and> e = m) accounts))"

definition oldest_use :: "account_with_load list \<Rightarrow> go_time option" where
  "oldest_use accounts = fold (\<lambda>acc minTime.
     case LastUsedAt (account acc) of
       None \<Rightarrow> minTime
     | Some t \<Rightarrow> (case minTime of None \<Rightarrow> Some t | Some m \<Rightarrow> if time_Before t m then Some t else minTime))
     accounts None"

text \<open>
  \<^verbatim>\<open>selectByLRU\<close>.  The first loop stops at an account that was never used, so its minimum only counts
  when there is none; the lists of indices are lists of accounts here.
\<close>

definition selectByLRU ::
    "account_with_load list \<Rightarrow> bool \<Rightarrow> draws \<Rightarrow> account_with_load option \<times> draws" where
  "selectByLRU accounts preferOAuth g = (case accounts of
       [] \<Rightarrow> (None, g)
     | [a] \<Rightarrow> (Some a, g)
     | _ \<Rightarrow>
         (let hasNil = list_ex (\<lambda>a. LastUsedAt (account a) = None) accounts;
              cands = (if hasNil then filter (\<lambda>a. LastUsedAt (account a) = None) accounts
                       else filter (\<lambda>a. LastUsedAt (account a) \<noteq> None
                              \<and> LastUsedAt (account a) = oldest_use accounts) accounts)
          in case cands of
               [a] \<Rightarrow> (Some a, g)
             | _ \<Rightarrow>
                 (let oauth = filter (\<lambda>a. Type (account a) = AccountTypeOAuth) cands;
                      pool = (if preferOAuth \<and> oauth \<noteq> [] then oauth else cands)
                  in case Intn (length pool) g of (i, g') \<Rightarrow> (Some (pool ! i), g'))))"

section \<open>Sorting and shuffling\<close>

text \<open>\<^verbatim>\<open>nil\<close> counts as the earliest instant.\<close>

definition used_less :: "go_time option \<Rightarrow> go_time option \<Rightarrow> bool" where
  "used_less a b = (case (a, b) of
       (None, Some _) \<Rightarrow> True
     | (Some _, None) \<Rightarrow> False
     | (None, None) \<Rightarrow> False
     | (Some s, Some t) \<Rightarrow> time_Before s t)"

definition less_priority_used :: "bool \<Rightarrow> account \<Rightarrow> account \<Rightarrow> bool" where
  "less_priority_used preferOAuth a b =
     (if Priority a \<noteq> Priority b then Priority a < Priority b
      else if LastUsedAt a = None \<and> LastUsedAt b = None
        then (if preferOAuth \<and> Type a \<noteq> Type b then Type a = AccountTypeOAuth else False)
      else used_less (LastUsedAt a) (LastUsedAt b))"

definition less_load :: "account_with_load \<Rightarrow> account_with_load \<Rightarrow> bool" where
  "less_load a b =
     (if Priority (account a) \<noteq> Priority (account b) then Priority (account a) < Priority (account b)
      else if LoadRate (loadInfo a) \<noteq> LoadRate (loadInfo b) then LoadRate (loadInfo a) < LoadRate (loadInfo b)
      else used_less (LastUsedAt (account a)) (LastUsedAt (account b)))"

definition less_priority :: "bool \<Rightarrow> account \<Rightarrow> account \<Rightarrow> bool" where
  "less_priority preferOAuth a b =
     (if Priority a \<noteq> Priority b then Priority a < Priority b
      else if preferOAuth \<and> Type a \<noteq> Type b then Type a = AccountTypeOAuth else False)"

definition Unix :: "go_time \<Rightarrow> int" where
  "Unix t = t div Second"

definition sameLastUsedAt :: "go_time option \<Rightarrow> go_time option \<Rightarrow> bool" where
  "sameLastUsedAt a b = (case (a, b) of
       (None, None) \<Rightarrow> True
     | (Some s, Some t) \<Rightarrow> Unix s = Unix t
     | _ \<Rightarrow> False)"

definition sameAccountGroup :: "account \<Rightarrow> account \<Rightarrow> bool" where
  "sameAccountGroup a b \<longleftrightarrow> Priority a = Priority b \<and> sameLastUsedAt (LastUsedAt a) (LastUsedAt b)"

definition sameAccountWithLoadGroup :: "account_with_load \<Rightarrow> account_with_load \<Rightarrow> bool" where
  "sameAccountWithLoadGroup a b \<longleftrightarrow> Priority (account a) = Priority (account b)
     \<and> LoadRate (loadInfo a) = LoadRate (loadInfo b)
     \<and> sameLastUsedAt (LastUsedAt (account a)) (LastUsedAt (account b))"

text \<open>
  The loop shared by the three shuffles: the group of the first element reaches as far as the
  elements are in the same group; groups of two or more are rearranged by \<open>f\<close>.
\<close>

function shuffle_groups ::
    "('a \<Rightarrow> 'a \<Rightarrow> bool) \<Rightarrow> ('a list \<Rightarrow> draws \<Rightarrow> 'a list \<times> draws) \<Rightarrow> 'a list \<Rightarrow> draws \<Rightarrow> 'a list \<times> draws" where
  "shuffle_groups same f [] g = ([], g)"
| "shuffle_groups same f (x # xs) g =
     (let grp = x # takeWhile (same x) xs;
          (grp', g') = (if 1 < length grp then f grp g else (grp, g));
          (rest, g'') = shuffle_groups same f (dropWhile (same x) xs) g'
      in (grp' @ rest, g''))"
  by pat_completeness auto
termination
  by (relation "measure (\<lambda>(same, f, xs, g). length xs)") (auto simp: le_imp_less_Suc length_dropWhile_le)

definition shuffleWithinSortGroups :: "account_with_load list \<Rightarrow> draws \<Rightarrow> account_with_load list \<times> draws" where
  "shuffleWithinSortGroups accounts g =
     (if length accounts \<le> 1 then (accounts, g) else shuffle_groups sameAccountWithLoadGroup Shuffle accounts g)"

text \<open>A group with preference: the OAuth accounts, shuffled, before the others, shuffled.\<close>

definition shuffle_partition :: "account list \<Rightarrow> draws \<Rightarrow> account list \<times> draws" where
  "shuffle_partition grp g =
     (let oauth = filter (\<lambda>a. Type a = AccountTypeOAuth) grp;
          others = filter (\<lambda>a. Type a \<noteq> AccountTypeOAuth) grp;
          (oauth', g1) = (if 1 < length oauth then Shuffle oauth g else (oauth, g));
          (others', g2) = (if 1 < length others then Shuffle others g1 else (others, g1))
      in (oauth' @ others', g2))"

definition shuffleWithinPriorityAndLastUsed :: "account list \<Rightarrow> bool \<Rightarrow> draws \<Rightarrow> account list \<times> draws" where
  "shuffleWithinPriorityAndLastUsed accounts preferOAuth g =
     (if length accounts \<le> 1 then (accounts, g)
      else shuffle_groups sameAccountGroup (if preferOAuth then shuffle_partition else Shuffle) accounts g)"

definition sortAccountsByPriorityAndLastUsed :: "account list \<Rightarrow> bool \<Rightarrow> draws \<Rightarrow> account list \<times> draws" where
  "sortAccountsByPriorityAndLastUsed accounts preferOAuth g =
     shuffleWithinPriorityAndLastUsed (slice_stable (less_priority_used preferOAuth) accounts) preferOAuth g"

definition sortAccountsByPriorityOnly :: "account list \<Rightarrow> bool \<Rightarrow> account list" where
  "sortAccountsByPriorityOnly accounts preferOAuth = slice_stable (less_priority preferOAuth) accounts"

definition shuffleWithinPriority :: "account list \<Rightarrow> draws \<Rightarrow> account list \<times> draws" where
  "shuffleWithinPriority accounts g =
     (if length accounts \<le> 1 then (accounts, g)
      else shuffle_groups (\<lambda>a b. Priority b = Priority a) Shuffle accounts g)"

definition sortCandidatesForFallback :: "account list \<Rightarrow> bool \<Rightarrow> string \<Rightarrow> draws \<Rightarrow> account list \<times> draws" where
  "sortCandidatesForFallback accounts preferOAuth mode g =
     (if mode = ''random'' then shuffleWithinPriority (sortAccountsByPriorityOnly accounts preferOAuth) g
      else sortAccountsByPriorityAndLastUsed accounts preferOAuth g)"

section \<open>Shuffles are permutations\<close>

lemma mset_shuffle_from: "i < length xs \<Longrightarrow> mset (fst (shuffle_from i xs g)) = mset xs"
proof (induction i arbitrary: xs g)
  case (Suc i)
  have "mset (swap xs (Suc i) j) = mset xs" if "j < length xs" for j
    using mset_swap [of j xs "Suc i"] Suc.prems that by (simp add: swap_def)
  moreover have "g 0 mod Suc (Suc i) < length xs"
    using Suc.prems by (metis Suc_leI less_le_trans mod_less_divisor zero_less_Suc)
  moreover have "length (swap xs (Suc i) j) = length xs" for j by (simp add: swap_def)
  ultimately show ?case using Suc by (simp add: Intn_def)
qed simp

lemma mset_Shuffle [simp]: "mset (fst (Shuffle xs g)) = mset xs"
  by (cases xs) (simp_all add: Shuffle_def mset_shuffle_from)

lemma mset_shuffle_partition [simp]: "mset (fst (shuffle_partition grp g)) = mset grp"
proof -
  obtain a g1 where 1: "(if 1 < length (filter (\<lambda>a. Type a = AccountTypeOAuth) grp)
      then Shuffle (filter (\<lambda>a. Type a = AccountTypeOAuth) grp) g
      else (filter (\<lambda>a. Type a = AccountTypeOAuth) grp, g)) = (a, g1)" by fastforce
  obtain b g2 where 2: "(if 1 < length (filter (\<lambda>a. Type a \<noteq> AccountTypeOAuth) grp)
      then Shuffle (filter (\<lambda>a. Type a \<noteq> AccountTypeOAuth) grp) g1
      else (filter (\<lambda>a. Type a \<noteq> AccountTypeOAuth) grp, g1)) = (b, g2)" by fastforce
  have "mset a = mset (filter (\<lambda>a. Type a = AccountTypeOAuth) grp)"
    using 1 by (metis fst_conv mset_Shuffle)
  moreover have "mset b = mset (filter (\<lambda>a. Type a \<noteq> AccountTypeOAuth) grp)"
    using 2 by (metis fst_conv mset_Shuffle)
  ultimately show ?thesis using 1 2 multiset_partition [of "mset grp" "\<lambda>a. Type a = AccountTypeOAuth"]
    by (simp add: shuffle_partition_def Let_def mset_filter)
qed

text \<open>Elements of the same group stay together when the list is sorted by the group's key.\<close>

lemma shuffle_groups_sorted:
  assumes f: "\<And>grp g. mset (fst (f grp g)) = mset grp" "\<And>grp g. sorted (map h (fst (f grp g)))"
    and same: "\<And>x y. same x y \<longleftrightarrow> k x = (k y :: 'k::linorder)"
  shows "sorted (map k xs) \<Longrightarrow>
    sorted (map (\<lambda>a. (k a, h a :: 'h::linorder)) (fst (shuffle_groups same f xs g)))
      \<and> mset (fst (shuffle_groups same f xs g)) = mset xs"
proof (induction "length xs" arbitrary: xs g rule: less_induct)
  case less
  show ?case
  proof (cases xs)
    case (Cons x ys)
    let ?grp = "x # takeWhile (same x) ys"
    obtain grp' g' where grp: "(if 1 < length ?grp then f ?grp g else (?grp, g)) = (grp', g')" by fastforce
    obtain rest g'' where rest: "shuffle_groups same f (dropWhile (same x) ys) g' = (rest, g'')" by fastforce
    have res: "fst (shuffle_groups same f xs g) = grp' @ rest"
      using grp rest by (simp add: Cons Let_def)
    have split: "ys = takeWhile (same x) ys @ dropWhile (same x) ys" by simp
    have m: "mset grp' = mset ?grp" using grp f(1) [of ?grp g] by (auto split: if_splits)
    have "length (takeWhile (same x) ys) = 0 \<Longrightarrow> takeWhile (same x) ys = []" by simp
    then have h: "sorted (map h grp')" using grp f(2) [of ?grp g] by (auto split: if_splits)
    have sorted_ys: "sorted (map k (x # ys))" using less.prems Cons by simp
    then have "sorted (map k (takeWhile (same x) ys @ dropWhile (same x) ys))" by simp
    then have "sorted (map k (dropWhile (same x) ys))" unfolding map_append sorted_append by blast
    moreover have "length (dropWhile (same x) ys) < length xs" using Cons length_dropWhile_le [of "same x" ys] by simp
    ultimately have IH: "sorted (map (\<lambda>a. (k a, h a)) rest)" "mset rest = mset (dropWhile (same x) ys)"
      using less.hyps [of "dropWhile (same x) ys" g'] rest by simp_all
    have kx: "k a = k x" if "a \<in> set grp'" for a
    proof -
      have "set grp' = set ?grp" using m mset_eq_setD by blast
      with that show ?thesis using set_takeWhileD [of a "same x" ys] same by auto
    qed
    have ge: "k x < k b" if "b \<in> set rest" for b
    proof -
      have b: "b \<in> set (dropWhile (same x) ys)" using that IH(2) mset_eq_setD by blast
      then have "dropWhile (same x) ys \<noteq> []" by (metis empty_iff list.set(1))
      then obtain d ds where d: "dropWhile (same x) ys = d # ds" "\<not> same x d"
        by (metis hd_dropWhile list.exhaust_sel)
      have "d \<in> set ys" using d(1) split by (metis in_set_conv_decomp)
      then have "k x \<le> k d" using sorted_ys by auto
      then have "k x < k d" using d(2) same [of x d] by simp
      moreover have "k d \<le> k b" using \<open>sorted (map k (dropWhile (same x) ys))\<close> b d(1) by auto
      ultimately show ?thesis by simp
    qed
    have "sorted (map (\<lambda>a. (k a, h a)) grp')"
    proof -
      have "sorted_wrt (\<lambda>a b. h a \<le> h b) grp'" using h by (simp add: sorted_wrt_map)
      then have "sorted_wrt (\<lambda>a b. (k a, h a) \<le> (k b, h b)) grp'"
        by (rule sorted_wrt_mono_rel [rotated]) (simp add: kx)
      then show ?thesis by (simp only: sorted_wrt_map)
    qed
    moreover have "mset xs = mset grp' + mset rest"
      using m IH(2) Cons by (metis mset_append split union_code append_Cons)
    ultimately show ?thesis unfolding res using IH(1) kx ge
      by (auto simp: sorted_append less_eq_prod_def)
  qed simp
qed

section \<open>The keys of the orders\<close>

definition used_key :: "go_time option \<Rightarrow> int \<times> int" where
  "used_key t = (case t of None \<Rightarrow> (0, 0) | Some x \<Rightarrow> (1, x))"

definition used_second :: "go_time option \<Rightarrow> int \<times> int" where
  "used_second t = (case t of None \<Rightarrow> (0, 0) | Some x \<Rightarrow> (1, Unix x))"

definition not_oauth :: "bool \<Rightarrow> account \<Rightarrow> int" where
  "not_oauth preferOAuth a = (if preferOAuth \<and> Type a \<noteq> AccountTypeOAuth then 1 else 0)"

lemma used_less_key: "used_less a b \<longleftrightarrow> used_key a < used_key b"
  by (auto simp: used_less_def used_key_def time_defs split: option.splits)

lemma used_second_mono: "used_key a \<le> used_key b \<Longrightarrow> used_second a \<le> used_second b"
  by (auto simp: used_key_def used_second_def Unix_def unit_defs zdiv_mono1 split: option.splits)

lemma sameLastUsedAt_second: "sameLastUsedAt a b \<longleftrightarrow> used_second a = used_second b"
  by (auto simp: sameLastUsedAt_def used_second_def split: option.splits)

interpretation by_use: keyed_less "less_priority_used p"
  "\<lambda>a. (Priority a, used_key (LastUsedAt a), if LastUsedAt a = None then not_oauth p a else 0)" for p
  by unfold_locales
    (auto simp: less_priority_used_def used_less_key not_oauth_def used_key_def split: option.splits)

interpretation by_load: keyed_less less_load
  "\<lambda>a. (Priority (account a), LoadRate (loadInfo a), used_key (LastUsedAt (account a)))"
  by unfold_locales (auto simp: less_load_def used_less_key)

interpretation by_priority: keyed_less "less_priority p" "\<lambda>a. (Priority a, not_oauth p a)" for p
  by unfold_locales (auto simp: less_priority_def not_oauth_def)

section \<open>Properties of the orders\<close>

lemma sorted_short: "length xs \<le> 1 \<Longrightarrow> sorted xs"
  by (cases xs) (auto simp: Suc_le_eq)

lemma Type_sorted_partition: "sorted (map (not_oauth True) (fst (shuffle_partition grp g)))"
proof -
  obtain a g1 where 1: "(if 1 < length (filter (\<lambda>a. Type a = AccountTypeOAuth) grp)
      then Shuffle (filter (\<lambda>a. Type a = AccountTypeOAuth) grp) g
      else (filter (\<lambda>a. Type a = AccountTypeOAuth) grp, g)) = (a, g1)" by fastforce
  obtain b g2 where 2: "(if 1 < length (filter (\<lambda>a. Type a \<noteq> AccountTypeOAuth) grp)
      then Shuffle (filter (\<lambda>a. Type a \<noteq> AccountTypeOAuth) grp) g1
      else (filter (\<lambda>a. Type a \<noteq> AccountTypeOAuth) grp, g1)) = (b, g2)" by fastforce
  have "set a = set (filter (\<lambda>a. Type a = AccountTypeOAuth) grp)"
    using 1 by (metis fst_conv mset_Shuffle mset_eq_setD)
  then have a: "map (not_oauth True) a = replicate (length a) 0"
    by (intro replicate_eqI) (auto simp: not_oauth_def)
  have "set b = set (filter (\<lambda>a. Type a \<noteq> AccountTypeOAuth) grp)"
    using 2 by (metis fst_conv mset_Shuffle mset_eq_setD)
  then have b: "map (not_oauth True) b = replicate (length b) 1"
    by (intro replicate_eqI) (auto simp: not_oauth_def)
  have "fst (shuffle_partition grp g) = a @ b" using 1 2 by (simp add: shuffle_partition_def Let_def)
  with a b show ?thesis by (auto simp: sorted_append)
qed

lemma sorted_by_use_second:
  "sorted (map (\<lambda>a. (Priority a, used_second (LastUsedAt a))) (slice_stable (less_priority_used p) xs))"
proof -
  let ?ys = "slice_stable (less_priority_used p) xs"
  let ?k = "\<lambda>a. (Priority a, used_key (LastUsedAt a), if LastUsedAt a = None then not_oauth p a else 0)"
  have "sorted_wrt (\<lambda>a b. ?k a \<le> ?k b) ?ys" using by_use.sorted_slice_stable [of p xs] by (simp add: sorted_wrt_map)
  then have "sorted_wrt (\<lambda>a b. (Priority a, used_second (LastUsedAt a)) \<le> (Priority b, used_second (LastUsedAt b))) ?ys"
  proof (rule sorted_wrt_mono_rel [rotated])
    fix a b assume "?k a \<le> ?k b"
    then have "Priority a < Priority b \<or> Priority a = Priority b \<and> used_key (LastUsedAt a) \<le> used_key (LastUsedAt b)"
      by (simp add: order_le_less) (metis order_less_imp_le order_refl)
    then show "(Priority a, used_second (LastUsedAt a)) \<le> (Priority b, used_second (LastUsedAt b))"
      using used_second_mono by auto
  qed
  then show ?thesis by (simp add: sorted_wrt_map)
qed

text \<open>The order in which the accounts are offered when they are sorted by their last use.\<close>

abbreviation fallback_key :: "bool \<Rightarrow> account \<Rightarrow> (int \<times> int \<times> int) \<times> int" where
  "fallback_key preferOAuth a \<equiv> ((Priority a, used_second (LastUsedAt a)), not_oauth preferOAuth a)"

lemma order_by_use:
  "mset (fst (sortAccountsByPriorityAndLastUsed accounts preferOAuth g)) = mset accounts
   \<and> sorted (map (fallback_key preferOAuth) (fst (sortAccountsByPriorityAndLastUsed accounts preferOAuth g)))"
proof -
  let ?ys = "slice_stable (less_priority_used preferOAuth) accounts"
  have same: "sameAccountGroup x y \<longleftrightarrow>
      (Priority x, used_second (LastUsedAt x)) = (Priority y, used_second (LastUsedAt y))" for x y
    by (simp add: sameAccountGroup_def sameLastUsedAt_second)
  have f: "mset (fst ((if preferOAuth then shuffle_partition else Shuffle) grp g)) = mset grp"
    "sorted (map (not_oauth preferOAuth) (fst ((if preferOAuth then shuffle_partition else Shuffle) grp g)))" for grp g
  proof -
    have "\<not> preferOAuth \<Longrightarrow> not_oauth preferOAuth = (\<lambda>_. 0)" by (simp add: not_oauth_def fun_eq_iff)
    then show "sorted (map (not_oauth preferOAuth) (fst ((if preferOAuth then shuffle_partition else Shuffle) grp g)))"
      using Type_sorted_partition [of grp g] by (cases preferOAuth) (auto simp: sorted_wrt_map sorted_wrt_iff_nth_less)
  qed simp
  show ?thesis
  proof (cases "length ?ys \<le> 1")
    case True
    then have "sorted (map (fallback_key preferOAuth) ?ys)" by (intro sorted_short) simp
    with True show ?thesis
      by (simp add: sortAccountsByPriorityAndLastUsed_def shuffleWithinPriorityAndLastUsed_def)
  next
    case False
    have "sorted (map (fallback_key preferOAuth) (fst (shuffle_groups sameAccountGroup
          (if preferOAuth then shuffle_partition else Shuffle) ?ys g)))
        \<and> mset (fst (shuffle_groups sameAccountGroup (if preferOAuth then shuffle_partition else Shuffle) ?ys g)) = mset ?ys"
      by (rule shuffle_groups_sorted [OF f same sorted_by_use_second])
    with False show ?thesis by (simp add: sortAccountsByPriorityAndLastUsed_def shuffleWithinPriorityAndLastUsed_def)
  qed
qed

text \<open>The fallback order by last use: for every sequence of random draws the result is a
  permutation of the candidates, ordered by priority, then by the second of the last use (never
  used first), and, when OAuth accounts are preferred, with the OAuth accounts first within each
  such group.\<close>

theorem sortAccountsByPriorityAndLastUsed_order:
  "mset (fst (sortAccountsByPriorityAndLastUsed accounts preferOAuth g)) = mset accounts
   \<and> sorted (map (fallback_key preferOAuth) (fst (sortAccountsByPriorityAndLastUsed accounts preferOAuth g)))"
  by (rule order_by_use)

lemma order_random:
  "mset (fst (sortCandidatesForFallback accounts preferOAuth ''random'' g)) = mset accounts
   \<and> sorted (map Priority (fst (sortCandidatesForFallback accounts preferOAuth ''random'' g)))"
proof -
  let ?ys = "sortAccountsByPriorityOnly accounts preferOAuth"
  have "sorted_wrt (\<lambda>a b. (Priority a, not_oauth preferOAuth a) \<le> (Priority b, not_oauth preferOAuth b)) ?ys"
    using by_priority.sorted_slice_stable [of preferOAuth accounts]
    by (simp add: sortAccountsByPriorityOnly_def sorted_wrt_map)
  then have s: "sorted (map Priority ?ys)"
    unfolding sorted_wrt_map by (rule sorted_wrt_mono_rel [rotated]) (auto simp: less_eq_prod_def)
  have m: "mset ?ys = mset accounts" by (simp add: sortAccountsByPriorityOnly_def)
  have "sorted (map (\<lambda>a. (Priority a, 0 :: int)) (fst (shuffle_groups (\<lambda>a b. Priority b = Priority a) Shuffle ?ys g)))
      \<and> mset (fst (shuffle_groups (\<lambda>a b. Priority b = Priority a) Shuffle ?ys g)) = mset ?ys"
    by (rule shuffle_groups_sorted [where h = "\<lambda>_. 0" and k = Priority])
      (use s in \<open>auto simp: sorted_wrt_map sorted_wrt_iff_nth_less\<close>)
  moreover from this have "sorted (map Priority (fst (shuffle_groups (\<lambda>a b. Priority b = Priority a) Shuffle ?ys g)))"
    unfolding sorted_wrt_map by (metis (no_types, lifting) less_eq_prod_def fst_conv order_less_imp_le sorted_wrt_mono_rel)
  ultimately show ?thesis using s m
    by (simp add: sortCandidatesForFallback_def shuffleWithinPriority_def)
qed

text \<open>The fallback order in random mode: a permutation of the candidates ordered by priority.\<close>

theorem sortCandidatesForFallback_random:
  "mset (fst (sortCandidatesForFallback accounts preferOAuth ''random'' g)) = mset accounts
   \<and> sorted (map Priority (fst (sortCandidatesForFallback accounts preferOAuth ''random'' g)))"
  by (rule order_random)

lemma sorted_fallback_mset:
  "mset (fst (sortAccountsByPriorityAndLastUsed accounts preferOAuth g)) = mset accounts"
  "mset (fst (sortCandidatesForFallback accounts preferOAuth mode g)) = mset accounts"
  using order_by_use [of accounts preferOAuth g] order_random [of accounts preferOAuth g]
  by (cases "mode = ''random''"; simp add: sortCandidatesForFallback_def)+

text \<open>Random mode does not keep the preference for OAuth accounts that the sort before it
  establishes: with two accounts of the same priority there are draws that put the other one
  first, although the sort alone puts the OAuth account first.\<close>

theorem random_mode_loses_OAuth:
  assumes "Type a = AccountTypeOAuth" and "Type b \<noteq> AccountTypeOAuth" and "Priority a = Priority b"
  shows "hd (sortAccountsByPriorityOnly [b, a] True) = a
    \<and> (\<exists>g. hd (fst (sortCandidatesForFallback [b, a] True ''random'' g)) = b)"
proof -
  have sorted: "sortAccountsByPriorityOnly [b, a] True = [a, b]"
    using assms by (simp add: sortAccountsByPriorityOnly_def slice_stable_def less_priority_def)
  have "fst (sortCandidatesForFallback [b, a] True ''random'' (\<lambda>_. 0)) = [b, a]"
    using assms by (simp add: sortCandidatesForFallback_def shuffleWithinPriority_def sorted Let_def
        Shuffle_def Intn_def swap_def)
  with sorted show ?thesis by (auto intro!: exI [of _ "\<lambda>_. 0"])
qed

definition demo_account :: "int \<Rightarrow> string \<Rightarrow> int \<Rightarrow> account" where
  "demo_account i ty prio = \<lparr>ID = i, Type = ty, acc_Status = StatusActive, Schedulable = True, Priority = prio,
     Concurrency = 1, LoadFactor = None, LastUsedAt = None, acc_ExpiresAt = None, AutoPauseOnExpired = False,
     RateLimitResetAt = None, OverloadUntil = None, TempUnschedulableUntil = None, SessionWindowEnd = None\<rparr>"

theorem random_mode_loses_OAuth_witness:
  "\<exists>g. hd (fst (sortCandidatesForFallback [demo_account 2 ''apikey'' 5, demo_account 1 ''oauth'' 5] True ''random'' g))
    = demo_account 2 ''apikey'' 5"
  using random_mode_loses_OAuth [of "demo_account 1 ''oauth'' 5" "demo_account 2 ''apikey'' 5"]
  by (simp add: demo_account_def AccountTypeOAuth_def)

section \<open>The filters select minima\<close>

definition min_filter :: "('a \<Rightarrow> 'k::linorder) \<Rightarrow> 'a list \<Rightarrow> 'a list" where
  "min_filter k xs = filter (\<lambda>a. \<forall>b\<in>set xs. k a \<le> k b) xs"

lemma min_filter_ne: "xs \<noteq> [] \<Longrightarrow> min_filter k xs \<noteq> []"
proof -
  assume "xs \<noteq> []"
  then have "Min (k ` set xs) \<in> k ` set xs" by (intro Min_in) auto
  then obtain a where "a \<in> set xs" "k a = Min (k ` set xs)" by (metis imageE)
  then have "a \<in> set (min_filter k xs)" by (simp add: min_filter_def)
  then show ?thesis by auto
qed

lemma min_filter_pair: "min_filter k2 (min_filter k1 xs) = min_filter (\<lambda>a. (k1 a, k2 a)) xs"
proof -
  have "((\<forall>b\<in>set (min_filter k1 xs). k2 a \<le> k2 b) \<and> (\<forall>b\<in>set xs. k1 a \<le> k1 b)) \<longleftrightarrow>
      (\<forall>b\<in>set xs. (k1 a, k2 a) \<le> (k1 b, k2 b))" if "a \<in> set xs" for a
  proof
    assume *: "(\<forall>b\<in>set (min_filter k1 xs). k2 a \<le> k2 b) \<and> (\<forall>b\<in>set xs. k1 a \<le> k1 b)"
    show "\<forall>b\<in>set xs. (k1 a, k2 a) \<le> (k1 b, k2 b)"
    proof
      fix b assume b: "b \<in> set xs"
      show "(k1 a, k2 a) \<le> (k1 b, k2 b)"
      proof (cases "k1 a = k1 b")
        case True
        then have "b \<in> set (min_filter k1 xs)" using * b by (simp add: min_filter_def)
        with * True show ?thesis by simp
      qed (use * b in \<open>auto simp: order_le_less\<close>)
    qed
  next
    assume *: "\<forall>b\<in>set xs. (k1 a, k2 a) \<le> (k1 b, k2 b)"
    then have 1: "\<forall>b\<in>set xs. k1 a \<le> k1 b" by (auto simp: order_le_less)
    moreover have "k2 a \<le> k2 b" if "b \<in> set (min_filter k1 xs)" for b
    proof -
      have "b \<in> set xs" "k1 b \<le> k1 a" using that \<open>a \<in> set xs\<close> by (auto simp: min_filter_def)
      with * 1 show ?thesis by (auto simp: order_le_less)
    qed
    ultimately show "(\<forall>b\<in>set (min_filter k1 xs). k2 a \<le> k2 b) \<and> (\<forall>b\<in>set xs. k1 a \<le> k1 b)" by blast
  qed
  then show ?thesis unfolding min_filter_def [of k2] min_filter_def [of "\<lambda>a. (k1 a, k2 a)"]
    by (subst min_filter_def [of k1]) (auto simp: filter_filter intro!: filter_cong)
qed

lemma min_filter_short: "length xs \<le> 1 \<Longrightarrow> min_filter k xs = xs"
  by (cases xs) (auto simp: min_filter_def Suc_le_eq)

lemma min_filterI:
  assumes "\<And>a. a \<in> set xs \<Longrightarrow> P a \<longleftrightarrow> (\<forall>b\<in>set xs. k a \<le> k b)"
  shows "filter P xs = min_filter k xs"
  unfolding min_filter_def using assms by (intro filter_cong) auto

lemma min_by_least:
  assumes "xs \<noteq> []"
  shows "min_by f xs \<in> f ` set xs \<and> (\<forall>x\<in>set xs. min_by f xs \<le> f x)"
proof -
  have "fold (\<lambda>x m. if f x < m then f x else m) ys m \<in> insert m (f ` set ys)
      \<and> fold (\<lambda>x m. if f x < m then f x else m) ys m \<le> m
      \<and> (\<forall>x\<in>set ys. fold (\<lambda>x m. if f x < m then f x else m) ys m \<le> f x)" for ys m
  proof (induction ys arbitrary: m)
    case (Cons y ys)
    from Cons [of "if f y < m then f y else m"] show ?case by (cases "f y < m") auto
  qed simp
  from this [of "tl xs" "f (hd xs)"] show ?thesis using assms unfolding min_by_def by (cases xs) auto
qed

lemma filterByMinPriority_min: "filterByMinPriority xs = min_filter (\<lambda>a. Priority (account a)) xs"
proof (cases "xs = []")
  case False
  note m = min_by_least [OF False, of "\<lambda>a. Priority (account a)"]
  have "filter (\<lambda>a. Priority (account a) = min_by (\<lambda>a. Priority (account a)) xs) xs
      = min_filter (\<lambda>a. Priority (account a)) xs"
    by (rule min_filterI) (use m in force)
  with False show ?thesis by (simp add: filterByMinPriority_def)
qed (simp add: filterByMinPriority_def min_filter_def)

lemma filterByMinLoadRate_min: "filterByMinLoadRate xs = min_filter (\<lambda>a. LoadRate (loadInfo a)) xs"
proof (cases "xs = []")
  case False
  note m = min_by_least [OF False, of "\<lambda>a. LoadRate (loadInfo a)"]
  have "filter (\<lambda>a. LoadRate (loadInfo a) = min_by (\<lambda>a. LoadRate (loadInfo a)) xs) xs
      = min_filter (\<lambda>a. LoadRate (loadInfo a)) xs"
    by (rule min_filterI) (use m in force)
  with False show ?thesis by (simp add: filterByMinLoadRate_def)
qed (simp add: filterByMinLoadRate_def min_filter_def)

text \<open>Accounts with an active window come first, the one that ends soonest before the others.\<close>

definition reset_key :: "go_time \<Rightarrow> account_with_load \<Rightarrow> int \<times> int" where
  "reset_key now a = (case SessionWindowEnd (account a) of None \<Rightarrow> (1, 0)
     | Some e \<Rightarrow> if now < e then (0, e) else (1, 0))"

definition lru_key :: "account_with_load \<Rightarrow> int \<times> int" where
  "lru_key a = used_key (LastUsedAt (account a))"

lemma fold_earliest:
  assumes "fold (\<lambda>acc m. case v acc of None \<Rightarrow> m
      | Some e \<Rightarrow> (case m of None \<Rightarrow> Some e | Some x \<Rightarrow> if time_Before e x then Some e else m)) xs m = r"
  shows "(r = None \<longleftrightarrow> m = None \<and> (\<forall>a\<in>set xs. v a = None))
    \<and> (\<forall>x. r = Some x \<longrightarrow> (m = Some x \<or> (\<exists>a\<in>set xs. v a = Some x))
         \<and> (\<forall>y. m = Some y \<longrightarrow> x \<le> y) \<and> (\<forall>a\<in>set xs. \<forall>y. v a = Some y \<longrightarrow> x \<le> y))"
  using assms
proof (induction xs arbitrary: m)
  case (Cons a xs)
  define m' where "m' = (case v a of None \<Rightarrow> m
      | Some e \<Rightarrow> (case m of None \<Rightarrow> Some e | Some x \<Rightarrow> if time_Before e x then Some e else m))"
  have "m' = None \<longleftrightarrow> m = None \<and> v a = None"
    and "\<And>x. m' = Some x \<Longrightarrow> (m = Some x \<or> v a = Some x) \<and> (\<forall>y. m = Some y \<or> v a = Some y \<longrightarrow> x \<le> y)"
    by (auto simp: m'_def time_defs split: option.splits if_splits)
  moreover have "fold (\<lambda>acc m. case v acc of None \<Rightarrow> m
      | Some e \<Rightarrow> (case m of None \<Rightarrow> Some e | Some x \<Rightarrow> if time_Before e x then Some e else m)) xs m' = r"
    using Cons.prems by (simp add: m'_def)
  note IH = Cons.IH [OF this]
  ultimately show ?case
  proof (intro conjI allI impI)
    fix x assume r: "r = Some x"
    then have x: "m' = Some x \<or> (\<exists>a\<in>set xs. v a = Some x)" "\<And>y. m' = Some y \<Longrightarrow> x \<le> y" using IH by auto
    show "m = Some x \<or> (\<exists>a\<in>set (a # xs). v a = Some x)"
      using x(1) \<open>\<And>x. m' = Some x \<Longrightarrow> (m = Some x \<or> v a = Some x) \<and> (\<forall>y. m = Some y \<or> v a = Some y \<longrightarrow> x \<le> y)\<close> by auto
    have old: "x \<le> y" if "m = Some y \<or> v a = Some y" for y
    proof -
      from that \<open>m' = None \<longleftrightarrow> m = None \<and> v a = None\<close> obtain z where z: "m' = Some z" by (cases m') auto
      then have "z \<le> y"
        using that \<open>\<And>x. m' = Some x \<Longrightarrow> (m = Some x \<or> v a = Some x) \<and> (\<forall>y. m = Some y \<or> v a = Some y \<longrightarrow> x \<le> y)\<close> by blast
      with x(2) [OF z] show ?thesis by simp
    qed
    show "x \<le> y" if "m = Some y" for y using old that by blast
    show "\<forall>b\<in>set (a # xs). \<forall>y. v b = Some y \<longrightarrow> x \<le> y" using old IH r by auto
  qed (use IH in auto)
qed auto

lemma filterBySoonestReset_min: "filterBySoonestReset now xs = min_filter (reset_key now) xs"
proof (cases "length xs \<le> 1")
  case True
  then show ?thesis by (simp add: filterBySoonestReset_def min_filter_short)
next
  case False
  define v where "v acc = (case SessionWindowEnd (account acc) of None \<Rightarrow> None
      | Some e \<Rightarrow> if now < e then Some e else None)" for acc :: account_with_load
  have key: "reset_key now a = (case v a of None \<Rightarrow> (1, 0) | Some e \<Rightarrow> (0, e))" for a
    by (simp add: reset_key_def v_def split: option.splits)
  have "earliest_end now xs = fold (\<lambda>acc m. case v acc of None \<Rightarrow> m
      | Some e \<Rightarrow> (case m of None \<Rightarrow> Some e | Some x \<Rightarrow> if time_Before e x then Some e else m)) xs None"
    unfolding earliest_end_def
    by (intro fold_cong) (auto simp: v_def time_defs fun_eq_iff split: option.splits)
  note e = fold_earliest [OF this [symmetric]]
  show ?thesis
  proof (cases "earliest_end now xs")
    case None
    then have "min_filter (reset_key now) xs = xs"
      using e by (auto simp: min_filter_def key filter_id_conv)
    with False None show ?thesis by (simp add: filterBySoonestReset_def)
  next
    case (Some m)
    have "filter (\<lambda>acc. case SessionWindowEnd (account acc) of None \<Rightarrow> False
        | Some e \<Rightarrow> time_Before now e \<and> e = m) xs = min_filter (reset_key now) xs"
    proof (rule min_filterI)
      fix a assume a: "a \<in> set xs"
      have "(case SessionWindowEnd (account a) of None \<Rightarrow> False | Some e \<Rightarrow> time_Before now e \<and> e = m)
          \<longleftrightarrow> v a = Some m"
        by (auto simp: v_def time_defs split: option.splits if_splits)
      also have "\<dots> \<longleftrightarrow> (\<forall>b\<in>set xs. reset_key now a \<le> reset_key now b)"
      proof
        assume "v a = Some m"
        then show "\<forall>b\<in>set xs. reset_key now a \<le> reset_key now b"
          using e Some by (auto simp: key split: option.splits)
      next
        assume *: "\<forall>b\<in>set xs. reset_key now a \<le> reset_key now b"
        obtain b where b: "b \<in> set xs" "v b = Some m" using e Some by auto
        then have "reset_key now a \<le> (0, m)" using * by (metis key option.simps(5))
        then obtain x where "v a = Some x" "x \<le> m" by (auto simp: key split: option.splits)
        moreover have "m \<le> x" using e Some a \<open>v a = Some x\<close> by auto
        ultimately show "v a = Some m" by simp
      qed
      finally show "(case SessionWindowEnd (account a) of None \<Rightarrow> False | Some e \<Rightarrow> time_Before now e \<and> e = m)
          \<longleftrightarrow> (\<forall>b\<in>set xs. reset_key now a \<le> reset_key now b)" .
    qed
    with False Some show ?thesis by (simp add: filterBySoonestReset_def)
  qed
qed

lemma lru_candidates:
  "(if list_ex (\<lambda>a. LastUsedAt (account a) = None) xs then filter (\<lambda>a. LastUsedAt (account a) = None) xs
    else filter (\<lambda>a. LastUsedAt (account a) \<noteq> None \<and> LastUsedAt (account a) = oldest_use xs) xs)
   = min_filter lru_key xs"
proof (cases "list_ex (\<lambda>a. LastUsedAt (account a) = None) xs")
  case True
  then obtain b where "b \<in> set xs" "LastUsedAt (account b) = None" by (auto simp: list_ex_iff)
  then have "filter (\<lambda>a. LastUsedAt (account a) = None) xs = min_filter lru_key xs"
    by (intro min_filterI) (force simp: lru_key_def used_key_def split: option.splits)
  with True show ?thesis by simp
next
  case False
  have "oldest_use xs = fold (\<lambda>acc m. case LastUsedAt (account acc) of None \<Rightarrow> m
      | Some e \<Rightarrow> (case m of None \<Rightarrow> Some e | Some x \<Rightarrow> if time_Before e x then Some e else m)) xs None"
    by (simp add: oldest_use_def)
  note e = fold_earliest [OF this [symmetric]]
  have all: "LastUsedAt (account a) \<noteq> None" if "a \<in> set xs" for a
    using False that by (auto simp: list_ex_iff)
  have "filter (\<lambda>a. LastUsedAt (account a) \<noteq> None \<and> LastUsedAt (account a) = oldest_use xs) xs = min_filter lru_key xs"
  proof (rule min_filterI)
    fix a assume a: "a \<in> set xs"
    obtain m where m: "oldest_use xs = Some m" using e all [OF a] a by (cases "oldest_use xs") auto
    obtain b where b: "b \<in> set xs" "LastUsedAt (account b) = Some m" using e m by auto
    obtain t where t: "LastUsedAt (account a) = Some t" using all [OF a] by auto
    have "m \<le> t" using e m a t by auto
    moreover have "(\<forall>b\<in>set xs. lru_key a \<le> lru_key b) \<longleftrightarrow> t \<le> m"
    proof
      assume "\<forall>b\<in>set xs. lru_key a \<le> lru_key b"
      then have "lru_key a \<le> lru_key b" using b by blast
      then show "t \<le> m" using t b by (simp add: lru_key_def used_key_def)
    next
      assume "t \<le> m"
      show "\<forall>b\<in>set xs. lru_key a \<le> lru_key b"
      proof
        fix c assume c: "c \<in> set xs"
        then obtain u where "LastUsedAt (account c) = Some u" using all by auto
        moreover have "m \<le> u" using e m c \<open>LastUsedAt (account c) = Some u\<close> by auto
        ultimately show "lru_key a \<le> lru_key c" using t \<open>t \<le> m\<close> by (simp add: lru_key_def used_key_def)
      qed
    qed
    ultimately show "(LastUsedAt (account a) \<noteq> None \<and> LastUsedAt (account a) = oldest_use xs) \<longleftrightarrow>
        (\<forall>b\<in>set xs. lru_key a \<le> lru_key b)"
      using m t by auto
  qed
  with False show ?thesis by simp
qed

lemma oauth_pool:
  "(if p \<and> filter (\<lambda>a. Type (account a) = AccountTypeOAuth) xs \<noteq> []
     then filter (\<lambda>a. Type (account a) = AccountTypeOAuth) xs else xs)
   = min_filter (\<lambda>a. not_oauth p (account a)) xs"
proof (cases "p \<and> filter (\<lambda>a. Type (account a) = AccountTypeOAuth) xs \<noteq> []")
  case True
  then obtain b where "b \<in> set xs" "Type (account b) = AccountTypeOAuth" by (auto simp: filter_empty_conv)
  with True have "filter (\<lambda>a. Type (account a) = AccountTypeOAuth) xs = min_filter (\<lambda>a. not_oauth p (account a)) xs"
    by (intro min_filterI) (force simp: not_oauth_def)
  then show ?thesis unfolding if_P [OF True] .
next
  case False
  then have "min_filter (\<lambda>a. not_oauth p (account a)) xs = xs"
    by (auto simp: min_filter_def filter_id_conv not_oauth_def filter_empty_conv)
  then show ?thesis unfolding if_not_P [OF False] by simp
qed

lemma selectByLRU_many:
  assumes "1 < length xs"
  shows "selectByLRU xs p g =
    (case (if list_ex (\<lambda>a. LastUsedAt (account a) = None) xs then filter (\<lambda>a. LastUsedAt (account a) = None) xs
           else filter (\<lambda>a. LastUsedAt (account a) \<noteq> None \<and> LastUsedAt (account a) = oldest_use xs) xs) of
       [a] \<Rightarrow> (Some a, g)
     | _ \<Rightarrow>
       (let cands = (if list_ex (\<lambda>a. LastUsedAt (account a) = None) xs then filter (\<lambda>a. LastUsedAt (account a) = None) xs
           else filter (\<lambda>a. LastUsedAt (account a) \<noteq> None \<and> LastUsedAt (account a) = oldest_use xs) xs)
        in case Intn (length (if p \<and> filter (\<lambda>a. Type (account a) = AccountTypeOAuth) cands \<noteq> []
             then filter (\<lambda>a. Type (account a) = AccountTypeOAuth) cands else cands)) g of
           (i, g') \<Rightarrow> (Some ((if p \<and> filter (\<lambda>a. Type (account a) = AccountTypeOAuth) cands \<noteq> []
             then filter (\<lambda>a. Type (account a) = AccountTypeOAuth) cands else cands) ! i), g')))"
  using assms unfolding selectByLRU_def Let_def by (cases xs; cases "tl xs") (simp_all split del: if_split)

lemma selectByLRU_min:
  assumes "xs \<noteq> []"
  shows "\<exists>a. fst (selectByLRU xs p g) = Some a \<and> a \<in> set (min_filter (\<lambda>a. (lru_key a, not_oauth p (account a))) xs)"
proof -
  let ?c = "min_filter lru_key xs" and ?k = "\<lambda>a. (lru_key a, not_oauth p (account a))"
  have pool: "min_filter ?k xs = min_filter (\<lambda>a. not_oauth p (account a)) ?c" by (simp add: min_filter_pair)
  have ne: "?c \<noteq> []" "min_filter ?k xs \<noteq> []" using assms by (simp_all add: min_filter_ne)
  show ?thesis
  proof (cases "length xs \<le> 1")
    case True
    with assms obtain a where "xs = [a]" by (cases xs) auto
    then show ?thesis by (simp add: selectByLRU_def min_filter_def)
  next
    case False
    then have sel: "selectByLRU xs p g = (case ?c of [a] \<Rightarrow> (Some a, g)
        | _ \<Rightarrow> (case Intn (length (min_filter ?k xs)) g of (i, g') \<Rightarrow> (Some (min_filter ?k xs ! i), g')))"
      using selectByLRU_many [of xs p g] by (simp only: lru_candidates oauth_pool pool not_le Let_def)
    show ?thesis
    proof (cases "length ?c \<le> 1")
      case True
      with ne(1) obtain c where c: "?c = [c]" by (cases ?c) auto
      then have "min_filter ?k xs = [c]" unfolding pool by (simp add: min_filter_def)
      with c sel show ?thesis by simp
    next
      case False
      then obtain c d cs where "?c = c # d # cs" by (cases ?c; cases "tl ?c") auto
      then have "fst (selectByLRU xs p g) = Some (min_filter ?k xs ! (g 0 mod length (min_filter ?k xs)))"
        unfolding sel by (simp add: Intn_def)
      moreover have "g 0 mod length (min_filter ?k xs) < length (min_filter ?k xs)" using ne(2) by simp
      ultimately show ?thesis by simp
    qed
  qed
qed

end
