(* ===== verification/Account_Selection.thy ===== *)
theory Account_Selection
  imports Account_Order
begin

text \<open>
  The load-aware selection of an account (\<^verbatim>\<open>backend/internal/service/gateway_scheduling.go\<close>, the second
  and third layer of \<^verbatim>\<open>SelectAccountWithLoadAwareness\<close> with \<^verbatim>\<open>tryAcquireByLegacyOrder\<close> and
  \<^verbatim>\<open>newSelectionResult\<close>).  The accounts come filtered for the model and the group.

  The calls to Redis are given by their answers: whether a slot of the account could be acquired,
  whether the session could be registered (once while slots are tried, once for a place in the
  waiting list), and what the hydration of the account returned.  The calls that have an effect are
  recorded in order, so that the theorems can speak about slots that are held when the selection
  returns.
\<close>

section \<open>The model\<close>

record sel_env =
  loads :: "int \<Rightarrow> load_info option"
  slot_free :: "int \<Rightarrow> bool"
  session_ok :: "int \<Rightarrow> bool"
  wait_session_ok :: "int \<Rightarrow> bool"
  hydrate :: "account \<Rightarrow> account option"
  clock_at :: "nat \<Rightarrow> go_time"
  has_session :: bool
  preferOAuth :: bool
  PreferSoonestReset :: bool
  FallbackSelectionMode :: string

datatype sel_event = SlotAcquired int | SlotReleased int | SessionRegistered int | StickyBound int

datatype selection = Selected account | WaitPlan account | HydrationFailed | NoAvailableAccounts

definition newSelectionResult :: "sel_env \<Rightarrow> account \<Rightarrow> (account \<Rightarrow> selection) \<Rightarrow> selection" where
  "newSelectionResult env a mk = (case hydrate env a of None \<Rightarrow> HydrationFailed | Some h \<Rightarrow> mk h)"

text \<open>The accounts that are not fully loaded; an account without load information counts as idle.\<close>

definition available_accounts :: "sel_env \<Rightarrow> account list \<Rightarrow> account_with_load list" where
  "available_accounts env candidates =
     filter (\<lambda>a. LoadRate (loadInfo a) < 100)
       (map (\<lambda>acc. \<lparr>account = acc,
          loadInfo = (case loads env (ID acc) of None \<Rightarrow> \<lparr>LoadRate = 0\<rparr> | Some l \<Rightarrow> l)\<rparr>) candidates)"

text \<open>One choice by layers: priority, soonest reset when configured, load, least recent use.\<close>

definition pick ::
    "sel_env \<Rightarrow> go_time \<Rightarrow> account_with_load list \<Rightarrow> draws \<Rightarrow> account_with_load option \<times> draws" where
  "pick env now available g =
     (let c1 = filterByMinPriority available;
          c2 = (if PreferSoonestReset env then filterBySoonestReset now c1 else c1);
          c3 = filterByMinLoadRate c2
      in selectByLRU c3 (preferOAuth env) g)"

definition sticky :: "sel_env \<Rightarrow> int \<Rightarrow> sel_event list" where
  "sticky env i = (if has_session env then [StickyBound i] else [])"

text \<open>What a choice minimises, in the order of the layers.\<close>

definition pick_key ::
    "sel_env \<Rightarrow> go_time \<Rightarrow> account_with_load \<Rightarrow> ((int \<times> (int \<times> int)) \<times> int) \<times> ((int \<times> int) \<times> int)" where
  "pick_key env now a =
     (((Priority (account a), if PreferSoonestReset env then reset_key now a else (0, 0)), LoadRate (loadInfo a)),
      (lru_key a, not_oauth (preferOAuth env) (account a)))"

lemma min_filter_const: "min_filter (\<lambda>a. (k a, c)) xs = min_filter k xs"
  by (simp add: min_filter_def order_le_less)

lemma pick_min:
  assumes "available \<noteq> []"
  shows "\<exists>a. fst (pick env now available g) = Some a \<and> a \<in> set (min_filter (pick_key env now) available)"
proof -
  define c3 where "c3 = filterByMinLoadRate (if PreferSoonestReset env
      then filterBySoonestReset now (filterByMinPriority available) else filterByMinPriority available)"
  have c3: "c3 = min_filter (\<lambda>a. ((Priority (account a), if PreferSoonestReset env then reset_key now a else (0, 0)),
      LoadRate (loadInfo a))) available"
  proof (cases "PreferSoonestReset env")
    case True
    then show ?thesis
      by (simp add: c3_def filterByMinLoadRate_min filterBySoonestReset_min filterByMinPriority_min min_filter_pair)
  next
    case False
    have "filterByMinPriority available = min_filter (\<lambda>a. (Priority (account a), (0, 0) :: int \<times> int)) available"
      by (simp add: filterByMinPriority_min min_filter_const)
    with False show ?thesis by (simp add: c3_def filterByMinLoadRate_min min_filter_pair)
  qed
  have "c3 \<noteq> []" unfolding c3 using assms by (rule min_filter_ne)
  from selectByLRU_min [OF this, of "preferOAuth env" g] obtain a where
    "fst (selectByLRU c3 (preferOAuth env) g) = Some a"
    "a \<in> set (min_filter (\<lambda>a. (lru_key a, not_oauth (preferOAuth env) (account a))) c3)" by blast
  moreover have "min_filter (\<lambda>a. (lru_key a, not_oauth (preferOAuth env) (account a))) c3 = min_filter (pick_key env now) available"
    unfolding c3 min_filter_pair by (simp add: pick_key_def [abs_def])
  ultimately show ?thesis unfolding pick_def Let_def c3_def by auto
qed

lemma pick_in: "pick env now available g = (Some a, g') \<Longrightarrow> a \<in> set available"
  using pick_min [of available env now g]
  by (cases "available = []")
    (auto simp: min_filter_def pick_def filterByMinPriority_def filterByMinLoadRate_def filterBySoonestReset_def
      selectByLRU_def split: if_splits)

text \<open>The loop of the second layer.  It stops when no account is left, or at the chosen one.\<close>

function try_available ::
    "sel_env \<Rightarrow> account_with_load list \<Rightarrow> draws \<Rightarrow> selection option \<times> sel_event list \<times> draws" where
  "try_available env available g =
     (case pick env (clock_at env (length available)) available g of
        (None, g') \<Rightarrow> (None, [], g')
      | (Some sel, g') \<Rightarrow>
          (let i = ID (account sel);
               rest = filter (\<lambda>a. ID (account a) \<noteq> i) available
           in if slot_free env i then
                (if session_ok env i then
                   (Some (newSelectionResult env (account sel) Selected),
                    [SlotAcquired i, SessionRegistered i] @ sticky env i, g')
                 else (case try_available env rest g' of
                         (r, evs, g'') \<Rightarrow> (r, [SlotAcquired i, SlotReleased i] @ evs, g'')))
              else try_available env rest g'))"
  by pat_completeness auto
termination
proof (relation "measure (\<lambda>(env, available, g). length available)", goal_cases)
  case (2 env available g x g' sel i rest)
  then have "sel \<in> set available" using pick_in by (metis prod.collapse fst_conv snd_conv prod.inject)
  then show ?case using 2 by (auto intro!: length_filter_less)
next
  case (3 env available g x g' sel i rest)
  then have "sel \<in> set available" using pick_in by (metis prod.collapse fst_conv snd_conv prod.inject)
  then show ?case using 3 by (auto intro!: length_filter_less)
qed simp

declare try_available.simps [simp del]

text \<open>The order used when the loads could not be read.\<close>

fun try_in_order :: "sel_env \<Rightarrow> account list \<Rightarrow> selection option \<times> sel_event list" where
  "try_in_order env [] = (None, [])"
| "try_in_order env (acc # accs) =
     (if slot_free env (ID acc) then
        (if session_ok env (ID acc) then
           (Some (newSelectionResult env acc Selected),
            [SlotAcquired (ID acc), SessionRegistered (ID acc)] @ sticky env (ID acc))
         else (case try_in_order env accs of
                 (r, evs) \<Rightarrow> (r, [SlotAcquired (ID acc), SlotReleased (ID acc)] @ evs)))
      else try_in_order env accs)"

definition tryAcquireByLegacyOrder ::
    "sel_env \<Rightarrow> account list \<Rightarrow> draws \<Rightarrow> selection option \<times> sel_event list \<times> draws" where
  "tryAcquireByLegacyOrder env candidates g =
     (case sortAccountsByPriorityAndLastUsed candidates (preferOAuth env) g of
        (ordered, g') \<Rightarrow> (case try_in_order env ordered of (r, evs) \<Rightarrow> (r, evs, g')))"

text \<open>The third layer: the first account in the fallback order that has room for the session.\<close>

fun wait_plan :: "sel_env \<Rightarrow> account list \<Rightarrow> selection \<times> sel_event list" where
  "wait_plan env [] = (NoAvailableAccounts, [])"
| "wait_plan env (acc # accs) =
     (if wait_session_ok env (ID acc)
      then (newSelectionResult env acc WaitPlan, [SessionRegistered (ID acc)])
      else wait_plan env accs)"

text \<open>The layers together; \<open>loads_ok\<close> says that \<^verbatim>\<open>GetAccountsLoadBatch\<close> returned no error.\<close>

definition select_account ::
    "sel_env \<Rightarrow> bool \<Rightarrow> account list \<Rightarrow> draws \<Rightarrow> selection \<times> sel_event list" where
  "select_account env loads_ok candidates g =
     (if candidates = [] then (NoAvailableAccounts, [])
      else (let (r, evs, g') = (if loads_ok then try_available env (available_accounts env candidates) g
                                else tryAcquireByLegacyOrder env candidates g)
            in case r of
                 Some s \<Rightarrow> (s, evs)
               | None \<Rightarrow>
                   (case wait_plan env (fst (sortCandidatesForFallback candidates (preferOAuth env)
                           (FallbackSelectionMode env) g')) of
                      (s, evs') \<Rightarrow> (s, evs @ evs'))))"

section \<open>Slots held\<close>

fun slots :: "int multiset \<Rightarrow> sel_event list \<Rightarrow> int multiset" where
  "slots S [] = S"
| "slots S (SlotAcquired i # evs) = slots (add_mset i S) evs"
| "slots S (SlotReleased i # evs) = slots (S - {#i#}) evs"
| "slots S (SessionRegistered i # evs) = slots S evs"
| "slots S (StickyBound i # evs) = slots S evs"

lemma slots_append: "slots S (evs @ evs') = slots (slots S evs) evs'"
  by (induction S evs rule: slots.induct) auto

lemma slots_sticky [simp]: "slots S (sticky env i) = S"
  by (simp add: sticky_def)

definition usable :: "sel_env \<Rightarrow> account \<Rightarrow> bool" where
  "usable env a \<longleftrightarrow> slot_free env (ID a) \<and> session_ok env (ID a)"

text \<open>What the loop of the second layer chooses and holds.\<close>

lemma try_available_spec:
  assumes "try_available env available g = (r, evs, g')"
  shows "case r of
      None \<Rightarrow> (\<forall>b\<in>set available. \<not> usable env (account b)) \<and> (\<forall>S. slots S evs = S)
    | Some s \<Rightarrow> (\<exists>a\<in>set available. s = newSelectionResult env (account a) Selected \<and> usable env (account a)
        \<and> (\<forall>b\<in>set available. usable env (account b) \<longrightarrow> Priority (account a) \<le> Priority (account b))
        \<and> (\<forall>S. slots S evs = add_mset (ID (account a)) S))"
  using assms
proof (induction "length available" arbitrary: available g r evs g' rule: less_induct)
  case less
  show ?case
  proof (cases "available = []")
    case True
    then have "pick env (clock_at env (length available)) available g = (None, g)"
      by (simp add: pick_def filterByMinPriority_def filterByMinLoadRate_def filterBySoonestReset_def selectByLRU_def)
    with less.prems True show ?thesis by (subst (asm) try_available.simps) auto
  next
    case False
    obtain sel g1 where pick: "pick env (clock_at env (length available)) available g = (Some sel, g1)"
      and min: "sel \<in> set (min_filter (pick_key env (clock_at env (length available))) available)"
      using pick_min [OF False] by (metis prod.collapse)
    have sel: "sel \<in> set available" by (rule pick_in [OF pick])
    have prio: "Priority (account sel) \<le> Priority (account b)" if "b \<in> set available" for b
      using min that by (auto simp: min_filter_def pick_key_def order_le_less)
    let ?i = "ID (account sel)" and ?rest = "filter (\<lambda>a. ID (account a) \<noteq> ID (account sel)) available"
    have short: "length ?rest < length available" using sel by (auto intro!: length_filter_less)
    show ?thesis
    proof (cases "usable env (account sel)")
      case True
      with less.prems pick have "r = Some (newSelectionResult env (account sel) Selected)"
        "evs = [SlotAcquired ?i, SessionRegistered ?i] @ sticky env ?i"
        by (auto simp: try_available.simps [of env available] usable_def Let_def)
      with sel prio True show ?thesis by (auto simp: slots_append intro!: bexI [of _ sel])
    next
      case no: False
      obtain r' evs' g'' where rec: "try_available env ?rest g1 = (r', evs', g'')" by (metis prod.exhaust)
      have evs: "r = r'" "slots S evs = slots S evs'" for S
        using less.prems pick rec no
        by (auto simp: try_available.simps [of env available] usable_def Let_def slots_append split: if_splits)
      have same: "\<not> usable env (account b)" if "ID (account b) = ?i" for b using no that by (simp add: usable_def)
      note IH = less.hyps [OF short rec]
      show ?thesis
      proof (cases r')
        case None
        with IH have "b \<in> set available \<Longrightarrow> \<not> usable env (account b)" for b using same [of b] by auto
        with None IH evs show ?thesis by simp
      next
        case (Some s)
        with IH obtain a where a: "a \<in> set ?rest" "s = newSelectionResult env (account a) Selected"
          "usable env (account a)"
          "\<And>b. b \<in> set ?rest \<Longrightarrow> usable env (account b) \<Longrightarrow> Priority (account a) \<le> Priority (account b)"
          "\<And>S. slots S evs' = add_mset (ID (account a)) S" by auto
        have "Priority (account a) \<le> Priority (account b)" if "b \<in> set available" "usable env (account b)" for b
          using a(4) [of b] same [of b] that by auto
        with a evs Some show ?thesis by (auto intro!: bexI [of _ a])
      qed
    qed
  qed
qed

lemma try_in_order_spec:
  "fst (try_in_order env accs) = map_option (\<lambda>a. newSelectionResult env a Selected) (find (usable env) accs)
   \<and> slots S (snd (try_in_order env accs)) = (case find (usable env) accs of None \<Rightarrow> S | Some a \<Rightarrow> add_mset (ID a) S)"
  by (induction accs arbitrary: S) (auto simp: usable_def slots_append split: prod.splits)

lemma wait_plan_slots: "slots S (snd (wait_plan env accs)) = S"
  by (induction accs) auto

lemma wait_plan_spec:
  "fst (wait_plan env accs) = (case find (\<lambda>a. wait_session_ok env (ID a)) accs of
     None \<Rightarrow> NoAvailableAccounts | Some a \<Rightarrow> newSelectionResult env a WaitPlan)"
  by (induction accs) auto

lemma sel_account_available: "b \<in> set (available_accounts env cands) \<Longrightarrow> account b \<in> set cands"
  by (auto simp: available_accounts_def)

section \<open>Properties\<close>

text \<open>C26. The selection leaks no slot of an account that it does not return: when it returns an account
  to use, exactly one slot is held, of an account of the candidates whose hydration is the
  returned one; when it returns a place in the waiting list or no account, none is held; only when
  the hydration of the chosen account failed may a slot be held without being returned.\<close>

theorem select_account_slots:
  "case select_account env loads_ok candidates g of (s, evs) \<Rightarrow>
     (case s of
        Selected h \<Rightarrow> (\<exists>a\<in>set candidates. hydrate env a = Some h \<and> usable env a \<and> slots {#} evs = {#ID a#})
      | WaitPlan h \<Rightarrow> slots {#} evs = {#}
      | NoAvailableAccounts \<Rightarrow> slots {#} evs = {#}
      | HydrationFailed \<Rightarrow> (\<exists>a\<in>set candidates. hydrate env a = None \<and> size (slots {#} evs) \<le> 1
          \<and> slots {#} evs \<subseteq># {#ID a#}))"
proof -
  obtain r evs g' where layer2: "(if loads_ok then try_available env (available_accounts env candidates) g
      else tryAcquireByLegacyOrder env candidates g) = (r, evs, g')" by (metis prod.exhaust)
  have spec: "case r of None \<Rightarrow> slots {#} evs = {#}
    | Some s \<Rightarrow> (\<exists>a\<in>set candidates. s = newSelectionResult env a Selected \<and> usable env a \<and> slots {#} evs = {#ID a#})"
  proof (cases loads_ok)
    case True
    with layer2 try_available_spec [of env "available_accounts env candidates" g r evs g'] show ?thesis
      by (auto split: option.splits dest: sel_account_available)
  next
    case False
    let ?o = "fst (sortAccountsByPriorityAndLastUsed candidates (preferOAuth env) g)"
    have "set ?o = set candidates" using sorted_fallback_mset(1) mset_eq_setD by blast
    moreover have "try_in_order env ?o = (r, evs)"
      using False layer2 by (simp add: tryAcquireByLegacyOrder_def split: prod.splits)
    ultimately show ?thesis
      using try_in_order_spec [where env = env and accs = ?o and S = "{#}"]
      by (cases "find (usable env) ?o") (auto dest!: find_SomeD)
  qed
  show ?thesis
  proof (cases "candidates = []")
    case True
    then show ?thesis by (simp add: select_account_def)
  next
    case False
    show ?thesis
    proof (cases r)
      case (Some s)
      with layer2 False have "select_account env loads_ok candidates g = (s, evs)" by (simp add: select_account_def)
      with spec Some show ?thesis
        by (auto simp: newSelectionResult_def split: option.splits)
    next
      case None
      let ?w = "wait_plan env (fst (sortCandidatesForFallback candidates (preferOAuth env) (FallbackSelectionMode env) g'))"
      have sel: "select_account env loads_ok candidates g = (fst ?w, evs @ snd ?w)"
        using layer2 False None by (simp add: select_account_def split: prod.splits)
      have held: "slots {#} (evs @ snd ?w) = {#}" using spec None by (simp add: slots_append wait_plan_slots)
      have "set (fst (sortCandidatesForFallback candidates (preferOAuth env) (FallbackSelectionMode env) g')) = set candidates"
        using sorted_fallback_mset mset_eq_setD by blast
      then have "fst ?w = NoAvailableAccounts \<or> (\<exists>a\<in>set candidates. fst ?w = newSelectionResult env a WaitPlan)"
        by (auto simp: wait_plan_spec split: option.splits dest!: find_SomeD)
      with sel held show ?thesis by (auto simp: newSelectionResult_def split: option.splits)
    qed
  qed
qed

text \<open>The layered choice: among the accounts offered it takes one that is minimal in priority, then
  in the end of its session window when the soonest reset is preferred, then in load, then in its
  last use (never used first), and then an OAuth account when these are preferred, for every
  sequence of random draws.\<close>

theorem pick_layers:
  assumes "available \<noteq> []"
  shows "\<exists>a. fst (pick env now available g) = Some a \<and> a \<in> set available
    \<and> (\<forall>b\<in>set available. pick_key env now a \<le> pick_key env now b)"
  using pick_min [OF assms, of env now g] by (auto simp: min_filter_def)

text \<open>C6. The second layer finds an account whenever there is one: if the loads are known and some
  candidate is not fully loaded, has a free slot and room for the session, the selection uses such
  an account with the least priority among these; otherwise it falls back to the waiting list in
  the configured order.\<close>

theorem select_account_best:
  assumes "candidates \<noteq> []"
  shows "if \<exists>b\<in>set (available_accounts env candidates). usable env (account b)
    then \<exists>a\<in>set (available_accounts env candidates). usable env (account a)
      \<and> fst (select_account env True candidates g) = newSelectionResult env (account a) Selected
      \<and> (\<forall>b\<in>set (available_accounts env candidates). usable env (account b)
            \<longrightarrow> Priority (account a) \<le> Priority (account b))
    else \<exists>g'. fst (select_account env True candidates g) =
      (case find (\<lambda>a. wait_session_ok env (ID a))
          (fst (sortCandidatesForFallback candidates (preferOAuth env) (FallbackSelectionMode env) g')) of
         None \<Rightarrow> NoAvailableAccounts | Some a \<Rightarrow> newSelectionResult env a WaitPlan)"
proof -
  obtain r evs g' where t: "try_available env (available_accounts env candidates) g = (r, evs, g')"
    by (metis prod.exhaust)
  note spec = try_available_spec [OF t]
  show ?thesis
  proof (cases r)
    case None
    with spec have no: "\<not> (\<exists>b\<in>set (available_accounts env candidates). usable env (account b))" by simp
    have "fst (select_account env True candidates g) =
        fst (wait_plan env (fst (sortCandidatesForFallback candidates (preferOAuth env) (FallbackSelectionMode env) g')))"
      using t None assms by (simp add: select_account_def split: prod.splits)
    with no show ?thesis by (auto simp: wait_plan_spec)
  next
    case (Some s)
    then have "fst (select_account env True candidates g) = s" using t assms by (simp add: select_account_def)
    moreover from Some spec obtain a where a: "a \<in> set (available_accounts env candidates)"
      "s = newSelectionResult env (account a) Selected" "usable env (account a)"
      "\<forall>b\<in>set (available_accounts env candidates). usable env (account b) \<longrightarrow> Priority (account a) \<le> Priority (account b)"
      by auto
    ultimately show ?thesis by auto
  qed
qed

text \<open>C35. A slot is lost when the hydration of the selected account fails: the selection returns only
  the error, so nobody can release the slot it holds for the request.\<close>

theorem hydration_failure_keeps_slot:
  assumes "available_accounts env [a] \<noteq> []" and "usable env a" and "hydrate env a = None"
  shows "fst (select_account env True [a] g) = HydrationFailed
    \<and> slots {#} (snd (select_account env True [a] g)) = {#ID a#}"
proof -
  obtain l where av: "available_accounts env [a] = [\<lparr>account = a, loadInfo = l\<rparr>]"
    using assms(1) by (auto simp: available_accounts_def split: if_splits)
  obtain r evs g' where t: "try_available env (available_accounts env [a]) g = (r, evs, g')"
    by (metis prod.exhaust)
  from try_available_spec [OF t] av assms(2) obtain s where r: "r = Some s"
    "s = newSelectionResult env a Selected" "slots {#} evs = {#ID a#}"
    by (auto split: option.splits)
  with t assms(3) show ?thesis by (simp add: select_account_def newSelectionResult_def)
qed

section \<open>Examples\<close>

definition demo_env :: sel_env where
  "demo_env = \<lparr>loads = (\<lambda>i. if i = 1 then Some \<lparr>LoadRate = 100\<rparr> else None), slot_free = (\<lambda>i. i \<noteq> 2),
     session_ok = (\<lambda>_. True), wait_session_ok = (\<lambda>_. True), hydrate = (\<lambda>a. if ID a = 4 then None else Some a),
     clock_at = (\<lambda>_. 0), has_session = True, preferOAuth = False, PreferSoonestReset = True,
     FallbackSelectionMode = ''last_used''\<rparr>"

lemma demo_env_simps:
  "slot_free demo_env i \<longleftrightarrow> i \<noteq> 2" "session_ok demo_env i" "ID (demo_account i ty p) = i"
  "Priority (demo_account i ty p) = p" "hydrate demo_env a = (if ID a = 4 then None else Some a)"
  by (simp_all add: demo_env_def demo_account_def)

lemma demo_available:
  "available_accounts demo_env [demo_account 1 ''oauth'' 1, demo_account 2 ''oauth'' 2, demo_account 3 ''apikey'' 3]
    = [\<lparr>account = demo_account 2 ''oauth'' 2, loadInfo = \<lparr>LoadRate = 0\<rparr>\<rparr>,
       \<lparr>account = demo_account 3 ''apikey'' 3, loadInfo = \<lparr>LoadRate = 0\<rparr>\<rparr>]"
  by (simp add: available_accounts_def demo_env_def demo_account_def)

theorem pick_layers_witness:
  "\<exists>a. fst (pick demo_env 0 [\<lparr>account = demo_account 2 ''oauth'' 2, loadInfo = \<lparr>LoadRate = 0\<rparr>\<rparr>,
       \<lparr>account = demo_account 3 ''apikey'' 3, loadInfo = \<lparr>LoadRate = 0\<rparr>\<rparr>] (\<lambda>_. 0)) = Some a \<and> ID (account a) = 2"
  using pick_layers [of "[\<lparr>account = demo_account 2 ''oauth'' 2, loadInfo = \<lparr>LoadRate = 0\<rparr>\<rparr>,
       \<lparr>account = demo_account 3 ''apikey'' 3, loadInfo = \<lparr>LoadRate = 0\<rparr>\<rparr>]" demo_env 0 "\<lambda>_. 0"]
  by (auto simp: pick_key_def demo_account_def)

theorem select_account_best_witness:
  "fst (select_account demo_env True
     [demo_account 1 ''oauth'' 1, demo_account 2 ''oauth'' 2, demo_account 3 ''apikey'' 3] (\<lambda>_. 0))
    = Selected (demo_account 3 ''apikey'' 3)"
  using select_account_best [of "[demo_account 1 ''oauth'' 1, demo_account 2 ''oauth'' 2, demo_account 3 ''apikey'' 3]"
      demo_env "\<lambda>_. 0"]
  by (simp add: demo_available usable_def newSelectionResult_def demo_env_simps)

theorem hydration_failure_keeps_slot_witness:
  "slots {#} (snd (select_account demo_env True [demo_account 4 ''oauth'' 1] (\<lambda>_. 0))) = {#4#}"
  using hydration_failure_keeps_slot [of demo_env "demo_account 4 ''oauth'' 1" "\<lambda>_. 0"]
  by (simp add: available_accounts_def usable_def demo_env_def demo_account_def)

end
