(* ===== verification/Proxy_Circuit.thy ===== *)
theory Proxy_Circuit
  imports Go_Prelude
begin

text \<open>
  The circuit breaker for proxies whose streams break
  (\<^verbatim>\<open>backend/internal/service/openai_proxy_stream_circuit.go\<close>).  The circuit keeps an entry per proxy: a
  proxy with enough failures within a window is quarantined for a while; failures that come shortly
  after one another are one event.  The table is bounded: when it is full, entries that no longer
  matter are dropped, and then the one that was touched longest ago.

  Each operation runs under the mutex of the circuit, so it is one step on its state.  The order of
  the loops over the map is a parameter.
\<close>

section \<open>Settings\<close>

definition defaultOpenAIProxyStreamFailureThreshold :: int where
  "defaultOpenAIProxyStreamFailureThreshold = 2"
definition defaultOpenAIProxyStreamFailureWindow :: duration where
  "defaultOpenAIProxyStreamFailureWindow = Minute"
definition defaultOpenAIProxyStreamQuarantineTTL :: duration where
  "defaultOpenAIProxyStreamQuarantineTTL = 10 * Minute"
definition defaultOpenAIProxyStreamCircuitMaxEntries :: int where
  "defaultOpenAIProxyStreamCircuitMaxEntries = 4096"
definition defaultOpenAIProxyStreamFailureCollapse :: duration where
  "defaultOpenAIProxyStreamFailureCollapse = 3 * Second"

lemmas circuit_default_defs =
  defaultOpenAIProxyStreamFailureThreshold_def defaultOpenAIProxyStreamFailureWindow_def
  defaultOpenAIProxyStreamQuarantineTTL_def defaultOpenAIProxyStreamCircuitMaxEntries_def
  defaultOpenAIProxyStreamFailureCollapse_def

record circuit_settings =
  disabled :: bool
  failureThreshold :: int
  failureWindow :: duration
  quarantineTTL :: duration
  collapseInterval :: duration
  maxEntries :: int

record circuit_entry =
  failureCount :: int
  windowStart :: go_time
  lastFailureAt :: go_time
  blockedUntil :: go_time
  lastTouched :: go_time

record circuit =
  settings :: circuit_settings
  entries :: "(int, circuit_entry) gomap"

record circuit_config =
  Disabled :: bool
  FailureThreshold :: int
  WindowSeconds :: int
  TTLSeconds :: int

definition resolveOpenAIProxyStreamCircuitSettings :: "circuit_config option \<Rightarrow> circuit_settings" where
  "resolveOpenAIProxyStreamCircuitSettings cfg =
     (let s = \<lparr>disabled = False, failureThreshold = defaultOpenAIProxyStreamFailureThreshold,
               failureWindow = defaultOpenAIProxyStreamFailureWindow,
               quarantineTTL = defaultOpenAIProxyStreamQuarantineTTL,
               collapseInterval = defaultOpenAIProxyStreamFailureCollapse,
               maxEntries = defaultOpenAIProxyStreamCircuitMaxEntries\<rparr>
      in case cfg of None \<Rightarrow> s
         | Some c \<Rightarrow> s\<lparr>disabled := Disabled c,
             failureThreshold := (if 0 < FailureThreshold c then FailureThreshold c else failureThreshold s),
             failureWindow := (if 0 < WindowSeconds c then wrap64 (WindowSeconds c * Second) else failureWindow s),
             quarantineTTL := (if 0 < TTLSeconds c then wrap64 (TTLSeconds c * Second) else quarantineTTL s)\<rparr>)"

definition newOpenAIProxyStreamCircuit :: "circuit_settings \<Rightarrow> circuit" where
  "newOpenAIProxyStreamCircuit s =
     \<lparr>settings = s\<lparr>
        failureThreshold := (if failureThreshold s \<le> 0 then defaultOpenAIProxyStreamFailureThreshold else failureThreshold s),
        failureWindow := (if failureWindow s \<le> 0 then defaultOpenAIProxyStreamFailureWindow else failureWindow s),
        quarantineTTL := (if quarantineTTL s \<le> 0 then defaultOpenAIProxyStreamQuarantineTTL else quarantineTTL s),
        maxEntries := (if maxEntries s \<le> 0 then defaultOpenAIProxyStreamCircuitMaxEntries else maxEntries s),
        collapseInterval := (if collapseInterval s < 0 then 0 else collapseInterval s)\<rparr>,
      entries = []\<rparr>"

section \<open>The operations\<close>

definition zero_entry :: circuit_entry where
  "zero_entry = \<lparr>failureCount = 0, windowStart = 0, lastFailureAt = 0, blockedUntil = 0, lastTouched = 0\<rparr>"

text \<open>The last loop of \<^verbatim>\<open>ensureCapacityLocked\<close>: the entry touched longest ago, 0 for none.\<close>

definition oldest_proxy :: "(int, circuit_entry) gomap \<Rightarrow> int" where
  "oldest_proxy es = fst (fold (\<lambda>(proxyID, entry) (oldestProxyID, oldest).
     if oldestProxyID = 0 \<or> time_Before (lastTouched entry) oldest then (proxyID, lastTouched entry)
     else (oldestProxyID, oldest)) es (0, 0))"

definition ensureCapacityLocked ::
    "((int, circuit_entry) gomap \<Rightarrow> (int, circuit_entry) gomap) \<Rightarrow> go_time \<Rightarrow> circuit \<Rightarrow> circuit" where
  "ensureCapacityLocked ord now c =
     (if int (length (entries c)) < maxEntries (settings c) then c
      else (let es = filter (\<lambda>(proxyID, entry).
                  \<not> ((time_IsZero (blockedUntil entry)
                        \<and> failureWindow (settings c) < time_Sub now (lastTouched entry))
                     \<or> (\<not> time_IsZero (blockedUntil entry) \<and> \<not> time_Before now (blockedUntil entry))))
                  (entries c)
            in if int (length es) < maxEntries (settings c) then c\<lparr>entries := es\<rparr>
               else (let oldestProxyID = oldest_proxy (ord es)
                     in if 0 < oldestProxyID then c\<lparr>entries := mdel oldestProxyID es\<rparr>
                        else c\<lparr>entries := es\<rparr>)))"

text \<open>What the check of the window makes of an entry.\<close>

definition reset_window :: "circuit_settings \<Rightarrow> go_time \<Rightarrow> circuit_entry \<Rightarrow> circuit_entry" where
  "reset_window s now e =
     (if time_IsZero (windowStart e) \<or> time_Before now (windowStart e) \<or> failureWindow s < time_Sub now (windowStart e)
      then e\<lparr>failureCount := 0, windowStart := now, blockedUntil := 0\<rparr> else e)"

text \<open>The rest of \<^verbatim>\<open>recordFailure\<close>, for the entry after the check of the window.\<close>

definition record_event ::
    "circuit_settings \<Rightarrow> int \<Rightarrow> go_time \<Rightarrow> circuit_entry \<Rightarrow> circuit \<Rightarrow> (bool \<times> go_time) \<times> circuit" where
  "record_event s p now e c =
     (if 0 < collapseInterval s \<and> \<not> time_IsZero (lastFailureAt e) \<and> 0 \<le> time_Sub now (lastFailureAt e)
         \<and> time_Sub now (lastFailureAt e) < collapseInterval s
      then ((False, 0), c\<lparr>entries := mput p (e\<lparr>lastTouched := now\<rparr>) (entries c)\<rparr>)
      else (let e2 = e\<lparr>failureCount := failureCount e + 1, lastFailureAt := now, lastTouched := now\<rparr>;
                tripped = (failureThreshold s \<le> failureCount e2);
                e3 = (if tripped then e2\<lparr>blockedUntil := time_Add now (quarantineTTL s)\<rparr> else e2)
            in ((tripped, blockedUntil e3), c\<lparr>entries := mput p e3 (entries c)\<rparr>)))"

definition recordFailure ::
    "((int, circuit_entry) gomap \<Rightarrow> (int, circuit_entry) gomap) \<Rightarrow> int \<Rightarrow> go_time \<Rightarrow> circuit
       \<Rightarrow> (bool \<times> go_time) \<times> circuit" where
  "recordFailure ord proxyID now c =
     (if disabled (settings c) \<or> proxyID \<le> 0 then ((False, 0), c)
      else (let found = map_of (entries c) proxyID;
                entry = (case found of None \<Rightarrow> zero_entry | Some e \<Rightarrow> e)
            in if found \<noteq> None \<and> time_Before now (blockedUntil entry)
               then ((False, blockedUntil entry),
                     c\<lparr>entries := mput proxyID (entry\<lparr>lastTouched := now\<rparr>) (entries c)\<rparr>)
               else (let c1 = (if found = None then ensureCapacityLocked ord now c else c)
                     in record_event (settings c) proxyID now (reset_window (settings c) now entry) c1)))"

definition recordSuccess :: "int \<Rightarrow> circuit \<Rightarrow> bool \<times> circuit" where
  "recordSuccess proxyID c =
     (if proxyID \<le> 0 then (False, c)
      else (case map_of (entries c) proxyID of
              None \<Rightarrow> (False, c)
            | Some _ \<Rightarrow> (True, c\<lparr>entries := mdel proxyID (entries c)\<rparr>)))"

definition isBlocked :: "int \<Rightarrow> go_time \<Rightarrow> circuit \<Rightarrow> bool \<times> circuit" where
  "isBlocked proxyID now c =
     (if disabled (settings c) \<or> proxyID \<le> 0 then (False, c)
      else (case map_of (entries c) proxyID of
              None \<Rightarrow> (False, c)
            | Some entry \<Rightarrow>
                (if time_IsZero (blockedUntil entry) then (False, c)
                 else if \<not> time_Before now (blockedUntil entry)
                   then (False, c\<lparr>entries := mdel proxyID (entries c)\<rparr>)
                 else (True, c))))"

definition activeBlockCount :: "go_time \<Rightarrow> circuit \<Rightarrow> int" where
  "activeBlockCount now c =
     (if disabled (settings c) then 0
      else int (length (filter (\<lambda>(proxyID, entry).
             \<not> time_IsZero (blockedUntil entry) \<and> time_Before now (blockedUntil entry)) (entries c))))"

section \<open>The gateway's use of the circuit\<close>

definition PlatformOpenAI :: string where "PlatformOpenAI = ''openai''"

record proxy_account =
  Platform :: string
  ProxyID :: "int option"

definition openAIProxyStreamCircuitProxyID :: "proxy_account option \<Rightarrow> int \<times> bool" where
  "openAIProxyStreamCircuitProxyID acc = (case acc of None \<Rightarrow> (0, False)
     | Some a \<Rightarrow> (case ProxyID a of None \<Rightarrow> (0, False)
         | Some i \<Rightarrow> (if Platform a \<noteq> PlatformOpenAI \<or> i \<le> 0 then (0, False) else (i, True))))"

datatype stream_error = StreamCanceled | StreamDeadlineExceeded | StreamFailed

definition recordOpenAIProxyStreamDisconnect ::
    "((int, circuit_entry) gomap \<Rightarrow> (int, circuit_entry) gomap) \<Rightarrow> proxy_account option \<Rightarrow> stream_error option
       \<Rightarrow> go_time \<Rightarrow> circuit \<Rightarrow> circuit" where
  "recordOpenAIProxyStreamDisconnect ord acc streamErr now c =
     (case openAIProxyStreamCircuitProxyID acc of (proxyID, ok) \<Rightarrow>
        (if \<not> ok \<or> streamErr = None \<or> streamErr = Some StreamCanceled \<or> streamErr = Some StreamDeadlineExceeded
         then c else snd (recordFailure ord proxyID now c)))"

definition recordOpenAIProxyTransportFailure ::
    "((int, circuit_entry) gomap \<Rightarrow> (int, circuit_entry) gomap) \<Rightarrow> proxy_account option \<Rightarrow> string
       \<Rightarrow> go_time \<Rightarrow> circuit \<Rightarrow> circuit" where
  "recordOpenAIProxyTransportFailure ord acc failure now c =
     (case openAIProxyStreamCircuitProxyID acc of (proxyID, ok) \<Rightarrow>
        (if \<not> ok \<or> TrimSpace failure = [] then c else snd (recordFailure ord proxyID now c)))"

definition clearOpenAIProxyStreamDisconnect :: "proxy_account option \<Rightarrow> circuit \<Rightarrow> circuit" where
  "clearOpenAIProxyStreamDisconnect acc c =
     (case openAIProxyStreamCircuitProxyID acc of (proxyID, ok) \<Rightarrow>
        (if \<not> ok then c else snd (recordSuccess proxyID c)))"

definition isOpenAIProxyStreamQuarantined ::
    "bool \<Rightarrow> proxy_account option \<Rightarrow> go_time \<Rightarrow> circuit \<Rightarrow> bool \<times> circuit" where
  "isOpenAIProxyStreamQuarantined bypassed acc now c =
     (case openAIProxyStreamCircuitProxyID acc of (proxyID, ok) \<Rightarrow>
        (if \<not> ok then (False, c) else if bypassed then (False, c) else isBlocked proxyID now c))"

section \<open>The table stays bounded\<close>

definition keys_pos :: "(int, circuit_entry) gomap \<Rightarrow> bool" where
  "keys_pos es \<longleftrightarrow> (\<forall>p\<in>set es. 0 < fst p)"

definition table_ok :: "circuit \<Rightarrow> bool" where
  "table_ok c \<longleftrightarrow> mkeys (entries c) \<and> keys_pos (entries c) \<and> 0 < maxEntries (settings c)
     \<and> int (length (entries c)) \<le> maxEntries (settings c)"

lemma oldest_proxy_key:
  assumes "keys_pos es" and "es \<noteq> []"
  shows "0 < oldest_proxy es \<and> oldest_proxy es \<in> fst ` set es"
proof -
  let ?f = "\<lambda>(proxyID :: int, entry) (oldestProxyID, oldest).
     if oldestProxyID = 0 \<or> time_Before (lastTouched entry) oldest then (proxyID, lastTouched entry)
     else (oldestProxyID, oldest)"
  have gen: "fst (fold ?f xs (k, t)) \<in> insert k (fst ` set xs)
      \<and> (k \<noteq> 0 \<or> xs \<noteq> [] \<longrightarrow> fst (fold ?f xs (k, t)) \<noteq> 0)" if "keys_pos xs" for xs k t
    using that
  proof (induction xs arbitrary: k t)
    case (Cons x xs)
    obtain p e where x: "x = (p, e)" by fastforce
    have "keys_pos xs" "0 < p" using Cons.prems by (auto simp: keys_pos_def x)
    with Cons.IH [of p "lastTouched e"] Cons.IH [of k t] show ?case by (auto simp: x)
  qed simp
  from gen [OF assms(1), of 0 0] assms(2) have "oldest_proxy es \<in> insert 0 (fst ` set es) \<and> oldest_proxy es \<noteq> 0"
    unfolding oldest_proxy_def by blast
  with assms(1) show ?thesis by (auto simp: keys_pos_def)
qed

lemma ensureCapacity_ok:
  assumes c: "table_ok c" and ord: "range_order ord"
  shows "settings (ensureCapacityLocked ord now c) = settings c"
    and "mkeys (entries (ensureCapacityLocked ord now c))"
    and "keys_pos (entries (ensureCapacityLocked ord now c))"
    and "int (length (entries (ensureCapacityLocked ord now c))) < maxEntries (settings c)"
    and "map_of (entries (ensureCapacityLocked ord now c)) p = Some e \<Longrightarrow> map_of (entries c) p = Some e"
proof -
  define es where "es = filter (\<lambda>(proxyID, entry).
      \<not> ((time_IsZero (blockedUntil entry) \<and> failureWindow (settings c) < time_Sub now (lastTouched entry))
         \<or> (\<not> time_IsZero (blockedUntil entry) \<and> \<not> time_Before now (blockedUntil entry)))) (entries c)"
  have ens: "ensureCapacityLocked ord now c = (if int (length (entries c)) < maxEntries (settings c) then c
      else if int (length es) < maxEntries (settings c) then c\<lparr>entries := es\<rparr>
      else if 0 < oldest_proxy (ord es) then c\<lparr>entries := mdel (oldest_proxy (ord es)) es\<rparr> else c\<lparr>entries := es\<rparr>)"
    unfolding ensureCapacityLocked_def Let_def es_def by (rule refl)
  have mk: "mkeys es" "keys_pos es" "length es \<le> length (entries c)"
    using c by (auto simp: es_def table_ok_def keys_pos_def)
  have sub: "map_of es p = Some e \<Longrightarrow> map_of (entries c) p = Some e"
    using c by (auto simp: es_def table_ok_def map_of_filter_fst split: option.splits if_splits)
  show "settings (ensureCapacityLocked ord now c) = settings c"
    by (simp add: ensureCapacityLocked_def Let_def)
  consider (free) "int (length (entries c)) < maxEntries (settings c)" "ensureCapacityLocked ord now c = c"
    | (cleaned) "int (length es) < maxEntries (settings c)" "ensureCapacityLocked ord now c = c\<lparr>entries := es\<rparr>"
    | (evict) k where "k \<in> fst ` set es" "ensureCapacityLocked ord now c = c\<lparr>entries := mdel k es\<rparr>"
  proof (cases "int (length es) < maxEntries (settings c)")
    case True
    then show thesis using free cleaned
      by (cases "int (length (entries c)) < maxEntries (settings c)") (simp_all add: ens)
  next
    case False
    then have "es \<noteq> []" using c by (auto simp: table_ok_def)
    have set: "set (ord es) = set es" using ord mset_eq_setD by (auto simp: range_order_def)
    moreover have "ord es \<noteq> []" using set \<open>es \<noteq> []\<close> by (metis set_empty)
    ultimately have "0 < oldest_proxy (ord es) \<and> oldest_proxy (ord es) \<in> fst ` set es"
      using oldest_proxy_key [of "ord es"] mk(2) by (simp add: keys_pos_def)
    with False show thesis using free evict [of "oldest_proxy (ord es)"]
      by (cases "int (length (entries c)) < maxEntries (settings c)") (simp_all add: ens)
  qed
  note cs = this
  show "mkeys (entries (ensureCapacityLocked ord now c))"
    by (rule cs) (use c mk in \<open>auto simp: table_ok_def\<close>)
  show "keys_pos (entries (ensureCapacityLocked ord now c))"
    by (rule cs) (use c mk in \<open>auto simp: table_ok_def keys_pos_def mdel_def\<close>)
  show "int (length (entries (ensureCapacityLocked ord now c))) < maxEntries (settings c)"
  proof (rule cs)
    fix k assume k: "k \<in> fst ` set es" and eq: "ensureCapacityLocked ord now c = c\<lparr>entries := mdel k es\<rparr>"
    then have "map_of es k \<noteq> None" by (simp add: map_of_eq_None_iff)
    moreover have "es \<noteq> []" using k by auto
    ultimately show ?thesis using length_mdel [OF mk(1), of k] c mk(3) eq
      by (cases es) (auto simp: table_ok_def)
  qed (use c in \<open>auto simp: table_ok_def\<close>)
  show "map_of (entries (ensureCapacityLocked ord now c)) p = Some e \<Longrightarrow> map_of (entries c) p = Some e"
    by (rule cs) (use sub in \<open>auto split: if_splits\<close>)
qed

section \<open>Runs of the circuit\<close>

text \<open>
  The circuit after a sequence of operations with a clock that does not go back: \<open>H\<close> are the
  failures that were reported, with their instants.
\<close>

inductive circuit_run :: "circuit_settings \<Rightarrow> (int \<times> go_time) set \<Rightarrow> go_time \<Rightarrow> circuit \<Rightarrow> bool" for s where
  start: "0 < t \<Longrightarrow> circuit_run s {} t (newOpenAIProxyStreamCircuit s)"
| failed: "circuit_run s H t c \<Longrightarrow> t \<le> now \<Longrightarrow> range_order ord \<Longrightarrow>
     circuit_run s (insert (p, now) H) now (snd (recordFailure ord p now c))"
| succeeded: "circuit_run s H t c \<Longrightarrow> t \<le> now \<Longrightarrow> circuit_run s H now (snd (recordSuccess p c))"
| queried: "circuit_run s H t c \<Longrightarrow> t \<le> now \<Longrightarrow> circuit_run s H now (snd (isBlocked p now c))"

text \<open>
  The counted failures \<open>ts\<close> of an entry: they lie in its window, are a collapse interval apart, and
  the last one is the recorded one; a quarantine was earned by enough of them.
\<close>

definition counted :: "circuit_settings \<Rightarrow> (int \<times> go_time) set \<Rightarrow> int \<Rightarrow> circuit_entry \<Rightarrow> go_time list \<Rightarrow> bool" where
  "counted s H p e ts \<longleftrightarrow> int (length ts) = failureCount e
     \<and> (\<forall>t\<in>set ts. (p, t) \<in> H \<and> windowStart e \<le> t \<and> t \<le> windowStart e + failureWindow s)
     \<and> sorted_wrt (\<lambda>a b. a + collapseInterval s \<le> b) ts
     \<and> (ts \<noteq> [] \<longrightarrow> lastFailureAt e = last ts)
     \<and> (blockedUntil e \<noteq> 0 \<longrightarrow> failureThreshold s \<le> failureCount e
          \<and> blockedUntil e = lastFailureAt e + quarantineTTL s)"

definition entry_ok :: "circuit_settings \<Rightarrow> (int \<times> go_time) set \<Rightarrow> go_time \<Rightarrow> int \<Rightarrow> circuit_entry \<Rightarrow> bool" where
  "entry_ok s H t p e \<longleftrightarrow> 0 < windowStart e \<and> windowStart e \<le> t \<and> 0 \<le> lastFailureAt e \<and> lastFailureAt e \<le> t
     \<and> (\<exists>ts. counted s H p e ts)"

definition run_ok :: "circuit_settings \<Rightarrow> (int \<times> go_time) set \<Rightarrow> go_time \<Rightarrow> circuit \<Rightarrow> bool" where
  "run_ok s H t c \<longleftrightarrow> settings c = s \<and> table_ok c \<and> 0 < t \<and> (\<forall>p e. map_of (entries c) p = Some e \<longrightarrow> entry_ok s H t p e)"

lemma counted_mono: "counted s H p e ts \<Longrightarrow> H \<subseteq> H' \<Longrightarrow> counted s H' p e ts"
  by (auto simp: counted_def)

lemma entry_ok_mono: "entry_ok s H t p e \<Longrightarrow> H \<subseteq> H' \<Longrightarrow> t \<le> t' \<Longrightarrow> entry_ok s H' t' p e"
proof -
  assume *: "entry_ok s H t p e" "H \<subseteq> H'" "t \<le> t'"
  then obtain ts where "counted s H p e ts" by (auto simp: entry_ok_def)
  then have "counted s H' p e ts" using *(2) by (rule counted_mono)
  with * show ?thesis by (auto simp: entry_ok_def)
qed

lemma entry_ok_touch: "entry_ok s H t p e \<Longrightarrow> entry_ok s H t p (e\<lparr>lastTouched := x\<rparr>)"
  by (auto simp: entry_ok_def counted_def)

lemma reset_window_ok:
  assumes "entry_ok s H t p e \<or> e = zero_entry" and "0 < now" and "t \<le> now" and "failureWindow s < max_int64"
  shows "entry_ok s H now p (reset_window s now e)"
    and "now \<le> windowStart (reset_window s now e) + failureWindow s \<or> failureWindow s < 0"
proof -
  let ?stale = "time_IsZero (windowStart e) \<or> time_Before now (windowStart e) \<or> failureWindow s < time_Sub now (windowStart e)"
  have fresh: "entry_ok s H now p (e\<lparr>failureCount := 0, windowStart := now, blockedUntil := 0\<rparr>)"
    using assms(1-3) by (auto simp: entry_ok_def counted_def zero_entry_def intro!: exI [of _ "[]"])
  show "entry_ok s H now p (reset_window s now e)"
  proof (cases ?stale)
    case True
    with fresh show ?thesis by (simp add: reset_window_def)
  next
    case False
    then have "entry_ok s H t p e" using assms(1) by (auto simp: zero_entry_def time_defs)
    with False assms(3) show ?thesis by (auto simp: reset_window_def intro: entry_ok_mono)
  qed
  show "now \<le> windowStart (reset_window s now e) + failureWindow s \<or> failureWindow s < 0"
    using assms(4) by (auto simp: reset_window_def time_defs time_Sub_def min_int64_def max_int64_def split: if_splits)
qed

text \<open>A counted failure.\<close>

lemma count_failure_ok:
  assumes e: "entry_ok s H now p e" and win: "now \<le> windowStart e + failureWindow s"
    and apart: "lastFailureAt e = 0 \<or> lastFailureAt e + collapseInterval s \<le> now"
    and e2: "e2 = e\<lparr>failureCount := failureCount e + 1, lastFailureAt := now, lastTouched := now\<rparr>"
    and e3: "e3 = (if failureThreshold s \<le> failureCount e2 then e2\<lparr>blockedUntil := now + quarantineTTL s\<rparr> else e2)"
    and keep: "blockedUntil e = 0 \<or> failureThreshold s \<le> failureCount e"
  shows "entry_ok s (insert (p, now) H) now p e3"
proof -
  from e obtain ts where ts: "counted s H p e ts" and pos: "0 < windowStart e" "windowStart e \<le> now"
    "0 \<le> lastFailureAt e" "lastFailureAt e \<le> now"
    by (auto simp: entry_ok_def)
  have "x + collapseInterval s \<le> now" if x: "x \<in> set ts" for x
  proof -
    have ne: "ts \<noteq> []" using x by auto
    then have last: "last ts = lastFailureAt e" "windowStart e \<le> last ts" using ts by (auto simp: counted_def)
    have c0: "last ts + collapseInterval s \<le> now" using apart last pos by auto
    obtain us where us: "ts = us @ [last ts]" using ne by (metis append_butlast_last_id)
    have "sorted_wrt (\<lambda>a b. a + collapseInterval s \<le> b) (us @ [last ts])" using ts us by (simp add: counted_def)
    then have "x \<in> set us \<Longrightarrow> x + collapseInterval s \<le> last ts" by (auto simp: sorted_wrt_append)
    moreover have "x = last ts \<or> x \<in> set us" using x us by (metis Un_iff empty_iff empty_set insert_iff list.simps(15) set_append)
    moreover have "last ts \<le> now" using last pos by simp
    ultimately show ?thesis using c0 by auto
  qed
  then have "sorted_wrt (\<lambda>a b. a + collapseInterval s \<le> b) (ts @ [now])"
    using ts by (auto simp: counted_def sorted_wrt_append)
  moreover have "blockedUntil e3 = 0 \<or> failureThreshold s \<le> failureCount e3 \<and> blockedUntil e3 = lastFailureAt e3 + quarantineTTL s"
    using keep e3 e2 by auto
  moreover have "failureCount e3 = int (length (ts @ [now]))" "windowStart e3 = windowStart e" "lastFailureAt e3 = now"
    using ts e2 e3 by (auto simp: counted_def)
  ultimately have "counted s (insert (p, now) H) p e3 (ts @ [now])"
    using ts win pos by (auto simp: counted_def)
  with pos e2 e3 show ?thesis by (auto simp: entry_ok_def)
qed

lemma recordFailure_unfold:
  assumes "\<not> disabled (settings c)" and "0 < p"
  shows "recordFailure ord p now c =
    (case map_of (entries c) p of
       Some e \<Rightarrow>
         (if time_Before now (blockedUntil e)
          then ((False, blockedUntil e), c\<lparr>entries := mput p (e\<lparr>lastTouched := now\<rparr>) (entries c)\<rparr>)
          else record_event (settings c) p now (reset_window (settings c) now e) c)
     | None \<Rightarrow> record_event (settings c) p now (reset_window (settings c) now zero_entry) (ensureCapacityLocked ord now c))"
  using assms by (cases "map_of (entries c) p") (simp_all add: recordFailure_def Let_def)

lemma run_ok_put:
  assumes c: "run_ok s H t c" and c1: "settings c1 = s" "mkeys (entries c1)" "keys_pos (entries c1)"
    "\<And>q e. map_of (entries c1) q = Some e \<Longrightarrow> map_of (entries c) q = Some e"
    and room: "map_of (entries c1) p = None \<Longrightarrow> int (length (entries c1)) < maxEntries s"
      "int (length (entries c1)) \<le> maxEntries s"
    and p: "0 < p" and e: "entry_ok s H' now p e" and H: "H \<subseteq> H'" "t \<le> now"
  shows "run_ok s H' now (c1\<lparr>entries := mput p e (entries c1)\<rparr>)"
proof -
  have "keys_pos (mput p e (entries c1))" using c1(3) p by (auto simp: keys_pos_def mput_def mdel_def)
  moreover have "int (length (mput p e (entries c1))) \<le> maxEntries s"
    using room length_mput [OF c1(2), of p e] by (auto split: if_splits)
  ultimately have "table_ok (c1\<lparr>entries := mput p e (entries c1)\<rparr>)"
    using c c1(1) mkeys_mput [OF c1(2), of p e] by (auto simp: table_ok_def run_ok_def)
  moreover have "entry_ok s H' now q x" if "map_of (entries c) q = Some x" for q x
  proof -
    have "entry_ok s H t q x" using c that by (simp add: run_ok_def)
    then show ?thesis using H by (rule entry_ok_mono)
  qed
  moreover have "0 < now" using c H(2) by (simp add: run_ok_def)
  ultimately show ?thesis using c1(1,4) e by (simp add: run_ok_def)
qed

lemma run_ok_later:
  assumes "run_ok s H t c" and "t \<le> now" and "H \<subseteq> H'"
  shows "run_ok s H' now c"
proof -
  have "entry_ok s H' now q x" if "map_of (entries c) q = Some x" for q x
  proof -
    have "entry_ok s H t q x" using assms(1) that by (simp add: run_ok_def)
    then show ?thesis using assms(3,2) by (rule entry_ok_mono)
  qed
  then show ?thesis using assms by (simp add: run_ok_def)
qed

lemma run_ok_delete:
  assumes "run_ok s H t c" and "t \<le> now"
  shows "run_ok s H now (c\<lparr>entries := mdel p (entries c)\<rparr>)"
proof -
  have r: "run_ok s H now c" using assms by (rule run_ok_later) simp
  have "length (mdel p (entries c)) \<le> length (entries c)" by (simp add: mdel_def)
  moreover have "keys_pos (entries c) \<Longrightarrow> keys_pos (mdel p (entries c))" by (auto simp: keys_pos_def mdel_def)
  ultimately have "table_ok (c\<lparr>entries := mdel p (entries c)\<rparr>)"
    using r by (auto simp: run_ok_def table_ok_def)
  with r show ?thesis by (simp add: run_ok_def)
qed

lemma record_event_run_ok:
  assumes c: "run_ok s H t c" and c1: "settings c1 = s" "mkeys (entries c1)" "keys_pos (entries c1)"
    "\<And>q e. map_of (entries c1) q = Some e \<Longrightarrow> map_of (entries c) q = Some e"
    and room: "map_of (entries c1) p = None \<Longrightarrow> int (length (entries c1)) < maxEntries s"
      "int (length (entries c1)) \<le> maxEntries s"
    and p: "0 < p" and now: "t \<le> now" "0 < now"
    and s: "failureWindow s < max_int64" "0 \<le> failureWindow s"
    and e: "entry_ok s H t p e \<or> e = zero_entry"
  shows "run_ok s (insert (p, now) H) now (snd (record_event s p now (reset_window s now e) c1))"
proof -
  let ?e = "reset_window s now e"
  note r = reset_window_ok [OF e now(2,1) s(1)]
  have r2: "now \<le> windowStart ?e + failureWindow s" using r(2) s(2) by simp
  have H: "H \<subseteq> insert (p, now) H" by auto
  have put: "run_ok s (insert (p, now) H) now (c1\<lparr>entries := mput p x (entries c1)\<rparr>)"
    if x: "entry_ok s (insert (p, now) H) now p x" for x
    by (rule run_ok_put [OF c c1(1-3) _ _ room(2) p x H now(1)]) (use c1(4) room(1) in auto)
  show ?thesis
  proof (cases "0 < collapseInterval s \<and> \<not> time_IsZero (lastFailureAt ?e) \<and> 0 \<le> time_Sub now (lastFailureAt ?e)
      \<and> time_Sub now (lastFailureAt ?e) < collapseInterval s")
    case True
    have "entry_ok s (insert (p, now) H) now p (?e\<lparr>lastTouched := now\<rparr>)"
      using entry_ok_touch [OF r(1)] entry_ok_mono [OF _ H order_refl] by blast
    from put [OF this] True show ?thesis by (simp add: record_event_def)
  next
    case False
    define e2 where "e2 = ?e\<lparr>failureCount := failureCount ?e + 1, lastFailureAt := now, lastTouched := now\<rparr>"
    define e3 where "e3 = (if failureThreshold s \<le> failureCount e2 then e2\<lparr>blockedUntil := now + quarantineTTL s\<rparr> else e2)"
    have le: "lastFailureAt ?e \<le> now" using r(1) by (simp add: entry_ok_def)
    have apart: "lastFailureAt ?e = 0 \<or> lastFailureAt ?e + collapseInterval s \<le> now"
      using False le by (auto simp: time_defs time_Sub_def min_int64_def max_int64_def)
    obtain ts where "counted s H p ?e ts" using r(1) by (auto simp: entry_ok_def)
    then have keep: "blockedUntil ?e = 0 \<or> failureThreshold s \<le> failureCount ?e" by (auto simp: counted_def)
    have "entry_ok s (insert (p, now) H) now p e3"
      by (rule count_failure_ok [OF r(1) r2 apart e2_def e3_def keep])
    moreover have "snd (record_event s p now ?e c1) = c1\<lparr>entries := mput p e3 (entries c1)\<rparr>"
      unfolding record_event_def Let_def if_not_P [OF False] by (simp add: e2_def e3_def)
    ultimately show ?thesis using put by simp
  qed
qed

lemma recordFailure_run_ok:
  assumes c: "run_ok s H t c" and now: "t \<le> now" and ord: "range_order ord"
    and s: "failureWindow s < max_int64" "0 \<le> failureWindow s"
  shows "run_ok s (insert (p, now) H) now (snd (recordFailure ord p now c))"
proof (cases "disabled (settings c) \<or> p \<le> 0")
  case True
  then show ?thesis using run_ok_later [OF c now, of "insert (p, now) H"] by (auto simp: recordFailure_def)
next
  case False
  then have p: "0 < p" by simp
  have c': "settings c = s" "table_ok c" "0 < t" using c by (auto simp: run_ok_def)
  have tab: "mkeys (entries c)" "keys_pos (entries c)" "int (length (entries c)) \<le> maxEntries s"
    using c' by (auto simp: table_ok_def)
  have "0 < now" using c'(3) now by simp
  note unfold = recordFailure_unfold [of c p ord now]
  show ?thesis
  proof (cases "map_of (entries c) p")
    case None
    note cap = ensureCapacity_ok [OF c'(2) ord, of now]
    have "run_ok s (insert (p, now) H) now
        (snd (record_event s p now (reset_window s now zero_entry) (ensureCapacityLocked ord now c)))"
      by (rule record_event_run_ok [OF c _ _ _ _ _ _ p now \<open>0 < now\<close> s]) (use cap c' in auto)
    with None False unfold c'(1) show ?thesis by simp
  next
    case (Some e)
    have ok: "entry_ok s H t p e" using c Some by (auto simp: run_ok_def)
    show ?thesis
    proof (cases "time_Before now (blockedUntil e)")
      case True
      have H: "H \<subseteq> insert (p, now) H" by auto
      have "run_ok s (insert (p, now) H) now (c\<lparr>entries := mput p (e\<lparr>lastTouched := now\<rparr>) (entries c)\<rparr>)"
        by (rule run_ok_put [OF c c'(1) tab(1,2) _ _ tab(3) p _ H now])
          (use Some ok entry_ok_touch entry_ok_mono [OF _ H now] in auto)
      with True Some False unfold show ?thesis by simp
    next
      case blocked: False
      have "run_ok s (insert (p, now) H) now (snd (record_event s p now (reset_window s now e) c))"
        by (rule record_event_run_ok [OF c c'(1) tab(1,2) _ _ tab(3) p now \<open>0 < now\<close> s]) (use Some ok in auto)
      with blocked Some False unfold c'(1) show ?thesis by simp
    qed
  qed
qed

lemma circuit_run_ok:
  assumes "circuit_run s H t c" and "failureWindow (settings (newOpenAIProxyStreamCircuit s)) < max_int64"
  shows "run_ok (settings (newOpenAIProxyStreamCircuit s)) H t c"
  using assms(1)
proof (induction rule: circuit_run.induct)
  case (start t)
  then show ?case
    by (simp add: run_ok_def table_ok_def newOpenAIProxyStreamCircuit_def keys_pos_def circuit_default_defs)
next
  case (failed H t c now ord p)
  have "0 \<le> failureWindow (settings (newOpenAIProxyStreamCircuit s))"
    by (simp add: newOpenAIProxyStreamCircuit_def circuit_default_defs unit_defs)
  with failed assms(2) show ?case by (intro recordFailure_run_ok) auto
next
  case (succeeded H t c now p)
  then show ?case
    using run_ok_delete [of _ H t c now p] run_ok_later [of _ H t c now H]
    by (auto simp: recordSuccess_def split: option.splits)
next
  case (queried H t c now p)
  then show ?case
    using run_ok_delete [of _ H t c now p] run_ok_later [of _ H t c now H]
    by (auto simp: isBlocked_def split: option.splits)
qed

lemma ensureCapacity_settings [simp]: "settings (ensureCapacityLocked ord now c) = settings c"
  by (simp add: ensureCapacityLocked_def Let_def)

lemma recordFailure_settings [simp]: "settings (snd (recordFailure ord p now c)) = settings c"
  by (simp add: recordFailure_def record_event_def Let_def)

lemma circuit_run_settings: "circuit_run s H t c \<Longrightarrow> settings c = settings (newOpenAIProxyStreamCircuit s)"
  by (induction rule: circuit_run.induct) (auto simp: recordSuccess_def isBlocked_def split: option.splits)

lemma tripped_entry:
  assumes "fst (recordFailure ord p now c) = (True, until)"
  shows "\<exists>c1 e. snd (recordFailure ord p now c) = c1\<lparr>entries := mput p e (entries c1)\<rparr> \<and> settings c1 = settings c
    \<and> blockedUntil e = until \<and> until = now + quarantineTTL (settings c) \<and> 0 < p \<and> \<not> disabled (settings c)"
proof -
  have ev: "\<exists>e. snd (record_event s p now x c1) = c1\<lparr>entries := mput p e (entries c1)\<rparr>
      \<and> blockedUntil e = until \<and> until = now + quarantineTTL s"
    if ev: "fst (record_event s p now x c1) = (True, until)" for s x c1
    using ev by (auto simp: record_event_def Let_def split: if_splits)
  have p: "0 < p" "\<not> disabled (settings c)" using assms by (auto simp: recordFailure_def split: if_splits)
  obtain x c1 where x: "recordFailure ord p now c = record_event (settings c) p now x c1" "settings c1 = settings c"
    using assms p by (auto simp: recordFailure_unfold split: option.splits if_splits)
  with ev [of "settings c" x c1] assms p show ?thesis by auto
qed

text \<open>An entry that has seen nothing but one event, which began at \<open>now\<close>.\<close>

definition in_burst :: "go_time \<Rightarrow> circuit_entry \<Rightarrow> bool" where
  "in_burst now e \<longleftrightarrow> lastFailureAt e = now \<and> blockedUntil e = 0"

lemma burst_step:
  assumes "map_of (entries c) p = Some e" and "in_burst now e"
    and "0 < now" and "now \<le> u" and "u < now + collapseInterval (settings c)" and "0 < p"
    and "\<not> disabled (settings c)"
  shows "\<exists>e'. map_of (entries (snd (recordFailure ord p u c))) p = Some e' \<and> in_burst now e'"
proof -
  let ?e = "reset_window (settings c) u e"
  have "lastFailureAt ?e = now" "blockedUntil ?e = 0"
    using assms(2) by (simp_all add: reset_window_def in_burst_def)
  moreover have "0 \<le> time_Sub u now" "time_Sub u now < collapseInterval (settings c)"
    using assms(4,5) by (auto simp: time_Sub_def min_int64_def max_int64_def)
  ultimately show ?thesis
    using assms by (simp add: recordFailure_unfold record_event_def in_burst_def)
qed

lemma burst_fold:
  assumes "\<forall>u\<in>set us. now \<le> u \<and> u < now + collapseInterval (settings c)" and "0 < now" and "0 < p"
    and "\<not> disabled (settings c)" and "\<exists>e. map_of (entries c) p = Some e \<and> in_burst now e"
  shows "\<exists>e. map_of (entries (fold (\<lambda>u c. snd (recordFailure ord p u c)) us c)) p = Some e \<and> in_burst now e"
  using assms
proof (induction us arbitrary: c)
  case (Cons u us)
  then obtain e where "map_of (entries c) p = Some e" "in_burst now e" by blast
  then have "\<exists>e. map_of (entries (snd (recordFailure ord p u c))) p = Some e \<and> in_burst now e"
    using Cons.prems by (intro burst_step) auto
  with Cons show ?case by simp
qed simp

section \<open>Properties\<close>

text \<open>
  C7. A quarantine is always earned: when a proxy is reported as blocked, at least the threshold of
  failures of that very proxy were reported, all within one window, no two of them closer than the
  collapse interval, and the last of them less than the quarantine time ago.
\<close>

theorem circuit_block_justified:
  assumes run: "circuit_run s H t c" and small: "failureWindow (settings c) < max_int64"
    and blocked: "fst (isBlocked p now c)"
  shows "\<exists>ts. (\<forall>u\<in>set ts. (p, u) \<in> H) \<and> failureThreshold (settings c) \<le> int (length ts)
    \<and> sorted_wrt (\<lambda>a b. a + collapseInterval (settings c) \<le> b) ts
    \<and> (\<forall>a\<in>set ts. \<forall>b\<in>set ts. b - a \<le> failureWindow (settings c))
    \<and> ts \<noteq> [] \<and> now < last ts + quarantineTTL (settings c)"
proof -
  have s: "settings c = settings (newOpenAIProxyStreamCircuit s)" by (rule circuit_run_settings [OF run])
  have ok: "run_ok (settings c) H t c" using circuit_run_ok [OF run] small s by simp
  obtain e where e: "map_of (entries c) p = Some e" "blockedUntil e \<noteq> 0" "now < blockedUntil e"
    using blocked by (auto simp: isBlocked_def split: option.splits if_splits)
  then obtain ts where ts: "counted (settings c) H p e ts" using ok by (auto simp: run_ok_def entry_ok_def)
  have "0 < failureThreshold (settings c)"
    unfolding s by (simp add: newOpenAIProxyStreamCircuit_def circuit_default_defs)
  then have ne: "ts \<noteq> []" using ts e by (auto simp: counted_def)
  have "b - a \<le> failureWindow (settings c)" if "a \<in> set ts" "b \<in> set ts" for a b
  proof -
    have "windowStart e \<le> a" "b \<le> windowStart e + failureWindow (settings c)"
      using ts that by (simp_all add: counted_def)
    then show ?thesis by simp
  qed
  with ts ne e show ?thesis by (intro exI [of _ ts]) (auto simp: counted_def)
qed

theorem circuit_block_justified_witness:
  "\<exists>ts. (\<forall>u\<in>set ts. (7::int, u) \<in> {(7, 100 * Second), (7, 105 * Second)}) \<and> 2 \<le> int (length ts)
    \<and> ts \<noteq> [] \<and> 106 * Second < last ts + 10 * Minute"
proof -
  let ?s = "resolveOpenAIProxyStreamCircuitSettings None"
  let ?c0 = "newOpenAIProxyStreamCircuit ?s"
  let ?c1 = "snd (recordFailure id 7 (100 * Second) ?c0)"
  let ?c2 = "snd (recordFailure id 7 (105 * Second) ?c1)"
  have "range_order (id :: (int, circuit_entry) gomap \<Rightarrow> _)" by (simp add: range_order_def)
  then have run: "circuit_run ?s {(7, 105 * Second), (7, 100 * Second)} (105 * Second) ?c2"
    by (intro circuit_run.failed [where t = "100 * Second"] circuit_run.failed [where t = 1]
          circuit_run.start) (simp_all add: unit_defs)
  note eval = recordFailure_def record_event_def reset_window_def ensureCapacityLocked_def Let_def
    newOpenAIProxyStreamCircuit_def resolveOpenAIProxyStreamCircuitSettings_def circuit_default_defs
    zero_entry_def unit_defs mput_def mdel_def time_Sub_def min_int64_def max_int64_def isBlocked_def
  have "failureWindow (settings ?c2) < max_int64" "failureThreshold (settings ?c2) = 2"
    "quarantineTTL (settings ?c2) = 10 * Minute" "fst (isBlocked 7 (106 * Second) ?c2)"
    by (simp_all add: eval)
  with circuit_block_justified [OF run, of 7 "106 * Second"] show ?thesis by auto
qed

text \<open>The table never outgrows its bound, whatever is reported and in whatever order maps are read.\<close>

theorem circuit_table_bounded:
  assumes "circuit_run s H t c" and "failureWindow (settings c) < max_int64"
  shows "int (length (entries c)) \<le> maxEntries (settings c) \<and> mkeys (entries c)"
  using circuit_run_ok [OF assms(1)] assms(2) circuit_run_settings [OF assms(1)]
  by (simp add: run_ok_def table_ok_def)

theorem circuit_table_bounded_witness:
  "int (length (entries (newOpenAIProxyStreamCircuit (resolveOpenAIProxyStreamCircuitSettings None)))) \<le> 4096"
  using circuit_table_bounded [OF circuit_run.start [of 1]]
  by (simp add: newOpenAIProxyStreamCircuit_def resolveOpenAIProxyStreamCircuitSettings_def
      circuit_default_defs unit_defs max_int64_def)

text \<open>
  The failure that trips the circuit quarantines its proxy from then on for exactly the
  quarantine time, and a success ends the quarantine at once.
\<close>

theorem recordFailure_trips:
  assumes "fst (recordFailure ord p now c) = (True, until)" and "0 \<le> now" and "0 < quarantineTTL (settings c)"
  shows "until = now + quarantineTTL (settings c)
    \<and> (\<forall>t. fst (isBlocked p t (snd (recordFailure ord p now c))) = (t < until))
    \<and> (\<forall>t. \<not> fst (isBlocked p t (snd (recordSuccess p (snd (recordFailure ord p now c))))))"
proof -
  from tripped_entry [OF assms(1)] obtain c1 e where
    r: "snd (recordFailure ord p now c) = c1\<lparr>entries := mput p e (entries c1)\<rparr>" "settings c1 = settings c"
    "blockedUntil e = until" "until = now + quarantineTTL (settings c)" "0 < p" "\<not> disabled (settings c)"
    by blast
  then have "until \<noteq> 0" using assms(2,3) by simp
  with r show ?thesis by (simp add: isBlocked_def recordSuccess_def)
qed

theorem recordFailure_trips_witness:
  "fst (isBlocked 7 (601 * Second) (snd (recordFailure id 7 (2 * Second)
     \<lparr>settings = \<lparr>disabled = False, failureThreshold = 1, failureWindow = Minute, quarantineTTL = 10 * Minute,
        collapseInterval = 3 * Second, maxEntries = 10\<rparr>, entries = []\<rparr>))) = (601 * Second < 602 * Second)"
proof -
  let ?c = "\<lparr>settings = \<lparr>disabled = False, failureThreshold = 1, failureWindow = Minute, quarantineTTL = 10 * Minute,
      collapseInterval = 3 * Second, maxEntries = 10\<rparr>, entries = []\<rparr>"
  have "fst (recordFailure id 7 (2 * Second) ?c) = (True, 602 * Second)"
    by (simp add: recordFailure_def record_event_def reset_window_def ensureCapacityLocked_def Let_def zero_entry_def
        unit_defs time_Sub_def)
  with recordFailure_trips [of id 7 "2 * Second" ?c "602 * Second"] show ?thesis by (simp add: unit_defs)
qed

text \<open>
  A burst is one event: however many streams report within the collapse interval of the first
  failure of a proxy, the proxy is not quarantined, as long as the threshold is more than one.
\<close>

theorem burst_is_one_event:
  assumes "map_of (entries c) p = None" and "0 < p" and "0 < now" and "1 < failureThreshold (settings c)"
    and "\<forall>u\<in>set us. now \<le> u \<and> u < now + collapseInterval (settings c)"
  shows "\<not> fst (isBlocked p t (fold (\<lambda>u c. snd (recordFailure ord p u c)) us (snd (recordFailure ord p now c))))"
proof (cases "disabled (settings c)")
  case True
  have "settings (fold (\<lambda>u c. snd (recordFailure ord p u c)) us c1) = settings c1" for c1
    by (induction us arbitrary: c1) simp_all
  with True show ?thesis by (simp add: isBlocked_def)
next
  case False
  have "\<exists>e. map_of (entries (snd (recordFailure ord p now c))) p = Some e \<and> in_burst now e"
    using assms(1-4) False
    by (simp add: recordFailure_unfold record_event_def reset_window_def zero_entry_def Let_def in_burst_def)
  then obtain e where "map_of (entries (fold (\<lambda>u c. snd (recordFailure ord p u c)) us (snd (recordFailure ord p now c)))) p = Some e"
    "in_burst now e"
    using burst_fold [of us now "snd (recordFailure ord p now c)" p ord] assms False by auto
  then show ?thesis by (auto simp: isBlocked_def in_burst_def)
qed

theorem burst_is_one_event_witness:
  "\<not> fst (isBlocked 7 (12 * Second) (fold (\<lambda>u c. snd (recordFailure id 7 u c)) [10 * Second, 11 * Second, 12 * Second]
      (snd (recordFailure id 7 (10 * Second) (newOpenAIProxyStreamCircuit (resolveOpenAIProxyStreamCircuitSettings None))))))"
  by (rule burst_is_one_event)
    (simp_all add: newOpenAIProxyStreamCircuit_def resolveOpenAIProxyStreamCircuitSettings_def circuit_default_defs unit_defs)

end
