(* ===== verification/Abuse_Limiter.thy ===== *)
theory Abuse_Limiter
  imports Go_Prelude "HOL-Library.Word"
begin

unbundle bit_operations_syntax

text \<open>
  The limiter for invalid API keys (\<^verbatim>\<open>backend/internal/service/invalid_auth_abuse_limiter.go\<close>).  Failures
  are counted per client in 16 shards, chosen by a 32-bit FNV-1a hash; a client with enough failures
  in a window is blocked for a while.  The number of tracked clients is bounded: clients beyond the
  bound share the overflow counter, and at the bound one shard after the other is cleaned.

  Every operation is one step here.  In the code a step is taken under the mutex of a shard (and of
  the overflow) with atomic counters; the model does not interleave the parts of two operations.
  The counters of the health report are 64-bit words, the cursor of the clean-up is a 32-bit word.
\<close>

section \<open>State\<close>

definition invalidAuthAbuseShardCount :: nat where
  "invalidAuthAbuseShardCount = 16"

record abuse_entry =
  failures :: int
  windowStart :: go_time
  blockedUntil :: go_time

type_synonym shard = "(string, abuse_entry) gomap"

record abuse_limiter =
  threshold :: int
  window :: duration
  block :: duration
  capacity :: int
  shards :: "shard list"
  overflow :: abuse_entry
  tracked :: int
  recorded :: "64 word"
  blocked :: "64 word"
  rejected :: "64 word"
  expired :: "64 word"
  overflowed :: "64 word"
  globalBlocked :: "64 word"
  cleanupNext :: int
  cleanupCursor :: "32 word"

record abuse_config =
  Enabled :: bool
  Threshold :: int
  WindowSeconds :: int
  BlockSeconds :: int
  Capacity :: int

definition zero_abuse_entry :: abuse_entry where
  "zero_abuse_entry = \<lparr>failures = 0, windowStart = 0, blockedUntil = 0\<rparr>"

definition newInvalidAuthAbuseLimiter :: "abuse_config option \<Rightarrow> abuse_limiter option" where
  "newInvalidAuthAbuseLimiter cfg = (case cfg of None \<Rightarrow> None
     | Some c \<Rightarrow>
        (if \<not> Enabled c then None
         else if Threshold c \<le> 0 \<or> WindowSeconds c \<le> 0 \<or> BlockSeconds c \<le> 0 \<or> Capacity c \<le> 0 then None
         else Some \<lparr>threshold = Threshold c, window = wrap64 (WindowSeconds c * Second),
           block = wrap64 (BlockSeconds c * Second), capacity = Capacity c,
           shards = replicate invalidAuthAbuseShardCount [], overflow = zero_abuse_entry, tracked = 0,
           recorded = 0, blocked = 0, rejected = 0, expired = 0, overflowed = 0, globalBlocked = 0,
           cleanupNext = 0, cleanupCursor = 0\<rparr>))"

section \<open>Operations\<close>

text \<open>The loop of \<^verbatim>\<open>shard\<close>.\<close>

definition fnv1a_step :: "char \<Rightarrow> 32 word \<Rightarrow> 32 word" where
  "fnv1a_step c hash = (hash XOR of_char c) * 16777619"

definition shard_index :: "string \<Rightarrow> nat" where
  "shard_index clientKey = unat (fold fnv1a_step clientKey 2166136261) mod invalidAuthAbuseShardCount"

definition shard_of :: "string \<Rightarrow> abuse_limiter \<Rightarrow> shard" where
  "shard_of clientKey l = shards l ! shard_index clientKey"

definition with_shard :: "string \<Rightarrow> (shard \<Rightarrow> shard) \<Rightarrow> abuse_limiter \<Rightarrow> abuse_limiter" where
  "with_shard clientKey f l = l\<lparr>shards := (shards l)[shard_index clientKey := f (shard_of clientKey l)]\<rparr>"

definition entryExpired :: "abuse_limiter \<Rightarrow> abuse_entry option \<Rightarrow> go_time \<Rightarrow> bool" where
  "entryExpired l entry now = (case entry of None \<Rightarrow> False
     | Some e \<Rightarrow> \<not> time_After (blockedUntil e) now \<and> \<not> time_After (windowStart e) now
         \<and> \<not> time_Before now (time_Add (windowStart e) (window l)))"

text \<open>\<^verbatim>\<open>UnixNano\<close>, an \<^verbatim>\<open>int64\<close>; the Unix epoch is \<open>62135596800\<close> seconds after Go's zero time.\<close>

definition UnixNano :: "go_time \<Rightarrow> int" where
  "UnixNano t = wrap64 (t - 62135596800 * Second)"

definition maybeCleanupAtCapacity :: "go_time \<Rightarrow> abuse_limiter \<Rightarrow> abuse_limiter" where
  "maybeCleanupAtCapacity now l =
     (if tracked l < capacity l then l
      else if UnixNano now < cleanupNext l then l
      else (let index = unat (cleanupCursor l) mod invalidAuthAbuseShardCount;
                entries = shards l ! index;
                kept = filter (\<lambda>(key, entry). \<not> entryExpired l (Some entry) now) entries;
                n = length entries - length kept
            in l\<lparr>cleanupNext := UnixNano (time_Add now (100 * Millisecond)),
                 cleanupCursor := cleanupCursor l + 1,
                 shards := (shards l)[index := kept],
                 tracked := tracked l - int n,
                 expired := expired l + of_nat n\<rparr>))"

text \<open>The look-up that \<^verbatim>\<open>check\<close> and \<^verbatim>\<open>record\<close> share: an expired entry is dropped.\<close>

definition find_live :: "go_time \<Rightarrow> string \<Rightarrow> abuse_limiter \<Rightarrow> abuse_entry option \<times> abuse_limiter" where
  "find_live now clientKey l =
     (let entry = map_of (shard_of clientKey l) clientKey
      in if entry \<noteq> None \<and> entryExpired l entry now
         then (None, (with_shard clientKey (mdel clientKey) l)
                 \<lparr>tracked := tracked l - 1, expired := expired l + 1\<rparr>)
         else (entry, l))"

definition reserveEntry :: "abuse_limiter \<Rightarrow> bool \<times> abuse_limiter" where
  "reserveEntry l = (if capacity l \<le> tracked l then (False, l) else (True, l\<lparr>tracked := tracked l + 1\<rparr>))"

definition checkOverflow :: "go_time \<Rightarrow> abuse_limiter \<Rightarrow> duration \<times> bool" where
  "checkOverflow now l =
     (if time_After (blockedUntil (overflow l)) now then (time_Sub (blockedUntil (overflow l)) now, True)
      else (0, False))"

definition check :: "go_time \<Rightarrow> string \<Rightarrow> abuse_limiter \<Rightarrow> (duration \<times> bool) \<times> abuse_limiter" where
  "check now clientKey l =
     (if clientKey = [] then ((0, False), l)
      else (case find_live now clientKey (maybeCleanupAtCapacity now l) of
         (Some entry, l1) \<Rightarrow>
            (if time_After (blockedUntil entry) now
             then ((time_Sub (blockedUntil entry) now, True), l1\<lparr>rejected := rejected l1 + 1\<rparr>)
             else ((0, False), l1))
       | (None, l1) \<Rightarrow>
            (if capacity l1 \<le> tracked l1
             then (case checkOverflow now l1 of
                (retry, True) \<Rightarrow> ((retry, True), l1\<lparr>rejected := rejected l1 + 1, globalBlocked := globalBlocked l1 + 1\<rparr>)
              | (retry, False) \<Rightarrow> ((0, False), l1))
             else ((0, False), l1))))"

text \<open>What one failure makes of an entry, and whether it starts a block.\<close>

definition count_failure :: "abuse_limiter \<Rightarrow> go_time \<Rightarrow> abuse_entry \<Rightarrow> abuse_entry \<times> bool" where
  "count_failure l now e =
     (if time_After (blockedUntil e) now then (e, False)
      else (let e1 = (if time_After (windowStart e) now \<or> \<not> time_Before now (time_Add (windowStart e) (window l))
                      then e\<lparr>windowStart := now, failures := 0\<rparr> else e);
                e2 = e1\<lparr>failures := failures e1 + 1\<rparr>
            in if threshold l \<le> failures e2
               then (e2\<lparr>failures := 0, blockedUntil := time_Add now (block l), windowStart := time_Add now (block l)\<rparr>, True)
               else (e2, False)))"

definition recordOverflow :: "go_time \<Rightarrow> abuse_limiter \<Rightarrow> abuse_limiter" where
  "recordOverflow now l =
     (let l1 = l\<lparr>overflowed := overflowed l + 1\<rparr>; o1 = overflow l
      in if time_After (blockedUntil o1) now then l1
         else (let o2 = (if time_IsZero (windowStart o1) \<or> \<not> time_Before now (time_Add (windowStart o1) (window l))
                         then o1\<lparr>windowStart := now, failures := 0\<rparr> else o1);
                   o3 = o2\<lparr>failures := failures o2 + 1\<rparr>
               in if threshold l \<le> failures o3
                  then l1\<lparr>overflow := o3\<lparr>failures := 0, blockedUntil := time_Add now (block l), windowStart := time_Add now (block l)\<rparr>,
                          blocked := blocked l1 + 1\<rparr>
                  else l1\<lparr>overflow := o3\<rparr>))"

text \<open>\<^verbatim>\<open>record\<close>: the entry is changed in place, so its new value replaces the one in the map.\<close>

definition record_entry :: "go_time \<Rightarrow> string \<Rightarrow> abuse_entry \<Rightarrow> abuse_limiter \<Rightarrow> abuse_limiter" where
  "record_entry now clientKey e l =
     (case count_failure l now e of (e', trips) \<Rightarrow>
        (with_shard clientKey (mput clientKey e') l)\<lparr>blocked := (if trips then blocked l + 1 else blocked l)\<rparr>)"

definition record_failure :: "go_time \<Rightarrow> string \<Rightarrow> abuse_limiter \<Rightarrow> abuse_limiter" where
  "record_failure now clientKey l =
     (if clientKey = [] then l
      else (case find_live now clientKey (maybeCleanupAtCapacity now (l\<lparr>recorded := recorded l + 1\<rparr>)) of
         (Some entry, l1) \<Rightarrow> record_entry now clientKey entry l1
       | (None, l1) \<Rightarrow>
           (case reserveEntry l1 of
              (False, l2) \<Rightarrow> recordOverflow now l2
            | (True, l2) \<Rightarrow> record_entry now clientKey (zero_abuse_entry\<lparr>windowStart := now\<rparr>) l2)))"

record abuse_health =
  h_Enabled :: bool
  h_Tracked :: int
  h_Capacity :: int
  h_Recorded :: "64 word"
  h_Blocks :: "64 word"
  h_Rejected :: "64 word"
  h_Expired :: "64 word"
  h_Overflowed :: "64 word"
  h_GlobalBlocked :: "64 word"

definition health :: "abuse_limiter \<Rightarrow> abuse_health" where
  "health l = \<lparr>h_Enabled = True, h_Tracked = tracked l, h_Capacity = capacity l, h_Recorded = recorded l,
     h_Blocks = blocked l, h_Rejected = rejected l, h_Expired = expired l, h_Overflowed = overflowed l,
     h_GlobalBlocked = globalBlocked l\<rparr>"

text \<open>The methods of \<^verbatim>\<open>APIKeyService\<close>, for which the limiter may be absent.\<close>

definition CheckInvalidAuthAbuse ::
    "go_time \<Rightarrow> string \<Rightarrow> abuse_limiter option \<Rightarrow> (duration \<times> bool) \<times> abuse_limiter option" where
  "CheckInvalidAuthAbuse now clientKey s = (case s of None \<Rightarrow> ((0, False), None)
     | Some l \<Rightarrow> map_prod id Some (check now clientKey l))"

definition RecordInvalidAuthFailure :: "go_time \<Rightarrow> string \<Rightarrow> abuse_limiter option \<Rightarrow> abuse_limiter option" where
  "RecordInvalidAuthFailure now clientKey s = map_option (record_failure now clientKey) s"

definition InvalidAuthAbuseHealth :: "abuse_limiter option \<Rightarrow> abuse_health" where
  "InvalidAuthAbuseHealth s = (case s of
       None \<Rightarrow> \<lparr>h_Enabled = False, h_Tracked = 0, h_Capacity = 0, h_Recorded = 0, h_Blocks = 0, h_Rejected = 0,
          h_Expired = 0, h_Overflowed = 0, h_GlobalBlocked = 0\<rparr>
     | Some l \<Rightarrow> health l)"

section \<open>The invariant\<close>

text \<open>Every client is kept once, in its own shard, and the counter of the tracked clients is exact.\<close>

definition shard_ok :: "nat \<Rightarrow> shard \<Rightarrow> bool" where
  "shard_ok i m \<longleftrightarrow> mkeys m \<and> (\<forall>p\<in>set m. shard_index (fst p) = i)"

definition limiter_ok :: "abuse_limiter \<Rightarrow> bool" where
  "limiter_ok l \<longleftrightarrow> length (shards l) = invalidAuthAbuseShardCount
     \<and> (\<forall>i < invalidAuthAbuseShardCount. shard_ok i (shards l ! i))
     \<and> tracked l = int (sum_list (map length (shards l))) \<and> tracked l \<le> capacity l"

lemma shard_index_less [simp]: "shard_index k < invalidAuthAbuseShardCount"
  by (simp add: shard_index_def invalidAuthAbuseShardCount_def)

lemma shard_of_ok: "limiter_ok l \<Longrightarrow> shard_ok (shard_index k) (shard_of k l)"
  by (simp add: limiter_ok_def shard_of_def)

lemma shard_ok_filter: "shard_ok i m \<Longrightarrow> shard_ok i (filter P m)"
  by (auto simp: shard_ok_def)

lemma shard_ok_mdel: "shard_ok i m \<Longrightarrow> shard_ok i (mdel k m)"
  unfolding mdel_def by (rule shard_ok_filter)

lemma shard_ok_mput: "shard_ok i m \<Longrightarrow> shard_index k = i \<Longrightarrow> shard_ok i (mput k e m)"
  by (auto simp: shard_ok_def mput_def mdel_def mkeys_def distinct_map_filter)

lemma sum_list_update_nat:
  fixes xs :: "nat list"
  shows "i < length xs \<Longrightarrow> sum_list (xs[i := x]) + xs ! i = sum_list xs + x"
proof (induction xs arbitrary: i)
  case (Cons y ys)
  then show ?case by (cases i) simp_all
qed simp

lemma sum_length_update:
  "i < length ms \<Longrightarrow> int (sum_list (map length (ms[i := m]))) =
     int (sum_list (map length ms)) + int (length m) - int (length (ms ! i))"
  using sum_list_update_nat [of i "map length ms" "length m"] by (simp add: map_update)

text \<open>Putting a shard back: the invariant asks for the new shard and the new counter.\<close>

lemma limiter_ok_update:
  assumes "limiter_ok l" and "i < invalidAuthAbuseShardCount" and "shard_ok i m"
    and "shards l' = (shards l)[i := m]" and "capacity l' = capacity l"
    and "tracked l' = tracked l + int (length m) - int (length (shards l ! i))" and "tracked l' \<le> capacity l"
  shows "limiter_ok l'"
  using assms sum_length_update [of i "shards l" m]
  by (auto simp: limiter_ok_def nth_list_update)

lemma limiter_ok_cong:
  "limiter_ok l \<Longrightarrow> shards l' = shards l \<Longrightarrow> capacity l' = capacity l \<Longrightarrow> tracked l' = tracked l \<Longrightarrow> limiter_ok l'"
  by (simp add: limiter_ok_def)

text \<open>No client is stored twice.\<close>

lemma limiter_keys:
  assumes ok: "limiter_ok l"
  shows "mkeys (concat (shards l))"
proof -
  have i: "mkeys (shards l ! i)" "\<And>p. p \<in> set (shards l ! i) \<Longrightarrow> shard_index (fst p) = i" if "i < length (shards l)" for i
    using ok that by (auto simp: limiter_ok_def shard_ok_def)
  have "mkeys (concat ms)"
    if "\<And>i. i < length ms \<Longrightarrow> mkeys (ms ! i) \<and> (\<forall>p\<in>set (ms ! i). shard_index (fst p) = n + i)" for ms :: "shard list" and n
    using that
  proof (induction ms arbitrary: n)
    case (Cons m ms)
    have m: "mkeys m" "\<forall>p\<in>set m. shard_index (fst p) = n" using Cons.prems [of 0] by auto
    have rest: "mkeys (ms ! i) \<and> (\<forall>p\<in>set (ms ! i). shard_index (fst p) = Suc n + i)" if "i < length ms" for i
      using Cons.prems [of "Suc i"] that by simp
    have "shard_index (fst p) \<noteq> n" if p: "p \<in> set (concat ms)" for p
    proof -
      obtain sh where "sh \<in> set ms" "p \<in> set sh" using p by auto
      then obtain j where "j < length ms" "p \<in> set (ms ! j)" by (metis in_set_conv_nth)
      with rest [of j] show ?thesis by auto
    qed
    with m have "fst ` set m \<inter> fst ` set (concat ms) = {}" by fastforce
    with m Cons.IH [OF rest] show ?case by (simp add: mkeys_def)
  qed simp
  from this [of "shards l" 0] i show ?thesis by auto
qed

section \<open>What a client sees\<close>

text \<open>
  The abstraction: the entry of a client unless it has expired.  The shards, the counters and the
  moment at which an expired entry is dropped do not show in it.
\<close>

definition entry_of :: "abuse_limiter \<Rightarrow> string \<Rightarrow> abuse_entry option" where
  "entry_of l k = map_of (shard_of k l) k"

definition live :: "abuse_limiter \<Rightarrow> go_time \<Rightarrow> abuse_entry option \<Rightarrow> abuse_entry option" where
  "live l t e = (if entryExpired l e t then None else e)"

definition view :: "abuse_limiter \<Rightarrow> go_time \<Rightarrow> string \<Rightarrow> abuse_entry option" where
  "view l t k = live l t (entry_of l k)"

lemma live_None [simp]: "live l t None = None"
  by (simp add: live_def)

lemma entryExpired_cong: "window l' = window l \<Longrightarrow> entryExpired l' e t = entryExpired l e t"
  by (cases e) (simp_all add: entryExpired_def)

lemma live_cong: "window l' = window l \<Longrightarrow> live l' t e = live l t e"
  using entryExpired_cong [of l' l e t] by (simp add: live_def)

lemma entryExpired_later: "entryExpired l e now \<Longrightarrow> now \<le> t \<Longrightarrow> entryExpired l e t"
  by (auto simp: entryExpired_def split: option.splits)

lemma live_later: "now \<le> t \<Longrightarrow> live l t (live l now e) = live l t e"
  using entryExpired_later [of l e now t] by (auto simp: live_def)

lemma shards_with_shard: "shards (with_shard k f l) = (shards l)[shard_index k := f (shard_of k l)]"
  by (simp add: with_shard_def)

lemma shard_of_with_shard:
  assumes "limiter_ok l"
  shows "shard_of k' (with_shard k f l) =
     (if shard_index k' = shard_index k then f (shard_of k' l) else shard_of k' l)"
proof -
  have "shard_index k < length (shards l)" using assms by (simp add: limiter_ok_def)
  then show ?thesis
    by (cases "shard_index k' = shard_index k") (simp_all add: shard_of_def shards_with_shard)
qed

lemma entry_of_with_shard:
  assumes "limiter_ok l"
  shows "entry_of (with_shard k (mput k e) l) k' = (if k' = k then Some e else entry_of l k')"
    and "entry_of (with_shard k (mdel k) l) k' = (if k' = k then None else entry_of l k')"
  unfolding entry_of_def shard_of_with_shard [OF assms] by simp_all

lemma entry_of_cong: "shards l' = shards l \<Longrightarrow> entry_of l' k = entry_of l k"
  by (simp add: entry_of_def shard_of_def)

lemma view_cong: "shards l' = shards l \<Longrightarrow> window l' = window l \<Longrightarrow> view l' t k = view l t k"
  using entry_of_cong [of l' l k] live_cong [of l' l t] by (simp add: view_def)

text \<open>The parameters that no operation changes.\<close>

definition params :: "abuse_limiter \<Rightarrow> int \<times> duration \<times> duration \<times> int" where
  "params l = (threshold l, window l, block l, capacity l)"

lemma params_window: "params l' = params l \<Longrightarrow> window l' = window l"
  by (simp add: params_def)

lemma count_failure_cong: "params l' = params l \<Longrightarrow> count_failure l' now e = count_failure l now e"
  by (simp add: params_def count_failure_def Let_def)

lemma cleanup_params [simp]: "params (maybeCleanupAtCapacity now l) = params l"
  by (simp add: params_def maybeCleanupAtCapacity_def Let_def)

lemma cleanup_ok:
  assumes "limiter_ok l"
  shows "limiter_ok (maybeCleanupAtCapacity now l)"
proof (cases "tracked l < capacity l \<or> UnixNano now < cleanupNext l")
  case True
  with assms show ?thesis by (auto simp: maybeCleanupAtCapacity_def)
next
  case False
  define i where "i = unat (cleanupCursor l) mod invalidAuthAbuseShardCount"
  define kept where "kept = filter (\<lambda>(key, entry). \<not> entryExpired l (Some entry) now) (shards l ! i)"
  have r: "maybeCleanupAtCapacity now l =
      l\<lparr>cleanupNext := UnixNano (time_Add now (100 * Millisecond)), cleanupCursor := cleanupCursor l + 1,
        shards := (shards l)[i := kept], tracked := tracked l - int (length (shards l ! i) - length kept),
        expired := expired l + of_nat (length (shards l ! i) - length kept)\<rparr>"
    using False by (simp add: maybeCleanupAtCapacity_def Let_def i_def kept_def)
  have i: "i < invalidAuthAbuseShardCount" by (simp add: i_def invalidAuthAbuseShardCount_def)
  have kept: "shard_ok i kept"
    unfolding kept_def using assms i by (intro shard_ok_filter) (simp add: limiter_ok_def)
  have "length kept \<le> length (shards l ! i)" by (simp add: kept_def)
  moreover have "tracked l \<le> capacity l" using assms by (simp add: limiter_ok_def)
  ultimately show ?thesis unfolding r by (intro limiter_ok_update [OF assms i kept]) simp_all
qed

lemma cleanup_entry:
  assumes "limiter_ok l"
  shows "entry_of (maybeCleanupAtCapacity now l) k = entry_of l k
    \<or> (entryExpired l (entry_of l k) now \<and> entry_of (maybeCleanupAtCapacity now l) k = None)"
proof -
  define i where "i = unat (cleanupCursor l) mod invalidAuthAbuseShardCount"
  define kept where "kept = filter (\<lambda>(key, entry). \<not> entryExpired l (Some entry) now) (shards l ! i)"
  have "shards (maybeCleanupAtCapacity now l) = shards l \<or> shards (maybeCleanupAtCapacity now l) = (shards l)[i := kept]"
    by (simp add: maybeCleanupAtCapacity_def Let_def i_def kept_def)
  moreover have len: "length (shards l) = invalidAuthAbuseShardCount" using assms by (simp add: limiter_ok_def)
  then have "entry_of (maybeCleanupAtCapacity now l) k = map_of kept k"
    if "shards (maybeCleanupAtCapacity now l) = (shards l)[i := kept]" "i = shard_index k"
    using that by (simp add: entry_of_def shard_of_def)
  moreover have "mkeys (shards l ! shard_index k)" using assms by (simp add: limiter_ok_def shard_ok_def)
  then have "map_of kept k = entry_of l k \<or> (entryExpired l (entry_of l k) now \<and> map_of kept k = None)" if "i = shard_index k"
    using that by (auto simp: kept_def map_of_filter_fst entry_of_def shard_of_def split: option.splits)
  ultimately show ?thesis
    by (cases "i = shard_index k") (auto simp: entry_of_def shard_of_def)
qed

lemma cleanup_view:
  assumes "limiter_ok l" and "now \<le> t"
  shows "view (maybeCleanupAtCapacity now l) t k = view l t k"
proof -
  have w: "live (maybeCleanupAtCapacity now l) t e = live l t e" for e
    using cleanup_params by (intro live_cong params_window)
  show ?thesis
    using cleanup_entry [OF assms(1), of now k] entryExpired_later [OF _ assms(2), of l "entry_of l k"]
    unfolding view_def w by (auto simp: live_def)
qed

lemma find_live_spec:
  assumes ok: "limiter_ok l" and "find_live now k l = (e, l1)"
  shows "e = view l now k" and "limiter_ok l1" and "params l1 = params l" and "overflow l1 = overflow l"
    and "e = entry_of l1 k" and "now \<le> t \<Longrightarrow> view l1 t k' = view l t k'"
proof -
  let ?dead = "entry_of l k \<noteq> None \<and> entryExpired l (entry_of l k) now"
  have r: "find_live now k l = (if ?dead then (None, (with_shard k (mdel k) l)
      \<lparr>tracked := tracked l - 1, expired := expired l + 1\<rparr>) else (entry_of l k, l))"
    by (simp add: find_live_def Let_def entry_of_def)
  have live: "view l now k = (if ?dead then None else entry_of l k)" by (auto simp: view_def live_def)
  let ?m = "(with_shard k (mdel k) l)\<lparr>tracked := tracked l - 1, expired := expired l + 1\<rparr>"
  have m: "shards ?m = (shards l)[shard_index k := mdel k (shard_of k l)]" by (simp add: with_shard_def)
  have gone: "entry_of ?m j = (if j = k then None else entry_of l j)" for j
    using entry_of_with_shard(2) [OF ok, of k j] by (simp add: entry_of_def shard_of_def)
  have "limiter_ok ?m" if ?dead
  proof (rule limiter_ok_update [OF ok shard_index_less _ m])
    have mk: "mkeys (shard_of k l)" using shard_of_ok [OF ok, of k] by (simp add: shard_ok_def)
    have some: "map_of (shard_of k l) k \<noteq> None" using that by (simp add: entry_of_def)
    then have "shard_of k l \<noteq> []" by auto
    with some length_mdel [OF mk, of k] have n: "int (length (mdel k (shard_of k l))) = int (length (shard_of k l)) - 1"
      by (cases "shard_of k l") auto
    then show "tracked ?m = tracked l + int (length (mdel k (shard_of k l))) - int (length (shards l ! shard_index k))"
      by (simp add: shard_of_def)
    show "shard_ok (shard_index k) (mdel k (shard_of k l))" by (rule shard_ok_mdel [OF shard_of_ok [OF ok]])
    show "tracked ?m \<le> capacity l" using ok by (simp add: limiter_ok_def)
  qed (simp add: with_shard_def)
  moreover have "view ?m t j = view l t j" if "now \<le> t" ?dead for t j
  proof -
    have w: "live ?m t e = live l t e" for e by (rule live_cong) (simp add: with_shard_def)
    have "live l t (entry_of l k) = None"
      using that(2) entryExpired_later [OF _ that(1), of l "entry_of l k"] by (simp add: live_def)
    then show ?thesis unfolding view_def w gone [of j] by simp
  qed
  moreover have "params ?m = params l" "overflow ?m = overflow l" by (simp_all add: params_def with_shard_def)
  ultimately show "e = view l now k" "limiter_ok l1" "params l1 = params l" "overflow l1 = overflow l"
    "e = entry_of l1 k" "now \<le> t \<Longrightarrow> view l1 t k' = view l t k'"
    using assms(2) ok live gone [of k] unfolding r by (auto split: if_splits)
qed

lemma record_entry_ok:
  assumes "limiter_ok l" and "entry_of l k \<noteq> None \<and> l' = l
      \<or> entry_of l k = None \<and> l' = l\<lparr>tracked := tracked l + 1\<rparr> \<and> tracked l < capacity l"
  shows "limiter_ok (record_entry now k e l')"
proof -
  obtain e' b where ce: "count_failure l' now e = (e', b)" by fastforce
  have sh: "shards l' = shards l" "capacity l' = capacity l" "shard_of k l' = shard_of k l"
    using assms(2) by (auto simp: shard_of_def)
  have mk: "mkeys (shard_of k l)" using shard_of_ok [OF assms(1), of k] by (simp add: shard_ok_def)
  note len = length_mput [OF mk, of k e']
  have ok: "shard_ok (shard_index k) (mput k e' (shard_of k l))"
    by (rule shard_ok_mput [OF shard_of_ok [OF assms(1)]]) simp
  show ?thesis
    unfolding record_entry_def ce prod.case
  proof (rule limiter_ok_update [OF assms(1) shard_index_less ok])
    show "tracked ((with_shard k (mput k e') l')\<lparr>blocked := if b then blocked l' + 1 else blocked l'\<rparr>)
      = tracked l + int (length (mput k e' (shard_of k l))) - int (length (shards l ! shard_index k))"
      using assms(2) len by (auto simp: with_shard_def entry_of_def shard_of_def)
    show "tracked ((with_shard k (mput k e') l')\<lparr>blocked := if b then blocked l' + 1 else blocked l'\<rparr>) \<le> capacity l"
      using assms by (auto simp: with_shard_def limiter_ok_def)
  qed (use sh in \<open>simp_all add: with_shard_def\<close>)
qed

lemma record_entry_view:
  assumes "limiter_ok l"
  shows "view (record_entry now k e l) t k' =
    (if k' = k then live l t (Some (fst (count_failure l now e))) else view l t k')"
proof -
  obtain e' b where ce: "count_failure l now e = (e', b)" by fastforce
  let ?l = "(with_shard k (mput k e') l)\<lparr>blocked := if b then blocked l + 1 else blocked l\<rparr>"
  have w: "live ?l t x = live l t x" for x by (rule live_cong) (simp add: with_shard_def)
  have "entry_of ?l k' = entry_of (with_shard k (mput k e') l) k'" by (rule entry_of_cong) simp
  then show ?thesis
    unfolding record_entry_def ce prod.case view_def w
    using entry_of_with_shard(1) [OF assms, of k e' k'] by simp
qed

lemma record_entry_params [simp]:
  "params (record_entry now k e l) = params l" "overflow (record_entry now k e l) = overflow l"
  by (simp_all add: params_def record_entry_def with_shard_def split: prod.splits)

lemma recordOverflow_keeps [simp]:
  "shards (recordOverflow now l) = shards l" "tracked (recordOverflow now l) = tracked l"
  "params (recordOverflow now l) = params l" "window (recordOverflow now l) = window l"
  "capacity (recordOverflow now l) = capacity l"
  by (simp_all add: params_def recordOverflow_def Let_def)

text \<open>The clean-up and the look-up before an operation, together.\<close>

definition prepare :: "go_time \<Rightarrow> string \<Rightarrow> abuse_limiter \<Rightarrow> abuse_limiter" where
  "prepare now k l = snd (find_live now k (maybeCleanupAtCapacity now l))"

definition has_room :: "go_time \<Rightarrow> string \<Rightarrow> abuse_limiter \<Rightarrow> bool" where
  "has_room now k l \<longleftrightarrow> tracked (prepare now k l) < capacity l"

lemma prepare_spec:
  assumes "limiter_ok l"
  shows "find_live now k (maybeCleanupAtCapacity now l) = (view l now k, prepare now k l)"
    and "limiter_ok (prepare now k l)" and "params (prepare now k l) = params l"
    and "entry_of (prepare now k l) k = view l now k"
    and "now \<le> t \<Longrightarrow> view (prepare now k l) t k' = view l t k'"
proof -
  obtain e l1 where r: "find_live now k (maybeCleanupAtCapacity now l) = (e, l1)" by fastforce
  note f = find_live_spec [OF cleanup_ok [OF assms] r]
  have e: "e = view l now k" using f(1) cleanup_view [OF assms order_refl] by simp
  have l1: "prepare now k l = l1" by (simp add: prepare_def r)
  show "find_live now k (maybeCleanupAtCapacity now l) = (view l now k, prepare now k l)"
    "limiter_ok (prepare now k l)" "params (prepare now k l) = params l"
    "entry_of (prepare now k l) k = view l now k"
    using f e r l1 by simp_all
  show "now \<le> t \<Longrightarrow> view (prepare now k l) t k' = view l t k'"
    using f(6) [of t k'] cleanup_view [OF assms, of now t k'] l1 by simp
qed

text \<open>Counting the operation does not matter to what it does.\<close>

lemma recorded_irrelevant:
  "entry_of (l\<lparr>recorded := x\<rparr>) k = entry_of l k" "view (l\<lparr>recorded := x\<rparr>) t k = view l t k"
  "limiter_ok (l\<lparr>recorded := x\<rparr>) = limiter_ok l" "params (l\<lparr>recorded := x\<rparr>) = params l"
  "tracked (prepare now k (l\<lparr>recorded := x\<rparr>)) = tracked (prepare now k l)"
proof -
  have e: "entryExpired (l\<lparr>recorded := x\<rparr>) = entryExpired l"
    by (intro ext entryExpired_cong) simp
  show "entry_of (l\<lparr>recorded := x\<rparr>) k = entry_of l k" by (rule entry_of_cong) simp
  show "view (l\<lparr>recorded := x\<rparr>) t k = view l t k" by (rule view_cong) simp_all
  show "limiter_ok (l\<lparr>recorded := x\<rparr>) = limiter_ok l" by (simp add: limiter_ok_def)
  show "params (l\<lparr>recorded := x\<rparr>) = params l" by (simp add: params_def)
  have c: "maybeCleanupAtCapacity now (l\<lparr>recorded := x\<rparr>) = (maybeCleanupAtCapacity now l)\<lparr>recorded := x\<rparr>"
    unfolding maybeCleanupAtCapacity_def e by (simp add: Let_def)
  have f: "find_live now k (m\<lparr>recorded := x\<rparr>) = map_prod id (\<lambda>m. m\<lparr>recorded := x\<rparr>) (find_live now k m)" for m
  proof -
    have e: "entryExpired (m\<lparr>recorded := x\<rparr>) = entryExpired m" by (intro ext entryExpired_cong) simp
    show ?thesis unfolding find_live_def e by (simp add: Let_def shard_of_def with_shard_def)
  qed
  show "tracked (prepare now k (l\<lparr>recorded := x\<rparr>)) = tracked (prepare now k l)"
    unfolding prepare_def c f by (cases "find_live now k (maybeCleanupAtCapacity now l)") simp
qed

text \<open>
  One recorded failure, in terms of the view: the abstract limiter is a map from clients to their
  entries, in which a failure changes the entry of its client only.
\<close>

definition spec_failure ::
    "abuse_limiter \<Rightarrow> bool \<Rightarrow> go_time \<Rightarrow> string \<Rightarrow> (string \<Rightarrow> abuse_entry option) \<Rightarrow> string \<Rightarrow> abuse_entry option" where
  "spec_failure l room now k m = (case m k of
       Some e \<Rightarrow> m(k \<mapsto> fst (count_failure l now e))
     | None \<Rightarrow> (if room then m(k \<mapsto> fst (count_failure l now (zero_abuse_entry\<lparr>windowStart := now\<rparr>))) else m))"

lemma record_failure_spec:
  assumes ok: "limiter_ok l" and k: "k \<noteq> []"
  shows "limiter_ok (record_failure now k l)" and "params (record_failure now k l) = params l"
    and "now \<le> t \<Longrightarrow> view (record_failure now k l) t k' =
           live l t (spec_failure l (has_room now k l) now k (view l now) k')"
proof -
  define l0 where "l0 = l\<lparr>recorded := recorded l + 1\<rparr>"
  have l0: "limiter_ok l0" "view l0 = view l" "params l0 = params l"
    using ok recorded_irrelevant by (auto simp: l0_def fun_eq_iff)
  define p where "p = prepare now k l0"
  note q = prepare_spec [OF l0(1), where now = now and k = k]
  have p: "limiter_ok p" "params p = params l" "entry_of p k = view l now k"
    and pv: "now \<le> t \<Longrightarrow> view p t k' = view l t k'" for t k'
    using q(2-4) q(5) [where t = t and k' = k'] l0(2,3) by (simp_all add: p_def)
  have room: "has_room now k l \<longleftrightarrow> tracked p < capacity p"
    using recorded_irrelevant(5) [where now = now and k = k and l = l and x = "recorded l + 1"] p(2) by (simp add: has_room_def p_def l0_def params_def)
  have r: "record_failure now k l = (case view l now k of
      Some entry \<Rightarrow> record_entry now k entry p
    | None \<Rightarrow> (case reserveEntry p of (False, l2) \<Rightarrow> recordOverflow now l2
        | (True, l2) \<Rightarrow> record_entry now k (zero_abuse_entry\<lparr>windowStart := now\<rparr>) l2))"
    using k q(1) by (simp add: record_failure_def l0_def [symmetric] p_def l0(2) split: option.splits)
  have pw: "live p t x = live l t x" for t x using params_window [OF p(2)] by (rule live_cong)
  have self: "view l t j = live l t (view l now j)" if "now \<le> t" for t j
    using that by (simp add: view_def live_later)
  have "limiter_ok (record_failure now k l) \<and> params (record_failure now k l) = params l
    \<and> (now \<le> t \<longrightarrow> view (record_failure now k l) t k' = live l t (spec_failure l (has_room now k l) now k (view l now) k'))"
  proof (cases "view l now k")
    case (Some e)
    have "limiter_ok (record_entry now k e p)" by (rule record_entry_ok [OF p(1)]) (use p Some in auto)
    then show ?thesis
      using Some r p(2) record_entry_view [OF p(1), of now k e t k'] count_failure_cong [OF p(2), of now e] pv [of t k'] self [of t k']
      by (auto simp: spec_failure_def pw)
  next
    case None
    show ?thesis
    proof (cases "tracked p < capacity p")
      case True
      let ?p = "p\<lparr>tracked := tracked p + 1\<rparr>" and ?e = "zero_abuse_entry\<lparr>windowStart := now\<rparr>"
      have res: "reserveEntry p = (True, ?p)" using True by (simp add: reserveEntry_def)
      have ok': "limiter_ok (record_entry now k ?e ?p)" by (rule record_entry_ok [OF p(1)]) (use p None True in auto)
      have pp: "params ?p = params l" using p(2) by (simp add: params_def)
      have "view (record_entry now k ?e ?p) t k' = view (record_entry now k ?e p) t k'"
      proof (rule view_cong)
        show "shards (record_entry now k ?e ?p) = shards (record_entry now k ?e p)"
          using count_failure_cong [of ?p p now ?e]
          by (simp add: params_def record_entry_def with_shard_def shard_of_def split: prod.splits)
        show "window (record_entry now k ?e ?p) = window (record_entry now k ?e p)"
          using record_entry_params(1) [of now k ?e ?p] record_entry_params(1) [of now k ?e p] by (simp add: params_def)
      qed
      then show ?thesis
        using None r res True room ok' pp record_entry_view [OF p(1), of now k ?e t k'] count_failure_cong [OF p(2), of now ?e]
          pv [of t k'] self [of t k']
        by (auto simp: spec_failure_def pw)
    next
      case False
      have "reserveEntry p = (False, p)" using False by (simp add: reserveEntry_def)
      moreover have "limiter_ok (recordOverflow now p)" using p(1) by (rule limiter_ok_cong) simp_all
      moreover have "view (recordOverflow now p) t k' = view p t k'" by (rule view_cong) simp_all
      ultimately show ?thesis using None r False room p(2) pv [of t k'] self [of t k'] by (auto simp: spec_failure_def)
    qed
  qed
  then show "limiter_ok (record_failure now k l)" "params (record_failure now k l) = params l"
    "now \<le> t \<Longrightarrow> view (record_failure now k l) t k' = live l t (spec_failure l (has_room now k l) now k (view l now) k')"
    by auto
qed

text \<open>A check changes no entry that a client can see.\<close>

lemma find_live_overflow: "overflow (prepare now k l) = overflow l"
  by (simp add: prepare_def find_live_def maybeCleanupAtCapacity_def with_shard_def Let_def)

lemma check_spec:
  assumes ok: "limiter_ok l" and k: "k \<noteq> []"
  shows "limiter_ok (snd (check now k l))" and "params (snd (check now k l)) = params l"
    and "now \<le> t \<Longrightarrow> view (snd (check now k l)) t k' = view l t k'"
    and "fst (check now k l) = (case view l now k of
           Some e \<Rightarrow> (if now < blockedUntil e then (time_Sub (blockedUntil e) now, True) else (0, False))
         | None \<Rightarrow> (if has_room now k l then (0, False) else checkOverflow now l))"
proof -
  note q = prepare_spec [OF ok, where now = now and k = k]
  have ov: "checkOverflow now (prepare now k l) = checkOverflow now l"
    by (simp add: checkOverflow_def find_live_overflow)
  have none: "fst (checkOverflow now l) = 0" if "\<not> snd (checkOverflow now l)"
    using that by (simp add: checkOverflow_def split: if_splits)
  have room: "has_room now k l \<longleftrightarrow> \<not> capacity (prepare now k l) \<le> tracked (prepare now k l)"
    using q(3) by (auto simp: has_room_def params_def)
  obtain r' g' where st: "check now k l = ((fst (check now k l)), (prepare now k l)\<lparr>rejected := r', globalBlocked := g'\<rparr>)"
    and res: "fst (check now k l) = (case view l now k of
           Some e \<Rightarrow> (if now < blockedUntil e then (time_Sub (blockedUntil e) now, True) else (0, False))
         | None \<Rightarrow> (if has_room now k l then (0, False) else checkOverflow now l))"
  proof (cases "view l now k")
    case None
    obtain retry b where o': "checkOverflow now l = (retry, b)" by fastforce
    have same: "prepare now k l = (prepare now k l)\<lparr>rejected := rejected (prepare now k l), globalBlocked := globalBlocked (prepare now k l)\<rparr>" by simp
    show ?thesis
    proof (cases "has_room now k l \<or> \<not> b")
      case True
      then have "check now k l = ((0, False), prepare now k l)"
        using k q(1) None room ov o' by (auto simp: check_def split: bool.splits)
      with True None none o' show ?thesis by (intro that [where r' = "rejected (prepare now k l)" and g' = "globalBlocked (prepare now k l)"]) auto
    next
      case False
      then have "check now k l = ((retry, True), (prepare now k l)\<lparr>rejected := rejected (prepare now k l) + 1,
          globalBlocked := globalBlocked (prepare now k l) + 1\<rparr>)"
        using k q(1) None room ov o' by (simp add: check_def)
      with False None o' show ?thesis by (intro that) auto
    qed
  next
    case (Some e)
    show ?thesis
    proof (cases "now < blockedUntil e")
      case True
      then have "check now k l = ((time_Sub (blockedUntil e) now, True),
          (prepare now k l)\<lparr>rejected := rejected (prepare now k l) + 1, globalBlocked := globalBlocked (prepare now k l)\<rparr>)"
        using k q(1) Some by (simp add: check_def)
      with True Some show ?thesis
        by (intro that [where r' = "rejected (prepare now k l) + 1" and g' = "globalBlocked (prepare now k l)"]) auto
    next
      case False
      then have "check now k l = ((0, False), prepare now k l)"
        using k q(1) Some by (simp add: check_def)
      with False Some show ?thesis by (intro that [where r' = "rejected (prepare now k l)" and g' = "globalBlocked (prepare now k l)"]) auto
    qed
  qed
  have s2: "snd (check now k l) = (prepare now k l)\<lparr>rejected := r', globalBlocked := g'\<rparr>"
    using st by (metis snd_conv)
  show "limiter_ok (snd (check now k l))" unfolding s2 using q(2) by (rule limiter_ok_cong) simp_all
  show "params (snd (check now k l)) = params l" unfolding s2 using q(3) by (simp add: params_def)
  show "now \<le> t \<Longrightarrow> view (snd (check now k l)) t k' = view l t k'"
    unfolding s2 using q(5) [of t k'] view_cong [of "(prepare now k l)\<lparr>rejected := r', globalBlocked := g'\<rparr>" "prepare now k l" t k'] by simp
  show "fst (check now k l) = (case view l now k of
           Some e \<Rightarrow> (if now < blockedUntil e then (time_Sub (blockedUntil e) now, True) else (0, False))
         | None \<Rightarrow> (if has_room now k l then (0, False) else checkOverflow now l))" by (rule res)
qed

section \<open>Runs\<close>

datatype abuse_event = Failed go_time string | Checked go_time string

fun abuse_step :: "abuse_event \<Rightarrow> abuse_limiter \<Rightarrow> abuse_limiter" where
  "abuse_step (Failed now k) l = record_failure now k l"
| "abuse_step (Checked now k) l = snd (check now k l)"

fun event_time :: "abuse_event \<Rightarrow> go_time" where
  "event_time (Failed now k) = now"
| "event_time (Checked now k) = now"

fun failed_for :: "string \<Rightarrow> abuse_event \<Rightarrow> bool" where
  "failed_for k (Failed now k') \<longleftrightarrow> k' = k"
| "failed_for k (Checked now k') \<longleftrightarrow> False"

lemma empty_key [simp]: "record_failure now [] l = l" "check now [] l = ((0, False), l)"
  by (simp_all add: record_failure_def check_def)

lemma abuse_step_ok: "limiter_ok l \<Longrightarrow> limiter_ok (abuse_step ev l) \<and> params (abuse_step ev l) = params l"
proof (cases ev)
  case (Failed now k)
  assume "limiter_ok l"
  then show ?thesis using record_failure_spec(1,2) [of l k now] Failed by (cases "k = []") auto
next
  case (Checked now k)
  assume "limiter_ok l"
  then show ?thesis using check_spec(1,2) [of l k now] Checked by (cases "k = []") auto
qed

lemma abuse_run_ok: "limiter_ok l \<Longrightarrow> limiter_ok (fold abuse_step evs l) \<and> params (fold abuse_step evs l) = params l"
  by (induction evs arbitrary: l) (use abuse_step_ok in auto)

lemma new_limiter_ok: "newInvalidAuthAbuseLimiter cfg = Some l \<Longrightarrow> limiter_ok l"
  by (auto simp: newInvalidAuthAbuseLimiter_def limiter_ok_def shard_ok_def split: option.splits if_splits)

text \<open>Other clients leave the entry of a client alone.\<close>

lemma abuse_step_other:
  assumes "limiter_ok l" and "event_time ev \<le> t" and "\<not> failed_for k ev"
  shows "view (abuse_step ev l) t k = view l t k"
proof (cases ev)
  case (Failed now k')
  show ?thesis
  proof (cases "k' = []")
    case False
    have "k \<noteq> k'" using Failed assms(3) by auto
    then have "spec_failure l (has_room now k' l) now k' (view l now) k = view l now k"
      by (auto simp: spec_failure_def split: option.splits)
    then show ?thesis
      using record_failure_spec(3) [OF assms(1) False, of now t k] Failed assms(2) by (simp add: view_def live_later)
  qed (simp add: Failed)
next
  case (Checked now k')
  then show ?thesis using assms check_spec(3) [of l k' now t k] by (cases "k' = []") auto
qed

text \<open>The entry of a client whose window began at \<open>t0\<close>, after \<open>n\<close> failures in it.\<close>

definition window_entry :: "abuse_limiter \<Rightarrow> go_time \<Rightarrow> int \<Rightarrow> abuse_entry \<Rightarrow> bool" where
  "window_entry l t0 n e \<longleftrightarrow>
     (if n < threshold l then failures e = n \<and> windowStart e = t0 \<and> blockedUntil e \<le> t0
      else t0 + block l \<le> blockedUntil e)"

lemma window_entry_live:
  assumes "window_entry l t0 n e" and "t < t0 + window l" and "t < t0 + block l"
  shows "live l t (Some e) = Some e"
  using assms by (auto simp: window_entry_def live_def entryExpired_def split: if_splits)

lemma window_entry_count:
  assumes "window_entry l t0 n e" and "t0 \<le> t" and "t < t0 + window l" and "t < t0 + block l"
  shows "window_entry l t0 (n + 1) (fst (count_failure l t e))"
  using assms by (auto simp: window_entry_def count_failure_def Let_def split: if_splits)

text \<open>The failures of the client among the events are counted, whatever the others do.\<close>

lemma window_run:
  assumes "limiter_ok l" and "k \<noteq> []" and "\<exists>e. view l u k = Some e \<and> window_entry l t0 n e" and "t0 \<le> u"
    and "sorted (u # map event_time evs)" and "\<forall>ev\<in>set evs. event_time ev \<le> t" and "u \<le> t"
    and "t < t0 + window l" and "t < t0 + block l"
  shows "\<exists>e. view (fold abuse_step evs l) t k = Some e
    \<and> window_entry l t0 (n + int (length (filter (failed_for k) evs))) e"
  using assms
proof (induction evs arbitrary: l u n)
  case Nil
  then obtain e where e: "view l u k = Some e" "window_entry l t0 n e" by auto
  have "view l t k = live l t (view l u k)" using Nil(7) by (simp add: view_def live_later)
  with e Nil window_entry_live [OF e(2), of t] show ?case by auto
next
  case (Cons ev evs)
  let ?l = "abuse_step ev l" and ?u = "event_time ev"
  have ok: "limiter_ok ?l" "params ?l = params l" using abuse_step_ok [OF Cons.prems(1)] by auto
  then have par: "window ?l = window l" "block ?l = block l" "threshold ?l = threshold l" by (simp_all add: params_def)
  have same: "window_entry ?l t0 m e = window_entry l t0 m e" for m e using par by (simp add: window_entry_def)
  have u: "u \<le> ?u" "?u \<le> t" "t0 \<le> ?u" using Cons.prems by auto
  obtain e where e: "view l u k = Some e" "window_entry l t0 n e" using Cons.prems(3) by auto
  have v: "view l ?u k = Some e"
  proof -
    have "view l ?u k = live l ?u (view l u k)" using u(1) by (simp add: view_def live_later)
    then show ?thesis using e window_entry_live [OF e(2), of ?u] u Cons.prems(8,9) by simp
  qed
  define n' where "n' = n + (if failed_for k ev then 1 else 0)"
  have "\<exists>e'. view ?l ?u k = Some e' \<and> window_entry l t0 n' e'"
  proof (cases "failed_for k ev")
    case True
    then obtain now where ev: "ev = Failed now k" by (cases ev) auto
    let ?e = "fst (count_failure l now e)"
    have w: "window_entry l t0 n' ?e"
      using window_entry_count [OF e(2), of now] u Cons.prems(8,9) ev True by (simp add: n'_def)
    have "view ?l ?u k = live l now (Some ?e)"
      using record_failure_spec(3) [OF Cons.prems(1,2), of now now k] v ev by (simp add: spec_failure_def)
    with w window_entry_live [OF w, of now] u ev Cons.prems(8,9) show ?thesis by auto
  next
    case False
    with e v abuse_step_other [OF Cons.prems(1) order_refl False] show ?thesis by (simp add: n'_def)
  qed
  then have "\<exists>e'. view (fold abuse_step evs ?l) t k = Some e'
    \<and> window_entry ?l t0 (n' + int (length (filter (failed_for k) evs))) e'"
    using Cons.prems u par by (intro Cons.IH [OF ok(1)]) (auto simp: same)
  then show ?case unfolding same by (auto simp: n'_def algebra_simps split: if_splits)
qed

section \<open>Properties\<close>

text \<open>
  The limiter stays within its capacity: after any sequence of failures and checks the counter of
  the tracked clients is the number of stored entries, no client is stored twice, and there are at
  most as many entries as the capacity allows.
\<close>

theorem limiter_bounded:
  assumes "newInvalidAuthAbuseLimiter cfg = Some l0" and "l = fold abuse_step evs l0"
  shows "tracked l = int (length (concat (shards l))) \<and> tracked l \<le> capacity l0 \<and> mkeys (concat (shards l))"
proof -
  have ok: "limiter_ok l" "params l = params l0"
    using abuse_run_ok [OF new_limiter_ok [OF assms(1)], of evs] assms(2) by auto
  with limiter_keys [OF ok(1)] show ?thesis by (simp add: limiter_ok_def length_concat params_def)
qed

text \<open>
  Seen as a map from clients to the entries that have not expired, a recorded failure changes the entry of
  its client only, and a client that is not tracked yet is added exactly when there is room.
\<close>

theorem record_failure_refines:
  assumes "newInvalidAuthAbuseLimiter cfg = Some l0" and "l = fold abuse_step evs l0" and "k \<noteq> []" and "now \<le> t"
  shows "view (record_failure now k l) t = live l t \<circ> spec_failure l (has_room now k l) now k (view l now)"
  using record_failure_spec(3) [OF _ assms(3,4)] abuse_run_ok [OF new_limiter_ok [OF assms(1)], of evs] assms(2)
  by (auto simp: fun_eq_iff)

text \<open>
  A check answers from the entry of its client alone (or, for a client that is not tracked while
  the limiter is full, from the overflow), and it changes nothing that any client can see.
\<close>

theorem check_refines:
  assumes "newInvalidAuthAbuseLimiter cfg = Some l0" and "l = fold abuse_step evs l0" and "k \<noteq> []" and "now \<le> t"
  shows "fst (check now k l) = (case view l now k of
           Some e \<Rightarrow> (if now < blockedUntil e then (time_Sub (blockedUntil e) now, True) else (0, False))
         | None \<Rightarrow> (if has_room now k l then (0, False) else checkOverflow now l))
    \<and> view (snd (check now k l)) t = view l t"
  using check_spec(3,4) [OF _ assms(3)] assms(4) abuse_run_ok [OF new_limiter_ok [OF assms(1)], of evs] assms(2)
  by (auto simp: fun_eq_iff)

text \<open>
  The threshold is exact: from the first failure of a client on, and as long as neither the
  window nor the time of a block has passed, the client is blocked exactly when it has reached the
  threshold, whatever the other clients do in between.
\<close>

theorem threshold_exact:
  assumes "newInvalidAuthAbuseLimiter cfg = Some l0" and "l = fold abuse_step before l0" and "k \<noteq> []"
    and new: "view l t0 k = None" "has_room t0 k l" and "0 \<le> t0"
    and evs: "sorted (t0 # map event_time evs)" "\<forall>ev\<in>set evs. event_time ev \<le> t" "t0 \<le> t"
    and t: "t < t0 + window l0" "t < t0 + block l0"
  shows "snd (fst (check t k (fold abuse_step evs (record_failure t0 k l))))
    = (threshold l0 \<le> 1 + int (length (filter (failed_for k) evs)))"
proof -
  have ok: "limiter_ok l" "params l = params l0"
    using abuse_run_ok [OF new_limiter_ok [OF assms(1)], of before] assms(2) by auto
  have par: "window l = window l0" "block l = block l0" "threshold l = threshold l0"
    using ok(2) by (simp_all add: params_def)
  define e0 where "e0 = zero_abuse_entry\<lparr>windowStart := t0\<rparr>"
  have thr: "0 < threshold l0"
    using assms(1) by (auto simp: newInvalidAuthAbuseLimiter_def split: option.splits if_splits)
  have "window_entry l t0 0 e0"
    using thr par assms(6) by (simp add: window_entry_def e0_def zero_abuse_entry_def)
  then have w: "window_entry l t0 1 (fst (count_failure l t0 e0))"
    using window_entry_count [of l t0 0 e0 t0] t evs(3) par by simp
  let ?l1 = "record_failure t0 k l"
  note r = record_failure_spec [OF ok(1) assms(3), where now = t0]
  have v1: "view ?l1 t0 k = Some (fst (count_failure l t0 e0))"
    using r(3) [OF order_refl, of k] new window_entry_live [OF w, of t0] t evs(3) par
    by (simp add: spec_failure_def e0_def)
  have par1: "window ?l1 = window l" "block ?l1 = block l" "threshold ?l1 = threshold l"
    using r(2) by (simp_all add: params_def)
  have same: "window_entry ?l1 t0 m e = window_entry l t0 m e" for m e using par1 by (simp add: window_entry_def)
  let ?l2 = "fold abuse_step evs ?l1" and ?n = "1 + int (length (filter (failed_for k) evs))"
  have "\<exists>e. view ?l2 t k = Some e \<and> window_entry ?l1 t0 ?n e"
    by (rule window_run [OF r(1) assms(3) _ order_refl evs]) (use v1 w t par par1 same in auto)
  then obtain e where e: "view ?l2 t k = Some e" "window_entry l t0 ?n e" using same by auto
  have "limiter_ok ?l2" using abuse_run_ok [OF r(1)] by simp
  then have "snd (fst (check t k ?l2)) = (t < blockedUntil e)" using check_spec(4) [OF _ assms(3), of ?l2 t] e by simp
  moreover have "t < blockedUntil e \<longleftrightarrow> threshold l0 \<le> ?n"
    using e(2) t evs(3) par by (auto simp: window_entry_def split: if_splits)
  ultimately show ?thesis by simp
qed

definition demo_abuse_config :: abuse_config where
  "demo_abuse_config = \<lparr>Enabled = True, Threshold = 2, WindowSeconds = 60, BlockSeconds = 300, Capacity = 10\<rparr>"

definition demo_limiter :: abuse_limiter where
  "demo_limiter = the (newInvalidAuthAbuseLimiter (Some demo_abuse_config))"

lemma demo_limiter: "newInvalidAuthAbuseLimiter (Some demo_abuse_config) = Some demo_limiter"
  by (simp add: demo_limiter_def newInvalidAuthAbuseLimiter_def demo_abuse_config_def)

lemma demo_fields:
  "window demo_limiter = 60 * Second" "block demo_limiter = 300 * Second" "threshold demo_limiter = 2"
  "capacity demo_limiter = 10" "tracked demo_limiter = 0" "shards demo_limiter = replicate 16 []"
proof -
  have "wrap64 (60 * Second) = 60 * Second" "wrap64 (300 * Second) = 300 * Second"
    by (auto intro!: wrap64_id simp: is_int64_def min_int64_def max_int64_def unit_defs)
  then show "window demo_limiter = 60 * Second" "block demo_limiter = 300 * Second" "threshold demo_limiter = 2"
    "capacity demo_limiter = 10" "tracked demo_limiter = 0" "shards demo_limiter = replicate 16 []"
    by (simp_all add: demo_limiter_def newInvalidAuthAbuseLimiter_def demo_abuse_config_def invalidAuthAbuseShardCount_def)
qed

lemma demo_new: "view demo_limiter t k = None" "has_room t k demo_limiter"
proof -
  have s: "shard_of k demo_limiter = []"
    using shard_index_less [of k] by (simp add: shard_of_def demo_fields(6) invalidAuthAbuseShardCount_def)
  then show "view demo_limiter t k = None" by (simp add: view_def entry_of_def)
  show "has_room t k demo_limiter"
    using s by (simp add: has_room_def prepare_def maybeCleanupAtCapacity_def find_live_def demo_fields Let_def)
qed

theorem limiter_bounded_witness:
  "tracked (fold abuse_step [Failed 5 ''10.0.0.1'', Checked 6 ''10.0.0.2''] demo_limiter) \<le> 10"
  using limiter_bounded [OF demo_limiter refl, of "[Failed 5 ''10.0.0.1'', Checked 6 ''10.0.0.2'']"]
  by (simp add: demo_fields)

theorem record_failure_refines_witness:
  "view (record_failure 5 ''10.0.0.1'' demo_limiter) 7 ''10.0.0.2'' = None"
  using record_failure_refines [OF demo_limiter, of demo_limiter "[]" "''10.0.0.1''" 5 7]
  by (simp add: spec_failure_def demo_new)

theorem check_refines_witness:
  "fst (check 5 ''10.0.0.1'' demo_limiter) = (0, False)"
  using check_refines [OF demo_limiter, of demo_limiter "[]" "''10.0.0.1''" 5 5] by (simp add: demo_new)

theorem threshold_exact_witness:
  "snd (fst (check (9 * Second) ''10.0.0.1'' (fold abuse_step
     [Failed (6 * Second) ''10.0.0.2'', Failed (8 * Second) ''10.0.0.1''] (record_failure (5 * Second) ''10.0.0.1'' demo_limiter))))"
  using threshold_exact [OF demo_limiter, of demo_limiter "[]" "''10.0.0.1''" "5 * Second"
      "[Failed (6 * Second) ''10.0.0.2'', Failed (8 * Second) ''10.0.0.1'']" "9 * Second"]
  by (simp add: demo_new demo_fields unit_defs)

end
