(* ===== verification/Abuse_Flat.thy ===== *)
theory Abuse_Flat
  imports Abuse_Limiter
begin

text \<open>
  The limiter for invalid API keys (\<^verbatim>\<open>backend/internal/service/invalid_auth_abuse_limiter.go\<close>) against a
  specification without shards and counters: one finite map from clients to their entries.  Whether
  there is room is the number of clients in that map, an entry is counted by a closed form, and the clean-up
  forgets the stale clients of one of sixteen classes in turn.  Every run of the limiter is a run of the
  specification, with the same answers.
\<close>

section \<open>The specification\<close>

record limits =
  Lthreshold :: int
  Lwindow :: duration
  Lblock :: duration
  Lcapacity :: int

record flat_limiter =
  stored :: "string \<Rightarrow> abuse_entry option"
  spill :: abuse_entry
  next_clean :: int
  turn :: nat

definition flat_start :: flat_limiter where
  "flat_start = \<lparr>stored = (\<lambda>k. None), spill = \<lparr>failures = 0, windowStart = 0, blockedUntil = 0\<rparr>, next_clean = 0, turn = 0\<rparr>"

definition full :: "limits \<Rightarrow> flat_limiter \<Rightarrow> bool" where
  "full c f \<longleftrightarrow> Lcapacity c \<le> int (card (dom (stored f)))"

text \<open>Neither a block nor a window is left.\<close>

definition stale :: "limits \<Rightarrow> go_time \<Rightarrow> abuse_entry \<Rightarrow> bool" where
  "stale c now e \<longleftrightarrow> blockedUntil e \<le> now \<and> windowStart e \<le> now \<and> windowStart e + Lwindow c \<le> now"

text \<open>A full limiter forgets the stale clients of one class, at most once in a tenth of a second.\<close>

definition flat_clean :: "limits \<Rightarrow> go_time \<Rightarrow> flat_limiter \<Rightarrow> flat_limiter" where
  "flat_clean c now f =
     (if full c f \<and> next_clean f \<le> UnixNano now
      then f\<lparr>next_clean := UnixNano (now + 100 * Millisecond), turn := (turn f + 1) mod 16,
             stored := (\<lambda>k. case stored f k of None \<Rightarrow> None
                | Some e \<Rightarrow> if shard_index k = turn f \<and> stale c now e then None else Some e)\<rparr>
      else f)"

definition flat_forget :: "limits \<Rightarrow> go_time \<Rightarrow> string \<Rightarrow> flat_limiter \<Rightarrow> flat_limiter" where
  "flat_forget c now k f = (case stored f k of None \<Rightarrow> f
     | Some e \<Rightarrow> if stale c now e then f\<lparr>stored := (stored f)(k := None)\<rparr> else f)"

text \<open>One more failure: \<open>running\<close> tells whether the window of the entry covers it.\<close>

definition one_more :: "limits \<Rightarrow> go_time \<Rightarrow> bool \<Rightarrow> abuse_entry \<Rightarrow> abuse_entry" where
  "one_more c now running e =
     (let n = (if running then failures e + 1 else 1)
      in if now < blockedUntil e then e
         else if Lthreshold c \<le> n then \<lparr>failures = 0, windowStart = now + Lblock c, blockedUntil = now + Lblock c\<rparr>
         else \<lparr>failures = n, windowStart = (if running then windowStart e else now), blockedUntil = blockedUntil e\<rparr>)"

definition flat_fail :: "limits \<Rightarrow> go_time \<Rightarrow> string \<Rightarrow> flat_limiter \<Rightarrow> flat_limiter" where
  "flat_fail c now k f =
     (if k = [] then f
      else (let g = flat_forget c now k (flat_clean c now f)
            in case stored g k of
                 Some e \<Rightarrow> g\<lparr>stored := (stored g)(k \<mapsto> one_more c now (windowStart e \<le> now \<and> now < windowStart e + Lwindow c) e)\<rparr>
               | None \<Rightarrow>
                   if full c g
                   then g\<lparr>spill := one_more c now (windowStart (spill g) \<noteq> 0 \<and> now < windowStart (spill g) + Lwindow c) (spill g)\<rparr>
                   else g\<lparr>stored := (stored g)(k \<mapsto> one_more c now False \<lparr>failures = 0, windowStart = now, blockedUntil = 0\<rparr>)\<rparr>))"

definition flat_check :: "limits \<Rightarrow> go_time \<Rightarrow> string \<Rightarrow> flat_limiter \<Rightarrow> (duration \<times> bool) \<times> flat_limiter" where
  "flat_check c now k f =
     (if k = [] then ((0, False), f)
      else (let g = flat_forget c now k (flat_clean c now f);
                until = (case stored g k of Some e \<Rightarrow> blockedUntil e | None \<Rightarrow> if full c g then blockedUntil (spill g) else now)
            in (if now < until then (time_Sub until now, True) else (0, False), g)))"

fun flat_step :: "limits \<Rightarrow> abuse_event \<Rightarrow> flat_limiter \<Rightarrow> flat_limiter" where
  "flat_step c (Failed now k) f = flat_fail c now k f"
| "flat_step c (Checked now k) f = snd (flat_check c now k f)"

definition config_limits :: "abuse_config \<Rightarrow> limits" where
  "config_limits cfg = \<lparr>Lthreshold = Threshold cfg, Lwindow = wrap64 (WindowSeconds cfg * Second),
     Lblock = wrap64 (BlockSeconds cfg * Second), Lcapacity = Capacity cfg\<rparr>"

section \<open>The abstraction\<close>

definition flat :: "abuse_limiter \<Rightarrow> flat_limiter" where
  "flat l = \<lparr>stored = entry_of l, spill = overflow l, next_clean = cleanupNext l,
     turn = unat (cleanupCursor l) mod invalidAuthAbuseShardCount\<rparr>"

definition limits_of :: "abuse_limiter \<Rightarrow> limits" where
  "limits_of l = \<lparr>Lthreshold = threshold l, Lwindow = window l, Lblock = block l, Lcapacity = capacity l\<rparr>"

lemma flat_simps [simp]:
  "stored (flat l) = entry_of l" "spill (flat l) = overflow l" "next_clean (flat l) = cleanupNext l"
  "turn (flat l) = unat (cleanupCursor l) mod invalidAuthAbuseShardCount"
  by (simp_all add: flat_def)

lemma limits_simps [simp]:
  "Lthreshold (limits_of l) = threshold l" "Lwindow (limits_of l) = window l" "Lblock (limits_of l) = block l"
  "Lcapacity (limits_of l) = capacity l"
  by (simp_all add: limits_of_def)

lemma limits_of_cong: "params l' = params l \<Longrightarrow> limits_of l' = limits_of l"
  by (simp add: limits_of_def params_def)

text \<open>The counter of the tracked clients is the number of clients in the map.\<close>

lemma shard_of_key:
  assumes "limiter_ok l" and "sh \<in> set (shards l)" and "p \<in> set sh"
  shows "sh = shard_of (fst p) l"
proof -
  obtain i where i: "i < length (shards l)" "sh = shards l ! i" using assms(2) by (metis in_set_conv_nth)
  then have "shard_index (fst p) = i" using assms(1,3) by (auto simp: limiter_ok_def shard_ok_def)
  then show ?thesis using i by (simp add: shard_of_def)
qed

lemma dom_entries:
  assumes "limiter_ok l"
  shows "dom (entry_of l) = fst ` set (concat (shards l))"
proof
  have len: "length (shards l) = invalidAuthAbuseShardCount" using assms by (simp add: limiter_ok_def)
  then have "shard_of k l \<in> set (shards l)" for k by (simp add: shard_of_def)
  then show "dom (entry_of l) \<subseteq> fst ` set (concat (shards l))"
    by (force simp: entry_of_def dest: map_of_SomeD)
  show "fst ` set (concat (shards l)) \<subseteq> dom (entry_of l)"
  proof
    fix k assume "k \<in> fst ` set (concat (shards l))"
    then obtain p sh where p: "sh \<in> set (shards l)" "p \<in> set sh" "k = fst p" by auto
    then have "p \<in> set (shard_of k l)" using shard_of_key [OF assms p(1,2)] by simp
    then show "k \<in> dom (entry_of l)" using p(3) by (auto simp: entry_of_def dom_def map_of_eq_None_iff)
  qed
qed

lemma tracked_card:
  assumes "limiter_ok l"
  shows "tracked l = int (card (dom (entry_of l)))"
proof -
  have "distinct (map fst (concat (shards l)))" using limiter_keys [OF assms] by (simp add: mkeys_def)
  then have "card (fst ` set (concat (shards l))) = length (concat (shards l))"
    using distinct_card by fastforce
  then show ?thesis using assms by (simp add: dom_entries limiter_ok_def length_concat)
qed

lemma full_flat: "limiter_ok l \<Longrightarrow> full (limits_of l) (flat l) \<longleftrightarrow> capacity l \<le> tracked l"
  by (simp add: full_def tracked_card)

lemma stale_flat: "entryExpired l (Some e) now \<longleftrightarrow> stale (limits_of l) now e"
  by (auto simp: entryExpired_def stale_def time_defs)

section \<open>Simulation\<close>

lemma unat_next: "unat (w + 1 :: 32 word) mod 16 = (unat w mod 16 + 1) mod 16"
  by (simp add: unat_word_ariths mod_mod_cancel mod_Suc_eq)

lemma flat_cleanup:
  assumes "limiter_ok l"
  shows "flat (maybeCleanupAtCapacity now l) = flat_clean (limits_of l) now (flat l)"
proof (cases "tracked l < capacity l \<or> UnixNano now < cleanupNext l")
  case True
  then show ?thesis using full_flat [OF assms] by (auto simp: maybeCleanupAtCapacity_def flat_clean_def)
next
  case False
  define i where "i = unat (cleanupCursor l) mod invalidAuthAbuseShardCount"
  define kept where "kept = filter (\<lambda>(key, entry). \<not> entryExpired l (Some entry) now) (shards l ! i)"
  have len: "length (shards l) = invalidAuthAbuseShardCount" using assms by (simp add: limiter_ok_def)
  have i: "i < length (shards l)" by (simp add: i_def len) (simp add: invalidAuthAbuseShardCount_def)
  let ?l = "maybeCleanupAtCapacity now l"
  have c: "shards ?l = (shards l)[i := kept]" "cleanupNext ?l = UnixNano (time_Add now (100 * Millisecond))"
    "cleanupCursor ?l = cleanupCursor l + 1" "overflow ?l = overflow l"
    using False by (simp_all add: maybeCleanupAtCapacity_def Let_def i_def kept_def)
  have mk: "mkeys (shards l ! i)" using assms i by (simp add: limiter_ok_def shard_ok_def len)
  have ent: "entry_of ?l k = (case entry_of l k of None \<Rightarrow> None
      | Some e \<Rightarrow> if shard_index k = i \<and> stale (limits_of l) now e then None else Some e)" for k
  proof (cases "shard_index k = i")
    case True
    then show ?thesis using i mk
      by (simp add: entry_of_def shard_of_def c kept_def map_of_filter_fst stale_flat split: option.split)
  next
    case False
    then show ?thesis by (simp add: entry_of_def shard_of_def c split: option.split)
  qed
  have tl: "turn (flat l) = i" by (simp add: i_def)
  have e: "entry_of ?l = (\<lambda>k. case entry_of l k of None \<Rightarrow> None
      | Some e \<Rightarrow> if shard_index k = turn (flat l) \<and> stale (limits_of l) now e then None else Some e)" unfolding tl by (rule ext) (rule ent)
  have tn: "unat (cleanupCursor l + 1) mod 16 = (turn (flat l) + 1) mod 16"
    using unat_next [of "cleanupCursor l"] by (simp add: invalidAuthAbuseShardCount_def)
  have "full (limits_of l) (flat l)" "next_clean (flat l) \<le> UnixNano now" using False full_flat [OF assms] by auto
  then have "flat_clean (limits_of l) now (flat l) = (flat l)\<lparr>next_clean := UnixNano (now + 100 * Millisecond),
      turn := (turn (flat l) + 1) mod 16, stored := entry_of ?l\<rparr>"
    unfolding flat_clean_def e by simp
  then show ?thesis by (simp add: flat_def [of ?l] c(2-4) tn invalidAuthAbuseShardCount_def time_defs)
qed

lemma flat_find:
  assumes ok: "limiter_ok l" and "find_live now k l = (e, l1)"
  shows "flat l1 = flat_forget (limits_of l) now k (flat l)" and "e = entry_of l1 k"
proof -
  show "e = entry_of l1 k" using find_live_spec(5) [OF assms] .
  let ?m = "(with_shard k (mdel k) l)\<lparr>tracked := tracked l - 1, expired := expired l + 1\<rparr>"
  have r: "find_live now k l = (if entry_of l k \<noteq> None \<and> entryExpired l (entry_of l k) now then (None, ?m) else (entry_of l k, l))"
    by (simp add: find_live_def Let_def entry_of_def)
  have "entry_of ?m = (entry_of l)(k := None)"
    using entry_of_with_shard(2) [OF ok, of k] by (auto simp: entry_of_def shard_of_def fun_eq_iff)
  then have "flat ?m = (flat l)\<lparr>stored := (entry_of l)(k := None)\<rparr>" by (simp add: flat_def with_shard_def)
  moreover have "l1 = (if entry_of l k \<noteq> None \<and> entryExpired l (entry_of l k) now then ?m else l)"
    using assms(2) unfolding r by (auto split: if_splits)
  ultimately show "flat l1 = flat_forget (limits_of l) now k (flat l)"
    by (cases "entry_of l k") (simp_all add: flat_forget_def stale_flat)
qed

lemma flat_prepare:
  assumes ok: "limiter_ok l"
  shows "flat (prepare now k l) = flat_forget (limits_of l) now k (flat_clean (limits_of l) now (flat l))"
    and "find_live now k (maybeCleanupAtCapacity now l) = (entry_of (prepare now k l) k, prepare now k l)"
proof -
  obtain e l1 where r: "find_live now k (maybeCleanupAtCapacity now l) = (e, l1)" by fastforce
  note f = flat_find [OF cleanup_ok [OF ok] r]
  have l1: "prepare now k l = l1" by (simp add: prepare_def r)
  have "limits_of (maybeCleanupAtCapacity now l) = limits_of l" by (rule limits_of_cong) simp
  then show "flat (prepare now k l) = flat_forget (limits_of l) now k (flat_clean (limits_of l) now (flat l))"
    using f(1) flat_cleanup [OF ok, of now] by (simp add: l1)
  show "find_live now k (maybeCleanupAtCapacity now l) = (entry_of (prepare now k l) k, prepare now k l)"
    using f(2) r l1 by simp
qed

lemma counted:
  "fst (count_failure l now e) = one_more (limits_of l) now (windowStart e \<le> now \<and> now < windowStart e + window l) e"
  by (cases e) (auto simp: count_failure_def one_more_def time_defs Let_def)

lemma counted_new:
  "0 \<le> now \<Longrightarrow> fst (count_failure l now (zero_abuse_entry\<lparr>windowStart := now\<rparr>))
     = one_more (limits_of l) now False \<lparr>failures = 0, windowStart = now, blockedUntil = 0\<rparr>"
  by (auto simp: count_failure_def one_more_def zero_abuse_entry_def time_defs Let_def)

lemma overflow_counted:
  "overflow (recordOverflow now l) = one_more (limits_of l) now
     (windowStart (overflow l) \<noteq> 0 \<and> now < windowStart (overflow l) + window l) (overflow l)"
  by (cases "overflow l") (auto simp: recordOverflow_def one_more_def time_defs Let_def time_IsZero_def)

lemma flat_record_entry:
  assumes "limiter_ok l"
  shows "flat (record_entry now k e l) = (flat l)\<lparr>stored := (entry_of l)(k \<mapsto> fst (count_failure l now e))\<rparr>"
proof -
  obtain e' b where ce: "count_failure l now e = (e', b)" by fastforce
  let ?l = "(with_shard k (mput k e') l)\<lparr>blocked := if b then blocked l + 1 else blocked l\<rparr>"
  have "entry_of ?l = (entry_of l)(k \<mapsto> e')"
    using entry_of_with_shard(1) [OF assms, of k e'] by (auto simp: entry_of_def shard_of_def fun_eq_iff)
  then show ?thesis by (simp add: record_entry_def ce flat_def with_shard_def)
qed

text \<open>The look-ups and the counting, together.\<close>

lemma flat_recorded [simp]: "flat (l\<lparr>recorded := x\<rparr>) = flat l"
proof -
  have "entry_of (l\<lparr>recorded := x\<rparr>) = entry_of l" by (intro ext entry_of_cong) simp
  then show ?thesis by (simp add: flat_def)
qed

lemma flat_failure:
  assumes ok: "limiter_ok l" and now: "0 \<le> now"
  shows "flat (record_failure now k l) = flat_fail (limits_of l) now k (flat l)"
proof (cases "k = []")
  case True
  then show ?thesis by (simp add: flat_fail_def)
next
  case False
  let ?l0 = "l\<lparr>recorded := recorded l + 1\<rparr>" and ?c = "limits_of l"
  define g where "g = prepare now k ?l0"
  have ok0: "limiter_ok ?l0" using ok recorded_irrelevant(3) by simp
  have c0: "limits_of ?l0 = ?c" by (simp add: limits_of_def)
  note p = flat_prepare [OF ok0, of now k, folded g_def, unfolded c0 flat_recorded]
  have g: "limiter_ok g" "limits_of g = ?c"
    using prepare_spec(2,3) [OF ok0, of now k] c0 limits_of_cong [of g ?l0] by (simp_all add: g_def)
  have r: "record_failure now k l = (case entry_of g k of
      Some entry \<Rightarrow> record_entry now k entry g
    | None \<Rightarrow> (case reserveEntry g of (False, l2) \<Rightarrow> recordOverflow now l2
        | (True, l2) \<Rightarrow> record_entry now k (zero_abuse_entry\<lparr>windowStart := now\<rparr>) l2))"
    using False p(2) by (simp add: record_failure_def)
  have s: "flat_fail ?c now k (flat l) = (case entry_of g k of
      Some e \<Rightarrow> (flat g)\<lparr>stored := (entry_of g)(k \<mapsto> one_more ?c now (windowStart e \<le> now \<and> now < windowStart e + Lwindow ?c) e)\<rparr>
    | None \<Rightarrow> if full ?c (flat g)
        then (flat g)\<lparr>spill := one_more ?c now (windowStart (overflow g) \<noteq> 0 \<and> now < windowStart (overflow g) + Lwindow ?c) (overflow g)\<rparr>
        else (flat g)\<lparr>stored := (entry_of g)(k \<mapsto> one_more ?c now False \<lparr>failures = 0, windowStart = now, blockedUntil = 0\<rparr>)\<rparr>)"
    using False by (simp add: flat_fail_def Let_def flip: p(1) split: option.split)
  have w: "window g = Lwindow ?c" using g(2) by (simp flip: g(2))
  show ?thesis
  proof (cases "entry_of g k")
    case (Some e)
    then show ?thesis using r s flat_record_entry [OF g(1), of now k e] counted [of g now e] g(2) w by simp
  next
    case None
    show ?thesis
    proof (cases "capacity g \<le> tracked g")
      case True
      have "entry_of (recordOverflow now g) = entry_of g" by (intro ext entry_of_cong) simp
      moreover have "cleanupNext (recordOverflow now g) = cleanupNext g" "cleanupCursor (recordOverflow now g) = cleanupCursor g"
        by (simp_all add: recordOverflow_def Let_def)
      ultimately have "flat (recordOverflow now g) = (flat g)\<lparr>spill := overflow (recordOverflow now g)\<rparr>" by (simp add: flat_def)
      then show ?thesis using r s None True full_flat [OF g(1)] overflow_counted [of now g] g(2) w by (simp add: reserveEntry_def)
    next
      case False
      let ?g = "g\<lparr>tracked := tracked g + 1\<rparr>" and ?e = "zero_abuse_entry\<lparr>windowStart := now\<rparr>"
      have "flat (record_entry now k ?e ?g) = flat (record_entry now k ?e g)"
        using count_failure_cong [of ?g g now ?e]
        by (simp add: flat_def record_entry_def params_def with_shard_def shard_of_def entry_of_def fun_eq_iff split: prod.splits)
      then show ?thesis
        using r s None False full_flat [OF g(1)] flat_record_entry [OF g(1), of now k ?e] counted_new [OF now, of g] g(2)
        by (simp add: reserveEntry_def)
    qed
  qed
qed

lemma flat_checked:
  assumes ok: "limiter_ok l"
  shows "fst (check now k l) = fst (flat_check (limits_of l) now k (flat l))"
    and "flat (snd (check now k l)) = snd (flat_check (limits_of l) now k (flat l))"
proof -
  let ?c = "limits_of l"
  define g where "g = prepare now k l"
  note p = flat_prepare [OF ok, of now k, folded g_def]
  have g: "limiter_ok g" "limits_of g = ?c"
    using prepare_spec(2,3) [OF ok, of now k] limits_of_cong [of g l] by (simp_all add: g_def)
  have full: "full ?c (flat g) \<longleftrightarrow> capacity g \<le> tracked g" using full_flat [OF g(1)] g(2) by simp
  have f: "flat (g\<lparr>rejected := a, globalBlocked := b\<rparr>) = flat g" "flat (g\<lparr>rejected := a\<rparr>) = flat g" for a b
    by (simp_all add: flat_def entry_of_def shard_of_def fun_eq_iff)
  have "fst (check now k l) = fst (flat_check ?c now k (flat l)) \<and> flat (snd (check now k l)) = snd (flat_check ?c now k (flat l))"
  proof (cases "k = []")
    case True
    then show ?thesis by (simp add: flat_check_def)
  next
    case False
    then show ?thesis
      by (simp add: check_def flat_check_def Let_def full checkOverflow_def time_defs p(2) flip: p(1) split: option.split)
        (auto simp: f)
  qed
  then show "fst (check now k l) = fst (flat_check ?c now k (flat l))"
    "flat (snd (check now k l)) = snd (flat_check ?c now k (flat l))" by simp_all
qed

lemma flat_steps:
  assumes "limiter_ok l" and "\<forall>ev\<in>set evs. 0 \<le> event_time ev"
  shows "flat (fold abuse_step evs l) = fold (flat_step (limits_of l)) evs (flat l)"
  using assms
proof (induction evs arbitrary: l)
  case (Cons ev evs)
  have ok: "limiter_ok (abuse_step ev l)" "limits_of (abuse_step ev l) = limits_of l"
    using abuse_step_ok [OF Cons.prems(1), of ev] by (simp, intro limits_of_cong) simp
  have "flat (abuse_step ev l) = flat_step (limits_of l) ev (flat l)"
    using Cons.prems by (cases ev) (simp_all add: flat_failure flat_checked)
  then show ?case using Cons.IH [OF ok(1)] Cons.prems(2) ok(2) by simp
qed simp

section \<open>Refinement\<close>

text \<open>
  C8. The sharded limiter refines the flat one: after any sequence of failures and checks its shards, its
  overflow and its clean-up state are those of the specification that has run through the same sequence, the
  counter of the tracked clients is the number of clients in the map, and the next check gives the answer of the
  specification.  Each operation is taken as one step, at a time after year one.
\<close>

theorem limiter_refines:
  assumes "newInvalidAuthAbuseLimiter (Some cfg) = Some l0" and "l = fold abuse_step evs l0"
    and "f = fold (flat_step (config_limits cfg)) evs flat_start" and "\<forall>ev\<in>set evs. 0 \<le> event_time ev"
  shows "flat l = f \<and> tracked l = int (card (dom (stored f)))
    \<and> fst (check now k l) = fst (flat_check (config_limits cfg) now k f)"
proof -
  have ok0: "limiter_ok l0" by (rule new_limiter_ok [OF assms(1)])
  have c: "limits_of l0 = config_limits cfg" "flat l0 = flat_start"
    using assms(1) by (auto simp: newInvalidAuthAbuseLimiter_def limits_of_def config_limits_def flat_def flat_start_def
        entry_of_def shard_of_def zero_abuse_entry_def fun_eq_iff split: if_splits)
  have ok: "limiter_ok l" "limits_of l = config_limits cfg"
    using abuse_run_ok [OF ok0, of evs] limits_of_cong [of l l0] c(1) assms(2) by simp_all
  have "flat l = f" using flat_steps [OF ok0 assms(4)] c assms(2,3) by simp
  then show ?thesis using tracked_card [OF ok(1)] flat_checked(1) [OF ok(1), of now k] ok(2) by auto
qed

theorem limiter_refines_witness:
  "flat (fold abuse_step [Failed 5 ''10.0.0.1'', Checked 6 ''10.0.0.2''] demo_limiter)
     = fold (flat_step (config_limits demo_abuse_config)) [Failed 5 ''10.0.0.1'', Checked 6 ''10.0.0.2''] flat_start"
  by (rule conjunct1 [OF limiter_refines [OF demo_limiter refl refl]]) simp

end
