(* ===== verification/Go_Strings.thy ===== *)
theory Go_Strings
  imports Go_Prelude
begin

text \<open>
  More of Go's package \<^verbatim>\<open>strings\<close>, for the components that parse names of models and e-mail
  addresses, with glob patterns as the reference for wildcard matching.
\<close>

section \<open>Case folding\<close>

text \<open>
  \<^verbatim>\<open>strings.EqualFold\<close>: equality under folding, which on ASCII strings is equality of the lower-case
  strings.  For other strings the folding orbits of Unicode decide: the parameter \<open>ufold\<close>.
\<close>

definition EqualFold :: "(string \<Rightarrow> string \<Rightarrow> bool) \<Rightarrow> string \<Rightarrow> string \<Rightarrow> bool" where
  "EqualFold ufold s t = (if is_ascii s \<and> is_ascii t then map byte_lower s = map byte_lower t else ufold s t)"

text \<open>What Go documents of the case tables: lower case is a fixed point, and no rune maps to nothing.\<close>

definition lower_laws :: "(string \<Rightarrow> string) \<Rightarrow> bool" where
  "lower_laws ulow \<longleftrightarrow> (\<forall>s. ToLower ulow (ToLower ulow s) = ToLower ulow s) \<and> (\<forall>s. ToLower ulow s = [] \<longrightarrow> s = [])"

lemma byte_lower_upper_bound:
  "65 \<le> (of_char c :: nat) \<and> of_char c \<le> (90 :: nat) \<Longrightarrow> (of_char (byte_lower c) :: nat) = of_char c + 32"
  by (simp add: byte_lower_def)

lemma byte_lower_idem [simp]: "byte_lower (byte_lower c) = byte_lower c"
  using byte_lower_upper_bound [of c] by (cases "65 \<le> (of_char c :: nat) \<and> of_char c \<le> (90 :: nat)") (auto simp: byte_lower_def)

lemma byte_lower_ascii [simp]: "(of_char c :: nat) < 128 \<Longrightarrow> (of_char (byte_lower c) :: nat) < 128"
  using byte_lower_upper_bound [of c] by (auto simp: byte_lower_def)

lemma is_ascii_lower [simp]: "is_ascii s \<Longrightarrow> is_ascii (map byte_lower s)"
  by (induction s) (simp_all add: is_ascii_def)

lemma ToLower_ascii_idem: "is_ascii s \<Longrightarrow> ToLower ulow (ToLower ulow s) = ToLower ulow s"
  by (simp add: ToLower_ascii)

lemma lower_laws_id: "lower_laws id"
proof -
  have "ToLower id (ToLower id s) = ToLower id s" for s
    by (cases "is_ascii s") (simp_all add: ToLower_ascii_idem, simp add: ToLower_def)
  moreover have "ToLower id s = [] \<Longrightarrow> s = []" for s by (simp add: ToLower_def split: if_splits)
  ultimately show ?thesis unfolding lower_laws_def by blast
qed

lemma lower_laws_idem [simp]: "lower_laws ulow \<Longrightarrow> ToLower ulow (ToLower ulow s) = ToLower ulow s"
  unfolding lower_laws_def by blast

lemma lower_laws_Nil: "lower_laws ulow \<Longrightarrow> ToLower ulow s = [] \<longleftrightarrow> s = []"
  using ToLower_ascii [of "[]" ulow] unfolding lower_laws_def by (auto simp: is_ascii_def)

section \<open>Splitting, joining and replacing\<close>

text \<open>\<^verbatim>\<open>strings.Join\<close>.\<close>

fun Join :: "string list \<Rightarrow> string \<Rightarrow> string" where
  "Join [] sep = []"
| "Join [s] sep = s"
| "Join (s # t # ss) sep = s @ sep @ Join (t # ss) sep"

text \<open>\<^verbatim>\<open>strings.LastIndexByte\<close>.\<close>

definition LastIndexByte :: "string \<Rightarrow> char \<Rightarrow> nat option" where
  "LastIndexByte s c = map_option (\<lambda>i. length s - 1 - i) (IndexByte (rev s) c)"

text \<open>\<^verbatim>\<open>strings.CutPrefix\<close>: the rest after the prefix, when there is the prefix.\<close>

definition CutPrefix :: "string \<Rightarrow> string \<Rightarrow> string option" where
  "CutPrefix s p = (if prefix p s then Some (drop (length p) s) else None)"

text \<open>\<^verbatim>\<open>strings.ReplaceAll\<close>, for a string \<open>old\<close> that is not empty, as everywhere in the program.\<close>

function ReplaceAll :: "string \<Rightarrow> string \<Rightarrow> string \<Rightarrow> string" where
  "ReplaceAll [] old new = []"
| "ReplaceAll (c # s) old new =
     (if old \<noteq> [] \<and> prefix old (c # s) then new @ ReplaceAll (drop (length old) (c # s)) old new
      else c # ReplaceAll s old new)"
  by pat_completeness auto
termination
  by (relation "measure (\<lambda>(s, old, new). length s)") auto

declare ReplaceAll.simps(2) [simp del]

text \<open>\<^verbatim>\<open>strings.FieldsFunc\<close> for ASCII separators, and \<^verbatim>\<open>strings.Fields\<close>, whose separators are runes.\<close>

fun split_on :: "(char \<Rightarrow> bool) \<Rightarrow> string \<Rightarrow> string list" where
  "split_on P [] = [[]]"
| "split_on P (c # s) =
     (if P c then [] # split_on P s
      else (case split_on P s of [] \<Rightarrow> [[c]] | p # ps \<Rightarrow> (c # p) # ps))"

definition FieldsFunc :: "(char \<Rightarrow> bool) \<Rightarrow> string \<Rightarrow> string list" where
  "FieldsFunc P s = filter (\<lambda>p. p \<noteq> []) (split_on P s)"

function split_spaces :: "string \<Rightarrow> string list" where
  "split_spaces s =
     (case strip_one space_runes s of Some s' \<Rightarrow> [] # split_spaces s'
      | None \<Rightarrow> (case s of [] \<Rightarrow> [[]]
                | c # t \<Rightarrow> (case split_spaces t of [] \<Rightarrow> [[c]] | p # ps \<Rightarrow> (c # p) # ps)))"
  by pat_completeness auto
termination
  by (relation "measure length") (auto dest: strip_one_length)

declare split_spaces.simps [simp del]

definition Fields :: "string \<Rightarrow> string list" where
  "Fields s = filter (\<lambda>p. p \<noteq> []) (split_spaces s)"

lemma Contains_Cons: "Contains (c # s) p \<longleftrightarrow> prefix p (c # s) \<or> Contains s p"
  by (auto simp: Contains_def)

lemma ReplaceAll_absent: "\<not> Contains s old \<Longrightarrow> ReplaceAll s old new = s"
  by (induction s) (auto simp: Contains_Cons ReplaceAll.simps(2))

lemma Contains_byte: "Contains s [c] \<longleftrightarrow> c \<in> set s"
  by (induction s) (auto simp: Contains_Cons, simp add: Contains_def)

lemma last_Split: "c \<notin> set b \<Longrightarrow> last (Split (a @ c # b) c) = b"
proof (induction a)
  case (Cons x a)
  have "1 < length (Split (a @ c # b) c)" by (simp add: Split_length)
  then obtain p ps where "Split (a @ c # b) c = p # ps" "ps \<noteq> []" by (cases "Split (a @ c # b) c") auto
  with Cons show ?case by simp
qed (simp add: Split_no_sep)

lemma LastIndexByte_split: "c \<notin> set b \<Longrightarrow> LastIndexByte (a @ c # b) c = Some (length a)"
  by (simp add: LastIndexByte_def IndexByte_def takeWhile_append)

lemma LastIndexByte_absent: "c \<notin> set s \<Longrightarrow> LastIndexByte s c = None"
  by (simp add: LastIndexByte_def IndexByte_def)

lemma ReplaceAll_shorter:
  "length new < length old \<Longrightarrow> length (ReplaceAll s old new) \<le> length s
   \<and> (Contains s old \<longrightarrow> length (ReplaceAll s old new) < length s)"
proof (induction s old new rule: ReplaceAll.induct)
  case (2 c s old new)
  show ?case
  proof (cases "old \<noteq> [] \<and> prefix old (c # s)")
    case True
    then have "length old \<le> Suc (length s)" using prefix_length_le by fastforce
    with True "2.IH"(1) "2.prems" show ?thesis by (auto simp: ReplaceAll.simps(2))
  next
    case False
    then have "Contains (c # s) old \<longleftrightarrow> Contains s old" using "2.prems" by (auto simp: Contains_def)
    with False "2.IH"(2) "2.prems" show ?thesis by (auto simp: ReplaceAll.simps(2))
  qed
qed (auto simp: Contains_def)

section \<open>Trimming twice\<close>

lemma strip_one_prefix: "strip_one rs s' = Some t \<Longrightarrow> prefix s' s \<Longrightarrow> strip_one rs s \<noteq> None"
proof (induction rs)
  case (Cons r rs)
  then show ?case by (cases "r \<noteq> [] \<and> prefix r s'") (auto dest: prefix_order.trans)
qed simp

lemma trim_left_stuck: "trim_left rs s = s \<Longrightarrow> strip_one rs s = None"
proof (cases "strip_one rs s")
  case (Some t)
  assume "trim_left rs s = s"
  with Some have "trim_left rs t = s" by (simp add: trim_left.simps [of rs s])
  with trim_left_suffix [of rs t] have "length s \<le> length t" by (auto dest: suffix_length_le)
  with strip_one_length [OF Some] show ?thesis by simp
qed simp

lemma trim_left_prefix:
  assumes "trim_left rs s = s" and "prefix s' s"
  shows "trim_left rs s' = s'"
proof -
  have "strip_one rs s' = None"
    using trim_left_stuck [OF assms(1)] strip_one_prefix [OF _ assms(2)] by (cases "strip_one rs s'") auto
  then show ?thesis by (simp add: trim_left.simps [of rs s'])
qed

lemma TrimSpace_idem [simp]: "TrimSpace (TrimSpace s) = TrimSpace s"
proof -
  let ?l = "trim_left space_runes s" and ?R = "map rev space_runes"
  have "suffix (trim_left ?R (rev ?l)) (rev ?l)" by (rule trim_left_suffix)
  then have "prefix (TrimSpace s) ?l" by (simp add: TrimSpace_def suffix_to_prefix)
  then have left: "trim_left space_runes (TrimSpace s) = TrimSpace s"
    using trim_left_prefix [OF trim_left_idem] by simp
  have "rev (TrimSpace s) = trim_left ?R (rev ?l)" by (simp add: TrimSpace_def)
  then have "trim_left ?R (rev (TrimSpace s)) = rev (TrimSpace s)" by (simp add: trim_left_idem)
  with left show ?thesis by (metis TrimSpace_def rev_rev_ident)
qed

lemma TrimSpace_sub: "set (TrimSpace s) \<subseteq> set s"
proof -
  obtain us vs where "s = concat us @ TrimSpace s @ concat vs" using TrimSpace_split by blast
  then show ?thesis by (metis Un_iff set_append subsetI)
qed

section \<open>Plain names\<close>

text \<open>Printable lower-case ASCII without blanks: trimming and case folding leave it alone.\<close>

definition plain_name :: "string \<Rightarrow> bool" where
  "plain_name s \<longleftrightarrow> list_all (\<lambda>c. is_graphic c \<and> \<not> (65 \<le> (of_char c :: nat) \<and> of_char c \<le> (90 :: nat))) s"

lemma plain_TrimSpace: "plain_name s \<Longrightarrow> TrimSpace s = s"
  by (cases "s = []") (auto intro!: TrimSpace_graphic simp: plain_name_def list_all_iff)

lemma plain_ascii: "plain_name s \<Longrightarrow> is_ascii s"
  by (induction s) (auto simp: plain_name_def is_ascii_def is_graphic_def)

lemma plain_byte_lower: "plain_name s \<Longrightarrow> map byte_lower s = s"
  by (induction s) (auto simp: plain_name_def byte_lower_def)

lemma plain_ToLower: "plain_name s \<Longrightarrow> ToLower ulow s = s"
  by (simp add: ToLower_ascii plain_ascii plain_byte_lower)

lemma plain_EqualFold: "plain_name s \<Longrightarrow> plain_name t \<Longrightarrow> EqualFold ufold s t \<longleftrightarrow> s = t"
  by (simp add: EqualFold_def plain_ascii plain_byte_lower)

lemmas plain_simps = plain_TrimSpace plain_ToLower plain_EqualFold

section \<open>Globs\<close>

text \<open>The reference for wildcards: \<^verbatim>\<open>*\<close> stands for any string, every other byte for itself.\<close>

fun glob :: "string \<Rightarrow> string \<Rightarrow> bool" where
  "glob [] s = (s = [])"
| "glob (c # p) [] = (c = CHR ''*'' \<and> glob p [])"
| "glob (c # p) (x # s) =
     (if c = CHR ''*'' then glob p (x # s) \<or> glob (c # p) s else c = x \<and> glob p s)"

lemma glob_star: "glob (CHR ''*'' # p) s \<longleftrightarrow> (\<exists>k\<le>length s. glob p (drop k s))"
proof (induction s)
  case (Cons x s)
  have "(\<exists>k\<le>length (x # s). glob p (drop k (x # s))) \<longleftrightarrow> glob p (x # s) \<or> (\<exists>k\<le>length s. glob p (drop k s))"
  proof
    assume "\<exists>k\<le>length (x # s). glob p (drop k (x # s))"
    then obtain k where "k \<le> length (x # s)" "glob p (drop k (x # s))" by blast
    then show "glob p (x # s) \<or> (\<exists>k\<le>length s. glob p (drop k s))" by (cases k) auto
  next
    assume "glob p (x # s) \<or> (\<exists>k\<le>length s. glob p (drop k s))"
    then show "\<exists>k\<le>length (x # s). glob p (drop k (x # s))"
    proof
      assume "glob p (x # s)" then show ?thesis by (intro exI [of _ 0]) simp
    next
      assume "\<exists>k\<le>length s. glob p (drop k s)"
      then obtain k where "k \<le> length s" "glob p (drop k s)" by blast
      then show ?thesis by (intro exI [of _ "Suc k"]) simp
    qed
  qed
  with Cons show ?case by simp
qed simp

lemma glob_literal:
  "CHR ''*'' \<notin> set q \<Longrightarrow> glob (q @ p) s \<longleftrightarrow> prefix q s \<and> glob p (drop (length q) s)"
proof (induction q arbitrary: s)
  case (Cons c q)
  then show ?case by (cases s) auto
qed simp

lemma glob_plain: "CHR ''*'' \<notin> set q \<Longrightarrow> glob q s \<longleftrightarrow> s = q"
proof (induction q arbitrary: s)
  case (Cons c q)
  then show ?case by (cases s) auto
qed simp

lemma glob_refl: "glob p p"
proof (induction p)
  case (Cons c p)
  then have "glob (CHR ''*'' # p) p" unfolding glob_star by (intro exI [of _ 0]) simp
  with Cons show ?case by simp
qed simp

text \<open>What a star has skipped it may skip again.\<close>

lemma glob_star_more:
  assumes "glob (CHR ''*'' # p) (drop j s)" and "i \<le> j"
  shows "glob (CHR ''*'' # p) (drop i s)"
proof (cases "j \<le> length s")
  case True
  from assms(1) obtain k where k: "k \<le> length s - j" "glob p (drop (k + j) s)"
    unfolding glob_star by (auto simp: drop_drop)
  have "k + j - i \<le> length (drop i s)" using k(1) assms(2) True by simp
  moreover have "drop (k + j - i) (drop i s) = drop (k + j) s" using assms(2) by (simp add: drop_drop)
  ultimately show ?thesis unfolding glob_star using k(2) by metis
next
  case False
  then have "glob p (drop (length s - i) (drop i s))"
    using assms(1) unfolding glob_star by (cases "i \<le> length s") auto
  then show ?thesis unfolding glob_star by (intro exI [of _ "length s - i"]) simp
qed

text \<open>The parts of a pattern around its stars, put together again.\<close>

fun join_stars :: "string list \<Rightarrow> string" where
  "join_stars [] = []"
| "join_stars [p] = p"
| "join_stars (p # q # ps) = p @ CHR ''*'' # join_stars (q # ps)"

lemma join_stars_Split: "join_stars (Split s CHR ''*'') = s"
proof (induction s)
  case (Cons x xs)
  show ?case
  proof (cases "Split xs CHR ''*''")
    case (Cons p ps)
    with Cons.IH show ?thesis by (cases ps) auto
  qed (use Cons in simp)
qed simp

end
