(* ===== verification/Codex_Models.thy ===== *)
theory Codex_Models
  imports Go_Strings "HOL-Library.While_Combinator"
begin

text \<open>
  Names of OpenAI models (\<^verbatim>\<open>backend/internal/pkg/openai/constants.go\<close>,
  \<^verbatim>\<open>backend/internal/service/openai_model_alias.go\<close>, \<^verbatim>\<open>openai_codex_transform.go\<close>,
  \<^verbatim>\<open>openai_compat_model.go\<close>): the canonical spelling of an alias, the model that a name stands for, and
  the reasoning effort that a request carries in the name of its model.  \<open>ulow\<close> is the lower case of
  Unicode.
\<close>

section \<open>Canonical spellings\<close>

text \<open>The loop that replaces double dashes until none is left.\<close>

function collapse_dashes :: "string \<Rightarrow> string" where
  "collapse_dashes s = (if Contains s ''--'' then collapse_dashes (ReplaceAll s ''--'' ''-'') else s)"
  by pat_completeness auto
termination
  by (relation "measure length") (use ReplaceAll_shorter [of "''-''" "''--''"] in auto)

declare collapse_dashes.simps [simp del]

definition spelling_replacements :: "(string \<times> string) list" where
  "spelling_replacements =
     [(''gpt-5.4mini'', ''gpt-5.4-mini''),
      (''gpt-5.4nano'', ''gpt-5.4-nano''),
      (''gpt-5.3-codexspark'', ''gpt-5.3-codex-spark''),
      (''gpt-5.3codexspark'', ''gpt-5.3-codex-spark''),
      (''gpt-5.3codex'', ''gpt-5.3-codex'')]"

definition CanonicalizeOpenAIModelAliasSpelling :: "(string \<Rightarrow> string) \<Rightarrow> string \<Rightarrow> string" where
  "CanonicalizeOpenAIModelAliasSpelling ulow m =
     (let m1 = TrimSpace m;
          m2 = (case LastIndexByte m1 CHR ''/'' of Some slash \<Rightarrow> TrimSpace (drop (slash + 1) m1) | None \<Rightarrow> m1);
          model = ToLower ulow m2
      in if model = [] then []
         else (let n1 = ReplaceAll model ''_'' ''-'';
                   n2 = collapse_dashes (Join (Fields n1) ''-'');
                   n3 = (if HasPrefix n2 ''gpt5'' then ''gpt-5'' @ TrimPrefix n2 ''gpt5'' else n2)
               in if \<not> HasPrefix n3 ''gpt-'' \<and> \<not> Contains n3 ''codex'' then []
                  else fold (\<lambda>(from, to) n. ReplaceAll n from to) spelling_replacements n3))"

fun first_base :: "string list \<Rightarrow> string list \<Rightarrow> string \<Rightarrow> string" where
  "first_base efforts [] canonical = []"
| "first_base efforts (base # bases) canonical =
     (if canonical = base then base
      else (case CutPrefix canonical (base @ ''-'') of
              Some s \<Rightarrow> if s \<in> set efforts then base else first_base efforts bases canonical
            | None \<Rightarrow> first_base efforts bases canonical))"

definition GPT6SolOrLunaBaseModel :: "(string \<Rightarrow> string) \<Rightarrow> string \<Rightarrow> string" where
  "GPT6SolOrLunaBaseModel ulow model =
     first_base [''none'', ''low'', ''medium'', ''high'', ''xhigh'', ''max'', ''openai-compact'']
       [''gpt-6-sol'', ''gpt-6-luna''] (CanonicalizeOpenAIModelAliasSpelling ulow model)"

definition IsGPT6SolOrLunaModelSpelling :: "(string \<Rightarrow> string) \<Rightarrow> string \<Rightarrow> bool" where
  "IsGPT6SolOrLunaModelSpelling ulow model \<longleftrightarrow> GPT6SolOrLunaBaseModel ulow model \<noteq> []"

definition gpt61_suffixes :: "string list" where
  "gpt61_suffixes = [''none'', ''minimal'', ''low'', ''medium'', ''high'', ''xhigh'', ''max'', ''openai-compact'']"

definition IsGPT61SolModelSpelling :: "(string \<Rightarrow> string) \<Rightarrow> string \<Rightarrow> bool" where
  "IsGPT61SolModelSpelling ulow model =
     (let canonical = CanonicalizeOpenAIModelAliasSpelling ulow model
      in canonical = ''gpt-6.1-sol''
         \<or> (case CutPrefix canonical ''gpt-6.1-sol-'' of None \<Rightarrow> False | Some s \<Rightarrow> s \<in> set gpt61_suffixes))"

definition IsGPT61TerraModelSpelling :: "(string \<Rightarrow> string) \<Rightarrow> string \<Rightarrow> bool" where
  "IsGPT61TerraModelSpelling ulow model =
     (let canonical = CanonicalizeOpenAIModelAliasSpelling ulow model
      in canonical = ''gpt-6.1-terra''
         \<or> (case CutPrefix canonical ''gpt-6.1-terra-'' of None \<Rightarrow> False | Some s \<Rightarrow> s \<in> set gpt61_suffixes))"

section \<open>The models behind the names\<close>

definition codexModelMap :: "(string \<times> string) list" where
  "codexModelMap =
     [(''gpt-6.1-terra'', ''gpt-6.1-terra''), (''gpt-6.1-sol'', ''gpt-6.1-sol''), (''gpt-6-sol'', ''gpt-6-sol''),
      (''gpt-6-luna'', ''gpt-6-luna''), (''gpt-6-astra'', ''gpt-6-astra''), (''gpt-5.6-sol'', ''gpt-5.6-sol''),
      (''gpt-5.6-terra'', ''gpt-5.6-terra''), (''gpt-5.6-luna'', ''gpt-5.6-luna''), (''gpt-5.5'', ''gpt-5.5''),
      (''gpt-5.5-pro'', ''gpt-5.5-pro''), (''codex-auto-review'', ''codex-auto-review''), (''gpt-5.4'', ''gpt-5.4''),
      (''gpt-5.4-mini'', ''gpt-5.4-mini''), (''gpt-5.4-none'', ''gpt-5.4''), (''gpt-5.4-low'', ''gpt-5.4''),
      (''gpt-5.4-medium'', ''gpt-5.4''), (''gpt-5.4-high'', ''gpt-5.4''), (''gpt-5.4-xhigh'', ''gpt-5.4''),
      (''gpt-5.4-chat-latest'', ''gpt-5.4''), (''gpt-5.3'', ''gpt-5.3-codex''), (''gpt-5.3-none'', ''gpt-5.3-codex''),
      (''gpt-5.3-low'', ''gpt-5.3-codex''), (''gpt-5.3-medium'', ''gpt-5.3-codex''), (''gpt-5.3-high'', ''gpt-5.3-codex''),
      (''gpt-5.3-xhigh'', ''gpt-5.3-codex''), (''gpt-5.3-codex'', ''gpt-5.3-codex''),
      (''gpt-5.3-codex-spark'', ''gpt-5.3-codex-spark''), (''gpt-5.3-codex-low'', ''gpt-5.3-codex''),
      (''gpt-5.3-codex-medium'', ''gpt-5.3-codex''), (''gpt-5.3-codex-high'', ''gpt-5.3-codex''),
      (''gpt-5.3-codex-xhigh'', ''gpt-5.3-codex''), (''gpt-5.2'', ''gpt-5.2''), (''gpt-5.2-none'', ''gpt-5.2''),
      (''gpt-5.2-low'', ''gpt-5.2''), (''gpt-5.2-medium'', ''gpt-5.2''), (''gpt-5.2-high'', ''gpt-5.2''),
      (''gpt-5.2-xhigh'', ''gpt-5.2''), (''gpt-5'', ''gpt-5.4''), (''gpt-5-mini'', ''gpt-5.4''), (''gpt-5-nano'', ''gpt-5.4''),
      (''gpt-5.1'', ''gpt-5.4''), (''gpt-5.1-codex'', ''gpt-5.3-codex''), (''gpt-5.1-codex-max'', ''gpt-5.3-codex''),
      (''gpt-5.1-codex-mini'', ''gpt-5.3-codex''), (''gpt-5.2-codex'', ''gpt-5.2''), (''codex-mini-latest'', ''gpt-5.3-codex''),
      (''gpt-5-codex'', ''gpt-5.3-codex'')]"

definition codexVersionModelPrefixes :: "(string \<times> string) list" where
  "codexVersionModelPrefixes =
     [(''gpt-6.1-terra'', ''gpt-6.1-terra''), (''gpt-6.1-sol'', ''gpt-6.1-sol''), (''gpt-6-sol'', ''gpt-6-sol''),
      (''gpt-6-luna'', ''gpt-6-luna''), (''gpt-5.6-sol'', ''gpt-5.6-sol''), (''gpt-5.6-terra'', ''gpt-5.6-terra''),
      (''gpt-5.6-luna'', ''gpt-5.6-luna''), (''gpt-5.3-codex-spark'', ''gpt-5.3-codex-spark''),
      (''gpt-5.3-codex'', ''gpt-5.3-codex''), (''gpt-5.4-mini'', ''gpt-5.4-mini''), (''gpt-5.4-nano'', ''gpt-5.4-nano''),
      (''gpt-5.5-pro'', ''gpt-5.5-pro''), (''gpt-5.5'', ''gpt-5.5''), (''gpt-5.4'', ''gpt-5.4''), (''gpt-5.2'', ''gpt-5.2'')]"

definition isCodexDateSuffix :: "string \<Rightarrow> bool" where
  "isCodexDateSuffix s =
     (let parts = Split s CHR ''-''
      in length parts = 3 \<and> length (parts ! 0) = 4 \<and> length (parts ! 1) = 2 \<and> length (parts ! 2) = 2
         \<and> list_all (list_all (\<lambda>r. (48 :: nat) \<le> of_char r \<and> of_char r \<le> (57 :: nat))) parts)"

definition isKnownCodexModelSuffix :: "string \<Rightarrow> bool" where
  "isKnownCodexModelSuffix s \<longleftrightarrow>
     s \<in> set [''none'', ''minimal'', ''low'', ''medium'', ''high'', ''xhigh''] \<or> isCodexDateSuffix s"

text \<open>The part of a path after its last slash.\<close>

definition lastOpenAIModelSegment :: "string \<Rightarrow> string" where
  "lastOpenAIModelSegment m =
     (let model = TrimSpace m
      in if model = [] then []
         else TrimSpace (if Contains model ''/'' then last (Split model CHR ''/'') else model))"

definition codexModelLookupKey :: "(string \<Rightarrow> string) \<Rightarrow> string \<Rightarrow> string" where
  "codexModelLookupKey ulow m =
     (let modelID = TrimSpace m
      in if modelID = [] then []
         else (let segment = (if Contains modelID ''/'' then last (Split modelID CHR ''/'') else modelID)
               in ToLower ulow (Join (Fields segment) ''-'')))"

definition getNormalizedCodexModel :: "(string \<Rightarrow> string) \<Rightarrow> string \<Rightarrow> string" where
  "getNormalizedCodexModel ulow modelID =
     (let key = codexModelLookupKey ulow modelID
      in if key = [] then [] else (case map_of codexModelMap key of Some mapped \<Rightarrow> mapped | None \<Rightarrow> []))"

definition isOpenAIGPT6AstraModel :: "(string \<Rightarrow> string) \<Rightarrow> string \<Rightarrow> bool" where
  "isOpenAIGPT6AstraModel ulow model \<longleftrightarrow> CanonicalizeOpenAIModelAliasSpelling ulow model = ''gpt-6-astra''"

text \<open>The \<^verbatim>\<open>switch\<close> on families, with the canonical spelling.\<close>

definition model_family :: "(string \<Rightarrow> string) \<Rightarrow> string \<Rightarrow> string" where
  "model_family ulow normalized =
     (if isOpenAIGPT6AstraModel ulow normalized then ''gpt-6-astra''
      else if normalized = ''gpt-6-sol'' \<or> normalized = ''gpt-6-luna'' then normalized
      else if Contains normalized ''gpt-5.6-sol'' then ''gpt-5.6-sol''
      else if Contains normalized ''gpt-5.6-terra'' then ''gpt-5.6-terra''
      else if Contains normalized ''gpt-5.6-luna'' then ''gpt-5.6-luna''
      else if normalized = ''gpt-5.6'' then ''gpt-5.6-sol''
      else if HasPrefix normalized ''gpt-5.6-'' then
        (let s = TrimPrefix normalized ''gpt-5.6-''
         in if s = ''max'' \<or> isKnownCodexModelSuffix s then ''gpt-5.6-sol'' else [])
      else if Contains normalized ''gpt-5.5-pro'' then ''gpt-5.5-pro''
      else if Contains normalized ''gpt-5.5'' then ''gpt-5.5''
      else if Contains normalized ''gpt-5.4-mini'' then ''gpt-5.4-mini''
      else if Contains normalized ''gpt-5.4-nano'' then ''gpt-5.4-nano''
      else if Contains normalized ''gpt-5.4'' then ''gpt-5.4''
      else if Contains normalized ''gpt-5.2'' then ''gpt-5.2''
      else if Contains normalized ''gpt-5.3-codex-spark'' then ''gpt-5.3-codex-spark''
      else if Contains normalized ''gpt-5.3-codex'' then ''gpt-5.3-codex''
      else if Contains normalized ''gpt-5.3'' then ''gpt-5.3-codex''
      else if Contains normalized ''codex'' then ''gpt-5.3-codex''
      else if Contains normalized ''gpt-5'' then ''gpt-5.4''
      else [])"

definition normalizeKnownOpenAICodexModel :: "(string \<Rightarrow> string) \<Rightarrow> string \<Rightarrow> string" where
  "normalizeKnownOpenAICodexModel ulow model =
     (let normalized = CanonicalizeOpenAIModelAliasSpelling ulow model
      in if normalized = [] then []
         else (let mapped = getNormalizedCodexModel ulow normalized
               in if mapped \<noteq> [] then mapped
                  else (let compact = getNormalizedCodexModel ulow (TrimSuffix normalized ''-openai-compact'')
                        in if HasSuffix normalized ''-openai-compact'' \<and> compact \<noteq> [] then compact
                           else if IsGPT61SolModelSpelling ulow normalized then ''gpt-6.1-sol''
                           else if IsGPT61TerraModelSpelling ulow normalized then ''gpt-6.1-terra''
                           else if IsGPT6SolOrLunaModelSpelling ulow normalized
                             then (if HasPrefix normalized ''gpt-6-sol'' then ''gpt-6-sol'' else ''gpt-6-luna'')
                           else model_family ulow normalized)))"

section \<open>Image models\<close>

definition IsGPTImageGenerationModel :: "(string \<Rightarrow> string) \<Rightarrow> string \<Rightarrow> bool" where
  "IsGPTImageGenerationModel ulow model \<longleftrightarrow> HasPrefix (ToLower ulow (TrimSpace model)) ''gpt-image-''"

definition isGrokImageGenerationModel :: "(string \<Rightarrow> string) \<Rightarrow> string \<Rightarrow> bool" where
  "isGrokImageGenerationModel ulow m =
     (let model = ToLower ulow (TrimSpace m)
      in model = ''grok-imagine'' \<or> model = ''grok-imagine-edit'' \<or> HasPrefix model ''grok-imagine-image'')"

definition isImageGenerationModel :: "(string \<Rightarrow> string) \<Rightarrow> string \<Rightarrow> bool" where
  "isImageGenerationModel ulow model =
     (let modelLower = TrimPrefix (ToLower ulow model) ''models/''
      in modelLower = ''gemini-3.1-flash-image'' \<or> modelLower = ''gemini-3.1-flash-image-preview''
         \<or> HasPrefix modelLower ''gemini-3.1-flash-image-'' \<or> modelLower = ''gemini-3.1-flash-lite-image''
         \<or> HasPrefix modelLower ''gemini-3.1-flash-lite-image-'' \<or> modelLower = ''gemini-3-pro-image''
         \<or> modelLower = ''gemini-3-pro-image-preview'' \<or> HasPrefix modelLower ''gemini-3-pro-image-''
         \<or> modelLower = ''gemini-2.5-flash-image'' \<or> modelLower = ''gemini-2.5-flash-image-preview''
         \<or> HasPrefix modelLower ''gemini-2.5-flash-image-'')"

definition isOpenAIImageGenerationModel :: "(string \<Rightarrow> string) \<Rightarrow> string \<Rightarrow> bool" where
  "isOpenAIImageGenerationModel ulow model \<longleftrightarrow>
     IsGPTImageGenerationModel ulow model \<or> isGrokImageGenerationModel ulow model \<or> isImageGenerationModel ulow model"

section \<open>Normalising\<close>

fun version_target :: "(string \<times> string) list \<Rightarrow> string \<Rightarrow> string option" where
  "version_target [] key = None"
| "version_target ((pfx, target) # items) key =
     (if key = pfx then Some target
      else (case CutPrefix key (pfx @ ''-'') of
              Some s \<Rightarrow> if isKnownCodexModelSuffix s then Some target else version_target items key
            | None \<Rightarrow> version_target items key))"

text \<open>\<^verbatim>\<open>("", false)\<close> is \<^const>\<open>None\<close>.\<close>

definition normalizeKnownCodexModel :: "(string \<Rightarrow> string) \<Rightarrow> string \<Rightarrow> string option" where
  "normalizeKnownCodexModel ulow m =
     (let model = TrimSpace m
      in if model = [] then None
         else if isOpenAIImageGenerationModel ulow model then Some model
         else (let segment = lastOpenAIModelSegment model;
                   normalized = CanonicalizeOpenAIModelAliasSpelling ulow segment;
                   modelID = (if normalized \<noteq> [] then normalized else segment);
                   mapped = normalizeKnownOpenAICodexModel ulow modelID
               in if mapped \<noteq> [] then Some mapped
                  else (let key = codexModelLookupKey ulow modelID
                        in if key = [] then None
                           else (let by_key = getNormalizedCodexModel ulow key
                                 in if by_key \<noteq> [] then Some by_key
                                    else version_target codexVersionModelPrefixes key))))"

definition normalizeCodexModel :: "(string \<Rightarrow> string) \<Rightarrow> string \<Rightarrow> string" where
  "normalizeCodexModel ulow m =
     (let model = TrimSpace m
      in if model = [] then ''gpt-5.4''
         else (case normalizeKnownCodexModel ulow model of Some mapped \<Rightarrow> mapped | None \<Rightarrow> model))"

definition isCodexSparkModel :: "(string \<Rightarrow> string) \<Rightarrow> string \<Rightarrow> bool" where
  "isCodexSparkModel ulow model \<longleftrightarrow> normalizeCodexModel ulow model = ''gpt-5.3-codex-spark''"

section \<open>Reasoning effort in the name\<close>

text \<open>\<^const>\<open>None\<close> for \<^verbatim>\<open>ok = false\<close>.\<close>

definition splitOpenAICompatReasoningModel :: "(string \<Rightarrow> string) \<Rightarrow> string \<Rightarrow> (string \<times> string) option" where
  "splitOpenAICompatReasoningModel ulow model =
     (let trimmed = TrimSpace model
      in if trimmed = [] then None
         else (let modelID = TrimSpace (if Contains trimmed ''/'' then last (Split trimmed CHR ''/'') else trimmed)
               in if \<not> HasPrefix (ToLower ulow modelID) ''gpt-'' then None
                  else (let parts = FieldsFunc (\<lambda>r. r \<in> {CHR ''-'', CHR ''_'', CHR '' ''}) (ToLower ulow modelID)
                        in if parts = [] then None
                           else (let lst = RemoveByte (RemoveByte (RemoveByte (last parts) CHR ''-'') CHR ''_'') CHR '' ''
                                 in if lst \<in> {''none'', ''minimal''} then Some (normalizeCodexModel ulow modelID, [])
                                    else if lst \<in> {''low'', ''medium'', ''high''}
                                      then Some (normalizeCodexModel ulow modelID, lst)
                                    else if lst \<in> {''xhigh'', ''extrahigh''}
                                      then Some (normalizeCodexModel ulow modelID, ''xhigh'')
                                    else None))))"

definition NormalizeOpenAICompatRequestedModel :: "(string \<Rightarrow> string) \<Rightarrow> string \<Rightarrow> string" where
  "NormalizeOpenAICompatRequestedModel ulow model =
     (if IsGPT61TerraModelSpelling ulow model then ''gpt-6.1-terra''
      else if IsGPT61SolModelSpelling ulow model then ''gpt-6.1-sol''
      else (let trimmed = TrimSpace model
            in if trimmed = [] then []
               else (case splitOpenAICompatReasoningModel ulow trimmed of
                       None \<Rightarrow> trimmed
                     | Some (normalized, effort) \<Rightarrow> if normalized = [] then trimmed else normalized)))"

definition openAIReasoningEffortToClaudeOutputEffort :: "string \<Rightarrow> string" where
  "openAIReasoningEffortToClaudeOutputEffort effort =
     (if TrimSpace effort \<in> {''low'', ''medium'', ''high''} then effort
      else if TrimSpace effort = ''xhigh'' then ''max'' else [])"

text \<open>The fields of \<^verbatim>\<open>AnthropicRequest\<close> that are read; \<^verbatim>\<open>OutputConfig\<close> holds an effort and may be nil.\<close>

record anthropic_request =
  req_model :: string
  output_config :: "string option"

definition applyOpenAICompatModelNormalization :: "(string \<Rightarrow> string) \<Rightarrow> anthropic_request \<Rightarrow> anthropic_request" where
  "applyOpenAICompatModelNormalization ulow req =
     (let canonical = CanonicalizeOpenAIModelAliasSpelling ulow (req_model req);
          baseModel = NormalizeOpenAICompatRequestedModel ulow (req_model req);
          gpt61 = (if IsGPT61SolModelSpelling ulow (req_model req) \<or> IsGPT61TerraModelSpelling ulow (req_model req)
                   then CutPrefix canonical (baseModel @ ''-'') else None)
      in if gpt61 \<noteq> None \<and> gpt61 \<noteq> Some ''openai-compact'' then
           req\<lparr>req_model := baseModel,
               output_config := Some (if output_config req \<in> {None, Some []} then the gpt61 else the (output_config req))\<rparr>
         else (let originalModel = TrimSpace (req_model req)
               in if originalModel = [] then req
                  else (let split = splitOpenAICompatReasoningModel ulow originalModel;
                            req1 = (case split of
                                      Some (normalizedModel, derived) \<Rightarrow> if normalizedModel \<noteq> [] then req\<lparr>req_model := normalizedModel\<rparr> else req
                                    | None \<Rightarrow> req);
                            derivedEffort = (case split of Some (n, derived) \<Rightarrow> derived | None \<Rightarrow> []);
                            claudeEffort = openAIReasoningEffortToClaudeOutputEffort derivedEffort
                        in if (case output_config req1 of None \<Rightarrow> False | Some e \<Rightarrow> TrimSpace e \<noteq> []) then req1
                           else if claudeEffort = [] then req1
                           else req1\<lparr>output_config := Some claudeEffort\<rparr>)))"

section \<open>The loop over double dashes\<close>

text \<open>The reference: a dash after a dash is dropped.\<close>

fun squeeze :: "string \<Rightarrow> string" where
  "squeeze (a # b # s) = (if a = CHR ''-'' \<and> b = CHR ''-'' then squeeze (b # s) else a # squeeze (b # s))"
| "squeeze s = s"

lemma squeeze_single: "\<not> Contains s ''--'' \<Longrightarrow> squeeze s = s"
  by (induction s rule: squeeze.induct) (auto simp: Contains_Cons)

lemma squeeze_no_double: "\<not> Contains (squeeze s) ''--''"
proof (induction s rule: squeeze.induct)
  case (1 a b s)
  have "\<exists>t. squeeze (b # s) = b # t" 
    by (induction s arbitrary: b) auto
  with 1 show ?case by (auto simp: Contains_Cons)
qed (auto simp: Contains_def)

lemma squeeze_Cons: "squeeze (c # s) = (if c = CHR ''-'' \<and> prefix ''-'' (squeeze s) then squeeze s else c # squeeze s)"
proof (cases s)
  case (Cons b t)
  have "\<exists>u. squeeze (b # t) = b # u" by (induction t arbitrary: b) auto
  with Cons show ?thesis by auto
qed simp

lemma squeeze_ReplaceAll: "squeeze (ReplaceAll s ''--'' ''-'') = squeeze s"
proof (induction "length s" arbitrary: s rule: less_induct)
  case less
  show ?case
  proof (cases "prefix ''--'' s")
    case True
    then obtain t where s: "s = CHR ''-'' # CHR ''-'' # t" by (auto simp: prefix_def)
    then have "squeeze (ReplaceAll t ''--'' ''-'') = squeeze t" by (intro less) simp
    moreover have "ReplaceAll s ''--'' ''-'' = CHR ''-'' # ReplaceAll t ''--'' ''-''"
      using s by (simp add: ReplaceAll.simps(2))
    moreover have "squeeze s = squeeze (CHR ''-'' # t)" using s by simp
    ultimately show ?thesis by (simp only: squeeze_Cons [of "CHR ''-''"])
  next
    case False
    then show ?thesis
    proof (cases s)
      case (Cons c t)
      then have "squeeze (ReplaceAll t ''--'' ''-'') = squeeze t" by (intro less) simp
      moreover have "ReplaceAll s ''--'' ''-'' = c # ReplaceAll t ''--'' ''-''"
        using False Cons by (simp only: ReplaceAll.simps(2)) simp
      ultimately show ?thesis using Cons by (simp only: squeeze_Cons [of c])
    qed simp
  qed
qed

lemma collapse_dashes_squeeze: "collapse_dashes s = squeeze s"
proof (induction s rule: collapse_dashes.induct)
  case (1 s)
  then show ?case by (subst collapse_dashes.simps) (auto simp: squeeze_ReplaceAll squeeze_single)
qed

text \<open>
  C28. The loop over double dashes ends for every name, and what it leaves is the name without the dashes
  that follow a dash.
\<close>

theorem dash_loop_terminates:
  "while_option (\<lambda>s. Contains s ''--'') (\<lambda>s. ReplaceAll s ''--'' ''-'') s = Some (collapse_dashes s)
   \<and> \<not> Contains (collapse_dashes s) ''--'' \<and> collapse_dashes s = squeeze s"
proof -
  have "while_option (\<lambda>s. Contains s ''--'') (\<lambda>s. ReplaceAll s ''--'' ''-'') s = Some (collapse_dashes s)"
  proof (induction s rule: collapse_dashes.induct)
    case (1 s)
    then show ?case by (subst while_option_unfold, subst collapse_dashes.simps) auto
  qed
  then show ?thesis by (simp add: collapse_dashes_squeeze squeeze_no_double)
qed

section \<open>Canonical names\<close>

lemma plain_hd: "plain_name s \<Longrightarrow> s \<noteq> [] \<Longrightarrow> is_graphic (hd s)"
  by (cases s) (auto simp: plain_name_def)

lemma strip_one_graphic: "is_graphic c \<Longrightarrow> strip_one space_runes (c # s) = None"
  using trim_left_stuck [of space_runes "c # s"] trim_left_graphic(1) [of "c # s"] by simp

lemma split_spaces_graphic: "list_all is_graphic s \<Longrightarrow> split_spaces s = [s]"
proof (induction s)
  case Nil
  have "strip_one space_runes [] = None"
    using trim_left_stuck [of space_runes "[]"] trim_left_suffix [of space_runes "[]"] by simp
  then show ?case by (simp add: split_spaces.simps [of "[]"])
next
  case (Cons c s)
  then show ?case by (simp add: split_spaces.simps [of "c # s"] strip_one_graphic)
qed

lemma plain_graphic: "plain_name s \<Longrightarrow> list_all is_graphic s"
  by (auto simp: plain_name_def list_all_iff)

lemma plain_Fields: "plain_name s \<Longrightarrow> s \<noteq> [] \<Longrightarrow> Fields s = [s]"
  by (simp add: Fields_def split_spaces_graphic plain_graphic)

lemma plain_Join_Fields: "plain_name s \<Longrightarrow> Join (Fields s) sep = s"
  by (cases "s = []") (simp_all add: Fields_def split_spaces_graphic plain_graphic)

definition canonical_name :: "string \<Rightarrow> bool" where
  "canonical_name s \<longleftrightarrow> plain_name s \<and> s \<noteq> [] \<and> CHR ''/'' \<notin> set s \<and> CHR ''_'' \<notin> set s \<and> \<not> Contains s ''--''
     \<and> \<not> HasPrefix s ''gpt5'' \<and> (HasPrefix s ''gpt-'' \<or> Contains s ''codex'')
     \<and> list_all (\<lambda>(from, to). \<not> Contains s from) spelling_replacements"

lemma canonical_fixed: "canonical_name s \<Longrightarrow> CanonicalizeOpenAIModelAliasSpelling ulow s = s"
  unfolding canonical_name_def spelling_replacements_def
  by (auto simp: CanonicalizeOpenAIModelAliasSpelling_def Let_def plain_simps LastIndexByte_absent ReplaceAll_absent
      Contains_byte plain_Join_Fields collapse_dashes_squeeze squeeze_single spelling_replacements_def)

lemma lookup_key_plain: "plain_name s \<Longrightarrow> CHR ''/'' \<notin> set s \<Longrightarrow> codexModelLookupKey ulow s = s"
  by (simp add: codexModelLookupKey_def Let_def plain_simps Contains_byte plain_Join_Fields)

lemma canonical_nameD:
  fixes ulow :: "string \<Rightarrow> string"
  assumes "canonical_name s"
  shows "plain_name s" and "CHR ''/'' \<notin> set s" and "TrimSpace s = s" and "ToLower ulow s = s" and "s \<noteq> []"
    and "lastOpenAIModelSegment s = s" and "codexModelLookupKey ulow s = s"
  using assms lookup_key_plain [of s ulow]
  by (simp_all add: canonical_name_def plain_simps lastOpenAIModelSegment_def Contains_byte)


lemmas canonical_name_simps = canonical_name_def plain_name_def is_graphic_def spelling_replacements_def

lemma canonical_gpt61:
  assumes "canonical_name s"
  shows "IsGPT61SolModelSpelling ulow s \<longleftrightarrow> s = ''gpt-6.1-sol'' \<or> (case CutPrefix s ''gpt-6.1-sol-'' of None \<Rightarrow> False | Some t \<Rightarrow> t \<in> set gpt61_suffixes)"
    and "IsGPT61TerraModelSpelling ulow s \<longleftrightarrow> s = ''gpt-6.1-terra'' \<or> (case CutPrefix s ''gpt-6.1-terra-'' of None \<Rightarrow> False | Some t \<Rightarrow> t \<in> set gpt61_suffixes)"
  by (simp_all add: IsGPT61SolModelSpelling_def IsGPT61TerraModelSpelling_def canonical_fixed [OF assms] Let_def)

lemma canonical_image:
  assumes "canonical_name s"
  shows "isOpenAIImageGenerationModel ulow s = isOpenAIImageGenerationModel id s"
  by (simp add: isOpenAIImageGenerationModel_def IsGPTImageGenerationModel_def isGrokImageGenerationModel_def
      isImageGenerationModel_def canonical_nameD [OF assms])

lemma canonical_getNormalized:
  assumes "canonical_name s"
  shows "getNormalizedCodexModel ulow s = (case map_of codexModelMap s of Some m \<Rightarrow> m | None \<Rightarrow> [])"
  using canonical_nameD(5) [OF assms] by (simp add: getNormalizedCodexModel_def canonical_nameD [OF assms] Let_def)


lemma known_of_canonical:
  assumes "canonical_name s" and "\<not> isOpenAIImageGenerationModel id s" and "normalizeKnownOpenAICodexModel ulow s = t" and "t \<noteq> []"
  shows "normalizeCodexModel ulow s = t"
  using assms(2-) canonical_nameD(5) [OF assms(1)] canonical_image [OF assms(1), of ulow]
  by (simp add: normalizeCodexModel_def normalizeKnownCodexModel_def canonical_nameD [OF assms(1)] canonical_fixed [OF assms(1)] Let_def)

lemma known_by_map:
  assumes "canonical_name s" and "map_of codexModelMap s = Some t" and "t \<noteq> []"
  shows "normalizeKnownOpenAICodexModel ulow s = t"
  using assms canonical_nameD(5) [OF assms(1)] by (simp add: normalizeKnownOpenAICodexModel_def canonical_fixed canonical_getNormalized Let_def)


section \<open>The models that a name can stand for\<close>

definition codex_targets :: "string list" where
  "codex_targets =
     [''gpt-6.1-terra'', ''gpt-6.1-sol'', ''gpt-6-sol'', ''gpt-6-luna'', ''gpt-6-astra'', ''gpt-5.6-sol'', ''gpt-5.6-terra'',
      ''gpt-5.6-luna'', ''gpt-5.5'', ''gpt-5.5-pro'', ''codex-auto-review'', ''gpt-5.4'', ''gpt-5.4-mini'', ''gpt-5.4-nano'',
      ''gpt-5.3-codex'', ''gpt-5.3-codex-spark'', ''gpt-5.2'']"

lemma target_canonical: "s \<in> set codex_targets \<Longrightarrow> canonical_name s"
proof -
  have "list_all canonical_name codex_targets"
    by (simp add: codex_targets_def canonical_name_simps Contains_def)
  then show "s \<in> set codex_targets \<Longrightarrow> canonical_name s" by (simp add: list_all_iff)
qed

lemma target_not_image: "s \<in> set codex_targets \<Longrightarrow> \<not> isOpenAIImageGenerationModel ulow s"
proof -
  assume s: "s \<in> set codex_targets"
  have "list_all (\<lambda>t. \<not> HasPrefix t ''gpt-image-'' \<and> t \<noteq> ''grok-imagine'' \<and> t \<noteq> ''grok-imagine-edit'' \<and> \<not> HasPrefix t ''grok-imagine-image''
     \<and> \<not> HasPrefix t ''models/'' \<and> \<not> HasPrefix t ''gemini-'') codex_targets"
    by (simp add: codex_targets_def)
  with s have *: "\<not> HasPrefix s ''gpt-image-''" "s \<noteq> ''grok-imagine''" "s \<noteq> ''grok-imagine-edit''" "\<not> HasPrefix s ''grok-imagine-image''"
     "\<not> HasPrefix s ''models/''" "\<not> HasPrefix s ''gemini-''" by (auto simp: list_all_iff)
  have "\<not> HasPrefix s (''gemini-'' @ x)" for x using *(6) by (meson append_prefixD)
  from this [of "''3.1-flash-image''"] this [of "''3.1-flash-image-''"] this [of "''3.1-flash-image-preview''"]
    this [of "''3.1-flash-lite-image''"] this [of "''3.1-flash-lite-image-''"] this [of "''3-pro-image''"] this [of "''3-pro-image-''"]
    this [of "''3-pro-image-preview''"] this [of "''2.5-flash-image''"] this [of "''2.5-flash-image-''"] this [of "''2.5-flash-image-preview''"]
  have "\<not> isImageGenerationModel ulow s"
    by (auto simp: isImageGenerationModel_def canonical_nameD [OF target_canonical [OF s]] TrimPrefix_def *(5))
  with * show ?thesis
    by (simp add: isOpenAIImageGenerationModel_def IsGPTImageGenerationModel_def isGrokImageGenerationModel_def
        canonical_nameD [OF target_canonical [OF s]])
qed

text \<open>Evaluation at a canonical name.\<close>

lemmas known_eval = normalizeKnownOpenAICodexModel_def canonical_fixed canonical_getNormalized canonical_gpt61
  IsGPT6SolOrLunaModelSpelling_def GPT6SolOrLunaBaseModel_def CutPrefix_def model_family_def isOpenAIGPT6AstraModel_def
  codexModelMap_def Contains_def Let_def suffix_to_prefix

lemmas image_eval = isOpenAIImageGenerationModel_def IsGPTImageGenerationModel_def isGrokImageGenerationModel_def
  isImageGenerationModel_def TrimPrefix_def canonical_nameD

lemma nano_known: "normalizeKnownOpenAICodexModel ulow ''gpt-5.4-nano'' = ''gpt-5.4-nano''"
proof -
  have c: "canonical_name ''gpt-5.4-nano''" by (rule target_canonical) (simp add: codex_targets_def)
  show ?thesis using c by (simp add: known_eval)
qed

lemma target_fixed: "s \<in> set codex_targets \<Longrightarrow> normalizeCodexModel ulow s = s"
proof -
  assume s: "s \<in> set codex_targets"
  have "list_all (\<lambda>t. map_of codexModelMap t = (if t = ''gpt-5.4-nano'' then None else Some t)) codex_targets"
    by (simp add: codex_targets_def codexModelMap_def)
  with s have "s = ''gpt-5.4-nano'' \<or> map_of codexModelMap s = Some s" by (auto simp: list_all_iff split: if_splits)
  then have "normalizeKnownOpenAICodexModel ulow s = s"
    using nano_known known_by_map [OF target_canonical [OF s]] canonical_nameD(5) [OF target_canonical [OF s]] by auto
  with known_of_canonical [OF target_canonical [OF s] target_not_image [OF s]] canonical_nameD(5) [OF target_canonical [OF s]]
  show ?thesis by simp
qed

lemma map_targets: "map_of codexModelMap k = Some t \<Longrightarrow> t \<in> set codex_targets"
proof -
  have "list_all (\<lambda>(k, t). t \<in> set codex_targets) codexModelMap" by (simp add: codexModelMap_def codex_targets_def)
  then show "map_of codexModelMap k = Some t \<Longrightarrow> t \<in> set codex_targets" by (auto simp: list_all_iff dest: map_of_SomeD)
qed

lemma getNormalized_targets: "getNormalizedCodexModel ulow m \<noteq> [] \<Longrightarrow> getNormalizedCodexModel ulow m \<in> set codex_targets"
  by (auto simp: getNormalizedCodexModel_def Let_def split: if_splits option.splits dest: map_targets)

lemma if_in: "(c \<Longrightarrow> x \<in> S) \<Longrightarrow> (\<not> c \<Longrightarrow> y \<in> S) \<Longrightarrow> (if c then x else y) \<in> S"
  by simp

lemma family_targets: "model_family ulow m \<in> insert [] (set codex_targets)"
  unfolding model_family_def Let_def by (intro if_in) (auto simp: codex_targets_def)

lemma known_targets:
  assumes "normalizeKnownOpenAICodexModel ulow m \<noteq> []"
  shows "normalizeKnownOpenAICodexModel ulow m \<in> set codex_targets"
proof -
  have "''gpt-6.1-sol'' \<in> set codex_targets" "''gpt-6.1-terra'' \<in> set codex_targets" "''gpt-6-sol'' \<in> set codex_targets"
    "''gpt-6-luna'' \<in> set codex_targets" by (simp_all add: codex_targets_def)
  then show ?thesis using assms getNormalized_targets family_targets
    unfolding normalizeKnownOpenAICodexModel_def Let_def by (auto split: if_splits)
qed

lemma version_target_in: "version_target items k = Some t \<Longrightarrow> t \<in> snd ` set items"
  by (induction items k rule: version_target.induct) (auto split: if_splits option.splits)

lemma version_targets: "version_target codexVersionModelPrefixes k = Some t \<Longrightarrow> t \<in> set codex_targets"
proof -
  have "list_all (\<lambda>(k, t). t \<in> set codex_targets) codexVersionModelPrefixes"
    by (simp add: codexVersionModelPrefixes_def codex_targets_def)
  then show "version_target codexVersionModelPrefixes k = Some t \<Longrightarrow> t \<in> set codex_targets"
    by (auto simp: list_all_iff dest!: version_target_in)
qed

lemma normalize_result: "normalizeCodexModel ulow m = TrimSpace m \<or> normalizeCodexModel ulow m \<in> set codex_targets"
proof -
  have "''gpt-5.4'' \<in> set codex_targets" by (simp add: codex_targets_def)
  then show ?thesis
    using known_targets getNormalized_targets version_targets
    by (auto simp: normalizeCodexModel_def normalizeKnownCodexModel_def Let_def split: if_splits option.splits)
qed

lemma normalize_trim: "normalizeCodexModel ulow (TrimSpace m) = normalizeCodexModel ulow m"
  by (simp add: normalizeCodexModel_def)

text \<open>
  \<^verbatim>\<open>normalizeCodexModel\<close> is stable: every name is either left alone or mapped to one of a fixed list of
  models, and the model that it answers stands for itself.
\<close>

theorem normalizeCodexModel_stable:
  "(normalizeCodexModel ulow m = TrimSpace m \<or> normalizeCodexModel ulow m \<in> set codex_targets)
   \<and> normalizeCodexModel ulow (normalizeCodexModel ulow m) = normalizeCodexModel ulow m"
  using normalize_result [of ulow m] normalize_trim [of ulow m] target_fixed [of "normalizeCodexModel ulow m" ulow] by auto

section \<open>Segments\<close>

text \<open>Both ways to cut off the path agree, and the canonical spelling only sees the segment.\<close>

lemma segment_cases:
  obtains "CHR ''/'' \<notin> set t" "LastIndexByte t CHR ''/'' = None"
  | i where "CHR ''/'' \<in> set t" "LastIndexByte t CHR ''/'' = Some i" "drop (i + 1) t = last (Split t CHR ''/'')"
      "CHR ''/'' \<notin> set (last (Split t CHR ''/''))"
proof (cases "CHR ''/'' \<in> set t")
  case True
  then obtain a b where "t = a @ CHR ''/'' # b" "CHR ''/'' \<notin> set b" by (metis split_list_last)
  then show ?thesis by (intro that(2) [of "length a"]) (simp_all add: LastIndexByte_split last_Split)
qed (simp add: that(1) LastIndexByte_absent)

lemma segment_eq:
  "lastOpenAIModelSegment m =
     (case LastIndexByte (TrimSpace m) CHR ''/'' of Some slash \<Rightarrow> TrimSpace (drop (slash + 1) (TrimSpace m)) | None \<Rightarrow> TrimSpace m)"
  by (cases rule: segment_cases [of "TrimSpace m"])
    (auto simp: lastOpenAIModelSegment_def Contains_byte Let_def LastIndexByte_absent)

lemma segment_props:
  shows segment_trim: "TrimSpace (lastOpenAIModelSegment m) = lastOpenAIModelSegment m"
    and segment_no_slash: "CHR ''/'' \<notin> set (lastOpenAIModelSegment m)"
    and segment_idem: "lastOpenAIModelSegment (lastOpenAIModelSegment m) = lastOpenAIModelSegment m"
proof -
  show a: "TrimSpace (lastOpenAIModelSegment m) = lastOpenAIModelSegment m" by (simp add: segment_eq split: option.split)
  show b: "CHR ''/'' \<notin> set (lastOpenAIModelSegment m)"
    using TrimSpace_sub [of "last (Split (TrimSpace m) CHR ''/'')"]
    by (cases rule: segment_cases [of "TrimSpace m"]) (auto simp: segment_eq)
  show "lastOpenAIModelSegment (lastOpenAIModelSegment m) = lastOpenAIModelSegment m"
    using a b by (simp add: segment_eq [of "lastOpenAIModelSegment m"] LastIndexByte_absent)
qed

lemma canonical_segment:
  "CanonicalizeOpenAIModelAliasSpelling ulow m = CanonicalizeOpenAIModelAliasSpelling ulow (lastOpenAIModelSegment m)"
  unfolding CanonicalizeOpenAIModelAliasSpelling_def Let_def segment_eq [symmetric] segment_idem ..

section \<open>The effort in the name\<close>

definition effort_of :: "(string \<Rightarrow> string) \<Rightarrow> string \<Rightarrow> string option" where
  "effort_of ulow modelID =
     (if \<not> HasPrefix (ToLower ulow modelID) ''gpt-'' then None
      else (let parts = FieldsFunc (\<lambda>r. r \<in> {CHR ''-'', CHR ''_'', CHR '' ''}) (ToLower ulow modelID)
            in if parts = [] then None
               else (let lst = RemoveByte (RemoveByte (RemoveByte (last parts) CHR ''-'') CHR ''_'') CHR '' ''
                     in if lst \<in> {''none'', ''minimal''} then Some []
                        else if lst \<in> {''low'', ''medium'', ''high''} then Some lst
                        else if lst \<in> {''xhigh'', ''extrahigh''} then Some ''xhigh'' else None)))"

lemma split_effort:
  "splitOpenAICompatReasoningModel ulow m =
     map_option (\<lambda>d. (normalizeCodexModel ulow (lastOpenAIModelSegment m), d)) (effort_of ulow (lastOpenAIModelSegment m))"
proof (cases "TrimSpace m = []")
  case True
  then have "lastOpenAIModelSegment m = []" by (simp add: lastOpenAIModelSegment_def)
  then show ?thesis using True ToLower_ascii [of "[]" ulow] by (simp add: splitOpenAICompatReasoningModel_def effort_of_def is_ascii_def)
next
  case False
  then have "lastOpenAIModelSegment m = TrimSpace (if Contains (TrimSpace m) ''/'' then last (Split (TrimSpace m) CHR ''/'') else TrimSpace m)"
    by (simp add: lastOpenAIModelSegment_def)
  with False show ?thesis by (simp add: splitOpenAICompatReasoningModel_def effort_of_def Let_def)
qed

lemma effort_values: "effort_of ulow m = Some d \<Longrightarrow> d \<in> {[], ''low'', ''medium'', ''high'', ''xhigh''}"
  by (auto simp: effort_of_def Let_def split: if_splits)

lemma target_no_effort: "s \<in> set codex_targets \<Longrightarrow> effort_of ulow s = None"
proof -
  assume s: "s \<in> set codex_targets"
  have "list_all (\<lambda>t. HasPrefix t ''gpt-'' \<longrightarrow> last (FieldsFunc (\<lambda>r. r \<in> {CHR ''-'', CHR ''_'', CHR '' ''}) t)
     \<in> {''terra'', ''sol'', ''luna'', ''astra'', ''5.5'', ''5.4'', ''5.2'', ''pro'', ''mini'', ''nano'', ''codex'', ''spark''}) codex_targets"
    by (simp add: codex_targets_def FieldsFunc_def)
  with s have *: "HasPrefix s ''gpt-'' \<Longrightarrow> last (FieldsFunc (\<lambda>r. r \<in> {CHR ''-'', CHR ''_'', CHR '' ''}) s)
     \<in> {''terra'', ''sol'', ''luna'', ''astra'', ''5.5'', ''5.4'', ''5.2'', ''pro'', ''mini'', ''nano'', ''codex'', ''spark''}"
    by (auto simp: list_all_iff)
  have "ToLower ulow s = s" using canonical_nameD(4) [OF target_canonical [OF s]] .
  with * show ?thesis
    by (auto simp: effort_of_def Let_def RemoveByte_def)
qed

lemma target_segment: "s \<in> set codex_targets \<Longrightarrow> lastOpenAIModelSegment s = s"
  by (rule canonical_nameD(6)) (rule target_canonical)

lemma split_target: "s \<in> set codex_targets \<Longrightarrow> splitOpenAICompatReasoningModel ulow s = None"
  by (simp add: split_effort target_segment target_no_effort)

lemma normalize_not_Nil: "normalizeCodexModel ulow m \<noteq> []"
proof -
  have "[] \<notin> set codex_targets" by (simp add: codex_targets_def)
  moreover have "TrimSpace m = [] \<Longrightarrow> normalizeCodexModel ulow m = ''gpt-5.4''" by (simp add: normalizeCodexModel_def)
  ultimately show ?thesis using normalize_result [of ulow m] by fastforce
qed

lemma split_again:
  assumes "splitOpenAICompatReasoningModel ulow m = Some (n, d)"
  shows "n \<noteq> []" and "d \<in> {[], ''low'', ''medium'', ''high'', ''xhigh''}"
    and "n \<in> set codex_targets \<or> n = lastOpenAIModelSegment m \<and> splitOpenAICompatReasoningModel ulow n = Some (n, d)"
proof -
  let ?s = "lastOpenAIModelSegment m"
  from assms have n: "n = normalizeCodexModel ulow ?s" "effort_of ulow ?s = Some d"
    by (auto simp: split_effort split: if_splits)
  show "n \<noteq> []" "d \<in> {[], ''low'', ''medium'', ''high'', ''xhigh''}"
    using n(1) normalize_not_Nil effort_values [OF n(2)] by simp_all
  have "n = ?s \<or> n \<in> set codex_targets" using normalize_result [of ulow ?s] segment_trim n(1) by metis
  moreover have "splitOpenAICompatReasoningModel ulow ?s = Some (?s, d)" if "n = ?s"
    using that n by (simp add: split_effort segment_idem)
  ultimately show "n \<in> set codex_targets \<or> n = ?s \<and> splitOpenAICompatReasoningModel ulow n = Some (n, d)" by metis
qed

section \<open>The request\<close>

definition gpt61_effort :: "(string \<Rightarrow> string) \<Rightarrow> string \<Rightarrow> string option" where
  "gpt61_effort ulow model =
     (if IsGPT61SolModelSpelling ulow model \<or> IsGPT61TerraModelSpelling ulow model
      then CutPrefix (CanonicalizeOpenAIModelAliasSpelling ulow model) (NormalizeOpenAICompatRequestedModel ulow model @ ''-'') else None)"

lemma gpt61_segment: "gpt61_effort ulow (lastOpenAIModelSegment m) = gpt61_effort ulow m"
proof -
  have "IsGPT61SolModelSpelling ulow (lastOpenAIModelSegment m) = IsGPT61SolModelSpelling ulow m"
    "IsGPT61TerraModelSpelling ulow (lastOpenAIModelSegment m) = IsGPT61TerraModelSpelling ulow m"
    using canonical_segment [of ulow m] by (simp_all add: IsGPT61SolModelSpelling_def IsGPT61TerraModelSpelling_def)
  then show ?thesis using canonical_segment [of ulow m]
    by (simp add: gpt61_effort_def NormalizeOpenAICompatRequestedModel_def)
qed

lemma gpt61_target: "s \<in> set codex_targets \<Longrightarrow> gpt61_effort ulow s = None"
proof -
  assume s: "s \<in> set codex_targets"
  note c = target_canonical [OF s]
  have "list_all (\<lambda>t. CutPrefix t ''gpt-6.1-sol-'' = None \<and> CutPrefix t ''gpt-6.1-terra-'' = None) codex_targets"
    by (simp add: codex_targets_def CutPrefix_def)
  with s have cut: "CutPrefix s ''gpt-6.1-sol-'' = None" "CutPrefix s ''gpt-6.1-terra-'' = None" by (auto simp: list_all_iff)
  have "IsGPT61SolModelSpelling ulow s \<longleftrightarrow> s = ''gpt-6.1-sol''" "IsGPT61TerraModelSpelling ulow s \<longleftrightarrow> s = ''gpt-6.1-terra''"
    using cut by (simp_all add: canonical_gpt61 [OF c])
  with cut show ?thesis by (auto simp: gpt61_effort_def NormalizeOpenAICompatRequestedModel_def canonical_fixed [OF c])
qed

lemma gpt61_base:
  assumes "gpt61_effort ulow m = Some e"
  shows "NormalizeOpenAICompatRequestedModel ulow m \<in> set codex_targets \<and> e \<noteq> []"
proof -
  let ?c = "CanonicalizeOpenAIModelAliasSpelling ulow m"
  have ne: "[] \<notin> set gpt61_suffixes" by (simp add: gpt61_suffixes_def)
  have base: "''gpt-6.1-terra'' \<in> set codex_targets" "''gpt-6.1-sol'' \<in> set codex_targets" by (simp_all add: codex_targets_def)
  show ?thesis
  proof (cases "IsGPT61TerraModelSpelling ulow m")
    case True
    then have "CutPrefix ?c ''gpt-6.1-terra-'' = Some e" using assms
      by (simp add: gpt61_effort_def NormalizeOpenAICompatRequestedModel_def)
    moreover from this have "e \<in> set gpt61_suffixes" using True
      by (auto simp: IsGPT61TerraModelSpelling_def Let_def CutPrefix_def)
    ultimately show ?thesis using True ne base by (auto simp: NormalizeOpenAICompatRequestedModel_def)
  next
    case False
    then have sol: "IsGPT61SolModelSpelling ulow m" using assms by (simp add: gpt61_effort_def split: if_splits)
    then have "CutPrefix ?c ''gpt-6.1-sol-'' = Some e" using assms False
      by (simp add: gpt61_effort_def NormalizeOpenAICompatRequestedModel_def)
    moreover from this have "e \<in> set gpt61_suffixes" using sol
      by (auto simp: IsGPT61SolModelSpelling_def Let_def CutPrefix_def)
    ultimately show ?thesis using False sol ne base by (auto simp: NormalizeOpenAICompatRequestedModel_def)
  qed
qed

lemma apply_gpt61:
  "gpt61_effort ulow (req_model r) = Some e \<Longrightarrow> e \<noteq> ''openai-compact'' \<Longrightarrow>
   applyOpenAICompatModelNormalization ulow r =
     r\<lparr>req_model := NormalizeOpenAICompatRequestedModel ulow (req_model r),
       output_config := Some (if output_config r \<in> {None, Some []} then e else the (output_config r))\<rparr>"
  by (simp add: applyOpenAICompatModelNormalization_def gpt61_effort_def [symmetric] Let_def)

definition given_effort :: "anthropic_request \<Rightarrow> bool" where
  "given_effort r = (case output_config r of None \<Rightarrow> False | Some e \<Rightarrow> TrimSpace e \<noteq> [])"

lemma apply_split:
  assumes "gpt61_effort ulow (req_model r) \<in> {None, Some ''openai-compact''}"
  shows "applyOpenAICompatModelNormalization ulow r =
    (case splitOpenAICompatReasoningModel ulow (req_model r) of None \<Rightarrow> r
     | Some (n, d) \<Rightarrow> r\<lparr>req_model := n, output_config :=
         (if given_effort r \<or> openAIReasoningEffortToClaudeOutputEffort d = [] then output_config r
          else Some (openAIReasoningEffortToClaudeOutputEffort d))\<rparr>)"
proof -
  have none: "openAIReasoningEffortToClaudeOutputEffort [] = []" by (simp add: openAIReasoningEffortToClaudeOutputEffort_def)
  have trim: "splitOpenAICompatReasoningModel ulow (TrimSpace (req_model r)) = splitOpenAICompatReasoningModel ulow (req_model r)"
    by (simp add: splitOpenAICompatReasoningModel_def)
  have blank: "TrimSpace (req_model r) = [] \<Longrightarrow> splitOpenAICompatReasoningModel ulow (req_model r) = None"
    by (simp add: splitOpenAICompatReasoningModel_def)
  have "r\<lparr>req_model := n, output_config := output_config r\<rparr> = r\<lparr>req_model := n\<rparr>" for n by simp
  then show ?thesis using assms blank split_again(1) [of ulow "req_model r"]
    by (auto simp: applyOpenAICompatModelNormalization_def gpt61_effort_def [symmetric] Let_def trim none given_effort_def split: option.splits)
qed

lemma apply_target: "req_model r \<in> set codex_targets \<Longrightarrow> applyOpenAICompatModelNormalization ulow r = r"
  by (simp add: apply_split gpt61_target split_target)

lemma claude_effort: "d \<in> {[], ''low'', ''medium'', ''high'', ''xhigh''} \<Longrightarrow>
    openAIReasoningEffortToClaudeOutputEffort d = [] \<or> TrimSpace (openAIReasoningEffortToClaudeOutputEffort d) \<noteq> []"
  by (auto simp: openAIReasoningEffortToClaudeOutputEffort_def plain_TrimSpace plain_name_def is_graphic_def)

text \<open>
  Normalising a request twice is normalising it once, and an effort that the client has set is kept.
\<close>

theorem applyOpenAICompatModelNormalization_stable:
  "applyOpenAICompatModelNormalization ulow (applyOpenAICompatModelNormalization ulow r) = applyOpenAICompatModelNormalization ulow r
   \<and> (case output_config r of None \<Rightarrow> True
      | Some e \<Rightarrow> TrimSpace e = [] \<or> output_config (applyOpenAICompatModelNormalization ulow r) = Some e)"
proof (cases "gpt61_effort ulow (req_model r) \<in> {None, Some ''openai-compact''}")
  case False
  then obtain e where e: "gpt61_effort ulow (req_model r) = Some e" "e \<noteq> ''openai-compact''" by auto
  note once = apply_gpt61 [OF e]
  have "applyOpenAICompatModelNormalization ulow (applyOpenAICompatModelNormalization ulow r) = applyOpenAICompatModelNormalization ulow r"
    by (rule apply_target) (use gpt61_base [OF e(1)] in \<open>simp add: once\<close>)
  then show ?thesis by (auto simp: once split: option.split)
next
  case True
  note once = apply_split [OF True]
  show ?thesis
  proof (cases "splitOpenAICompatReasoningModel ulow (req_model r)")
    case None
    then show ?thesis by (simp add: once split: option.split)
  next
    case (Some nd)
    obtain n d where nd: "splitOpenAICompatReasoningModel ulow (req_model r) = Some (n, d)" using Some by (cases nd) simp
    let ?r = "applyOpenAICompatModelNormalization ulow r"
    have model: "req_model ?r = n" by (simp add: once nd)
    have "applyOpenAICompatModelNormalization ulow ?r = ?r"
    proof (cases "n \<in> set codex_targets")
      case False
      then have n: "n = lastOpenAIModelSegment (req_model r)" "splitOpenAICompatReasoningModel ulow n = Some (n, d)"
        using split_again(3) [OF nd] by blast+
      have "gpt61_effort ulow (req_model ?r) \<in> {None, Some ''openai-compact''}" using True by (simp add: model n(1) gpt61_segment)
      from apply_split [OF this] have "applyOpenAICompatModelNormalization ulow ?r =
        ?r\<lparr>req_model := n, output_config :=
         (if given_effort ?r \<or> openAIReasoningEffortToClaudeOutputEffort d = [] then output_config ?r
          else Some (openAIReasoningEffortToClaudeOutputEffort d))\<rparr>" by (simp add: model n(2))
      then show ?thesis using claude_effort [OF split_again(2) [OF nd]] by (auto simp: once nd given_effort_def)
    qed (simp add: apply_target model)
    then show ?thesis by (auto simp: once nd given_effort_def split: option.split)
  qed
qed

text \<open>
  An effort of two words is read by its last word alone: the dash of \<^verbatim>\<open>extra-high\<close> separates fields
  before the replacer can remove it, so that the name asks for \<^verbatim>\<open>high\<close> where \<^verbatim>\<open>extrahigh\<close> asks for
  \<^verbatim>\<open>xhigh\<close>.
\<close>

theorem extra_high_is_high:
  "splitOpenAICompatReasoningModel ulow ''gpt-5.4-extra-high'' = Some (''gpt-5.4'', ''high'')
   \<and> splitOpenAICompatReasoningModel ulow ''gpt-5.4-extrahigh'' = Some (''gpt-5.4'', ''xhigh'')"
proof -
  have c: "canonical_name ''gpt-5.4-extra-high''" "canonical_name ''gpt-5.4-extrahigh''"
    by (simp_all add: canonical_name_simps Contains_def)
  have "normalizeKnownOpenAICodexModel ulow ''gpt-5.4-extra-high'' = ''gpt-5.4''" using c(1) by (simp add: known_eval)
  then have n1: "normalizeCodexModel ulow ''gpt-5.4-extra-high'' = ''gpt-5.4''"
    by (intro known_of_canonical [OF c(1)]) (use c(1) in \<open>simp_all add: image_eval\<close>)
  have "normalizeKnownOpenAICodexModel ulow ''gpt-5.4-extrahigh'' = ''gpt-5.4''" using c(2) by (simp add: known_eval)
  then have n2: "normalizeCodexModel ulow ''gpt-5.4-extrahigh'' = ''gpt-5.4''"
    by (intro known_of_canonical [OF c(2)]) (use c(2) in \<open>simp_all add: image_eval\<close>)
  show ?thesis
    by (simp add: split_effort effort_of_def canonical_nameD [OF c(1)] canonical_nameD [OF c(2)] n1 n2 FieldsFunc_def RemoveByte_def)
qed

end
