(* ===== verification/Model_Allowlist.thy ===== *)
theory Model_Allowlist
  imports Codex_Models App_Errors
begin

text \<open>
  The model allowlist of a group (\<^verbatim>\<open>backend/internal/service/group_model_allowlist.go\<close>): which models a
  client may name, how an administrator's list is normalised, and which models are listed.

  The Unicode case tables are the arguments \<open>ulow\<close> and \<open>ufold\<close>.
\<close>

section \<open>Configuration\<close>

record allowlist =
  Enabled :: bool
  Models :: "string list"

definition invalid_allowlist :: app_error where
  "invalid_allowlist = New 400 ''INVALID_MODEL_ALLOWLIST'' ''model allowlist cannot be enabled with an empty model list''"

text \<open>The loop over the submitted models; \<open>seen\<close> holds the lower-case keys.\<close>

fun normalize_models :: "(string \<Rightarrow> string) \<Rightarrow> string list \<Rightarrow> string list \<Rightarrow> string list" where
  "normalize_models ulow seen [] = []"
| "normalize_models ulow seen (m # ms) =
     (let model = TrimSpace m
      in if model = [] then normalize_models ulow seen ms
         else (let key = ToLower ulow model
               in if key \<in> set seen then normalize_models ulow seen ms
                  else model # normalize_models ulow (key # seen) ms))"

definition normalizeGroupModelAllowlist ::
    "(string \<Rightarrow> string) \<Rightarrow> allowlist \<Rightarrow> allowlist \<times> app_error option" where
  "normalizeGroupModelAllowlist ulow cfg =
     (let out = \<lparr>Enabled = Enabled cfg, Models = []\<rparr>
      in if Models cfg = [] then
           (if Enabled out then (out, Some invalid_allowlist) else (out, None))
         else (let out1 = out\<lparr>Models := normalize_models ulow [] (Models cfg)\<rparr>
               in if Models out1 = [] \<and> Enabled out1 then (out1, Some invalid_allowlist) else (out1, None)))"

section \<open>Admission\<close>

text \<open>The loop over the parts between the first and the last: what is left of the model.\<close>

fun match_middle :: "string list \<Rightarrow> string \<Rightarrow> string option" where
  "match_middle [] model = Some model"
| "match_middle (part # parts) model = (case Index model part of
       None \<Rightarrow> None
     | Some index \<Rightarrow> match_middle parts (drop (index + length part) model))"

definition groupAllowlistPatternMatches :: "(string \<Rightarrow> string) \<Rightarrow> string \<Rightarrow> string \<Rightarrow> bool" where
  "groupAllowlistPatternMatches ulow p m =
     (let pattern = ToLower ulow p; model = ToLower ulow m; parts = Split pattern CHR ''*''
      in if length parts = 1 then pattern = model
         else if \<not> HasPrefix model (parts ! 0) then False
         else (case match_middle (butlast (tl parts)) (drop (length (parts ! 0)) model) of
                 None \<Rightarrow> False
               | Some rest \<Rightarrow> HasSuffix rest (last parts)))"

definition ModelIDOverrides :: "(string \<times> string) list" where
  "ModelIDOverrides = [(''claude-sonnet-4-5'', ''claude-sonnet-4-5-20250929''),
     (''claude-opus-4-5'', ''claude-opus-4-5-20251101''), (''claude-haiku-4-5'', ''claude-haiku-4-5-20251001'')]"

definition NormalizeModelID :: "string \<Rightarrow> string" where
  "NormalizeModelID i = (if i = [] then i else (case map_of ModelIDOverrides i of Some m \<Rightarrow> m | None \<Rightarrow> i))"

definition add_candidate :: "(string \<Rightarrow> string) \<Rightarrow> string \<Rightarrow> string list \<Rightarrow> string list" where
  "add_candidate ulow v candidates =
     (let value = ToLower ulow (TrimSpace v)
      in if value = [] then candidates
         else if value \<in> set candidates then candidates else candidates @ [value])"

definition groupModelAllowlistCandidates ::
    "(string \<Rightarrow> string) \<Rightarrow> string \<Rightarrow> string list" where
  "groupModelAllowlistCandidates ulow model =
     add_candidate ulow (NormalizeOpenAICompatRequestedModel ulow model)
       (add_candidate ulow (NormalizeModelID (TrimSuffix model ''-thinking''))
         (add_candidate ulow (TrimPrefix model ''models/'')
           (add_candidate ulow model [])))"

definition Allows :: "(string \<Rightarrow> string) \<Rightarrow> allowlist \<Rightarrow> string \<Rightarrow> bool" where
  "Allows ulow a m =
     (if \<not> Enabled a then True
      else (let model = TrimSpace m
            in if model = [] then True
               else list_ex (\<lambda>e. let entry = TrimSpace e
                   in entry \<noteq> [] \<and> list_ex (groupAllowlistPatternMatches ulow entry)
                         (groupModelAllowlistCandidates ulow model)) (Models a)))"

section \<open>Listing\<close>

definition allowlistSourcePatternAllowsModel ::
    "(string \<Rightarrow> string) \<Rightarrow> (string \<Rightarrow> string \<Rightarrow> bool) \<Rightarrow> string list \<Rightarrow> string \<Rightarrow> bool" where
  "allowlistSourcePatternAllowsModel ulow ufold patterns model =
     (if list_ex (\<lambda>pattern. EqualFold ufold pattern model
           \<or> HasSuffix pattern ''*'' \<and> HasPrefix (ToLower ulow model) (ToLower ulow (TrimSuffix pattern ''*''))) patterns
      then True
      else (let normalizedClaudeModel = NormalizeModelID (TrimSuffix model ''-thinking'')
            in \<not> EqualFold ufold normalizedClaudeModel model
               \<and> list_ex (\<lambda>pattern. EqualFold ufold pattern normalizedClaudeModel) patterns))"

text \<open>The closure \<^verbatim>\<open>add\<close>: the list so far with the lower-case keys that it has seen.\<close>

definition add_listed :: "(string \<Rightarrow> string) \<Rightarrow> string \<Rightarrow> string list \<times> string list \<Rightarrow> string list \<times> string list" where
  "add_listed ulow model = (\<lambda>(seen, filtered).
     (let key = ToLower ulow model
      in if key \<in> set seen then (seen, filtered) else (key # seen, filtered @ [model])))"

definition list_pattern ::
    "(string \<Rightarrow> string) \<Rightarrow> string \<Rightarrow> string \<Rightarrow> string list \<times> string list \<Rightarrow> string list \<times> string list" where
  "list_pattern ulow entry pattern st =
     (if groupAllowlistPatternMatches ulow entry pattern then add_listed ulow pattern st
      else if HasSuffix pattern ''*'' \<and> \<not> Contains (TrimSuffix pattern ''*'') ''*''
        \<and> HasPrefix (ToLower ulow entry) (ToLower ulow (TrimSuffix pattern ''*''))
      then add_listed ulow entry st else st)"

definition list_entry ::
    "(string \<Rightarrow> string) \<Rightarrow> (string \<Rightarrow> string \<Rightarrow> bool) \<Rightarrow> string list \<Rightarrow> string
       \<Rightarrow> string list \<times> string list \<Rightarrow> string list \<times> string list" where
  "list_entry ulow ufold patterns e st =
     (let entry = TrimSpace e
      in if entry = [] then st
         else if Contains entry ''*'' then fold (list_pattern ulow entry) patterns st
         else if allowlistSourcePatternAllowsModel ulow ufold patterns entry then add_listed ulow entry st
         else st)"

definition FilterForListing ::
    "(string \<Rightarrow> string) \<Rightarrow> (string \<Rightarrow> string \<Rightarrow> bool) \<Rightarrow> allowlist \<Rightarrow> string list \<Rightarrow> string list" where
  "FilterForListing ulow ufold a source =
     (if \<not> Enabled a then source
      else if Models a = [] then []
      else (let patterns = filter (\<lambda>p. p \<noteq> []) (map TrimSpace source)
            in if patterns = [] then []
               else snd (fold (list_entry ulow ufold patterns) (Models a) ([], []))))"

section \<open>Wildcards\<close>

text \<open>The leftmost match of every part is as good as any other: the parts find what a glob finds.\<close>

lemma match_middle_glob:
  assumes "\<forall>p\<in>set (parts @ [z]). CHR ''*'' \<notin> set p"
  shows "glob (CHR ''*'' # join_stars (parts @ [z])) s \<longleftrightarrow>
    (case match_middle parts s of None \<Rightarrow> False | Some rest \<Rightarrow> HasSuffix rest z)"
  using assms
proof (induction parts arbitrary: s)
  case Nil
  have "glob (CHR ''*'' # z) s \<longleftrightarrow> (\<exists>k\<le>length s. drop k s = z)"
    using Nil by (simp add: glob_star glob_plain)
  also have "\<dots> \<longleftrightarrow> suffix z s"
  proof
    assume "suffix z s"
    then obtain u where "s = u @ z" by (auto simp: suffix_def)
    then show "\<exists>k\<le>length s. drop k s = z" by (intro exI [of _ "length u"]) simp
  qed (auto simp: suffix_drop)
  finally show ?case by simp
next
  case (Cons part parts)
  let ?rest = "CHR ''*'' # join_stars (parts @ [z])"
  have pat: "join_stars ((part # parts) @ [z]) = part @ ?rest" by (cases parts) simp_all
  have lit: "glob (part @ ?rest) t \<longleftrightarrow> prefix part t \<and> glob ?rest (drop (length part) t)" for t
    using Cons.prems by (intro glob_literal) simp
  show ?case
  proof (cases "Index s part")
    case None
    have "\<not> prefix part (drop k s)" for k
    proof
      assume "prefix part (drop k s)"
      then obtain v where "drop k s = part @ v" by (auto simp: prefix_def)
      then have "s = take k s @ part @ v" by (metis append_take_drop_id)
      with Index_least [OF this] None show False by simp
    qed
    with None show ?thesis unfolding pat glob_star lit by simp
  next
    case (Some i)
    have i: "i + length part \<le> length s" "s = take i s @ part @ drop (i + length part) s"
      using Index_Some [OF Some] by auto
    have "glob (CHR ''*'' # part @ ?rest) s \<longleftrightarrow> glob ?rest (drop (i + length part) s)"
    proof
      assume "glob (CHR ''*'' # part @ ?rest) s"
      then obtain k where k: "k \<le> length s" "prefix part (drop k s)" "glob ?rest (drop (length part) (drop k s))"
        unfolding glob_star [of "part @ ?rest"] lit by auto
      then obtain v where "drop k s = part @ v" by (auto simp: prefix_def)
      then have "s = take k s @ part @ v" by (metis append_take_drop_id)
      from Index_least [OF this] Some k(1) have "i \<le> k" by simp
      then have "i + length part \<le> length part + k" by simp
      moreover have "glob ?rest (drop (length part + k) s)" using k(3) by (simp only: drop_drop)
      ultimately show "glob ?rest (drop (i + length part) s)" using glob_star_more by blast
    next
      assume "glob ?rest (drop (i + length part) s)"
      moreover have "prefix part (drop i s)"
      proof -
        have "drop i (take i s @ part @ drop (i + length part) s) = part @ drop (i + length part) s"
          using i(1) by simp
        with i(2) show ?thesis by (metis prefixI)
      qed
      ultimately have "glob (part @ ?rest) (drop i s)" unfolding lit by (simp add: add.commute)
      then show "glob (CHR ''*'' # part @ ?rest) s" unfolding glob_star [of "part @ ?rest"] using add_leD1 [OF i(1)] by blast
    qed
    with Cons Some show ?thesis unfolding pat by simp
  qed
qed

lemma pattern_glob:
  "groupAllowlistPatternMatches ulow p m \<longleftrightarrow> glob (ToLower ulow p) (ToLower ulow m)"
proof -
  let ?pat = "ToLower ulow p" and ?m = "ToLower ulow m"
  let ?parts = "Split (ToLower ulow p) CHR ''*''"
  have free: "CHR ''*'' \<notin> set q" if "q \<in> set ?parts" for q using that by (rule Split_parts_no_sep)
  obtain q qs where qs: "?parts = q # qs" by (cases ?parts) auto
  show ?thesis
  proof (cases qs)
    case Nil
    then have "?pat = q" using join_stars_Split [of ?pat] qs by simp
    moreover have "glob q ?m \<longleftrightarrow> q = ?m"
      using glob_plain [of q ?m] free [of q] qs by auto
    ultimately show ?thesis using qs Nil by (auto simp: groupAllowlistPatternMatches_def Let_def)
  next
    case (Cons r rs)
    let ?mid = "butlast qs" and ?z = "last qs"
    have ne: "qs \<noteq> []" using Cons by simp
    then have split: "qs = ?mid @ [?z]" by simp
    have pat: "?pat = q @ CHR ''*'' # join_stars (?mid @ [?z])"
      using join_stars_Split [of ?pat] qs Cons split by (metis join_stars.simps(3))
    have "\<forall>x\<in>set (?mid @ [?z]). CHR ''*'' \<notin> set x" using free qs split by (metis list.set_intros(2))
    note mid = match_middle_glob [OF this, of "drop (length q) ?m"]
    have "glob ?pat ?m \<longleftrightarrow> prefix q ?m \<and> glob (CHR ''*'' # join_stars (?mid @ [?z])) (drop (length q) ?m)"
      unfolding pat using free [of q] qs by (intro glob_literal) simp
    also have "\<dots> \<longleftrightarrow> groupAllowlistPatternMatches ulow p m"
      unfolding mid groupAllowlistPatternMatches_def Let_def qs using ne by (simp split: option.split)
    finally show ?thesis by simp
  qed
qed

section \<open>Lemmas on the listing\<close>

lemma add_listed_set:
  "add_listed ulow m (seen, filtered) = (seen', filtered') \<Longrightarrow> set filtered' \<subseteq> insert m (set filtered)
   \<and> set filtered \<subseteq> set filtered'"
  by (auto simp: add_listed_def Let_def split: if_splits)

definition keys_of :: "(string \<Rightarrow> string) \<Rightarrow> string list \<times> string list \<Rightarrow> bool" where
  "keys_of ulow st \<longleftrightarrow> set (fst st) = ToLower ulow ` set (snd st) \<and> distinct (map (ToLower ulow) (snd st))"

lemma add_listed_keys: "keys_of ulow st \<Longrightarrow> keys_of ulow (add_listed ulow m st)"
  by (cases st) (auto simp: keys_of_def add_listed_def Let_def)

lemma list_pattern_keys: "keys_of ulow st \<Longrightarrow> keys_of ulow (list_pattern ulow e p st)"
  by (simp add: list_pattern_def add_listed_keys)

lemma fold_keys: "(\<And>x st. keys_of ulow st \<Longrightarrow> keys_of ulow (f x st)) \<Longrightarrow> keys_of ulow st \<Longrightarrow> keys_of ulow (fold f xs st)"
  by (induction xs arbitrary: st) auto

lemma list_entry_keys: "keys_of ulow st \<Longrightarrow> keys_of ulow (list_entry ulow ufold ps e st)"
  by (auto simp: list_entry_def Let_def add_listed_keys intro!: fold_keys list_pattern_keys)

text \<open>Everything listed is a pattern of the source, or an entry of the allowlist.\<close>

lemma fold_listed:
  assumes "\<And>x st. x \<in> set xs \<Longrightarrow> set (snd (f x st)) \<subseteq> set (snd st) \<union> {m. P m}"
  shows "set (snd (fold f xs st)) \<subseteq> set (snd st) \<union> {m. P m}"
  using assms
proof (induction xs arbitrary: st)
  case (Cons x xs)
  have "set (snd (fold f xs (f x st))) \<subseteq> set (snd (f x st)) \<union> {m. P m}" by (rule Cons.IH) (use Cons.prems in auto)
  moreover have "set (snd (f x st)) \<subseteq> set (snd st) \<union> {m. P m}" by (rule Cons.prems) simp
  ultimately show ?case by auto
qed simp

lemma snd_add_listed: "set (snd (add_listed ulow m st)) \<subseteq> insert m (set (snd st))"
  by (cases st) (auto simp: add_listed_def Let_def)

definition covers :: "(string \<Rightarrow> string) \<Rightarrow> string \<Rightarrow> string \<Rightarrow> bool" where
  "covers ulow entry m \<longleftrightarrow> entry \<noteq> [] \<and> (groupAllowlistPatternMatches ulow entry m)"

lemma list_pattern_listed:
  assumes "entry \<noteq> []"
  shows "set (snd (list_pattern ulow entry pattern st)) \<subseteq> set (snd st) \<union> {m. m \<in> {pattern, entry} \<and> covers ulow entry m}"
proof -
  have "groupAllowlistPatternMatches ulow entry entry" unfolding pattern_glob by (rule glob_refl)
  with assms snd_add_listed [of ulow pattern st] snd_add_listed [of ulow entry st] show ?thesis
    by (auto simp: list_pattern_def covers_def)
qed

lemma list_entry_listed:
  "set (snd (list_entry ulow ufold patterns e st)) \<subseteq>
     set (snd st) \<union> {m. (m \<in> set patterns \<or> m = TrimSpace e) \<and> covers ulow (TrimSpace e) m}"
proof -
  let ?e = "TrimSpace e"
  have self: "groupAllowlistPatternMatches ulow ?e ?e" unfolding pattern_glob by (rule glob_refl)
  show ?thesis
  proof (cases "?e \<noteq> [] \<and> Contains ?e ''*''")
    case True
    then have "set (snd (fold (list_pattern ulow ?e) patterns st)) \<subseteq>
        set (snd st) \<union> {m. (m \<in> set patterns \<or> m = ?e) \<and> covers ulow ?e m}"
      using list_pattern_listed [of ?e ulow] by (intro fold_listed) blast
    with True show ?thesis by (simp add: list_entry_def Let_def)
  next
    case False
    with self snd_add_listed [of ulow ?e st] show ?thesis by (auto simp: list_entry_def Let_def covers_def)
  qed
qed

lemma FilterForListing_listed:
  assumes "Enabled a" and "m \<in> set (FilterForListing ulow ufold a source)"
  shows "\<exists>e\<in>set (Models a). covers ulow (TrimSpace e) m \<and> TrimSpace m = m"
proof -
  let ?ps = "filter (\<lambda>p. p \<noteq> []) (map TrimSpace source)"
  have m: "m \<in> set (snd (fold (list_entry ulow ufold ?ps) (Models a) ([], [])))"
    using assms by (auto simp: FilterForListing_def Let_def split: if_splits)
  have "set (snd (fold (list_entry ulow ufold ?ps) (Models a) ([], []))) \<subseteq>
      set (snd (([], []) :: string list \<times> string list)) \<union> {m. \<exists>e\<in>set (Models a). covers ulow (TrimSpace e) m \<and> TrimSpace m = m}"
  proof (rule fold_listed)
    fix e and st :: "string list \<times> string list" assume e: "e \<in> set (Models a)"
    have "TrimSpace x = x" if "x \<in> set ?ps \<or> x = TrimSpace e" for x using that by auto
    with e list_entry_listed [of ulow ufold ?ps e st]
    show "set (snd (list_entry ulow ufold ?ps e st)) \<subseteq>
      set (snd st) \<union> {m. \<exists>e\<in>set (Models a). covers ulow (TrimSpace e) m \<and> TrimSpace m = m}" by blast
  qed
  with m show ?thesis by auto
qed

lemma add_candidate_keeps: "x \<in> set cs \<Longrightarrow> x \<in> set (add_candidate ulow v cs)"
  by (auto simp: add_candidate_def Let_def)

lemma candidate_added:
  "ToLower ulow (TrimSpace v) = w \<Longrightarrow> w \<noteq> [] \<Longrightarrow> w \<in> set (add_candidate ulow v cs)"
  by (auto simp: add_candidate_def Let_def)

lemma candidates_self:
  "ToLower ulow (TrimSpace m) \<noteq> [] \<Longrightarrow> ToLower ulow (TrimSpace m) \<in> set (groupModelAllowlistCandidates ulow m)"
  unfolding groupModelAllowlistCandidates_def
  by (rule add_candidate_keeps, rule add_candidate_keeps, rule add_candidate_keeps) (simp add: add_candidate_def Let_def)

section \<open>Lemmas on the normal form\<close>

lemma normalize_models_spec:
  "ToLower ulow ` set (normalize_models ulow seen ms) =
     ToLower ulow ` {m \<in> TrimSpace ` set ms. m \<noteq> []} - set seen
   \<and> distinct (map (ToLower ulow) (normalize_models ulow seen ms))
   \<and> (\<forall>m\<in>set (normalize_models ulow seen ms). m \<noteq> [] \<and> TrimSpace m = m)"
proof (induction ms arbitrary: seen)
  case (Cons m ms)
  let ?m = "TrimSpace m"
  have img: "{x \<in> TrimSpace ` set (m # ms). x \<noteq> []} =
      (if ?m = [] then {} else {?m}) \<union> {x \<in> TrimSpace ` set ms. x \<noteq> []}" by auto
  show ?case
  proof (cases "?m = [] \<or> ToLower ulow ?m \<in> set seen")
    case True
    then have "normalize_models ulow seen (m # ms) = normalize_models ulow seen ms" by (auto simp: Let_def)
    with Cons [of seen] True show ?thesis unfolding img by auto
  next
    case False
    then have r: "normalize_models ulow seen (m # ms) = ?m # normalize_models ulow (ToLower ulow ?m # seen) ms"
      by (simp add: Let_def)
    have "ToLower ulow ?m \<notin> ToLower ulow ` set (normalize_models ulow (ToLower ulow ?m # seen) ms)"
      using Cons [of "ToLower ulow ?m # seen"] by auto
    with Cons [of "ToLower ulow ?m # seen"] False show ?thesis unfolding r img by auto
  qed
qed simp

lemma normalize_models_fixed:
  assumes "distinct (map (ToLower ulow) ms)" and "\<forall>m\<in>set ms. m \<noteq> [] \<and> TrimSpace m = m"
    and "ToLower ulow ` set ms \<inter> set seen = {}"
  shows "normalize_models ulow seen ms = ms"
  using assms
proof (induction ms arbitrary: seen)
  case (Cons m ms)
  then have "normalize_models ulow (ToLower ulow m # seen) ms = ms" by (intro Cons.IH) auto
  with Cons.prems show ?case by (simp add: Let_def)
qed simp

text \<open>Admission reads the entries only through their trimmed lower-case forms.\<close>

lemma Allows_keys:
  "Allows ulow a m \<longleftrightarrow> \<not> Enabled a \<or> TrimSpace m = []
     \<or> (\<exists>k \<in> ToLower ulow ` {e \<in> TrimSpace ` set (Models a). e \<noteq> []}.
          \<exists>c \<in> set (groupModelAllowlistCandidates ulow (TrimSpace m)). glob k (ToLower ulow c))"
  unfolding Allows_def Let_def list_ex_iff pattern_glob [abs_def] by auto

section \<open>Properties\<close>

text \<open>
  C17. The wildcard matching of the allowlist is glob matching: for all patterns and models, cutting
  the pattern at its stars and searching the parts from the left finds a match exactly when the
  lower-case model is an instance of the lower-case pattern, in which a star stands for any string.
\<close>

theorem groupAllowlistPatternMatches_glob:
  "groupAllowlistPatternMatches ulow p m \<longleftrightarrow> glob (ToLower ulow p) (ToLower ulow m)"
  by (rule pattern_glob)

text \<open>
  C21. What is listed may be requested: with the allowlist on, every model that the listing shows, for
  any source, is a model that a request may name; and no model is shown twice.
\<close>

theorem listed_models_allowed:
  assumes "lower_laws ulow" and "Enabled a" and "m \<in> set (FilterForListing ulow ufold a source)"
  shows "Allows ulow a m \<and> distinct (map (ToLower ulow) (FilterForListing ulow ufold a source))"
proof
  obtain e where e: "e \<in> set (Models a)" "covers ulow (TrimSpace e) m" and m: "TrimSpace m = m"
    using FilterForListing_listed [OF assms(2,3)] by blast
  show "Allows ulow a m"
  proof (cases "m = []")
    case True
    then show ?thesis by (simp add: Allows_def)
  next
    case False
    then have ne: "ToLower ulow (TrimSpace m) \<noteq> []" using m lower_laws_Nil [OF assms(1)] by simp
    have "groupAllowlistPatternMatches ulow (TrimSpace e) (ToLower ulow m)"
      using e(2) assms(1) by (simp add: covers_def pattern_glob)
    moreover have "ToLower ulow m \<in> set (groupModelAllowlistCandidates ulow m)"
      using candidates_self [OF ne] m by simp
    moreover have "TrimSpace e \<noteq> []" using e(2) by (simp add: covers_def)
    ultimately show ?thesis using e(1) m False unfolding Allows_def Let_def list_ex_iff by metis
  qed
  have "keys_of ulow (fold (list_entry ulow ufold ps) xs ([], []))" for ps xs
    by (intro fold_keys list_entry_keys) (auto simp: keys_of_def)
  then show "distinct (map (ToLower ulow) (FilterForListing ulow ufold a source))"
    using assms(2) by (simp add: FilterForListing_def Let_def keys_of_def)
qed

theorem listed_models_allowed_witness:
  "Allows id \<lparr>Enabled = True, Models = [''gpt-*'']\<rparr> ''gpt-5''"
proof -
  have plain: "plain_name ''gpt-5''" "plain_name ''o3''" "plain_name ''gpt-*''"
    by (simp_all add: plain_name_def is_graphic_def)
  have "''gpt-5'' \<in> set (FilterForListing id (=) \<lparr>Enabled = True, Models = [''gpt-*'']\<rparr> [''gpt-5'', ''o3''])"
    by (simp add: FilterForListing_def list_entry_def list_pattern_def pattern_glob plain plain_simps Contains_def
        add_listed_def suffix_to_prefix Let_def)
  with listed_models_allowed [OF lower_laws_id, of "\<lparr>Enabled = True, Models = [''gpt-*'']\<rparr>" "''gpt-5''"] show ?thesis by simp
qed

text \<open>
  Normalising a submitted allowlist keeps its meaning: an accepted list admits exactly the models
  that the submitted one admits; its entries are trimmed, not blank and different up to case; and
  normalising it again changes nothing.  A list is refused exactly when it is enabled and has no
  entry that is not blank.
\<close>

theorem normalizeGroupModelAllowlist_spec:
  "case normalizeGroupModelAllowlist ulow cfg of (out, err) \<Rightarrow>
     (err = (if Enabled cfg \<and> list_all (\<lambda>e. TrimSpace e = []) (Models cfg) then Some invalid_allowlist else None))
   \<and> Allows ulow out m = Allows ulow cfg m
   \<and> distinct (map (ToLower ulow) (Models out)) \<and> list_all (\<lambda>e. e \<noteq> [] \<and> TrimSpace e = e) (Models out)
   \<and> fst (normalizeGroupModelAllowlist ulow out) = out"
proof -
  define ms where "ms = normalize_models ulow [] (Models cfg)"
  define out where "out = \<lparr>Enabled = Enabled cfg, Models = ms\<rparr>"
  note spec = normalize_models_spec [of ulow "[]" "Models cfg", folded ms_def]
  have Nil: "ms = [] \<longleftrightarrow> list_all (\<lambda>e. TrimSpace e = []) (Models cfg)"
  proof -
    have "list_all (\<lambda>e. TrimSpace e = []) (Models cfg) \<longleftrightarrow> {m \<in> TrimSpace ` set (Models cfg). m \<noteq> []} = {}"
      by (auto simp: list_all_iff)
    also have "\<dots> \<longleftrightarrow> ToLower ulow ` set ms = {}" using spec by simp
    finally show ?thesis by simp
  qed
  have r: "normalizeGroupModelAllowlist ulow cfg =
      (out, if Enabled cfg \<and> ms = [] then Some invalid_allowlist else None)"
    by (auto simp: normalizeGroupModelAllowlist_def Let_def out_def ms_def)
  have "normalize_models ulow [] ms = ms" using spec by (intro normalize_models_fixed) auto
  then have again: "fst (normalizeGroupModelAllowlist ulow out) = out"
    by (auto simp: normalizeGroupModelAllowlist_def Let_def out_def)
  have "{e \<in> TrimSpace ` set ms. e \<noteq> []} = set ms" using spec by force
  then have "ToLower ulow ` {e \<in> TrimSpace ` set ms. e \<noteq> []} = ToLower ulow ` {e \<in> TrimSpace ` set (Models cfg). e \<noteq> []}"
    using spec by simp
  then have "Allows ulow out m = Allows ulow cfg m"
    unfolding Allows_keys by (simp add: out_def)
  with r again Nil spec show ?thesis by (auto simp: out_def list_all_iff)
qed

text \<open>
  A model may be requested without being listed: the listing compares an exact entry with the
  source after normalising the entry only, while admission normalises the requested model.  With the
  dated identifier of a Claude model on the allowlist and its short name in the source, the short
  name is admitted, but the listing is empty.
\<close>

theorem allowed_model_not_listed:
  "Allows id \<lparr>Enabled = True, Models = [''claude-opus-4-5-20251101'']\<rparr> ''claude-opus-4-5''
   \<and> FilterForListing id (=) \<lparr>Enabled = True, Models = [''claude-opus-4-5-20251101'']\<rparr> [''claude-opus-4-5''] = []"
proof -
  let ?long = "''claude-opus-4-5-20251101''" and ?short = "''claude-opus-4-5''"
  have plain: "plain_name ?long" "plain_name ?short" by (simp_all add: plain_name_def is_graphic_def)
  have norm: "NormalizeModelID (TrimSuffix ?short ''-thinking'') = ?long" "NormalizeModelID (TrimSuffix ?long ''-thinking'') = ?long"
    by (simp_all add: NormalizeModelID_def TrimSuffix_def suffix_to_prefix ModelIDOverrides_def)
  have "?long \<in> set (groupModelAllowlistCandidates id ?short)"
    unfolding groupModelAllowlistCandidates_def norm
    by (rule add_candidate_keeps, rule candidate_added) (simp_all add: plain plain_simps)
  then have "Allows id \<lparr>Enabled = True, Models = [?long]\<rparr> ?short"
    using glob_refl [of ?long]
    by (auto simp: Allows_def Let_def list_ex_iff pattern_glob [abs_def] plain plain_simps intro!: bexI [of _ ?long])
  moreover have "FilterForListing id (=) \<lparr>Enabled = True, Models = [?long]\<rparr> [?short] = []"
    by (simp add: FilterForListing_def list_entry_def plain plain_simps Contains_def
        allowlistSourcePatternAllowsModel_def norm suffix_to_prefix Let_def)
  ultimately show ?thesis by simp
qed

text \<open>
  C40. Admission guesses a family for names that carry an effort: with one model on the list, a request for a model of
  the family that does not exist is admitted when its name ends in an effort, and refused when it does not.
\<close>

theorem effort_widens_admission:
  "Allows ulow \<lparr>Enabled = True, Models = [''gpt-5.4'']\<rparr> ''gpt-5.9-high''
   \<and> \<not> Allows ulow \<lparr>Enabled = True, Models = [''gpt-5.4'']\<rparr> ''gpt-5.9''"
proof -
  have c: "canonical_name ''gpt-5.9-high''" "canonical_name ''gpt-5.9''"
    by (simp_all add: canonical_name_simps Contains_def)
  have "normalizeKnownOpenAICodexModel ulow ''gpt-5.9-high'' = ''gpt-5.4''" using c(1) by (simp add: known_eval)
  then have "normalizeCodexModel ulow ''gpt-5.9-high'' = ''gpt-5.4''"
    by (intro known_of_canonical [OF c(1)]) (use c(1) in \<open>simp_all add: image_eval\<close>)
  then have high: "NormalizeOpenAICompatRequestedModel ulow ''gpt-5.9-high'' = ''gpt-5.4''" using c(1)
    by (simp add: NormalizeOpenAICompatRequestedModel_def canonical_gpt61 CutPrefix_def canonical_nameD split_effort effort_of_def
        FieldsFunc_def RemoveByte_def)
  have plain: "NormalizeOpenAICompatRequestedModel ulow ''gpt-5.9'' = ''gpt-5.9''" using c(2)
    by (simp add: NormalizeOpenAICompatRequestedModel_def canonical_gpt61 CutPrefix_def canonical_nameD split_effort effort_of_def
        FieldsFunc_def RemoveByte_def)
  have names: "plain_name ''gpt-5.4''" "plain_name ''gpt-5.9''" "plain_name ''gpt-5.9-high''"
    by (simp_all add: plain_name_def is_graphic_def)
  have "''gpt-5.4'' \<in> set (groupModelAllowlistCandidates ulow ''gpt-5.9-high'')"
    unfolding groupModelAllowlistCandidates_def high by (rule candidate_added) (simp_all add: names plain_simps)
  then have "Allows ulow \<lparr>Enabled = True, Models = [''gpt-5.4'']\<rparr> ''gpt-5.9-high''"
    using glob_refl [of "''gpt-5.4''"]
    by (auto simp: Allows_def Let_def list_ex_iff pattern_glob [abs_def] names plain_simps intro!: bexI [of _ "''gpt-5.4''"])
  moreover have "groupModelAllowlistCandidates ulow ''gpt-5.9'' = [''gpt-5.9'']"
    by (simp add: groupModelAllowlistCandidates_def plain add_candidate_def TrimPrefix_def TrimSuffix_def suffix_to_prefix
        NormalizeModelID_def ModelIDOverrides_def names plain_simps)
  ultimately show ?thesis by (simp add: Allows_def pattern_glob names plain_simps)
qed

end
