(* ===== verification/Platforms.thy ===== *)
theory Platforms
  imports Go_Strings
begin

text \<open>
  The registry of provider platforms (\<^verbatim>\<open>backend/internal/domain/platforms.go\<close>, with the names of
  \<^verbatim>\<open>domain/constants.go\<close>) and the detector that guesses the platform from the name of a model
  (\<^verbatim>\<open>DetectModelPlatform\<close> of \<^verbatim>\<open>backend/internal/service/composite_platform.go\<close>).
\<close>

section \<open>The registry\<close>

definition PlatformAnthropic :: string where "PlatformAnthropic = ''anthropic''"
definition PlatformOpenAI :: string where "PlatformOpenAI = ''openai''"
definition PlatformGemini :: string where "PlatformGemini = ''gemini''"
definition PlatformAntigravity :: string where "PlatformAntigravity = ''antigravity''"
definition PlatformGrok :: string where "PlatformGrok = ''grok''"
definition PlatformKimi :: string where "PlatformKimi = ''kimi''"
definition PlatformZhipu :: string where "PlatformZhipu = ''zhipu''"
definition PlatformDeepseek :: string where "PlatformDeepseek = ''deepseek''"
definition PlatformStepFun :: string where "PlatformStepFun = ''stepfun''"
definition PlatformMiniMax :: string where "PlatformMiniMax = ''minimax''"
definition PlatformTypeSafe :: string where "PlatformTypeSafe = ''typesafe''"
definition PlatformOpenCodeGo :: string where "PlatformOpenCodeGo = ''opencode_go''"
definition PlatformCommandCode :: string where "PlatformCommandCode = ''command_code''"
definition PlatformCline :: string where "PlatformCline = ''cline''"
definition PlatformComposite :: string where "PlatformComposite = ''composite''"

lemmas platform_defs =
  PlatformAnthropic_def PlatformOpenAI_def PlatformGemini_def PlatformAntigravity_def PlatformGrok_def
  PlatformKimi_def PlatformZhipu_def PlatformDeepseek_def PlatformStepFun_def PlatformMiniMax_def
  PlatformTypeSafe_def PlatformOpenCodeGo_def PlatformCommandCode_def PlatformCline_def PlatformComposite_def

datatype platform_gateway = GatewayAnthropic | GatewayOpenAI | GatewayGemini | GatewayAntigravity

record platform_spec =
  spec_ID :: string
  DisplayName :: string
  Gateway :: platform_gateway
  CNProvider :: bool
  LiteLLMProvider :: string

definition spec :: "string \<Rightarrow> string \<Rightarrow> platform_gateway \<Rightarrow> bool \<Rightarrow> string \<Rightarrow> platform_spec" where
  "spec i name g cn lite =
     \<lparr>spec_ID = i, DisplayName = name, Gateway = g, CNProvider = cn, LiteLLMProvider = lite\<rparr>"

definition platformList :: "platform_spec list" where
  "platformList =
     [spec PlatformAnthropic ''Anthropic'' GatewayAnthropic False ''anthropic'',
      spec PlatformOpenAI ''OpenAI'' GatewayOpenAI False ''openai'',
      spec PlatformGemini ''Gemini'' GatewayGemini False ''gemini'',
      spec PlatformAntigravity ''Antigravity'' GatewayAntigravity False ''anthropic'',
      spec PlatformGrok ''Grok'' GatewayOpenAI False ''xai'',
      spec PlatformKimi ''Kimi'' GatewayOpenAI True ''moonshot'',
      spec PlatformZhipu ''Zhipu GLM'' GatewayOpenAI True ''zhipu'',
      spec PlatformDeepseek ''DeepSeek'' GatewayOpenAI True ''deepseek'',
      spec PlatformMiniMax ''MiniMax'' GatewayOpenAI True ''minimax'',
      spec PlatformStepFun ''StepFun'' GatewayOpenAI True ''stepfun'',
      spec PlatformOpenCodeGo ''OpenCode'' GatewayOpenAI False ''opencode-go'',
      spec PlatformTypeSafe ''TypeSafe / Jev'' GatewayAnthropic False ''typesafe'',
      spec PlatformCommandCode ''Command Code'' GatewayOpenAI False '''',
      spec PlatformCline ''Cline'' GatewayOpenAI False '''']"

definition platformIndex :: "(string, nat) gomap" where
  "platformIndex = fold (\<lambda>(i, s). mput (spec_ID s) i) (enumerate 0 platformList) []"

definition LookupPlatform :: "string \<Rightarrow> platform_spec option" where
  "LookupPlatform i = (case map_of platformIndex i of None \<Rightarrow> None | Some n \<Rightarrow> Some (platformList ! n))"

definition IsConcretePlatform :: "string \<Rightarrow> bool" where
  "IsConcretePlatform i \<longleftrightarrow> map_of platformIndex i \<noteq> None"

definition IsGroupPlatform :: "string \<Rightarrow> bool" where
  "IsGroupPlatform i \<longleftrightarrow> i = PlatformComposite \<or> IsConcretePlatform i"

definition PlatformIDsWhere :: "(platform_spec \<Rightarrow> bool) \<Rightarrow> string list" where
  "PlatformIDsWhere P = map spec_ID (filter P platformList)"

definition ConcretePlatformIDs :: "string list" where
  "ConcretePlatformIDs = PlatformIDsWhere (\<lambda>_. True)"

definition compositePrecedenceHead :: "string list" where
  "compositePrecedenceHead = [PlatformAnthropic, PlatformGemini, PlatformOpenAI]"

definition CompositePrecedencePlatformIDs :: "string list" where
  "CompositePrecedencePlatformIDs =
     (let out = filter IsConcretePlatform compositePrecedenceHead
      in out @ filter (\<lambda>i. i \<notin> set out) (map spec_ID platformList))"

definition UsesOpenAIGateway :: "string \<Rightarrow> bool" where
  "UsesOpenAIGateway i = (case LookupPlatform i of None \<Rightarrow> False | Some s \<Rightarrow> Gateway s = GatewayOpenAI)"

definition IsCNProviderPlatform :: "string \<Rightarrow> bool" where
  "IsCNProviderPlatform i = (case LookupPlatform i of None \<Rightarrow> False | Some s \<Rightarrow> CNProvider s)"

section \<open>The detector\<close>

definition hasOpenAISeriesPrefix :: "string \<Rightarrow> bool" where
  "hasOpenAISeriesPrefix model =
     list_ex (\<lambda>p. model = p \<or> HasPrefix model (p @ ''-'')) [''o1'', ''o3'', ''o4'', ''o5'']"

text \<open>The first \<^verbatim>\<open>switch\<close>, on the part before the slash.\<close>

definition provider_platform :: "string \<Rightarrow> string option" where
  "provider_platform provider =
     (if provider \<in> {''anthropic'', ''claude''} then Some PlatformAnthropic
      else if provider \<in> {''openai'', ''chatgpt''} then Some PlatformOpenAI
      else if provider \<in> {''google'', ''google-ai-studio'', ''gemini''} then Some PlatformGemini
      else if provider \<in> {''xai'', ''x-ai'', ''grok''} then Some PlatformGrok
      else if provider \<in> {''kimi'', ''moonshot''} then Some PlatformKimi
      else if provider \<in> {''zhipu'', ''glm'', ''bigmodel''} then Some PlatformZhipu
      else if provider = ''deepseek'' then Some PlatformDeepseek
      else if provider \<in> {''step'', ''stepfun''} then Some PlatformStepFun
      else if provider = ''minimax'' then Some PlatformMiniMax
      else if provider \<in> {''typesafe'', ''jev''} then Some PlatformTypeSafe
      else None)"

text \<open>The second \<^verbatim>\<open>switch\<close>, on the prefixes of the name.\<close>

definition name_platform :: "string \<Rightarrow> string option" where
  "name_platform n =
     (let pre = HasPrefix n
      in if pre ''anthropic.claude-'' \<or> pre ''claude-'' then Some PlatformAnthropic
      else if list_ex pre [''gpt-'', ''chatgpt-'', ''codex-'', ''text-embedding-'', ''text-moderation-'',
          ''omni-moderation-'', ''dall-e-'', ''gpt-image-'', ''tts-'', ''whisper-''] \<or> hasOpenAISeriesPrefix n
        then Some PlatformOpenAI
      else if pre ''gemini-'' \<or> pre ''learnlm-'' then Some PlatformGemini
      else if n = ''grok'' \<or> pre ''grok-'' then Some PlatformGrok
      else if n = ''k3'' \<or> n = ''k3-256k'' \<or> pre ''kimi-'' \<or> pre ''moonshot-'' then Some PlatformKimi
      else if pre ''glm-'' then Some PlatformZhipu
      else if pre ''deepseek-'' then Some PlatformDeepseek
      else if pre ''step-'' then Some PlatformStepFun
      else if pre ''minimax-'' \<or> pre ''abab5'' \<or> pre ''abab6'' \<or> pre ''abab7'' then Some PlatformMiniMax
      else if n = ''jev-latest'' \<or> pre ''jev-'' then Some PlatformTypeSafe
      else None)"

definition DetectModelPlatform :: "(string \<Rightarrow> string) \<Rightarrow> string \<Rightarrow> string option" where
  "DetectModelPlatform ulow model =
     (let normalized = ToLower ulow (TrimSpace model)
      in if normalized = [] then None
         else (let n = TrimPrefix normalized ''models/''
               in case IndexByte n CHR ''/'' of
                    Some slash \<Rightarrow>
                      (if 0 < slash then
                         (let provider = TrimSpace (take slash n); rest = TrimSpace (drop (slash + 1) n)
                          in case provider_platform provider of
                               Some p \<Rightarrow> Some p
                             | None \<Rightarrow> name_platform (if rest \<noteq> [] then TrimPrefix rest ''models/'' else n))
                       else name_platform n)
                  | None \<Rightarrow> name_platform n))"

section \<open>Properties\<close>

lemma platform_ids_distinct: "distinct (map spec_ID platformList)"
  by (simp add: platformList_def spec_def platform_defs)

text \<open>The index built by the loop finds the position of every platform.\<close>

lemma index_fold:
  "distinct (map spec_ID ss) \<Longrightarrow> map_of (fold (\<lambda>(i, s). mput (spec_ID s) i) (enumerate n ss) m) k =
     (case find (\<lambda>(i, s). spec_ID s = k) (enumerate n ss) of Some (i, s) \<Rightarrow> Some i | None \<Rightarrow> map_of m k)"
proof (induction ss arbitrary: n m)
  case (Cons s ss)
  have "find (\<lambda>(i, s). spec_ID s = spec_ID s') (enumerate (Suc n) ss) = None" if "s' = s" for s'
    using Cons.prems that by (auto simp: find_None_iff enumerate_eq_zip dest!: set_zip_rightD) (metis image_eqI)
  with Cons show ?case by (auto split: option.splits)
qed simp

lemma LookupPlatform_find: "LookupPlatform i = find (\<lambda>s. spec_ID s = i) platformList"
proof -
  have en: "find (\<lambda>(i, s). spec_ID s = k) (enumerate n ss) = map_option (\<lambda>s. (n + j, s)) (find (\<lambda>s. spec_ID s = k) ss)
      \<and> (find (\<lambda>s. spec_ID s = k) ss \<noteq> None \<longrightarrow> find (\<lambda>s. spec_ID s = k) ss = Some (ss ! j) \<and> j < length ss)"
    if "j = length (takeWhile (\<lambda>s. spec_ID s \<noteq> k) ss)" for n k j ss
    using that by (induction ss arbitrary: n j) auto
  let ?j = "length (takeWhile (\<lambda>s. spec_ID s \<noteq> i) platformList)"
  from en [OF refl, of i 0 platformList] show ?thesis
    unfolding LookupPlatform_def platformIndex_def index_fold [OF platform_ids_distinct]
    by (cases "find (\<lambda>s. spec_ID s = i) platformList") auto
qed

lemma IsConcretePlatform_iff: "IsConcretePlatform i \<longleftrightarrow> i \<in> set (map spec_ID platformList)"
proof -
  have "IsConcretePlatform i \<longleftrightarrow> LookupPlatform i \<noteq> None"
    by (auto simp: IsConcretePlatform_def LookupPlatform_def split: option.splits)
  then show ?thesis unfolding LookupPlatform_find by (auto simp: find_None_iff)
qed

text \<open>
  The registry is consistent: looking up an identifier finds the entry of that identifier and
  nothing else, the composite group itself is not a concrete platform, and the order of precedence
  lists every concrete platform once, with Anthropic, Gemini and OpenAI first.
\<close>

theorem platform_registry:
  "(LookupPlatform i = Some s) = (s \<in> set platformList \<and> spec_ID s = i)
   \<and> (IsGroupPlatform i = (i = PlatformComposite \<or> i \<in> set ConcretePlatformIDs))
   \<and> LookupPlatform PlatformComposite = None
   \<and> mset CompositePrecedencePlatformIDs = mset ConcretePlatformIDs
   \<and> take 3 CompositePrecedencePlatformIDs = compositePrecedenceHead"
proof -
  have "(find (\<lambda>s. spec_ID s = i) ss = Some s) = (s \<in> set ss \<and> spec_ID s = i)" if "distinct (map spec_ID ss)" for ss
    using that by (induction ss) auto
  then have "(LookupPlatform i = Some s) = (s \<in> set platformList \<and> spec_ID s = i)"
    unfolding LookupPlatform_find using platform_ids_distinct by blast
  moreover have "IsGroupPlatform i = (i = PlatformComposite \<or> i \<in> set ConcretePlatformIDs)"
    by (simp add: IsGroupPlatform_def IsConcretePlatform_iff ConcretePlatformIDs_def PlatformIDsWhere_def)
  moreover have "LookupPlatform PlatformComposite = None"
    unfolding LookupPlatform_find by (simp add: platformList_def spec_def platform_defs)
  moreover have "mset CompositePrecedencePlatformIDs = mset ConcretePlatformIDs"
    "take 3 CompositePrecedencePlatformIDs = compositePrecedenceHead"
    by (simp_all add: CompositePrecedencePlatformIDs_def compositePrecedenceHead_def IsConcretePlatform_iff
        ConcretePlatformIDs_def PlatformIDsWhere_def platformList_def spec_def platform_defs)
  ultimately show ?thesis by simp
qed

lemma provider_platform_concrete: "provider_platform n = Some p \<Longrightarrow> IsConcretePlatform p"
  by (auto simp: provider_platform_def IsConcretePlatform_iff platformList_def spec_def split: if_splits)

lemma name_platform_concrete: "name_platform n = Some p \<Longrightarrow> IsConcretePlatform p"
  unfolding name_platform_def Let_def
  by (auto simp: IsConcretePlatform_iff platformList_def spec_def split: if_split_asm)

lemma DetectModelPlatform_concrete: "DetectModelPlatform ulow m = Some p \<Longrightarrow> IsConcretePlatform p"
  by (auto simp: DetectModelPlatform_def Let_def intro: provider_platform_concrete name_platform_concrete
      split: if_splits option.splits)

end
