(* ===== verification/Composite_Routes.thy ===== *)
theory Composite_Routes
  imports Platforms App_Errors "HOL-Library.Product_Lexorder"
begin

text \<open>
  Routes of composite groups: which platform and which upstream model serve a public model
  (\<^verbatim>\<open>backend/internal/service/composite_model_route.go\<close> and \<^verbatim>\<open>composite_route_resolver.go\<close>).

  The repository of the routes and the resolver of the model ownership are fields of the resolver,
  functions that may answer with an error; the case tables of Unicode are the argument \<open>ulow\<close>.
\<close>

section \<open>Routes\<close>

definition CompositeRouteMatchExact :: string where "CompositeRouteMatchExact = ''exact''"
definition CompositeRouteMatchPrefix :: string where "CompositeRouteMatchPrefix = ''prefix''"
definition CompositeRouteEndpointAny :: string where "CompositeRouteEndpointAny = ''any''"
definition CompositeRouteEndpointResponses :: string where "CompositeRouteEndpointResponses = ''responses''"
definition composite_route_endpoints :: "string list" where
  "composite_route_endpoints = [''messages'', ''count_tokens'', CompositeRouteEndpointResponses,
     ''chat_completions'', ''embeddings'', ''images'', ''gemini'']"
definition CompositeRouteSourceExplicit :: string where "CompositeRouteSourceExplicit = ''route''"
definition CompositeRouteSourceDetector :: string where "CompositeRouteSourceDetector = ''detector''"
definition CompositeRouteSourceAccount :: string where "CompositeRouteSourceAccount = ''account_model''"

lemmas route_defs = CompositeRouteMatchExact_def CompositeRouteMatchPrefix_def CompositeRouteEndpointAny_def
  CompositeRouteEndpointResponses_def composite_route_endpoints_def CompositeRouteSourceExplicit_def
  CompositeRouteSourceDetector_def CompositeRouteSourceAccount_def

record composite_route =
  ID :: int
  GroupID :: int
  PublicModel :: string
  MatchType :: string
  TargetPlatform :: string
  UpstreamModel :: string
  Endpoint :: string
  Priority :: int
  Enabled :: bool
  Notes :: string

record route_decision =
  Matched :: bool
  Source :: string
  d_GroupID :: int
  d_PublicModel :: string
  d_TargetPlatform :: string
  d_UpstreamModel :: string
  d_Endpoint :: string
  Route :: "composite_route option"
  d_Reason :: string

record route_input =
  in_PublicModel :: string
  in_MatchType :: string
  in_TargetPlatform :: string
  in_UpstreamModel :: string
  in_Endpoint :: string
  in_Priority :: int
  in_Enabled :: bool
  in_Notes :: string

record ownership =
  o_TargetPlatform :: string
  o_Matched :: bool
  Ambiguous :: bool
  OpenAIGatewayOAuthClaimed :: bool

definition normalizeCompositeRouteEndpoint :: "(string \<Rightarrow> string) \<Rightarrow> string \<Rightarrow> string" where
  "normalizeCompositeRouteEndpoint ulow e =
     (let endpoint = ToLower ulow (TrimSpace e)
      in if endpoint = [] then CompositeRouteEndpointAny
         else if endpoint \<in> set composite_route_endpoints then endpoint
         else CompositeRouteEndpointAny)"

definition normalizeCompositeRouteMatchType :: "(string \<Rightarrow> string) \<Rightarrow> string \<Rightarrow> string" where
  "normalizeCompositeRouteMatchType ulow m =
     (if ToLower ulow (TrimSpace m) = CompositeRouteMatchPrefix then CompositeRouteMatchPrefix
      else CompositeRouteMatchExact)"

definition normalizeCompositeRouteInput :: "(string \<Rightarrow> string) \<Rightarrow> route_input \<Rightarrow> route_input" where
  "normalizeCompositeRouteInput ulow input =
     (let i1 = input\<lparr>in_PublicModel := TrimSpace (in_PublicModel input),
                 in_MatchType := normalizeCompositeRouteMatchType ulow (in_MatchType input),
                 in_TargetPlatform := TrimSpace (in_TargetPlatform input),
                 in_UpstreamModel := TrimSpace (in_UpstreamModel input),
                 in_Endpoint := normalizeCompositeRouteEndpoint ulow (in_Endpoint input)\<rparr>;
          i2 = (if in_UpstreamModel i1 = [] \<and> in_MatchType i1 = CompositeRouteMatchExact
                then i1\<lparr>in_UpstreamModel := in_PublicModel i1\<rparr> else i1)
      in i2\<lparr>in_Notes := TrimSpace (in_Notes i2)\<rparr>)"

section \<open>Matching\<close>

record candidate =
  c_route :: composite_route
  matchStrength :: int
  endpointWeight :: int
  prefixLen :: int

text \<open>One round of the loop: the candidate that a route gives, if any.\<close>

definition route_candidate :: "(string \<Rightarrow> string) \<Rightarrow> string \<Rightarrow> string \<Rightarrow> composite_route \<Rightarrow> candidate option" where
  "route_candidate ulow model endpoint route =
     (let r1 = route\<lparr>Endpoint := normalizeCompositeRouteEndpoint ulow (Endpoint route)\<rparr>
      in if Endpoint r1 \<noteq> endpoint \<and> Endpoint r1 \<noteq> CompositeRouteEndpointAny then None
         else (let r2 = r1\<lparr>MatchType := normalizeCompositeRouteMatchType ulow (MatchType r1)\<rparr>;
                   publicModel = TrimSpace (PublicModel r2);
                   weight = (if Endpoint r2 = endpoint then 1 else 0)
               in if publicModel = [] then None
                  else if MatchType r2 = CompositeRouteMatchExact then
                    (if publicModel \<noteq> model then None
                     else Some \<lparr>c_route = r2, matchStrength = 2, endpointWeight = weight, prefixLen = int (length publicModel)\<rparr>)
                  else if MatchType r2 = CompositeRouteMatchPrefix then
                    (if \<not> HasPrefix model publicModel then None
                     else Some \<lparr>c_route = r2, matchStrength = 1, endpointWeight = weight, prefixLen = int (length publicModel)\<rparr>)
                  else None))"

definition less_candidate :: "candidate \<Rightarrow> candidate \<Rightarrow> bool" where
  "less_candidate a b =
     (if matchStrength a \<noteq> matchStrength b then matchStrength b < matchStrength a
      else if endpointWeight a \<noteq> endpointWeight b then endpointWeight b < endpointWeight a
      else if prefixLen a \<noteq> prefixLen b then prefixLen b < prefixLen a
      else if Priority (c_route a) \<noteq> Priority (c_route b) then Priority (c_route a) < Priority (c_route b)
      else ID (c_route a) < ID (c_route b))"

definition matchCompositeRoute ::
    "(string \<Rightarrow> string) \<Rightarrow> composite_route list \<Rightarrow> string \<Rightarrow> string \<Rightarrow> composite_route option" where
  "matchCompositeRoute ulow routes model endpoint =
     (if routes = [] then None
      else (let candidates = List.map_filter (route_candidate ulow model endpoint) routes
            in if candidates = [] then None
               else Some (c_route (slice_stable less_candidate candidates ! 0))))"

section \<open>The resolver\<close>

record route_resolver =
  repo :: "(int \<Rightarrow> (go_error, composite_route list) result) option"
  modelOwnershipResolver :: "(int \<Rightarrow> string \<Rightarrow> (go_error, ownership) result) option"
  nativeAccessResolver :: "(route_decision \<Rightarrow> string \<Rightarrow> bool \<times> go_error option) option"

definition APIProtocolAnthropic :: string where "APIProtocolAnthropic = ''anthropic''"

definition CompositeRouteReasonAmbiguous :: string where
  "CompositeRouteReasonAmbiguous = ''model is exposed by multiple provider platforms''"
definition CompositeRouteReasonOAuthAmbiguous :: string where
  "CompositeRouteReasonOAuthAmbiguous = ''model is exposed by multiple provider platforms including OAuth accounts''"

definition OAuthAmbiguous :: "route_decision \<Rightarrow> bool" where
  "OAuthAmbiguous d \<longleftrightarrow> \<not> Matched d \<and> d_Reason d = CompositeRouteReasonOAuthAmbiguous"

definition NativeAccessAllowed ::
    "route_resolver option \<Rightarrow> route_decision \<Rightarrow> string \<Rightarrow> bool \<times> go_error option" where
  "NativeAccessAllowed r decision protocol =
     (let target = d_TargetPlatform decision
      in if \<not> Matched decision then (False, None)
         else if protocol = [] then (True, None)
         else if target = PlatformAnthropic \<and> protocol \<noteq> APIProtocolAnthropic then (False, None)
         else if (target = PlatformGemini \<or> target = PlatformAntigravity) \<and> protocol \<noteq> ''gemini'' then (False, None)
         else if target = PlatformOpenAI \<and> protocol = APIProtocolAnthropic then (False, None)
         else if target = PlatformTypeSafe \<and> protocol \<noteq> ''systemone'' then (False, None)
         else (case Option.bind r nativeAccessResolver of
                 Some f \<Rightarrow> f decision protocol
               | None \<Rightarrow> (True, None)))"

definition filterSystemOneRouteModels ::
    "(string \<Rightarrow> string) \<Rightarrow> composite_route list \<Rightarrow> string list \<Rightarrow> string \<Rightarrow> string list" where
  "filterSystemOneRouteModels ulow routes models endpoint =
     filter (\<lambda>model. case matchCompositeRoute ulow routes model (normalizeCompositeRouteEndpoint ulow endpoint) of
         None \<Rightarrow> True | Some route \<Rightarrow> TargetPlatform route \<noteq> PlatformTypeSafe) models"

definition listed_route :: "(string \<Rightarrow> string) \<Rightarrow> string \<Rightarrow> composite_route \<Rightarrow> string option" where
  "listed_route ulow endpoint route =
     (if Enabled route \<and> MatchType route = CompositeRouteMatchExact
         \<and> (endpoint = [] \<or> normalizeCompositeRouteEndpoint ulow (Endpoint route) = CompositeRouteEndpointAny
            \<or> normalizeCompositeRouteEndpoint ulow (Endpoint route) = endpoint)
      then (let model = TrimSpace (PublicModel route) in if model \<noteq> [] then Some model else None)
      else None)"

definition ListExactPublicModels ::
    "(string \<Rightarrow> string) \<Rightarrow> route_resolver option \<Rightarrow> int \<Rightarrow> string \<Rightarrow> bool \<Rightarrow> (go_error, string list) result" where
  "ListExactPublicModels ulow r groupID endpoint includeSystemOne =
     (case Option.bind r repo of None \<Rightarrow> Inr []
      | Some listByGroup \<Rightarrow>
          (if groupID \<le> 0 then Inr []
           else (case listByGroup groupID of
                   Inl e \<Rightarrow> Inl e
                 | Inr routes \<Rightarrow>
                     (let models = List.map_filter (listed_route ulow endpoint) routes
                      in Inr (if \<not> includeSystemOne then filterSystemOneRouteModels ulow routes models endpoint else models)))))"

definition FilterCodexModels ::
    "(string \<Rightarrow> string) \<Rightarrow> route_resolver option \<Rightarrow> int \<Rightarrow> string list \<Rightarrow> (go_error, string list) result" where
  "FilterCodexModels ulow r groupID models =
     (case Option.bind r repo of None \<Rightarrow> Inr models
      | Some listByGroup \<Rightarrow>
          (if groupID \<le> 0 then Inr models
           else (case listByGroup groupID of
                   Inl e \<Rightarrow> Inl e
                 | Inr routes \<Rightarrow> Inr (filterSystemOneRouteModels ulow routes models CompositeRouteEndpointResponses))))"

definition no_match :: "int \<Rightarrow> string \<Rightarrow> string \<Rightarrow> string \<Rightarrow> route_decision" where
  "no_match groupID model endpoint reason =
     \<lparr>Matched = False, Source = [], d_GroupID = groupID, d_PublicModel = model, d_TargetPlatform = [],
      d_UpstreamModel = [], d_Endpoint = endpoint, Route = None, d_Reason = reason\<rparr>"

definition matched ::
    "string \<Rightarrow> int \<Rightarrow> string \<Rightarrow> string \<Rightarrow> string \<Rightarrow> string \<Rightarrow> composite_route option \<Rightarrow> route_decision" where
  "matched source groupID model target upstream endpoint route =
     \<lparr>Matched = True, Source = source, d_GroupID = groupID, d_PublicModel = model, d_TargetPlatform = target,
      d_UpstreamModel = upstream, d_Endpoint = endpoint, Route = route, d_Reason = []\<rparr>"

text \<open>The last step: the built-in detector.\<close>

definition resolve_by_detector ::
    "(string \<Rightarrow> string) \<Rightarrow> int \<Rightarrow> string \<Rightarrow> string \<Rightarrow> route_decision \<times> go_error option" where
  "resolve_by_detector ulow groupID model endpoint = (case DetectModelPlatform ulow model of
       Some platform \<Rightarrow> (matched CompositeRouteSourceDetector groupID model platform model endpoint None, None)
     | None \<Rightarrow> (no_match groupID model endpoint ''no explicit route or built-in detector match'', None))"

text \<open>The second step: the models that the accounts of the group expose.\<close>

definition resolve_by_ownership ::
    "(string \<Rightarrow> string) \<Rightarrow> route_resolver option \<Rightarrow> int \<Rightarrow> string \<Rightarrow> string \<Rightarrow> route_decision \<times> go_error option" where
  "resolve_by_ownership ulow r groupID model endpoint =
     (case Option.bind r modelOwnershipResolver of
        None \<Rightarrow> resolve_by_detector ulow groupID model endpoint
      | Some resolver \<Rightarrow>
          (if groupID \<le> 0 then resolve_by_detector ulow groupID model endpoint
           else (case resolver groupID model of
              Inl e \<Rightarrow>
                (if DetectModelPlatform ulow model = None
                 then (no_match groupID model endpoint [], Some (WrapError ''resolve account model ownership'' e))
                 else resolve_by_detector ulow groupID model endpoint)
            | Inr ow \<Rightarrow>
                (if Ambiguous ow then
                   (case DetectModelPlatform ulow model of
                      Some guessed \<Rightarrow>
                        (if OpenAIGatewayOAuthClaimed ow \<and> UsesOpenAIGateway guessed
                         then (no_match groupID model endpoint CompositeRouteReasonOAuthAmbiguous, None)
                         else (no_match groupID model endpoint CompositeRouteReasonAmbiguous, None))
                    | None \<Rightarrow> (no_match groupID model endpoint CompositeRouteReasonAmbiguous, None))
                 else if o_Matched ow then
                   (let platform = TrimSpace (o_TargetPlatform ow)
                    in if \<not> IsConcretePlatform platform
                       then (no_match groupID model endpoint ''account model ownership has no concrete target platform'', None)
                       else (matched CompositeRouteSourceAccount groupID model platform model endpoint None, None))
                 else resolve_by_detector ulow groupID model endpoint))))"

definition Resolve ::
    "(string \<Rightarrow> string) \<Rightarrow> route_resolver option \<Rightarrow> int \<Rightarrow> string \<Rightarrow> string \<Rightarrow> route_decision \<times> go_error option" where
  "Resolve ulow r groupID m e =
     (let model = TrimSpace m; endpoint = normalizeCompositeRouteEndpoint ulow e
      in if model = [] then (no_match groupID model endpoint ''model is required'', None)
         else (case Option.bind r repo of
             None \<Rightarrow> resolve_by_ownership ulow r groupID model endpoint
           | Some listByGroup \<Rightarrow>
               (if groupID \<le> 0 then resolve_by_ownership ulow r groupID model endpoint
                else (case listByGroup groupID of
                   Inl err \<Rightarrow> (no_match groupID model endpoint [], Some (WrapError ''list composite routes'' err))
                 | Inr routes \<Rightarrow>
                     (case matchCompositeRoute ulow routes model endpoint of
                        None \<Rightarrow> resolve_by_ownership ulow r groupID model endpoint
                      | Some route \<Rightarrow>
                          (let up = TrimSpace (UpstreamModel route)
                           in (matched CompositeRouteSourceExplicit groupID model (TargetPlatform route)
                                 (if up = [] then model else up) endpoint (Some route), None)))))))"

section \<open>The order of the candidates\<close>

definition candidate_key :: "candidate \<Rightarrow> (int \<times> int) \<times> int \<times> int \<times> int" where
  "candidate_key c = ((- matchStrength c, - endpointWeight c), - prefixLen c, Priority (c_route c), ID (c_route c))"

interpretation by_candidate: keyed_less less_candidate candidate_key
  by unfold_locales (auto simp: less_candidate_def candidate_key_def)

section \<open>Which route is chosen\<close>

text \<open>The reference: when a route serves a model at an endpoint, and how good it is.\<close>

definition route_serves :: "(string \<Rightarrow> string) \<Rightarrow> string \<Rightarrow> string \<Rightarrow> composite_route \<Rightarrow> bool" where
  "route_serves ulow model endpoint r \<longleftrightarrow>
     normalizeCompositeRouteEndpoint ulow (Endpoint r) \<in> {endpoint, CompositeRouteEndpointAny}
     \<and> TrimSpace (PublicModel r) \<noteq> []
     \<and> (if normalizeCompositeRouteMatchType ulow (MatchType r) = CompositeRouteMatchPrefix
        then HasPrefix model (TrimSpace (PublicModel r)) else TrimSpace (PublicModel r) = model)"

definition route_rank :: "(string \<Rightarrow> string) \<Rightarrow> string \<Rightarrow> composite_route \<Rightarrow> (int \<times> int) \<times> int \<times> int \<times> int" where
  "route_rank ulow endpoint r =
     ((if normalizeCompositeRouteMatchType ulow (MatchType r) = CompositeRouteMatchPrefix then -1 else -2,
       if normalizeCompositeRouteEndpoint ulow (Endpoint r) = endpoint then -1 else 0),
      - int (length (TrimSpace (PublicModel r))), Priority r, ID r)"

definition normal_route :: "(string \<Rightarrow> string) \<Rightarrow> composite_route \<Rightarrow> composite_route" where
  "normal_route ulow r = r\<lparr>Endpoint := normalizeCompositeRouteEndpoint ulow (Endpoint r),
     MatchType := normalizeCompositeRouteMatchType ulow (MatchType r)\<rparr>"

lemma match_type_cases:
  "normalizeCompositeRouteMatchType ulow m = CompositeRouteMatchPrefix
   \<or> normalizeCompositeRouteMatchType ulow m = CompositeRouteMatchExact"
  by (simp add: normalizeCompositeRouteMatchType_def)

lemma match_types_differ [simp]:
  "CompositeRouteMatchPrefix \<noteq> CompositeRouteMatchExact" "CompositeRouteMatchExact \<noteq> CompositeRouteMatchPrefix"
  by (simp_all add: route_defs)

lemma route_candidate_iff:
  "(route_candidate ulow model endpoint r \<noteq> None) = route_serves ulow model endpoint r"
  "route_candidate ulow model endpoint r = Some c \<Longrightarrow>
     c_route c = normal_route ulow r \<and> candidate_key c = route_rank ulow endpoint r"
  using match_type_cases [of ulow "MatchType r"]
  by (auto simp: route_candidate_def route_serves_def candidate_key_def route_rank_def normal_route_def Let_def
      split: if_splits)

lemma map_filter_serves:
  "List.map_filter (route_candidate ulow model endpoint) rs =
     map (\<lambda>r. the (route_candidate ulow model endpoint r)) (filter (route_serves ulow model endpoint) rs)"
  by (induction rs) (auto simp: List.map_filter_def route_candidate_iff(1) [symmetric])

lemma match_route_spec:
  "case matchCompositeRoute ulow routes model endpoint of
     None \<Rightarrow> filter (route_serves ulow model endpoint) routes = []
   | Some r \<Rightarrow> (\<exists>r0\<in>set routes. r = normal_route ulow r0 \<and> route_serves ulow model endpoint r0
       \<and> list_all (\<lambda>r1. route_rank ulow endpoint r0 \<le> route_rank ulow endpoint r1)
            (filter (route_serves ulow model endpoint) routes))"
proof -
  let ?cand = "\<lambda>r. the (route_candidate ulow model endpoint r)"
  let ?rs = "filter (route_serves ulow model endpoint) routes" and ?cs = "List.map_filter (route_candidate ulow model endpoint) routes"
  have cs: "?cs = map ?cand ?rs" by (rule map_filter_serves)
  have key: "c_route (?cand r) = normal_route ulow r \<and> candidate_key (?cand r) = route_rank ulow endpoint r"
    if "route_serves ulow model endpoint r" for r
    using that route_candidate_iff [of ulow model endpoint r] by (cases "route_candidate ulow model endpoint r") auto
  show ?thesis
  proof (cases "?rs = []")
    case True
    then have "matchCompositeRoute ulow routes model endpoint = None"
      using cs by (simp add: matchCompositeRoute_def)
    with True show ?thesis by simp
  next
    case False
    then have ne: "routes \<noteq> []" "?cs \<noteq> []" using cs by auto
    let ?c = "hd (slice_stable less_candidate ?cs)"
    have m: "matchCompositeRoute ulow routes model endpoint = Some (c_route ?c)"
      using ne by (simp add: matchCompositeRoute_def hd_conv_nth Let_def)
    have "?c \<in> set ?cs" using ne(2) hd_in_set [of "slice_stable less_candidate ?cs"] by simp
    then obtain r0 where r0: "r0 \<in> set routes" "route_serves ulow model endpoint r0" "?c = ?cand r0"
      unfolding cs by auto
    have "route_rank ulow endpoint r0 \<le> route_rank ulow endpoint r1" if "r1 \<in> set ?rs" for r1
      using by_candidate.slice_stable_hd_min [of "?cand r1" ?cs] that key [of r0] key [of r1] r0 unfolding cs by auto
    with m r0 key [of r0] show ?thesis by (auto simp: list_all_iff)
  qed
qed

lemma Resolve_unfold:
  "TrimSpace m \<noteq> [] \<Longrightarrow> Option.bind r repo = Some listByGroup \<Longrightarrow> 0 < g \<Longrightarrow> listByGroup g = Inr routes \<Longrightarrow>
   Resolve ulow r g m e = (case matchCompositeRoute ulow routes (TrimSpace m) (normalizeCompositeRouteEndpoint ulow e) of
       None \<Rightarrow> resolve_by_ownership ulow r g (TrimSpace m) (normalizeCompositeRouteEndpoint ulow e)
     | Some route \<Rightarrow> (matched CompositeRouteSourceExplicit g (TrimSpace m) (TargetPlatform route)
          (if TrimSpace (UpstreamModel route) = [] then TrimSpace m else TrimSpace (UpstreamModel route))
          (normalizeCompositeRouteEndpoint ulow e) (Some route), None))"
  by (simp add: Resolve_def Let_def split: option.splits)

lemma endpoint_values:
  "normalizeCompositeRouteEndpoint ulow e \<in> insert CompositeRouteEndpointAny (set composite_route_endpoints)"
  by (simp add: normalizeCompositeRouteEndpoint_def Let_def)

lemma endpoint_plain:
  "e \<in> insert CompositeRouteEndpointAny (set composite_route_endpoints) \<Longrightarrow> normalizeCompositeRouteEndpoint ulow e = e"
proof -
  assume e: "e \<in> insert CompositeRouteEndpointAny (set composite_route_endpoints)"
  then have "plain_name e" "e \<noteq> []" by (auto simp: route_defs plain_name_def is_graphic_def)
  with e show ?thesis by (auto simp: normalizeCompositeRouteEndpoint_def plain_simps Let_def)
qed

lemma normalize_endpoint_idem [simp]:
  "normalizeCompositeRouteEndpoint ulow (normalizeCompositeRouteEndpoint ulow e) = normalizeCompositeRouteEndpoint ulow e"
  by (rule endpoint_plain [OF endpoint_values])

lemma match_type_plain [simp]:
  "normalizeCompositeRouteMatchType ulow CompositeRouteMatchPrefix = CompositeRouteMatchPrefix"
  "normalizeCompositeRouteMatchType ulow CompositeRouteMatchExact = CompositeRouteMatchExact"
proof -
  have "plain_name CompositeRouteMatchPrefix" "plain_name CompositeRouteMatchExact"
    by (simp_all add: route_defs plain_name_def is_graphic_def)
  then show "normalizeCompositeRouteMatchType ulow CompositeRouteMatchPrefix = CompositeRouteMatchPrefix"
    "normalizeCompositeRouteMatchType ulow CompositeRouteMatchExact = CompositeRouteMatchExact"
    by (simp_all add: normalizeCompositeRouteMatchType_def plain_simps)
qed

lemma listed_models_routed:
  assumes "ListExactPublicModels ulow r g endpoint b = Inr ms" and "m \<in> set ms"
    and "endpoint \<in> insert CompositeRouteEndpointAny (set composite_route_endpoints)"
  shows "\<exists>listByGroup routes route. Option.bind r repo = Some listByGroup \<and> 0 < g \<and> listByGroup g = Inr routes
    \<and> TrimSpace m = m \<and> m \<noteq> [] \<and> matchCompositeRoute ulow routes m endpoint = Some route
    \<and> (b \<or> TargetPlatform route \<noteq> PlatformTypeSafe)"
proof -
  have en: "normalizeCompositeRouteEndpoint ulow endpoint = endpoint" "endpoint \<noteq> []"
    using endpoint_plain [OF assms(3), of ulow] assms(3) by (auto simp: route_defs)
  obtain f routes where f: "Option.bind r repo = Some f" "0 < g" "f g = Inr routes"
    and ms: "ms = (if \<not> b then filterSystemOneRouteModels ulow routes (List.map_filter (listed_route ulow endpoint) routes) endpoint
        else List.map_filter (listed_route ulow endpoint) routes)"
    using assms(1,2) by (auto simp: ListExactPublicModels_def Let_def split: option.splits if_splits sum.splits)
  have "m \<in> set (List.map_filter (listed_route ulow endpoint) routes)"
    using ms assms(2) by (auto simp: filterSystemOneRouteModels_def split: if_splits)
  then obtain r1 where r1: "r1 \<in> set routes" "listed_route ulow endpoint r1 = Some m"
    by (auto simp: List.map_filter_def)
  then have m: "m = TrimSpace (PublicModel r1)" "m \<noteq> []"
    and ty: "MatchType r1 = CompositeRouteMatchExact"
    and ep: "normalizeCompositeRouteEndpoint ulow (Endpoint r1) \<in> {endpoint, CompositeRouteEndpointAny}"
    using en(2) by (auto simp: listed_route_def Let_def split: if_splits)
  then have "route_serves ulow m endpoint r1" by (simp add: route_serves_def)
  then have "filter (route_serves ulow m endpoint) routes \<noteq> []" using r1(1) by (auto simp: filter_empty_conv)
  then obtain route where route: "matchCompositeRoute ulow routes m endpoint = Some route"
    using match_route_spec [where ulow = ulow and routes = routes and model = m and endpoint = endpoint] by (cases "matchCompositeRoute ulow routes m endpoint") auto
  moreover have "b \<or> TargetPlatform route \<noteq> PlatformTypeSafe"
    using ms assms(2) route en by (auto simp: filterSystemOneRouteModels_def split: if_splits)
  ultimately show ?thesis using f m by auto
qed

section \<open>Properties\<close>

text \<open>
  C10. The chosen route is the best one: a route is found exactly when some route serves the model at
  the endpoint, and it is then a serving route of the least rank: exact before prefix, the very
  endpoint before any endpoint, the longer prefix, the smaller priority number, the smaller identifier.
\<close>

theorem matchCompositeRoute_best:
  "case matchCompositeRoute ulow routes model endpoint of
     None \<Rightarrow> filter (route_serves ulow model endpoint) routes = []
   | Some r \<Rightarrow> (\<exists>r0\<in>set routes. r = normal_route ulow r0 \<and> route_serves ulow model endpoint r0
       \<and> list_all (\<lambda>r1. route_rank ulow endpoint r0 \<le> route_rank ulow endpoint r1)
            (filter (route_serves ulow model endpoint) routes))"
  by (rule match_route_spec)

text \<open>What each source of a decision must have found.\<close>

definition explicit_choice ::
    "(string \<Rightarrow> string) \<Rightarrow> route_resolver option \<Rightarrow> int \<Rightarrow> string \<Rightarrow> string \<Rightarrow> composite_route \<Rightarrow> bool" where
  "explicit_choice ulow r g model endpoint r0 \<longleftrightarrow> 0 < g \<and> (\<exists>listByGroup routes. Option.bind r repo = Some listByGroup
     \<and> listByGroup g = Inr routes \<and> r0 \<in> set routes \<and> route_serves ulow model endpoint r0
     \<and> (\<forall>r1\<in>set routes. route_serves ulow model endpoint r1 \<longrightarrow> route_rank ulow endpoint r0 \<le> route_rank ulow endpoint r1))"

definition no_explicit :: "(string \<Rightarrow> string) \<Rightarrow> route_resolver option \<Rightarrow> int \<Rightarrow> string \<Rightarrow> string \<Rightarrow> bool" where
  "no_explicit ulow r g model endpoint \<longleftrightarrow> (case Option.bind r repo of None \<Rightarrow> True
     | Some listByGroup \<Rightarrow> 0 < g \<longrightarrow> (case listByGroup g of Inl e \<Rightarrow> False
         | Inr routes \<Rightarrow> \<not> list_ex (route_serves ulow model endpoint) routes))"

text \<open>What the accounts of the group say: nothing, an owner, several owners, or an error.\<close>

definition owners_of :: "route_resolver option \<Rightarrow> int \<Rightarrow> string \<Rightarrow> (go_error, ownership) result option" where
  "owners_of r g model = (case Option.bind r modelOwnershipResolver of
     None \<Rightarrow> None | Some resolver \<Rightarrow> if 0 < g then Some (resolver g model) else None)"

definition owned_by :: "route_resolver option \<Rightarrow> int \<Rightarrow> string \<Rightarrow> string \<Rightarrow> bool" where
  "owned_by r g model platform \<longleftrightarrow> (case owners_of r g model of
     Some (Inr ow) \<Rightarrow> \<not> Ambiguous ow \<and> o_Matched ow \<and> platform = TrimSpace (o_TargetPlatform ow) | _ \<Rightarrow> False)"

definition not_owned :: "route_resolver option \<Rightarrow> int \<Rightarrow> string \<Rightarrow> bool" where
  "not_owned r g model \<longleftrightarrow> (case owners_of r g model of Some (Inr ow) \<Rightarrow> \<not> Ambiguous ow \<and> \<not> o_Matched ow | _ \<Rightarrow> True)"

lemma Matched_matched: "Matched (matched source g m target up e rt)"
  by (simp add: matched_def)

lemma by_detector_justified:
  "resolve_by_detector ulow g m e = (d, err) \<Longrightarrow> err = None \<and> (Matched d \<longrightarrow>
     (\<exists>p. d = matched CompositeRouteSourceDetector g m p m e None \<and> DetectModelPlatform ulow m = Some p \<and> IsConcretePlatform p))"
  by (auto simp: resolve_by_detector_def no_match_def dest: DetectModelPlatform_concrete split: option.splits)

lemma by_ownership_justified:
  assumes "resolve_by_ownership ulow r g m e = (d, err)"
  shows "(err \<noteq> None \<longrightarrow> \<not> Matched d) \<and> (Matched d \<longrightarrow> (\<exists>p. IsConcretePlatform p \<and>
     ((d = matched CompositeRouteSourceAccount g m p m e None \<and> owned_by r g m p)
      \<or> (d = matched CompositeRouteSourceDetector g m p m e None \<and> DetectModelPlatform ulow m = Some p \<and> not_owned r g m))))"
  using assms unfolding resolve_by_ownership_def Let_def owned_by_def not_owned_def owners_of_def
  by (auto simp: no_match_def matched_def dest: by_detector_justified [unfolded matched_def]
      split: option.splits sum.splits if_splits)

text \<open>
  C25. Every decision is justified.  An error never comes with a match.  A matched decision is for the
  group, the trimmed model (which is not empty) and the normalised endpoint, and one of three holds.  It
  names a stored route of the group that serves the model at the endpoint, of the least rank among those,
  and takes the target of that route and its upstream model (the requested model when that is blank).  Or
  no stored route serves the model, and the target is the concrete platform that the accounts of the group
  own the model for, or, when they own nothing or cannot be asked, the platform that the detector gives;
  the model is then passed on unchanged.  Without a match and without an error the model was empty or no stored
  route serves it.
\<close>

theorem Resolve_justified:
  assumes "Resolve ulow r g m e = (d, err)" and "model = TrimSpace m" and "endpoint = normalizeCompositeRouteEndpoint ulow e"
  shows "(err \<noteq> None \<longrightarrow> \<not> Matched d) \<and> (Matched d \<longrightarrow> model \<noteq> [] \<and>
     ((\<exists>r0. explicit_choice ulow r g model endpoint r0
        \<and> d = matched CompositeRouteSourceExplicit g model (TargetPlatform r0)
            (if TrimSpace (UpstreamModel r0) = [] then model else TrimSpace (UpstreamModel r0)) endpoint (Some (normal_route ulow r0)))
    \<or> (no_explicit ulow r g model endpoint \<and> (\<exists>p. IsConcretePlatform p \<and>
        ((d = matched CompositeRouteSourceAccount g model p model endpoint None \<and> owned_by r g model p)
         \<or> (d = matched CompositeRouteSourceDetector g model p model endpoint None
              \<and> DetectModelPlatform ulow model = Some p \<and> not_owned r g model))))))
    \<and> (err = None \<and> \<not> Matched d \<longrightarrow> model = [] \<or> no_explicit ulow r g model endpoint)"
proof -
  consider (empty) "\<not> Matched d" "err = None" "model = []" | (listing) "\<not> Matched d" "err \<noteq> None"
    | (owner) "resolve_by_ownership ulow r g model endpoint = (d, err)" "model \<noteq> []" "no_explicit ulow r g model endpoint"
    | (route) f routes route where "Option.bind r repo = Some f" "0 < g" "f g = Inr routes" "model \<noteq> []" "err = None"
        "matchCompositeRoute ulow routes model endpoint = Some route"
        "d = matched CompositeRouteSourceExplicit g model (TargetPlatform route)
          (if TrimSpace (UpstreamModel route) = [] then model else TrimSpace (UpstreamModel route)) endpoint (Some route)"
  proof -
    have free: "\<not> list_ex (route_serves ulow model endpoint) routes" if "matchCompositeRoute ulow routes model endpoint = None" for routes
      using match_route_spec [where ulow = ulow and routes = routes and model = model and endpoint = endpoint] that
      by (simp add: list_ex_iff filter_empty_conv)
    show thesis using assms(1) that free unfolding Resolve_def Let_def assms(2,3) [symmetric] no_explicit_def
      by (auto simp: no_match_def split: if_splits option.splits sum.splits)
  qed
  then show ?thesis
  proof cases
    case owner
    then show ?thesis using by_ownership_justified [OF owner(1)] by blast
  next
    case (route f routes route)
    obtain r0 where r0: "r0 \<in> set routes" "route = normal_route ulow r0" "route_serves ulow model endpoint r0"
      "list_all (\<lambda>r1. route_rank ulow endpoint r0 \<le> route_rank ulow endpoint r1) (filter (route_serves ulow model endpoint) routes)"
      using match_route_spec [where ulow = ulow and routes = routes and model = model and endpoint = endpoint] route(6) by auto
    then have "explicit_choice ulow r g model endpoint r0"
      using route(1-3) by (auto simp: explicit_choice_def list_all_iff)
    then show ?thesis using route(4,5,7) r0(2) by (auto simp: normal_route_def Matched_matched)
  qed auto
qed

theorem Resolve_justified_witness:
  "IsConcretePlatform (d_TargetPlatform (fst (Resolve id None 1 ''gpt-5'' ''messages'')))"
proof -
  have "plain_name ''gpt-5''" by (simp add: plain_name_def is_graphic_def)
  then have d: "Resolve id None 1 ''gpt-5'' ''messages'' =
      (matched CompositeRouteSourceDetector 1 ''gpt-5'' PlatformOpenAI ''gpt-5'' (normalizeCompositeRouteEndpoint id ''messages'') None, None)"
    by (simp add: Resolve_def resolve_by_ownership_def resolve_by_detector_def DetectModelPlatform_def plain_simps
        TrimPrefix_def IndexByte_def name_platform_def Let_def)
  from Resolve_justified [OF this refl refl] show ?thesis by (auto simp: d matched_def route_defs)
qed

text \<open>
  What the catalogue lists is routed: every model that is listed for an endpoint is resolved, at
  that endpoint, by an explicit route, and when models of System One are left out, not to TypeSafe.
\<close>

theorem listed_models_resolve:
  assumes "ListExactPublicModels ulow r g endpoint b = Inr ms" and "m \<in> set ms"
    and "endpoint \<in> insert CompositeRouteEndpointAny (set composite_route_endpoints)"
  shows "case Resolve ulow r g m endpoint of (d, err) \<Rightarrow> err = None \<and> Matched d
    \<and> Source d = CompositeRouteSourceExplicit \<and> d_PublicModel d = m
    \<and> (b \<or> d_TargetPlatform d \<noteq> PlatformTypeSafe)"
proof -
  obtain f routes route where *: "Option.bind r repo = Some f" "0 < g" "f g = Inr routes" "TrimSpace m = m" "m \<noteq> []"
    "matchCompositeRoute ulow routes m endpoint = Some route" "b \<or> TargetPlatform route \<noteq> PlatformTypeSafe"
    using listed_models_routed [OF assms] by blast
  have en: "normalizeCompositeRouteEndpoint ulow endpoint = endpoint" by (rule endpoint_plain [OF assms(3)])
  have ne: "TrimSpace m \<noteq> []" using * by simp
  show ?thesis
    using * by (simp add: Resolve_unfold [OF ne *(1,2,3), where ulow = ulow and e = endpoint, unfolded en] matched_def)
qed

definition demo_route :: composite_route where
  "demo_route = \<lparr>ID = 1, GroupID = 7, PublicModel = ''fast'', MatchType = ''exact'', TargetPlatform = ''openai'',
     UpstreamModel = ''gpt-5'', Endpoint = ''any'', Priority = 100, Enabled = True, Notes = []\<rparr>"

definition demo_resolver :: route_resolver where
  "demo_resolver = \<lparr>repo = Some (\<lambda>g. Inr [demo_route]), modelOwnershipResolver = None, nativeAccessResolver = None\<rparr>"

theorem listed_models_resolve_witness:
  "Source (fst (Resolve id (Some demo_resolver) 7 ''fast'' ''responses'')) = CompositeRouteSourceExplicit"
proof -
  have plain: "plain_name ''fast''" "plain_name ''any''" by (simp_all add: plain_name_def is_graphic_def)
  have "ListExactPublicModels id (Some demo_resolver) 7 ''responses'' True = Inr [''fast'']"
    by (simp add: ListExactPublicModels_def demo_resolver_def listed_route_def demo_route_def List.map_filter_def
        normalizeCompositeRouteEndpoint_def plain plain_simps route_defs)
  from listed_models_resolve [OF this, of "''fast''"] show ?thesis
    by (auto simp: route_defs split: prod.splits)
qed

end
