(* ===== verification/Composite_Admin.thy ===== *)
theory Composite_Admin
  imports Composite_Routes
begin

text \<open>
  The table of composite routes (\<^verbatim>\<open>backend/internal/repository/composite_model_route_repo.go\<close>, with the
  unique index of \<^verbatim>\<open>backend/migrations/172_composite_model_routes.sql\<close>) and the operations of an
  administrator on it (\<^verbatim>\<open>backend/internal/service/admin_group.go\<close>).

  The table holds the rows that are not deleted.  Every call is one step; faults of the connection
  are not modelled here.  The look-up of a group and the checks of the generated client on a row are
  fields of the environment.
\<close>

section \<open>The repository\<close>

record route_db =
  routes :: "composite_route list"
  next_route_id :: int

definition ErrCompositeRouteNotFound :: app_error where
  "ErrCompositeRouteNotFound = NotFound ''COMPOSITE_ROUTE_NOT_FOUND'' ''composite route not found''"

definition ErrCompositeRouteExists :: app_error where
  "ErrCompositeRouteExists = Conflict ''COMPOSITE_ROUTE_EXISTS'' ''composite route already exists''"

definition unique_key :: "composite_route \<Rightarrow> int \<times> string \<times> string \<times> string" where
  "unique_key r = (GroupID r, Endpoint r, MatchType r, PublicModel r)"

definition less_stored :: "composite_route \<Rightarrow> composite_route \<Rightarrow> bool" where
  "less_stored a b \<longleftrightarrow> Priority a < Priority b \<or> (Priority a = Priority b \<and> ID a < ID b)"

definition ListByGroup :: "int \<Rightarrow> bool \<Rightarrow> route_db \<Rightarrow> composite_route list" where
  "ListByGroup g includeDisabled db =
     slice_stable less_stored (filter (\<lambda>r. GroupID r = g \<and> (includeDisabled \<or> Enabled r)) (routes db))"

definition find_route :: "int \<Rightarrow> route_db \<Rightarrow> composite_route option" where
  "find_route i db = find (\<lambda>r. ID r = i) (routes db)"

definition key_taken :: "int \<Rightarrow> composite_route \<Rightarrow> route_db \<Rightarrow> bool" where
  "key_taken i r db \<longleftrightarrow> list_ex (\<lambda>x. ID x \<noteq> i \<and> unique_key x = unique_key r) (routes db)"

definition CreateRow ::
    "(composite_route \<Rightarrow> go_error option) \<Rightarrow> composite_route \<Rightarrow> route_db \<Rightarrow> (go_error, composite_route) result \<times> route_db" where
  "CreateRow check r db =
     (let row = r\<lparr>ID := next_route_id db\<rparr>
      in case check r of Some e \<Rightarrow> (Inl e, db)
         | None \<Rightarrow> (if key_taken (next_route_id db) r db
                   then (Inl (to_error (WithCause ErrCompositeRouteExists (Some (PlainError ''unique_violation'')))), db)
                   else (Inr row, \<lparr>routes = routes db @ [row], next_route_id = next_route_id db + 1\<rparr>)))"

definition UpdateRow ::
    "(composite_route \<Rightarrow> go_error option) \<Rightarrow> composite_route \<Rightarrow> route_db \<Rightarrow> (go_error, composite_route) result \<times> route_db" where
  "UpdateRow check r db = (case check r of Some e \<Rightarrow> (Inl e, db)
     | None \<Rightarrow> (case find_route (ID r) db of
          None \<Rightarrow> (Inl (to_error (WithCause ErrCompositeRouteNotFound (Some (PlainError ''not found'')))), db)
        | Some old \<Rightarrow>
            (let row = r\<lparr>GroupID := GroupID old\<rparr>
             in if key_taken (ID r) row db
                then (Inl (to_error (WithCause ErrCompositeRouteExists (Some (PlainError ''unique_violation'')))), db)
                else (Inr row, db\<lparr>routes := map (\<lambda>x. if ID x = ID r then row else x) (routes db)\<rparr>))))"

definition DeleteRow :: "int \<Rightarrow> route_db \<Rightarrow> go_error option \<times> route_db" where
  "DeleteRow i db = (case find_route i db of
       None \<Rightarrow> (Some (to_error (WithCause ErrCompositeRouteNotFound (Some (PlainError ''not found'')))), db)
     | Some _ \<Rightarrow> (None, db\<lparr>routes := filter (\<lambda>r. ID r \<noteq> i) (routes db)\<rparr>))"

definition DeleteByGroup :: "int \<Rightarrow> route_db \<Rightarrow> route_db" where
  "DeleteByGroup g db = db\<lparr>routes := filter (\<lambda>r. GroupID r \<noteq> g) (routes db)\<rparr>"

section \<open>The administrator's operations\<close>

record admin_env =
  simple_mode :: bool
  has_repo :: bool
  group_platform :: "int \<Rightarrow> (go_error, string) result"
  row_check :: "composite_route \<Rightarrow> go_error option"

definition ValidateSimpleModeGroupOperation :: "admin_env \<Rightarrow> (go_error, unit) result" where
  "ValidateSimpleModeGroupOperation env =
     (if simple_mode env then Inl (to_error (New 403 ''SIMPLE_MODE_OPERATION_UNSUPPORTED'' ''This operation is not supported in simple mode''))
      else Inr ())"

definition requireCompositeGroup :: "admin_env \<Rightarrow> int \<Rightarrow> (go_error, unit) result" where
  "requireCompositeGroup env g = result_bind (group_platform env g)
     (\<lambda>p. if p \<noteq> PlatformComposite then Inl (PlainError ''group is not a composite group'') else Inr ())"

text \<open>The checks with which every operation begins.\<close>

definition admin_guard :: "admin_env \<Rightarrow> int \<Rightarrow> (go_error, unit) result" where
  "admin_guard env g = result_bind (ValidateSimpleModeGroupOperation env)
     (\<lambda>_. result_bind (requireCompositeGroup env g)
       (\<lambda>_. if \<not> has_repo env then Inl (PlainError ''composite route repository is not configured'') else Inr ()))"

definition compositeRouteBelongsToGroup :: "int \<Rightarrow> int \<Rightarrow> route_db \<Rightarrow> bool" where
  "compositeRouteBelongsToGroup g routeID db \<longleftrightarrow> list_ex (\<lambda>r. ID r = routeID) (ListByGroup g True db)"

definition compositeRouteFromInput ::
    "(string \<Rightarrow> string) \<Rightarrow> int \<Rightarrow> route_input \<Rightarrow> (go_error, composite_route) result" where
  "compositeRouteFromInput ulow g inp =
     (let input = normalizeCompositeRouteInput ulow inp
      in if in_PublicModel input = [] then Inl (PlainError ''public_model is required'')
         else if \<not> IsConcretePlatform (in_TargetPlatform input) then Inl (PlainError ''target_platform must be a concrete provider'')
         else Inr \<lparr>ID = 0, GroupID = g, PublicModel = in_PublicModel input, MatchType = in_MatchType input,
                TargetPlatform = in_TargetPlatform input, UpstreamModel = in_UpstreamModel input,
                Endpoint = in_Endpoint input, Priority = (if in_Priority input = 0 then 100 else in_Priority input),
                Enabled = in_Enabled input, Notes = in_Notes input\<rparr>)"

definition ListCompositeRoutes :: "admin_env \<Rightarrow> int \<Rightarrow> route_db \<Rightarrow> (go_error, composite_route list) result" where
  "ListCompositeRoutes env g db = result_bind (admin_guard env g) (\<lambda>_. Inr (ListByGroup g True db))"

definition CreateCompositeRoute ::
    "(string \<Rightarrow> string) \<Rightarrow> admin_env \<Rightarrow> int \<Rightarrow> route_input \<Rightarrow> route_db \<Rightarrow> (go_error, composite_route) result \<times> route_db" where
  "CreateCompositeRoute ulow env g input db = (case admin_guard env g of Inl e \<Rightarrow> (Inl e, db)
     | Inr _ \<Rightarrow> (case compositeRouteFromInput ulow g input of Inl e \<Rightarrow> (Inl e, db)
         | Inr route \<Rightarrow> CreateRow (row_check env) route db))"

definition UpdateCompositeRoute ::
    "(string \<Rightarrow> string) \<Rightarrow> admin_env \<Rightarrow> int \<Rightarrow> int \<Rightarrow> route_input \<Rightarrow> route_db
       \<Rightarrow> (go_error, composite_route) result \<times> route_db" where
  "UpdateCompositeRoute ulow env g routeID input db = (case admin_guard env g of Inl e \<Rightarrow> (Inl e, db)
     | Inr _ \<Rightarrow>
        (if \<not> compositeRouteBelongsToGroup g routeID db then (Inl (to_error ErrCompositeRouteNotFound), db)
         else (case compositeRouteFromInput ulow g input of Inl e \<Rightarrow> (Inl e, db)
           | Inr route \<Rightarrow> UpdateRow (row_check env) (route\<lparr>ID := routeID\<rparr>) db)))"

definition DeleteCompositeRoute :: "admin_env \<Rightarrow> int \<Rightarrow> int \<Rightarrow> route_db \<Rightarrow> go_error option \<times> route_db" where
  "DeleteCompositeRoute env g routeID db = (case admin_guard env g of Inl e \<Rightarrow> (Some e, db)
     | Inr _ \<Rightarrow>
        (if \<not> compositeRouteBelongsToGroup g routeID db then (Some (to_error ErrCompositeRouteNotFound), db)
         else DeleteRow routeID db))"

section \<open>The gateway's resolver on the table\<close>

definition resolver_on :: "route_db \<Rightarrow> (int \<Rightarrow> string \<Rightarrow> (go_error, ownership) result) option \<Rightarrow> route_resolver" where
  "resolver_on db owner =
     \<lparr>repo = Some (\<lambda>g. Inr (ListByGroup g False db)), modelOwnershipResolver = owner, nativeAccessResolver = None\<rparr>"

section \<open>The invariant\<close>

definition row_normal :: "composite_route \<Rightarrow> bool" where
  "row_normal r \<longleftrightarrow> TrimSpace (PublicModel r) = PublicModel r \<and> PublicModel r \<noteq> []
     \<and> MatchType r \<in> {CompositeRouteMatchExact, CompositeRouteMatchPrefix}
     \<and> Endpoint r \<in> insert CompositeRouteEndpointAny (set composite_route_endpoints)
     \<and> IsConcretePlatform (TargetPlatform r) \<and> TrimSpace (UpstreamModel r) = UpstreamModel r
     \<and> (MatchType r = CompositeRouteMatchExact \<longrightarrow> UpstreamModel r \<noteq> [])"

definition route_db_ok :: "route_db \<Rightarrow> bool" where
  "route_db_ok db \<longleftrightarrow> distinct (map ID (routes db)) \<and> distinct (map unique_key (routes db))
     \<and> (\<forall>r\<in>set (routes db). row_normal r \<and> ID r < next_route_id db)"

inductive admin_run :: "(string \<Rightarrow> string) \<Rightarrow> route_db \<Rightarrow> bool" for ulow where
  empty: "admin_run ulow \<lparr>routes = [], next_route_id = 1\<rparr>"
| create: "admin_run ulow db \<Longrightarrow> admin_run ulow (snd (CreateCompositeRoute ulow env g input db))"
| update: "admin_run ulow db \<Longrightarrow> admin_run ulow (snd (UpdateCompositeRoute ulow env g i input db))"
| delete: "admin_run ulow db \<Longrightarrow> admin_run ulow (snd (DeleteCompositeRoute env g i db))"
| drop_group: "admin_run ulow db \<Longrightarrow> admin_run ulow (DeleteByGroup g db)"

lemma route_from_input_normal:
  assumes "compositeRouteFromInput ulow g input = Inr r"
  shows "row_normal r"
proof -
  have "MatchType r = normalizeCompositeRouteMatchType ulow (in_MatchType input)"
    "Endpoint r = normalizeCompositeRouteEndpoint ulow (in_Endpoint input)"
    "PublicModel r = TrimSpace (in_PublicModel input)" "PublicModel r \<noteq> []" "IsConcretePlatform (TargetPlatform r)"
    "UpstreamModel r = (if TrimSpace (in_UpstreamModel input) = [] \<and> MatchType r = CompositeRouteMatchExact
       then TrimSpace (in_PublicModel input) else TrimSpace (in_UpstreamModel input))"
    using assms by (auto simp: compositeRouteFromInput_def normalizeCompositeRouteInput_def Let_def split: if_splits)
  with endpoint_values [of ulow "in_Endpoint input"] match_type_cases [of ulow "in_MatchType input"]
  show ?thesis by (auto simp: row_normal_def)
qed

lemma row_normal_cong:
  "row_normal r \<Longrightarrow> row_normal (r\<lparr>ID := i\<rparr>)" "row_normal r \<Longrightarrow> row_normal (r\<lparr>GroupID := g\<rparr>)"
  by (simp_all add: row_normal_def)

lemma CreateRow_ok:
  assumes "route_db_ok db" and "row_normal r"
  shows "route_db_ok (snd (CreateRow check r db))"
proof (cases "check r = None \<and> \<not> key_taken (next_route_id db) r db")
  case True
  let ?row = "r\<lparr>ID := next_route_id db\<rparr>"
  have "unique_key ?row = unique_key r" by (simp add: unique_key_def)
  moreover have "next_route_id db \<notin> ID ` set (routes db)" using assms(1) by (force simp: route_db_ok_def)
  moreover have "unique_key r \<notin> unique_key ` set (routes db)"
    using True \<open>next_route_id db \<notin> _\<close> by (force simp: key_taken_def list_ex_iff)
  ultimately show ?thesis
    using True assms row_normal_cong(1) [OF assms(2)] by (auto simp: CreateRow_def Let_def route_db_ok_def)
qed (use assms(1) in \<open>auto simp: CreateRow_def Let_def split: option.splits\<close>)

lemma map_replace_ids: "ID row = i \<Longrightarrow> map ID (map (\<lambda>x. if ID x = i then row else x) rs) = map ID rs"
  by (induction rs) auto

lemma UpdateRow_ok:
  assumes "route_db_ok db" and "row_normal r"
  shows "route_db_ok (snd (UpdateRow check r db))"
proof (cases "check r = None \<and> find_route (ID r) db \<noteq> None
    \<and> \<not> key_taken (ID r) (r\<lparr>GroupID := GroupID (the (find_route (ID r) db))\<rparr>) db")
  case True
  then obtain old where old: "find_route (ID r) db = Some old" by auto
  let ?row = "r\<lparr>GroupID := GroupID old\<rparr>"
  let ?f = "\<lambda>x. if ID x = ID r then ?row else x"
  have r: "snd (UpdateRow check r db) = db\<lparr>routes := map ?f (routes db)\<rparr>"
    using True old by (simp add: UpdateRow_def Let_def)
  have in_db: "old \<in> set (routes db)" "ID old = ID r" using old by (auto simp: find_route_def dest: find_SomeD)
  have free: "unique_key x \<noteq> unique_key ?row" if "x \<in> set (routes db)" "ID x \<noteq> ID r" for x
    using True old that by (auto simp: key_taken_def list_ex_iff)
  have "distinct (map unique_key (map ?f rs))"
    if "distinct (map ID rs)" "distinct (map unique_key rs)" "set rs \<subseteq> set (routes db)" for rs
    using that
  proof (induction rs)
    case (Cons x rs)
    have IH: "distinct (map unique_key (map ?f rs))" using Cons by simp
    have "unique_key (?f x) \<noteq> unique_key (?f y)" if y: "y \<in> set rs" for y
    proof -
      have "ID x \<noteq> ID y" "unique_key x \<noteq> unique_key y" "x \<in> set (routes db)" "y \<in> set (routes db)"
        using Cons.prems y by (auto simp: image_iff)
      then show ?thesis using free [of x] free [of y] by auto
    qed
    then have "unique_key (?f x) \<notin> (\<lambda>y. unique_key (?f y)) ` set rs" by (metis (no_types, lifting) imageE)
    with IH show ?case by (simp add: image_image)
  qed simp
  then have "distinct (map unique_key (map ?f (routes db)))" using assms(1) by (simp add: route_db_ok_def)
  moreover have "map ID (map ?f (routes db)) = map ID (routes db)" by (rule map_replace_ids) simp
  moreover have "row_normal ?row" using assms(2) by (rule row_normal_cong)
  moreover have "ID ?row < next_route_id db" using assms(1) in_db by (auto simp: route_db_ok_def)
  ultimately show ?thesis using assms(1) unfolding r by (auto simp: route_db_ok_def simp del: map_map)
qed (use assms(1) in \<open>auto simp: UpdateRow_def Let_def split: option.splits\<close>)

lemma filter_ok: "route_db_ok db \<Longrightarrow> route_db_ok (db\<lparr>routes := filter P (routes db)\<rparr>)"
  by (auto simp: route_db_ok_def distinct_map_filter)

lemma admin_run_ok: "admin_run ulow db \<Longrightarrow> route_db_ok db"
proof (induction rule: admin_run.induct)
  case empty
  then show ?case by (simp add: route_db_ok_def)
next
  case (create db env g input)
  then show ?case
    by (auto simp: CreateCompositeRoute_def intro!: CreateRow_ok route_from_input_normal split: sum.splits)
next
  case (update db env g i input)
  then show ?case
    by (auto simp: UpdateCompositeRoute_def intro!: UpdateRow_ok dest!: route_from_input_normal simp: row_normal_cong(1) split: sum.splits)
next
  case (delete db env g i)
  then show ?case
    by (auto simp: DeleteCompositeRoute_def DeleteRow_def intro!: filter_ok split: sum.splits option.splits)
next
  case (drop_group db g)
  then show ?case by (simp add: DeleteByGroup_def filter_ok)
qed

section \<open>Resolving against the table\<close>

lemma ListByGroup_set: "r \<in> set (ListByGroup g b db) \<longleftrightarrow> r \<in> set (routes db) \<and> GroupID r = g \<and> (b \<or> Enabled r)"
  by (auto simp: ListByGroup_def)

lemma normal_stored:
  assumes "route_db_ok db" and "r \<in> set (routes db)"
  shows "normal_route ulow r = r" "normalizeCompositeRouteEndpoint ulow (Endpoint r) = Endpoint r"
    "normalizeCompositeRouteMatchType ulow (MatchType r) = MatchType r" "row_normal r"
proof -
  show r: "row_normal r" using assms by (simp add: route_db_ok_def)
  then show e: "normalizeCompositeRouteEndpoint ulow (Endpoint r) = Endpoint r"
    by (intro endpoint_plain) (simp add: row_normal_def)
  show m: "normalizeCompositeRouteMatchType ulow (MatchType r) = MatchType r" using r by (auto simp: row_normal_def)
  show "normal_route ulow r = r" by (simp add: normal_route_def e m)
qed

lemma same_rank_unique:
  assumes "route_db_ok db" and "r1 \<in> set (ListByGroup g b db)" and "r2 \<in> set (ListByGroup g b db)"
    and "route_serves ulow model endpoint r1" and "route_serves ulow model endpoint r2"
    and "fst (route_rank ulow endpoint r1) = fst (route_rank ulow endpoint r2)"
    and "fst (snd (route_rank ulow endpoint r1)) = fst (snd (route_rank ulow endpoint r2))"
  shows "r1 = r2"
proof -
  have in_db: "r1 \<in> set (routes db)" "r2 \<in> set (routes db)" "GroupID r1 = g" "GroupID r2 = g"
    using assms(2,3) by (simp_all add: ListByGroup_set)
  note n1 = normal_stored [OF assms(1) in_db(1)] and n2 = normal_stored [OF assms(1) in_db(2)]
  have "MatchType r1 = MatchType r2" "Endpoint r1 = Endpoint r2"
    using assms(4-6) n1 n2 by (auto simp: route_rank_def route_serves_def row_normal_def split: if_splits)
  moreover have "PublicModel r1 = PublicModel r2"
  proof (cases "MatchType r1 = CompositeRouteMatchPrefix")
    case True
    then have "prefix (PublicModel r1) model" "prefix (PublicModel r2) model" "length (PublicModel r1) = length (PublicModel r2)"
      using assms(4,5,7) n1 n2 \<open>MatchType r1 = MatchType r2\<close>
      by (auto simp: route_serves_def route_rank_def row_normal_def)
    then show ?thesis by (auto simp: prefix_def)
  next
    case False
    then show ?thesis using assms(4,5) n1 n2 \<open>MatchType r1 = MatchType r2\<close> by (auto simp: route_serves_def row_normal_def)
  qed
  ultimately have "unique_key r1 = unique_key r2" using in_db by (simp add: unique_key_def)
  moreover have "inj_on unique_key (set (routes db))" using assms(1) by (simp add: route_db_ok_def distinct_map)
  ultimately show ?thesis using in_db(1,2) by (metis inj_onD)
qed

section \<open>Properties\<close>

text \<open>
  C22. The table stays in normal form under every sequence of the administrator's operations: keys are
  unique, public models are trimmed and not empty, match types and endpoints are known ones, targets
  are concrete platforms, and an exact route always names its upstream model.
\<close>

theorem admin_keeps_normal_form:
  assumes "admin_run ulow db"
  shows "distinct (map unique_key (routes db)) \<and> distinct (map ID (routes db)) \<and> list_all row_normal (routes db)"
  using admin_run_ok [OF assms] by (simp add: route_db_ok_def list_all_iff)

text \<open>
  The priority of a route never decides: of two routes in the table of a group that serve the same
  model at the same endpoint, the kind of match, the endpoint or the length of the prefix already
  separates them, so that the comparisons of priorities and identifiers are never reached.
\<close>

theorem priority_never_decides:
  assumes "admin_run ulow db" and "r1 \<in> set (ListByGroup g False db)" and "r2 \<in> set (ListByGroup g False db)"
    and "route_serves ulow model endpoint r1" and "route_serves ulow model endpoint r2" and "r1 \<noteq> r2"
  shows "(fst (route_rank ulow endpoint r1), fst (snd (route_rank ulow endpoint r1)))
    \<noteq> (fst (route_rank ulow endpoint r2), fst (snd (route_rank ulow endpoint r2)))"
  using same_rank_unique [OF admin_run_ok [OF assms(1)] assms(2-5)] assms(6) by auto

text \<open>
  A route that an administrator has created takes effect: an enabled exact route is the one that
  resolves its public model at its endpoint, with its target and its upstream model, whatever other
  routes the group has and whatever its accounts expose.
\<close>

theorem created_route_resolves:
  assumes "admin_run ulow db" and "CreateCompositeRoute ulow env g input db = (Inr route, db')"
    and "Enabled route" and "MatchType route = CompositeRouteMatchExact" and "0 < g"
  shows "Resolve ulow (Some (resolver_on db' owner)) g (PublicModel route) (Endpoint route) =
    (matched CompositeRouteSourceExplicit g (PublicModel route) (TargetPlatform route) (UpstreamModel route)
       (Endpoint route) (Some route), None)"
proof -
  have db': "db' = snd (CreateCompositeRoute ulow env g input db)" using assms(2) by simp
  have ok: "route_db_ok db'" unfolding db' by (rule admin_run_ok [OF admin_run.create [OF assms(1)]])
  have r: "route \<in> set (routes db')" "GroupID route = g"
    using assms(2) by (auto simp: CreateCompositeRoute_def CreateRow_def Let_def compositeRouteFromInput_def
        split: sum.splits option.splits if_splits)
  note n = normal_stored [OF ok r(1)]
  let ?rs = "ListByGroup g False db'" and ?m = "PublicModel route" and ?e = "Endpoint route"
  have mem: "route \<in> set ?rs" using r assms(3) by (simp add: ListByGroup_set)
  have sv: "route_serves ulow ?m ?e route" using n assms(4) by (simp add: route_serves_def row_normal_def)
  have rank: "fst (route_rank ulow ?e route) = (-2, -1)" using n assms(4) by (simp add: route_rank_def)
  have len: "fst (snd (route_rank ulow ?e route)) = - int (length ?m)" using n(4) by (simp add: route_rank_def row_normal_def)
  have "matchCompositeRoute ulow ?rs ?m ?e = Some route"
  proof (cases "matchCompositeRoute ulow ?rs ?m ?e")
    case None
    with match_route_spec [where ulow = ulow and routes = ?rs and model = ?m and endpoint = ?e] mem sv
    show ?thesis by (auto simp: filter_empty_conv)
  next
    case (Some r')
    with match_route_spec [where ulow = ulow and routes = ?rs and model = ?m and endpoint = ?e] obtain r0 where
      r0: "r0 \<in> set ?rs" "r' = normal_route ulow r0" "route_serves ulow ?m ?e r0"
      and best: "route_rank ulow ?e r0 \<le> route_rank ulow ?e route"
      using mem sv by (auto simp: list_all_iff)
    have in0: "r0 \<in> set (routes db')" using r0(1) by (simp add: ListByGroup_set)
    note n0 = normal_stored [OF ok in0]
    have "fst (route_rank ulow ?e r0) \<le> (-2, -1)" using best rank by (metis fst_conv less_eq_prod_def order.refl order_less_imp_le prod.collapse)
    then have f: "fst (route_rank ulow ?e r0) = (-2, -1)" by (auto simp: route_rank_def split: if_splits)
    then have "MatchType r0 \<noteq> CompositeRouteMatchPrefix" using n0(3) by (auto simp: route_rank_def split: if_splits)
    then have "TrimSpace (PublicModel r0) = ?m" using r0(3) n0(3) by (simp add: route_serves_def)
    then have "fst (snd (route_rank ulow ?e r0)) = - int (length ?m)" by (simp add: route_rank_def)
    with f rank len have "r0 = route" by (intro same_rank_unique [OF ok r0(1) mem r0(3) sv]) simp_all
    with Some r0(2) n(1) show ?thesis by simp
  qed
  moreover have "Option.bind (Some (resolver_on db' owner)) repo = Some (\<lambda>g. Inr (ListByGroup g False db'))"
    by (simp add: resolver_on_def)
  moreover have "TrimSpace ?m = ?m" "?m \<noteq> []" "TrimSpace (UpstreamModel route) = UpstreamModel route" "UpstreamModel route \<noteq> []"
    using n(4) assms(4) by (auto simp: row_normal_def)
  ultimately show ?thesis
    using Resolve_unfold [of ?m "Some (resolver_on db' owner)" "\<lambda>g. Inr (ListByGroup g False db')" g ?rs ulow ?e] assms(5) n(2)
    by simp
qed

text \<open>
  A prefix route without an upstream model passes the requested model through: whenever such a
  route of the table is chosen, the decision carries the very model of the request.
\<close>

theorem prefix_route_passes_model:
  assumes "admin_run ulow db" and "Resolve ulow (Some (resolver_on db owner)) g m e = (d, err)"
    and "Route d = Some route" and "UpstreamModel route = []"
  shows "Matched d \<and> d_UpstreamModel d = TrimSpace m \<and> MatchType route = CompositeRouteMatchPrefix
    \<and> HasPrefix (TrimSpace m) (PublicModel route)"
proof -
  let ?m = "TrimSpace m" and ?e = "normalizeCompositeRouteEndpoint ulow e" and ?rs = "ListByGroup g False db"
  have b: "Option.bind (Some (resolver_on db owner)) repo = Some (\<lambda>g. Inr (ListByGroup g False db))"
    by (simp add: resolver_on_def)
  have no: "Route (fst (resolve_by_ownership ulow r g m' e')) = None" for r m' e'
    by (auto simp: resolve_by_ownership_def resolve_by_detector_def matched_def no_match_def Let_def
        split: option.splits sum.splits)
  have ne: "?m \<noteq> []" using assms(2,3) by (auto simp: Resolve_def no_match_def)
  have g: "0 < g"
  proof (rule ccontr)
    assume "\<not> 0 < g"
    then have "Resolve ulow (Some (resolver_on db owner)) g m e = resolve_by_ownership ulow (Some (resolver_on db owner)) g ?m ?e"
      unfolding Resolve_def Let_def b using ne by simp
    with assms(2,3) no [of "Some (resolver_on db owner)" ?m ?e] show False by simp
  qed
  have chosen: "matchCompositeRoute ulow ?rs ?m ?e = Some route"
    and d: "Matched d" "d_UpstreamModel d = ?m"
    using assms(2-4) Resolve_unfold [OF ne b g refl, of ulow e] no [of "Some (resolver_on db owner)" ?m ?e]
    by (auto simp: matched_def split: option.splits)
  from match_route_spec [where ulow = ulow and routes = ?rs and model = ?m and endpoint = ?e] chosen obtain r0 where
    r0: "r0 \<in> set ?rs" "route = normal_route ulow r0" "route_serves ulow ?m ?e r0" by auto
  then have in0: "r0 \<in> set (routes db)" by (simp add: ListByGroup_set)
  note n0 = normal_stored [OF admin_run_ok [OF assms(1)] in0]
  have "route = r0" using r0(2) n0(1) by simp
  then show ?thesis using d r0(3) n0(3,4) assms(4) by (auto simp: row_normal_def route_serves_def)
qed

section \<open>Witnesses\<close>

definition demo_admin :: admin_env where
  "demo_admin = \<lparr>simple_mode = False, has_repo = True, group_platform = (\<lambda>g. Inr PlatformComposite), row_check = (\<lambda>r. None)\<rparr>"

definition demo_input :: "string \<Rightarrow> string \<Rightarrow> string \<Rightarrow> string \<Rightarrow> route_input" where
  "demo_input model type target upstream =
     \<lparr>in_PublicModel = model, in_MatchType = type, in_TargetPlatform = target, in_UpstreamModel = upstream,
      in_Endpoint = ''any'', in_Priority = 0, in_Enabled = True, in_Notes = []\<rparr>"

definition demo_stored :: "int \<Rightarrow> string \<Rightarrow> string \<Rightarrow> string \<Rightarrow> string \<Rightarrow> composite_route" where
  "demo_stored i model type target upstream =
     \<lparr>ID = i, GroupID = 7, PublicModel = model, MatchType = type, TargetPlatform = target, UpstreamModel = upstream,
      Endpoint = ''any'', Priority = 100, Enabled = True, Notes = []\<rparr>"

lemma demo_from_input:
  "compositeRouteFromInput id 7 (demo_input ''deep-x'' ''exact'' ''openai'' ''gpt-5'') = Inr (demo_stored 0 ''deep-x'' ''exact'' ''openai'' ''gpt-5'')"
  "compositeRouteFromInput id 7 (demo_input ''deep-'' ''prefix'' ''deepseek'' []) = Inr (demo_stored 0 ''deep-'' ''prefix'' ''deepseek'' [])"
proof -
  have plain: "plain_name ''deep-x''" "plain_name ''deep-''" "plain_name ''exact''" "plain_name ''prefix''"
    "plain_name ''openai''" "plain_name ''deepseek''" "plain_name ''gpt-5''" "plain_name ''any''"
    by (simp_all add: plain_name_def is_graphic_def)
  show "compositeRouteFromInput id 7 (demo_input ''deep-x'' ''exact'' ''openai'' ''gpt-5'') = Inr (demo_stored 0 ''deep-x'' ''exact'' ''openai'' ''gpt-5'')"
    "compositeRouteFromInput id 7 (demo_input ''deep-'' ''prefix'' ''deepseek'' []) = Inr (demo_stored 0 ''deep-'' ''prefix'' ''deepseek'' [])"
    by (simp_all add: compositeRouteFromInput_def normalizeCompositeRouteInput_def demo_input_def demo_stored_def plain plain_simps
        normalizeCompositeRouteEndpoint_def normalizeCompositeRouteMatchType_def route_defs IsConcretePlatform_iff
        platformList_def spec_def platform_defs Let_def)
qed

definition demo_db1 :: route_db where
  "demo_db1 = \<lparr>routes = [demo_stored 1 ''deep-x'' ''exact'' ''openai'' ''gpt-5''], next_route_id = 2\<rparr>"

definition demo_db2 :: route_db where
  "demo_db2 = \<lparr>routes = [demo_stored 1 ''deep-x'' ''exact'' ''openai'' ''gpt-5'', demo_stored 2 ''deep-'' ''prefix'' ''deepseek'' []],
     next_route_id = 3\<rparr>"

lemma demo_create:
  "CreateCompositeRoute id demo_admin 7 (demo_input ''deep-x'' ''exact'' ''openai'' ''gpt-5'') \<lparr>routes = [], next_route_id = 1\<rparr> =
     (Inr (demo_stored 1 ''deep-x'' ''exact'' ''openai'' ''gpt-5''), demo_db1)"
  "CreateCompositeRoute id demo_admin 7 (demo_input ''deep-'' ''prefix'' ''deepseek'' []) demo_db1 =
     (Inr (demo_stored 2 ''deep-'' ''prefix'' ''deepseek'' []), demo_db2)"
proof -
  have g: "admin_guard demo_admin 7 = Inr ()"
    by (simp add: admin_guard_def ValidateSimpleModeGroupOperation_def requireCompositeGroup_def demo_admin_def)
  have c: "row_check demo_admin = (\<lambda>r. None)" by (simp add: demo_admin_def)
  show "CreateCompositeRoute id demo_admin 7 (demo_input ''deep-x'' ''exact'' ''openai'' ''gpt-5'') \<lparr>routes = [], next_route_id = 1\<rparr> =
      (Inr (demo_stored 1 ''deep-x'' ''exact'' ''openai'' ''gpt-5''), demo_db1)"
    "CreateCompositeRoute id demo_admin 7 (demo_input ''deep-'' ''prefix'' ''deepseek'' []) demo_db1 =
      (Inr (demo_stored 2 ''deep-'' ''prefix'' ''deepseek'' []), demo_db2)"
    by (simp_all add: CreateCompositeRoute_def g c demo_from_input CreateRow_def key_taken_def unique_key_def
        demo_db1_def demo_db2_def demo_stored_def Let_def)
qed

lemma demo_admin_run: "admin_run id demo_db1" "admin_run id demo_db2"
proof -
  show 1: "admin_run id demo_db1"
    using admin_run.create [OF admin_run.empty, of id demo_admin 7 "demo_input ''deep-x'' ''exact'' ''openai'' ''gpt-5''"]
    by (simp add: demo_create)
  show "admin_run id demo_db2"
    using admin_run.create [OF 1, of demo_admin 7 "demo_input ''deep-'' ''prefix'' ''deepseek'' []"] by (simp add: demo_create)
qed

lemma demo_plain: "plain_name ''any''" "plain_name ''exact''" "plain_name ''prefix''" "plain_name ''deep-x''"
    "plain_name ''deep-''" "plain_name ''deep-y''" "plain_name ''gpt-5''"
  by (simp_all add: plain_name_def is_graphic_def)

lemmas demo_eval = demo_stored_def route_defs demo_plain plain_simps normalizeCompositeRouteEndpoint_def
  normalizeCompositeRouteMatchType_def Let_def

theorem admin_keeps_normal_form_witness: "list_all row_normal (routes demo_db2)"
  using admin_keeps_normal_form [OF demo_admin_run(2)] by simp

theorem priority_never_decides_witness:
  "(fst (route_rank id ''any'' (demo_stored 1 ''deep-x'' ''exact'' ''openai'' ''gpt-5'')),
      fst (snd (route_rank id ''any'' (demo_stored 1 ''deep-x'' ''exact'' ''openai'' ''gpt-5''))))
   \<noteq> (fst (route_rank id ''any'' (demo_stored 2 ''deep-'' ''prefix'' ''deepseek'' [])),
      fst (snd (route_rank id ''any'' (demo_stored 2 ''deep-'' ''prefix'' ''deepseek'' []))))"
proof -
  let ?r1 = "demo_stored 1 ''deep-x'' ''exact'' ''openai'' ''gpt-5''" and ?r2 = "demo_stored 2 ''deep-'' ''prefix'' ''deepseek'' []"
  have "?r1 \<in> set (ListByGroup 7 False demo_db2)" "?r2 \<in> set (ListByGroup 7 False demo_db2)"
    by (simp_all add: ListByGroup_set demo_db2_def, simp_all add: demo_stored_def)
  moreover have "route_serves id ''deep-x'' ''any'' ?r1" "route_serves id ''deep-x'' ''any'' ?r2"
    by (simp_all add: route_serves_def demo_eval)
  moreover have "?r1 \<noteq> ?r2" by (simp add: demo_stored_def)
  ultimately show ?thesis using priority_never_decides [OF demo_admin_run(2)] by blast
qed

theorem created_route_resolves_witness:
  "d_UpstreamModel (fst (Resolve id (Some (resolver_on demo_db1 None)) 7 ''deep-x'' ''any'')) = ''gpt-5''"
  using created_route_resolves [OF admin_run.empty demo_create(1), where owner = None]
  by (simp add: demo_stored_def route_defs matched_def)

theorem prefix_route_passes_model_witness:
  "d_UpstreamModel (fst (Resolve id (Some (resolver_on demo_db2 None)) 7 ''deep-y'' ''any'')) = ''deep-y''"
proof -
  let ?r = "demo_stored 2 ''deep-'' ''prefix'' ''deepseek'' []"
  have "matchCompositeRoute id (ListByGroup 7 False demo_db2) ''deep-y'' ''any'' = Some ?r"
    by (simp add: matchCompositeRoute_def ListByGroup_def demo_db2_def slice_stable_def less_stored_def
        List.map_filter_def route_candidate_def demo_eval)
  then have "Route (fst (Resolve id (Some (resolver_on demo_db2 None)) 7 ''deep-y'' ''any'')) = Some ?r"
    by (simp add: Resolve_def resolver_on_def demo_eval matched_def)
  from prefix_route_passes_model [OF demo_admin_run(2) _ this, where owner = None and err = "snd (Resolve id (Some (resolver_on demo_db2 None)) 7 ''deep-y'' ''any'')"]
  show ?thesis by (simp add: demo_stored_def demo_plain plain_simps)
qed

end
