(* ===== verification/Email_Policy.thy ===== *)
theory Email_Policy
  imports Go_Strings
begin

text \<open>
  Which e-mail addresses may register: the suffix whitelist
  (\<^verbatim>\<open>backend/internal/service/registration_email_policy.go\<close>) and the detection of aliases of one inbox
  (\<^verbatim>\<open>registration_email_alias.go\<close>, with the query of \<^verbatim>\<open>backend/internal/repository/user_repo.go\<close>).

  Arguments stand for the case tables of Unicode (\<open>ulow\<close> in Go, \<open>pglow\<close> in PostgreSQL), the public
  suffix list and the JSON decoder.
\<close>

section \<open>Splitting an address\<close>

definition splitEmailForPolicy :: "(string \<Rightarrow> string) \<Rightarrow> string \<Rightarrow> (string \<times> string) option" where
  "splitEmailForPolicy ulow raw =
     (let email = ToLower ulow (TrimSpace raw)
      in case Cut email CHR ''@'' of (local, host, found) \<Rightarrow>
           (if \<not> found \<or> local = [] \<or> host = [] \<or> Contains host ''@'' then None
            else (let host1 = TrimRight host CHR ''.''
                  in if host1 = [] then None else Some (local, host1))))"

definition RegistrationEmailSuffix :: "(string \<Rightarrow> string) \<Rightarrow> string \<Rightarrow> string" where
  "RegistrationEmailSuffix ulow email = (case splitEmailForPolicy ulow email of
       None \<Rightarrow> [] | Some (local, host) \<Rightarrow> ''@'' @ host)"

definition NormalizeRegistrationEmailDomain :: "(string \<Rightarrow> string) \<Rightarrow> (string \<Rightarrow> string option) \<Rightarrow> string \<Rightarrow> string" where
  "NormalizeRegistrationEmailDomain ulow tldPlusOne d =
     (let d1 = TrimRight (ToLower ulow (TrimSpace (TrimPrefix d ''@''))) CHR ''.''
      in if d1 = [] then []
         else (case tldPlusOne d1 of None \<Rightarrow> d1 | Some registrable \<Rightarrow> registrable))"

definition RegistrationEmailDomain :: "(string \<Rightarrow> string) \<Rightarrow> (string \<Rightarrow> string option) \<Rightarrow> string \<Rightarrow> string" where
  "RegistrationEmailDomain ulow tldPlusOne email = (case splitEmailForPolicy ulow email of
       None \<Rightarrow> [] | Some (local, host) \<Rightarrow> NormalizeRegistrationEmailDomain ulow tldPlusOne host)"

section \<open>The suffix whitelist\<close>

text \<open>
  The regular expression \<^verbatim>\<open>registrationEmailDomainPattern\<close>: at least two labels, separated by dots, of
  1 to 63 letters, digits and hyphens, without a hyphen at either end.
\<close>

definition label_char :: "char \<Rightarrow> bool" where
  "label_char c \<longleftrightarrow> (97 \<le> (of_char c :: nat) \<and> of_char c \<le> (122 :: nat)) \<or> (48 \<le> (of_char c :: nat) \<and> of_char c \<le> (57 :: nat))"

definition label_ok :: "string \<Rightarrow> bool" where
  "label_ok l \<longleftrightarrow> l \<noteq> [] \<and> length l \<le> 63 \<and> label_char (hd l) \<and> label_char (last l)
     \<and> list_all (\<lambda>c. label_char c \<or> c = CHR ''-'') l"

definition domain_pattern :: "string \<Rightarrow> bool" where
  "domain_pattern d \<longleftrightarrow> 2 \<le> length (Split d CHR ''.'') \<and> list_all label_ok (Split d CHR ''.'')"

definition isValidRegistrationEmailDomain :: "string \<Rightarrow> bool" where
  "isValidRegistrationEmailDomain d \<longleftrightarrow> d \<noteq> [] \<and> \<not> Contains d ''@'' \<and> domain_pattern d"

definition registrationEmailDomainMatchesWildcard :: "string \<Rightarrow> string \<Rightarrow> bool" where
  "registrationEmailDomainMatchesWildcard d allowed =
     (let base = TrimPrefix allowed ''*.''
      in if \<not> isValidRegistrationEmailDomain base then False
         else d = base \<or> HasSuffix d (''.'' @ base))"

definition suffix_allows :: "(string \<Rightarrow> string) \<Rightarrow> string \<Rightarrow> string \<Rightarrow> bool" where
  "suffix_allows ulow host a =
     (let allowed = ToLower ulow (TrimSpace a)
      in (HasPrefix allowed ''@'' \<and> ''@'' @ host = allowed)
         \<or> (HasPrefix allowed ''*.'' \<and> registrationEmailDomainMatchesWildcard host allowed))"

definition IsRegistrationEmailSuffixAllowed :: "(string \<Rightarrow> string) \<Rightarrow> string \<Rightarrow> string list \<Rightarrow> bool" where
  "IsRegistrationEmailSuffixAllowed ulow email whitelist =
     (if whitelist = [] then True
      else (case splitEmailForPolicy ulow email of None \<Rightarrow> False
        | Some (local, host) \<Rightarrow>
            list_ex (suffix_allows ulow host) whitelist))"

definition IsRegistrationEmailSuffixLimited :: "(string \<Rightarrow> string) \<Rightarrow> string \<Rightarrow> string list \<Rightarrow> bool" where
  "IsRegistrationEmailSuffixLimited ulow email whitelist \<longleftrightarrow>
     whitelist \<noteq> [] \<and> \<not> IsRegistrationEmailSuffixAllowed ulow email whitelist"

text \<open>The error of an invalid item carries the item.\<close>

definition normalizeRegistrationEmailSuffix :: "(string \<Rightarrow> string) \<Rightarrow> string \<Rightarrow> (string, string) result" where
  "normalizeRegistrationEmailSuffix ulow raw =
     (let v = ToLower ulow (TrimSpace raw)
      in if v = [] then Inr []
         else if HasPrefix v ''*.'' then
           (let d = TrimPrefix v ''*.''
            in if \<not> isValidRegistrationEmailDomain d then Inl raw else Inr (''*.'' @ d))
         else if Contains v ''@'' \<and> (\<not> HasPrefix v ''@'' \<or> count_list v CHR ''@'' \<noteq> 1) then Inl raw
         else (let d = (if Contains v ''@'' then TrimPrefix v ''@'' else v)
               in if \<not> isValidRegistrationEmailDomain d then Inl raw else Inr (''@'' @ d)))"

fun normalize_suffixes ::
    "(string \<Rightarrow> string) \<Rightarrow> bool \<Rightarrow> string list \<Rightarrow> string list \<Rightarrow> (string, string list) result" where
  "normalize_suffixes ulow strict seen [] = Inr []"
| "normalize_suffixes ulow strict seen (item # items) = (case normalizeRegistrationEmailSuffix ulow item of
       Inl e \<Rightarrow> (if strict then Inl e else normalize_suffixes ulow strict seen items)
     | Inr n \<Rightarrow> (if n = [] \<or> n \<in> set seen then normalize_suffixes ulow strict seen items
                else result_bind (normalize_suffixes ulow strict (n # seen) items) (\<lambda>out. Inr (n # out))))"

definition normalizeRegistrationEmailSuffixWhitelist ::
    "(string \<Rightarrow> string) \<Rightarrow> bool \<Rightarrow> string list \<Rightarrow> (string, string list) result" where
  "normalizeRegistrationEmailSuffixWhitelist ulow strict raw =
     (if raw = [] then Inr [] else normalize_suffixes ulow strict [] raw)"

definition NormalizeRegistrationEmailSuffixWhitelist ::
    "(string \<Rightarrow> string) \<Rightarrow> string list \<Rightarrow> (string, string list) result" where
  "NormalizeRegistrationEmailSuffixWhitelist ulow raw = normalizeRegistrationEmailSuffixWhitelist ulow True raw"

definition ParseRegistrationEmailSuffixWhitelist ::
    "(string \<Rightarrow> string) \<Rightarrow> (string \<Rightarrow> string list option) \<Rightarrow> string \<Rightarrow> string list" where
  "ParseRegistrationEmailSuffixWhitelist ulow unmarshal raw =
     (let r = TrimSpace raw
      in if r = [] then []
         else (case unmarshal r of None \<Rightarrow> []
           | Some items \<Rightarrow> (case normalizeRegistrationEmailSuffixWhitelist ulow False items of
                Inl _ \<Rightarrow> [] | Inr normalized \<Rightarrow> normalized)))"

section \<open>Aliases\<close>

definition splitEmailForAliasDedup :: "(string \<Rightarrow> string) \<Rightarrow> string \<Rightarrow> (string \<times> string) option" where
  "splitEmailForAliasDedup ulow email = (case splitEmailForPolicy ulow email of None \<Rightarrow> None
     | Some (local, host) \<Rightarrow> (let host1 = TrimRight host CHR ''.'' in if host1 = [] then None else Some (local, host1)))"

definition stripEmailPlusSuffix :: "string \<Rightarrow> string" where
  "stripEmailPlusSuffix local = (case IndexByte local CHR ''+'' of
       Some idx \<Rightarrow> (if 0 < idx then take idx local else local)
     | None \<Rightarrow> local)"

definition stripEmailLocalDots :: "string \<Rightarrow> string" where
  "stripEmailLocalDots local = (let stripped = RemoveByte local CHR ''.'' in if stripped \<noteq> [] then stripped else local)"

definition isGmailFamilyDomain :: "string \<Rightarrow> bool" where
  "isGmailFamilyDomain d \<longleftrightarrow> d \<in> {''gmail.com'', ''googlemail.com''}"

definition NormalizeEmailForAliasDedup :: "(string \<Rightarrow> string) \<Rightarrow> string \<Rightarrow> string" where
  "NormalizeEmailForAliasDedup ulow email = (case splitEmailForAliasDedup ulow email of
       None \<Rightarrow> ToLower ulow (TrimSpace email)
     | Some (local, host) \<Rightarrow>
         (let l = stripEmailPlusSuffix local
          in if isGmailFamilyDomain host then stripEmailLocalDots l @ ''@'' @ ''gmail.com'' else l @ ''@'' @ host))"

record alias_probe =
  Local :: string
  Domain :: string

definition EmailAliasDedupProbes :: "(string \<Rightarrow> string) \<Rightarrow> string \<Rightarrow> alias_probe list" where
  "EmailAliasDedupProbes ulow email = (case splitEmailForAliasDedup ulow email of None \<Rightarrow> []
     | Some (local, host) \<Rightarrow>
         (let probeLocal = RemoveByte (stripEmailPlusSuffix local) CHR ''.''
          in if probeLocal = [] then []
             else (let domains = (if isGmailFamilyDomain host then [''gmail.com'', ''googlemail.com''] else [host])
                   in map (\<lambda>candidate. \<lparr>Local = probeLocal, Domain = RemoveByte candidate CHR ''.''\<rparr>) domains)))"

section \<open>The query\<close>

record user_row =
  UserID :: int
  Email :: string

text \<open>\<^verbatim>\<open>REPLACE(LOWER(TRIM(email)), '.', '')\<close>; \<^verbatim>\<open>TRIM\<close> removes blanks only.\<close>

definition sql_trim :: "string \<Rightarrow> string" where
  "sql_trim s = TrimRight (dropWhile (\<lambda>c. c = CHR '' '') s) CHR '' ''"

definition dotStrippedEmail :: "(string \<Rightarrow> string) \<Rightarrow> string \<Rightarrow> string" where
  "dotStrippedEmail pglow s = RemoveByte (ToLower pglow (sql_trim s)) CHR ''.''"

text \<open>
  \<^verbatim>\<open>LIKE\<close> with the pattern of the code: the escaped local part, \<^verbatim>\<open>+\<close>, any string, \<^verbatim>\<open>@\<close> and the escaped
  domain.
\<close>

definition like_plus_alias :: "alias_probe \<Rightarrow> string \<Rightarrow> bool" where
  "like_plus_alias p s \<longleftrightarrow> prefix (Local p @ ''+'') s
     \<and> suffix (''@'' @ Domain p) (drop (length (Local p) + 1) s)"

definition probe_matches :: "(string \<Rightarrow> string) \<Rightarrow> alias_probe \<Rightarrow> user_row \<Rightarrow> bool" where
  "probe_matches pglow p u \<longleftrightarrow> dotStrippedEmail pglow (Email u) = Local p @ ''@'' @ Domain p
     \<or> like_plus_alias p (dotStrippedEmail pglow (Email u))"

definition emailAliasCandidateLimit :: nat where
  "emailAliasCandidateLimit = 50"

text \<open>
  The loop over the candidates: another user's row is the answer at once, the current user's row
  only when no other is found.
\<close>

fun alias_owner ::
    "(string \<Rightarrow> string) \<Rightarrow> string \<Rightarrow> int \<Rightarrow> int \<times> bool \<Rightarrow> user_row list \<Rightarrow> int \<times> bool" where
  "alias_owner ulow identity current self [] = self"
| "alias_owner ulow identity current self (c # cs) =
     (if NormalizeEmailForAliasDedup ulow (Email c) \<noteq> identity then alias_owner ulow identity current self cs
      else if UserID c \<noteq> 0 \<and> UserID c \<noteq> current then (UserID c, True)
      else if UserID c = current then alias_owner ulow identity current (UserID c, True) cs
      else alias_owner ulow identity current self cs)"

text \<open>The rows that the query returns, in the order \<open>ord\<close> of the database, are cut at the limit.\<close>

definition emailAliasOwnerID ::
    "(string \<Rightarrow> string) \<Rightarrow> (string \<Rightarrow> string) \<Rightarrow> (user_row list \<Rightarrow> user_row list) \<Rightarrow> string \<Rightarrow> int \<Rightarrow> user_row list \<Rightarrow> int \<times> bool" where
  "emailAliasOwnerID ulow pglow ord email currentUserID users =
     (let probes = EmailAliasDedupProbes ulow email
      in if probes = [] then (0, False)
         else (let candidates = take emailAliasCandidateLimit
                     (ord (filter (\<lambda>u. list_ex (\<lambda>p. probe_matches pglow p u) probes) users))
               in alias_owner ulow (NormalizeEmailForAliasDedup ulow email) currentUserID (0, False) candidates))"

definition ExistsByEmailAlias ::
    "(string \<Rightarrow> string) \<Rightarrow> (string \<Rightarrow> string) \<Rightarrow> (user_row list \<Rightarrow> user_row list) \<Rightarrow> string \<Rightarrow> user_row list \<Rightarrow> bool" where
  "ExistsByEmailAlias ulow pglow ord email users = snd (emailAliasOwnerID ulow pglow ord email 0 users)"

text \<open>\<^verbatim>\<open>ExistsByEmail\<close> with \<^verbatim>\<open>userEmailLookupPredicate\<close>.\<close>

definition ExistsByEmail :: "(string \<Rightarrow> string) \<Rightarrow> (string \<Rightarrow> string) \<Rightarrow> string \<Rightarrow> user_row list \<Rightarrow> bool" where
  "ExistsByEmail ulow pglow email users =
     (let normalized = ToLower ulow (TrimSpace email)
      in if normalized = [] then list_ex (\<lambda>u. Email u = email) users
         else list_ex (\<lambda>u. ToLower pglow (sql_trim (Email u)) = normalized) users)"

definition existsByEmailOrAlias ::
    "(string \<Rightarrow> string) \<Rightarrow> (string \<Rightarrow> string) \<Rightarrow> (user_row list \<Rightarrow> user_row list) \<Rightarrow> string \<Rightarrow> user_row list \<Rightarrow> bool" where
  "existsByEmailOrAlias ulow pglow ord email users =
     (if ExistsByEmail ulow pglow email users then True else ExistsByEmailAlias ulow pglow ord email users)"

section \<open>Printable addresses\<close>

text \<open>
  An address of printable ASCII without blanks: trimming leaves it alone, and both lower-case
  mappings work byte by byte.
\<close>

definition graphic :: "string \<Rightarrow> bool" where
  "graphic s \<longleftrightarrow> list_all is_graphic s"

definition lower :: "string \<Rightarrow> string" where
  "lower s = map byte_lower s"

lemma graphic_trim: "graphic s \<Longrightarrow> TrimSpace s = s"
  by (cases "s = []") (auto intro!: TrimSpace_graphic simp: graphic_def list_all_iff)

lemma graphic_ascii: "graphic s \<Longrightarrow> is_ascii s"
  by (induction s) (auto simp: graphic_def is_ascii_def is_graphic_def)

lemma graphic_lower: "graphic s \<Longrightarrow> ToLower ulow (TrimSpace s) = lower s"
  by (simp add: graphic_trim ToLower_ascii graphic_ascii lower_def)

lemma graphic_sql_trim: "graphic s \<Longrightarrow> sql_trim s = s"
proof -
  assume g: "graphic s"
  have "CHR '' '' \<notin> set s" using g by (auto simp: graphic_def list_all_iff is_graphic_def)
  then have "dropWhile (\<lambda>c. c = CHR '' '') t = t" if "set t \<subseteq> set s" for t
    using that by (cases t) auto
  then show ?thesis by (simp add: sql_trim_def TrimRight_def)
qed

lemma is_graphic_lower: "is_graphic c \<Longrightarrow> is_graphic (byte_lower c)"
  using byte_lower_upper_bound [of c] by (auto simp: is_graphic_def byte_lower_def)

lemma graphic_of_lower: "graphic s \<Longrightarrow> graphic (lower s)"
  by (auto simp: graphic_def lower_def list_all_iff is_graphic_lower)

lemma lower_lower [simp]: "lower (lower s) = lower s"
  by (simp add: lower_def)

text \<open>Printable lower case is a matter of the bytes alone.\<close>

lemma graphic_lower_chars: "graphic t \<and> lower t = t \<longleftrightarrow> set t \<subseteq> {c. is_graphic c \<and> byte_lower c = c}"
proof -
  have "lower t = t \<longleftrightarrow> (\<forall>c\<in>set t. byte_lower c = c)" unfolding lower_def by (induction t) auto
  then show ?thesis by (auto simp: graphic_def list_all_iff)
qed

lemma graphic_lower_sub: "graphic s \<Longrightarrow> set t \<subseteq> set (lower s) \<Longrightarrow> graphic t \<and> lower t = t"
  using graphic_lower_chars [of "lower s"] graphic_lower_chars [of t] graphic_of_lower [of s] by simp

lemma dotStripped_lower: "graphic s \<Longrightarrow> dotStrippedEmail pglow s = RemoveByte (lower s) CHR ''.''"
  by (simp add: dotStrippedEmail_def graphic_sql_trim ToLower_ascii graphic_ascii lower_def)

lemma RemoveByte_append [simp]: "RemoveByte (s @ t) c = RemoveByte s c @ RemoveByte t c"
  by (simp add: RemoveByte_def)

lemma RemoveByte_not_in [simp]: "c \<notin> set (RemoveByte s c)"
  by (simp add: RemoveByte_def)

lemma RemoveByte_absent: "c \<notin> set s \<Longrightarrow> RemoveByte s c = s"
  by (auto simp: RemoveByte_def filter_id_conv)

lemma RemoveByte_idem [simp]: "RemoveByte (RemoveByte s c) c = RemoveByte s c"
  by (simp add: RemoveByte_absent)

lemma TrimRight_split: "\<exists>n. s = TrimRight s c @ replicate n c"
proof -
  have "rev s = takeWhile (\<lambda>x. x = c) (rev s) @ dropWhile (\<lambda>x. x = c) (rev s)" by simp
  moreover have "takeWhile (\<lambda>x. x = c) (rev s) = replicate (length (takeWhile (\<lambda>x. x = c) (rev s))) c"
    by (rule replicate_length_same [symmetric]) (auto dest: set_takeWhileD)
  ultimately have "s = TrimRight s c @ rev (replicate (length (takeWhile (\<lambda>x. x = c) (rev s))) c)"
    unfolding TrimRight_def by (metis rev_append rev_rev_ident)
  then show ?thesis by auto
qed

lemma TrimRight_last: "TrimRight s c \<noteq> [] \<Longrightarrow> last (TrimRight s c) \<noteq> c"
  using hd_dropWhile [of "\<lambda>x. x = c" "rev s"] by (auto simp: TrimRight_def last_rev)

lemma TrimRight_fixed: "s = [] \<or> last s \<noteq> c \<Longrightarrow> TrimRight s c = s"
  by (cases s rule: rev_cases) (simp_all add: TrimRight_def)

lemma Cut_at: "c \<notin> set a \<Longrightarrow> Cut (a @ c # b) c = (a, b, True)"
proof -
  assume "c \<notin> set a"
  then have "\<And>x. x \<in> set a \<Longrightarrow> x \<noteq> c" by auto
  then have "takeWhile (\<lambda>x. x \<noteq> c) (a @ c # b) = a" "dropWhile (\<lambda>x. x \<noteq> c) (a @ c # b) = c # b"
    by (simp_all add: takeWhile_append2 dropWhile_append2)
  then show ?thesis by (simp add: Cut_def)
qed

text \<open>The parts of an address: \<open>parts_ok l h\<close> describes what \<open>splitEmailForPolicy\<close> returns.\<close>

definition parts_ok :: "string \<Rightarrow> string \<Rightarrow> bool" where
  "parts_ok l h \<longleftrightarrow> l \<noteq> [] \<and> h \<noteq> [] \<and> last h \<noteq> CHR ''.'' \<and> CHR ''@'' \<notin> set l \<and> CHR ''@'' \<notin> set h"

lemma split_of_parts:
  assumes "graphic s" and "lower s = l @ ''@'' @ h" and "parts_ok l h"
  shows "splitEmailForPolicy ulow s = Some (l, h)"
  using assms by (simp add: splitEmailForPolicy_def graphic_lower Cut_at parts_ok_def Contains_byte TrimRight_fixed)

lemma parts_of_split:
  assumes "graphic s" and "splitEmailForPolicy ulow s = Some (l, h)"
  shows "parts_ok l h \<and> (\<exists>n. lower s = l @ ''@'' @ h @ replicate n CHR ''.'')"
proof -
  obtain local d found where c: "Cut (lower s) CHR ''@'' = (local, d, found)" by (metis prod_cases3)
  have *: "found" "local \<noteq> []" "d \<noteq> []" "CHR ''@'' \<notin> set d" "TrimRight d CHR ''.'' \<noteq> []" "l = local" "h = TrimRight d CHR ''.''"
    using assms(2) by (auto simp: splitEmailForPolicy_def graphic_lower [OF assms(1)] c Contains_byte Let_def split: if_splits)
  then have cut: "lower s = local @ CHR ''@'' # d" "CHR ''@'' \<notin> set local" using Cut_found [of "lower s" "CHR ''@''" local d] c by auto
  obtain n where n: "d = TrimRight d CHR ''.'' @ replicate n CHR ''.''" using TrimRight_split by blast
  have "set (TrimRight d CHR ''.'') \<subseteq> set d" by (metis n set_append Un_upper1)
  then have "parts_ok l h" using * cut TrimRight_last [of d "CHR ''.''"] by (auto simp: parts_ok_def)
  moreover have "lower s = l @ ''@'' @ h @ replicate n CHR ''.''" using cut(1) n * by simp
  ultimately show ?thesis by blast
qed

lemma split_alias: "graphic s \<Longrightarrow> splitEmailForAliasDedup ulow s = splitEmailForPolicy ulow s"
proof (cases "splitEmailForPolicy ulow s")
  case (Some p)
  assume g: "graphic s"
  obtain l h where p: "p = (l, h)" by fastforce
  have "parts_ok l h" using parts_of_split [OF g] Some p by auto
  with Some p show ?thesis by (simp add: splitEmailForAliasDedup_def parts_ok_def TrimRight_fixed)
qed (simp add: splitEmailForAliasDedup_def)

section \<open>The identity of an inbox\<close>

definition inbox :: "string \<Rightarrow> string \<Rightarrow> string \<times> string" where
  "inbox l h = (let p = stripEmailPlusSuffix l
     in if isGmailFamilyDomain h then (stripEmailLocalDots p, ''gmail.com'') else (p, h))"

lemma Normalize_inbox:
  assumes "graphic s" and "splitEmailForPolicy ulow s = Some (l, h)"
  shows "NormalizeEmailForAliasDedup ulow s = fst (inbox l h) @ ''@'' @ snd (inbox l h)"
  using assms by (simp add: NormalizeEmailForAliasDedup_def split_alias inbox_def Let_def)

text \<open>The plus suffix is cut at the first plus sign, unless it is the first byte.\<close>

lemma plus_cases: "\<exists>r. l = stripEmailPlusSuffix l @ r \<and> (r = [] \<or> (\<exists>r'. r = CHR ''+'' # r'))"
proof (cases "\<exists>i. IndexByte l CHR ''+'' = Some i \<and> 0 < i")
  case False
  then show ?thesis by (auto simp: stripEmailPlusSuffix_def split: option.splits)
next
  case True
  then obtain i where some: "IndexByte l CHR ''+'' = Some i" "0 < i" by blast
  then have mem: "CHR ''+'' \<in> set l" and i: "i = length (takeWhile (\<lambda>x. x \<noteq> CHR ''+'') l)"
    by (auto simp: IndexByte_def split: if_splits)
  have "drop i l = dropWhile (\<lambda>x. x \<noteq> CHR ''+'') l" using i by (simp add: dropWhile_eq_drop)
  moreover have "dropWhile (\<lambda>x. x \<noteq> CHR ''+'') l \<noteq> []" using mem by (simp add: dropWhile_eq_Nil_conv)
  ultimately obtain x r' where "drop i l = x # r'" "x = CHR ''+''"
    using hd_dropWhile [of "\<lambda>x. x \<noteq> CHR ''+''" l] by (metis list.exhaust_sel)
  then have "l = stripEmailPlusSuffix l @ CHR ''+'' # r'"
    using append_take_drop_id [of i l] some by (simp add: stripEmailPlusSuffix_def)
  then show ?thesis by blast
qed

lemma plus_set: "set (stripEmailPlusSuffix l) \<subseteq> set l"
proof -
  obtain r where "l = stripEmailPlusSuffix l @ r" using plus_cases by blast
  then show ?thesis by (metis Un_upper1 set_append)
qed

lemma plus_nonempty: "l \<noteq> [] \<Longrightarrow> stripEmailPlusSuffix l \<noteq> []"
  by (auto simp: stripEmailPlusSuffix_def split: option.splits)

lemma dots_set: "set (stripEmailLocalDots l) \<subseteq> set l" "l \<noteq> [] \<Longrightarrow> stripEmailLocalDots l \<noteq> []"
  by (auto simp: stripEmailLocalDots_def RemoveByte_def Let_def)

lemma inbox_parts:
  assumes "parts_ok l h"
  shows "parts_ok (fst (inbox l h)) (snd (inbox l h))"
proof -
  have p: "stripEmailPlusSuffix l \<noteq> []" "CHR ''@'' \<notin> set (stripEmailPlusSuffix l)"
    using plus_set [of l] plus_nonempty [of l] assms by (auto simp: parts_ok_def)
  then have "stripEmailLocalDots (stripEmailPlusSuffix l) \<noteq> []" "CHR ''@'' \<notin> set (stripEmailLocalDots (stripEmailPlusSuffix l))"
    using dots_set [of "stripEmailPlusSuffix l"] by auto
  with p assms show ?thesis by (auto simp: inbox_def parts_ok_def Let_def)
qed

lemma parts_unique:
  assumes "l1 @ ''@'' @ h1 = l2 @ ''@'' @ h2" and "CHR ''@'' \<notin> set l1" and "CHR ''@'' \<notin> set l2"
  shows "l1 = l2 \<and> h1 = h2"
proof -
  have "Cut (l1 @ CHR ''@'' # h1) CHR ''@'' = Cut (l2 @ CHR ''@'' # h2) CHR ''@''" using assms(1) by simp
  then show ?thesis unfolding Cut_at [OF assms(2)] Cut_at [OF assms(3)] prod.inject by blast
qed

lemma inbox_graphic_lower:
  assumes "graphic s" and "splitEmailForPolicy ulow s = Some (l, h)"
  shows "graphic (fst (inbox l h) @ ''@'' @ snd (inbox l h))
    \<and> lower (fst (inbox l h) @ ''@'' @ snd (inbox l h)) = fst (inbox l h) @ ''@'' @ snd (inbox l h)"
proof -
  obtain n where n: "lower s = l @ ''@'' @ h @ replicate n CHR ''.''" using parts_of_split [OF assms] by blast
  let ?G = "{c. is_graphic c \<and> byte_lower c = c}" and ?r = "fst (inbox l h) @ ''@'' @ snd (inbox l h)"
  have sub: "set (fst (inbox l h)) \<subseteq> set l" "set (snd (inbox l h)) \<subseteq> set h \<union> set ''gmail.com''"
    using plus_set [of l] dots_set [of "stripEmailPlusSuffix l"] by (auto simp: inbox_def Let_def)
  have "set (lower s) \<subseteq> ?G"
    using graphic_of_lower [OF assms(1)] graphic_lower_chars [of "lower s"] by simp
  moreover have "set l \<union> set h \<union> set ''@'' \<subseteq> set (lower s)" unfolding n by (simp add: Un_commute Un_left_commute) blast
  moreover have "set ''gmail.com'' \<subseteq> ?G" by (simp add: is_graphic_def byte_lower_def)
  ultimately have "set ?r \<subseteq> ?G" using sub unfolding set_append by blast
  then show ?thesis unfolding graphic_lower_chars .
qed

lemma Normalize_none:
  "splitEmailForPolicy ulow s = None \<Longrightarrow> NormalizeEmailForAliasDedup ulow s = ToLower ulow (TrimSpace s)"
  by (simp add: NormalizeEmailForAliasDedup_def splitEmailForAliasDedup_def)

lemma split_lower: "graphic s \<Longrightarrow> graphic t \<Longrightarrow> lower s = lower t \<Longrightarrow> splitEmailForPolicy ulow s = splitEmailForPolicy ulow t"
  by (simp add: splitEmailForPolicy_def graphic_lower)

lemma Normalize_lower:
  "graphic s \<Longrightarrow> graphic t \<Longrightarrow> lower s = lower t \<Longrightarrow> NormalizeEmailForAliasDedup ulow s = NormalizeEmailForAliasDedup ulow t"
  using split_lower [of s t ulow] split_alias [of s ulow] split_alias [of t ulow] graphic_lower [of s ulow] graphic_lower [of t ulow]
  by (cases "splitEmailForPolicy ulow t") (simp_all add: NormalizeEmailForAliasDedup_def)

section \<open>Normalising twice\<close>

lemma plus_idem [simp]: "stripEmailPlusSuffix (stripEmailPlusSuffix l) = stripEmailPlusSuffix l"
proof (cases "\<exists>i. IndexByte l CHR ''+'' = Some i \<and> 0 < i")
  case True
  then obtain i where some: "IndexByte l CHR ''+'' = Some i" "0 < i" by blast
  then have "i = length (takeWhile (\<lambda>x. x \<noteq> CHR ''+'') l)" by (simp add: IndexByte_def split: if_splits)
  then have "take i l = takeWhile (\<lambda>x. x \<noteq> CHR ''+'') l" by (simp add: takeWhile_eq_take [symmetric])
  then have "CHR ''+'' \<notin> set (take i l)" by (auto dest: set_takeWhileD)
  then show ?thesis using some by (simp add: stripEmailPlusSuffix_def IndexByte_def)
next
  case False
  then have "stripEmailPlusSuffix l = l" by (auto simp: stripEmailPlusSuffix_def split: option.splits)
  then show ?thesis by simp
qed

lemma takeWhile_whole: "length xs \<le> length (takeWhile P xs) \<longleftrightarrow> (\<forall>x\<in>set xs. P x)"
  by (metis takeWhile_eq_take take_all takeWhile_eq_all_conv order_refl)

lemma plus_fixed: "stripEmailPlusSuffix l = l \<longleftrightarrow> CHR ''+'' \<notin> set l \<or> hd l = CHR ''+''"
proof (cases l)
  case (Cons x xs)
  then show ?thesis 
    by (cases "x = CHR ''+''") (auto simp: stripEmailPlusSuffix_def IndexByte_def takeWhile_whole)
qed (simp add: stripEmailPlusSuffix_def IndexByte_def)

lemma plus_after_dots:
  assumes "stripEmailPlusSuffix l = l"
  shows "stripEmailPlusSuffix (stripEmailLocalDots l) = stripEmailLocalDots l"
proof -
  have "CHR ''+'' \<notin> set l \<or> hd l = CHR ''+''" using assms plus_fixed by blast
  then show ?thesis unfolding plus_fixed by (cases l) (auto simp: stripEmailLocalDots_def RemoveByte_def Let_def)
qed

lemma dots_idem [simp]: "stripEmailLocalDots (stripEmailLocalDots l) = stripEmailLocalDots l"
  by (auto simp: stripEmailLocalDots_def Let_def)

lemma RemoveByte_dots [simp]: "RemoveByte (stripEmailLocalDots l) CHR ''.'' = RemoveByte l CHR ''.''"
  by (simp add: stripEmailLocalDots_def Let_def)

lemma inbox_idem: "inbox (fst (inbox l h)) (snd (inbox l h)) = inbox l h"
  by (simp add: inbox_def Let_def plus_after_dots isGmailFamilyDomain_def)

lemma parts_None: "graphic s \<Longrightarrow> splitEmailForPolicy ulow s = None \<Longrightarrow> splitEmailForPolicy ulow (lower s) = None"
  using split_lower [of s "lower s" ulow] by (simp add: graphic_of_lower)

text \<open>
  The inbox identity of an address is an address with the same identity, so comparing identities
  is comparing inboxes: normalising is idempotent.
\<close>

theorem inbox_identity_idempotent:
  assumes "graphic s"
  shows "NormalizeEmailForAliasDedup ulow (NormalizeEmailForAliasDedup ulow s) = NormalizeEmailForAliasDedup ulow s"
proof (cases "splitEmailForPolicy ulow s")
  case None
  with assms have "NormalizeEmailForAliasDedup ulow s = lower s" by (simp add: Normalize_none graphic_lower)
  moreover have "NormalizeEmailForAliasDedup ulow (lower s) = lower s"
    using parts_None [OF assms None] graphic_of_lower [OF assms] by (simp add: Normalize_none graphic_lower)
  ultimately show ?thesis by simp
next
  case (Some p)
  obtain l h where p: "splitEmailForPolicy ulow s = Some (l, h)" using Some by (cases p) simp
  let ?l = "fst (inbox l h)" and ?h = "snd (inbox l h)"
  have n: "NormalizeEmailForAliasDedup ulow s = ?l @ ''@'' @ ?h" by (rule Normalize_inbox [OF assms p])
  have g: "graphic (?l @ ''@'' @ ?h)" "lower (?l @ ''@'' @ ?h) = ?l @ ''@'' @ ?h"
    using inbox_graphic_lower [OF assms p] by auto
  have "parts_ok ?l ?h" using parts_of_split [OF assms p] inbox_parts by blast
  then have "splitEmailForPolicy ulow (?l @ ''@'' @ ?h) = Some (?l, ?h)" by (rule split_of_parts [OF g])
  from Normalize_inbox [OF g(1) this] show ?thesis unfolding n inbox_idem .
qed

lemma graphic_example: "graphic ''a.b+c@gmail.com''"
  by (simp add: graphic_def is_graphic_def)

theorem inbox_identity_idempotent_witness:
  "NormalizeEmailForAliasDedup id (NormalizeEmailForAliasDedup id ''a.b+c@gmail.com'')
     = NormalizeEmailForAliasDedup id ''a.b+c@gmail.com''"
  by (rule inbox_identity_idempotent [OF graphic_example])

section \<open>The probes find every alias\<close>

lemma probes_eq:
  assumes "graphic s" and "splitEmailForPolicy ulow s = Some (l, h)"
    and "EmailAliasDedupProbes ulow s \<noteq> []"
  shows "EmailAliasDedupProbes ulow s = map (\<lambda>d. \<lparr>Local = RemoveByte (stripEmailPlusSuffix l) CHR ''.'', Domain = RemoveByte d CHR ''.''\<rparr>)
      (if isGmailFamilyDomain h then [''gmail.com'', ''googlemail.com''] else [h])"
  using assms by (simp add: EmailAliasDedupProbes_def split_alias Let_def split: if_splits)

lemma inbox_eq_parts:
  assumes "inbox l h = inbox l' h'"
  shows "RemoveByte (stripEmailPlusSuffix l) CHR ''.'' = RemoveByte (stripEmailPlusSuffix l') CHR ''.''"
    and "h' \<in> set (if isGmailFamilyDomain h then [''gmail.com'', ''googlemail.com''] else [h])"
proof -
  have same: "isGmailFamilyDomain h \<longleftrightarrow> isGmailFamilyDomain h'"
    using assms by (auto simp: inbox_def Let_def isGmailFamilyDomain_def split: if_splits)
  have "stripEmailLocalDots (stripEmailPlusSuffix l) = stripEmailLocalDots (stripEmailPlusSuffix l')"
    using assms same by (cases "isGmailFamilyDomain h") (simp_all add: inbox_def Let_def)
  then show "RemoveByte (stripEmailPlusSuffix l) CHR ''.'' = RemoveByte (stripEmailPlusSuffix l') CHR ''.''"
    by (metis RemoveByte_dots)
  show "h' \<in> set (if isGmailFamilyDomain h then [''gmail.com'', ''googlemail.com''] else [h])"
    using assms same by (cases "isGmailFamilyDomain h") (simp_all add: inbox_def Let_def isGmailFamilyDomain_def)
qed

lemma probe_matches_parts:
  assumes "graphic (Email u)" and "splitEmailForPolicy ulow (Email u) = Some (l, h)"
  shows "probe_matches pglow \<lparr>Local = RemoveByte (stripEmailPlusSuffix l) CHR ''.'', Domain = RemoveByte h CHR ''.''\<rparr> u"
proof -
  obtain n where n: "lower (Email u) = l @ ''@'' @ h @ replicate n CHR ''.''" using parts_of_split [OF assms] by blast
  have "RemoveByte (replicate n CHR ''.'') CHR ''.'' = []" by (simp add: RemoveByte_def)
  then have s: "dotStrippedEmail pglow (Email u) = RemoveByte l CHR ''.'' @ ''@'' @ RemoveByte h CHR ''.''"
    using n dotStripped_lower [OF assms(1)] by (simp add: RemoveByte_def)
  obtain r where r: "l = stripEmailPlusSuffix l @ r" "r = [] \<or> (\<exists>r'. r = CHR ''+'' # r')" using plus_cases by blast
  from r(2) show ?thesis
  proof
    assume "r = []"
    then have "stripEmailPlusSuffix l = l" using r(1) by simp
    then show ?thesis using s by (simp add: probe_matches_def)
  next
    assume "\<exists>r'. r = CHR ''+'' # r'"
    then obtain r' where "r = CHR ''+'' # r'" by blast
    moreover have "RemoveByte l CHR ''.'' = RemoveByte (stripEmailPlusSuffix l) CHR ''.'' @ RemoveByte r CHR ''.''"
      by (subst r(1)) (rule RemoveByte_append)
    ultimately have "RemoveByte l CHR ''.'' = RemoveByte (stripEmailPlusSuffix l) CHR ''.'' @ CHR ''+'' # RemoveByte r' CHR ''.''"
      by (simp add: RemoveByte_def)
    with s show ?thesis by (simp add: probe_matches_def like_plus_alias_def suffix_def)
  qed
qed

lemma same_inbox:
  assumes "graphic s" "graphic t" and s: "splitEmailForPolicy ulow s = Some (l, h)"
    and eq: "NormalizeEmailForAliasDedup ulow t = NormalizeEmailForAliasDedup ulow s"
  obtains l' h' where "splitEmailForPolicy ulow t = Some (l', h')" and "inbox l h = inbox l' h'"
proof -
  have n: "NormalizeEmailForAliasDedup ulow s = fst (inbox l h) @ ''@'' @ snd (inbox l h)"
    by (rule Normalize_inbox [OF assms(1) s])
  have ok: "parts_ok (fst (inbox l h)) (snd (inbox l h))" using parts_of_split [OF assms(1) s] inbox_parts by blast
  show ?thesis
  proof (cases "splitEmailForPolicy ulow t")
    case None
    then have "lower t = fst (inbox l h) @ ''@'' @ snd (inbox l h)"
      using eq n assms(2) by (simp add: Normalize_none graphic_lower)
    from split_of_parts [OF assms(2) this ok] None show ?thesis by simp
  next
    case (Some p)
    then obtain l' h' where p: "splitEmailForPolicy ulow t = Some (l', h')" by (cases p) simp
    have "parts_ok (fst (inbox l' h')) (snd (inbox l' h'))" using parts_of_split [OF assms(2) p] inbox_parts by blast
    then have "inbox l h = inbox l' h'"
      using parts_unique [of "fst (inbox l h)" "snd (inbox l h)" "fst (inbox l' h')" "snd (inbox l' h')"]
        eq n Normalize_inbox [OF assms(2) p] ok by (auto simp: parts_ok_def prod_eq_iff)
    with p show ?thesis by (rule that)
  qed
qed

lemma alias_owner_found:
  "snd (alias_owner ulow identity 0 self cs) \<longleftrightarrow> snd self \<or> (\<exists>c\<in>set cs. NormalizeEmailForAliasDedup ulow (Email c) = identity)"
  by (induction cs arbitrary: self) auto

text \<open>The rows that the query selects.\<close>

definition alias_rows :: "(string \<Rightarrow> string) \<Rightarrow> (string \<Rightarrow> string) \<Rightarrow> string \<Rightarrow> user_row list \<Rightarrow> user_row list" where
  "alias_rows ulow pglow email users =
     filter (\<lambda>u. list_ex (\<lambda>p. probe_matches pglow p u) (EmailAliasDedupProbes ulow email)) users"

lemma ExistsByEmailAlias_iff:
  assumes "EmailAliasDedupProbes ulow email \<noteq> []"
  shows "ExistsByEmailAlias ulow pglow ord email users \<longleftrightarrow>
    (\<exists>u\<in>set (take emailAliasCandidateLimit (ord (alias_rows ulow pglow email users))).
       NormalizeEmailForAliasDedup ulow (Email u) = NormalizeEmailForAliasDedup ulow email)"
  using assms by (simp add: ExistsByEmailAlias_def emailAliasOwnerID_def Let_def alias_owner_found alias_rows_def)

lemma alias_selected:
  assumes "graphic email" and "EmailAliasDedupProbes ulow email \<noteq> []" and "graphic (Email u)" and "u \<in> set users"
    and eq: "NormalizeEmailForAliasDedup ulow (Email u) = NormalizeEmailForAliasDedup ulow email"
  shows "u \<in> set (alias_rows ulow pglow email users)"
proof -
  obtain l h where p: "splitEmailForPolicy ulow email = Some (l, h)"
    using assms(1,2) by (cases "splitEmailForPolicy ulow email") (auto simp: EmailAliasDedupProbes_def split_alias)
  obtain l' h' where p': "splitEmailForPolicy ulow (Email u) = Some (l', h')" and same: "inbox l h = inbox l' h'"
    by (rule same_inbox [OF assms(1,3) p eq])
  have "\<lparr>Local = RemoveByte (stripEmailPlusSuffix l') CHR ''.'', Domain = RemoveByte h' CHR ''.''\<rparr>
      \<in> set (EmailAliasDedupProbes ulow email)"
    unfolding probes_eq [OF assms(1) p assms(2)] inbox_eq_parts(1) [OF same] set_map
    by (rule imageI) (rule inbox_eq_parts(2) [OF same])
  with probe_matches_parts [OF assms(3) p', of pglow] assms(4) show ?thesis
    by (auto simp: alias_rows_def list_ex_iff)
qed

lemma ExistsByEmail_graphic:
  assumes "graphic email" and "email \<noteq> []" and "\<forall>u\<in>set users. graphic (Email u)"
  shows "ExistsByEmail ulow pglow email users \<longleftrightarrow> (\<exists>u\<in>set users. lower (Email u) = lower email)"
proof -
  have "lower email \<noteq> []" using assms(2) by (simp add: lower_def)
  moreover have "ToLower pglow (sql_trim (Email u)) = lower (Email u)" if "u \<in> set users" for u
    using that assms(3) by (simp add: graphic_sql_trim ToLower_ascii graphic_ascii lower_def)
  ultimately show ?thesis using assms(1) by (auto simp: ExistsByEmail_def graphic_lower list_ex_iff)
qed

text \<open>
  C9: the registration check finds every alias and nothing else: an address is refused exactly when
  some account has the same inbox identity, whatever dots, plus suffixes, letter case or Gmail domain
  the two spell it with.  This is for an address whose list of probes is not empty, when it and all
  stored addresses are printable ASCII without blanks and the query selects no more rows than its limit.
\<close>

theorem alias_check_exact:
  assumes "graphic email" and "EmailAliasDedupProbes ulow email \<noteq> []" and "\<forall>u\<in>set users. graphic (Email u)"
    and "\<forall>rows. mset (ord rows) = mset rows"
    and "length (alias_rows ulow pglow email users) \<le> emailAliasCandidateLimit"
  shows "existsByEmailOrAlias ulow pglow ord email users \<longleftrightarrow>
    (\<exists>u\<in>set users. NormalizeEmailForAliasDedup ulow (Email u) = NormalizeEmailForAliasDedup ulow email)"
    (is "?exists \<longleftrightarrow> ?same")
proof -
  let ?rows = "alias_rows ulow pglow email users"
  have "mset (ord ?rows) = mset ?rows" using assms(4) by blast
  then have ord: "set (ord ?rows) = set ?rows" "length (ord ?rows) = length ?rows"
    by (metis set_mset_mset, metis size_mset)
  have sub: "set ?rows \<subseteq> set users" by (auto simp: alias_rows_def)
  have by_alias: "ExistsByEmailAlias ulow pglow ord email users \<longleftrightarrow>
      (\<exists>u\<in>set ?rows. NormalizeEmailForAliasDedup ulow (Email u) = NormalizeEmailForAliasDedup ulow email)"
    using assms(5) ord by (simp add: ExistsByEmailAlias_iff [OF assms(2)])
  have "EmailAliasDedupProbes ulow [] = []"
    using graphic_lower [of "[]" ulow] by (simp add: EmailAliasDedupProbes_def splitEmailForAliasDedup_def
        splitEmailForPolicy_def Cut_def lower_def graphic_def)
  then have "email \<noteq> []" using assms(2) by metis
  then have exact: "ExistsByEmail ulow pglow email users \<longleftrightarrow> (\<exists>u\<in>set users. lower (Email u) = lower email)"
    using ExistsByEmail_graphic assms(1,3) by blast
  show ?thesis
  proof
    assume ?exists
    then show ?same using by_alias exact sub assms(1,3) Normalize_lower [of _ email ulow]
      unfolding existsByEmailOrAlias_def by (metis subsetD)
  next
    assume ?same
    then obtain u where u: "u \<in> set users" "NormalizeEmailForAliasDedup ulow (Email u) = NormalizeEmailForAliasDedup ulow email"
      by blast
    then have "u \<in> set ?rows" using alias_selected [OF assms(1,2)] assms(3) by blast
    then show ?exists using by_alias u(2) unfolding existsByEmailOrAlias_def by auto
  qed
qed

lemma split_example: "splitEmailForPolicy ulow ''a.b+c@gmail.com'' = Some (''a.b+c'', ''gmail.com'')"
proof (rule split_of_parts [OF graphic_example])
  show "lower ''a.b+c@gmail.com'' = ''a.b+c'' @ ''@'' @ ''gmail.com''" by (simp add: lower_def byte_lower_def)
qed (simp add: parts_ok_def)

theorem alias_check_exact_witness:
  "existsByEmailOrAlias id id rev ''a.b+c@gmail.com'' [\<lparr>UserID = 7, Email = ''A.B@googlemail.com''\<rparr>]
     \<longleftrightarrow> (\<exists>u\<in>set [\<lparr>UserID = 7, Email = ''A.B@googlemail.com''\<rparr>].
            NormalizeEmailForAliasDedup id (Email u) = NormalizeEmailForAliasDedup id ''a.b+c@gmail.com'')"
proof (rule alias_check_exact)
  show "graphic ''a.b+c@gmail.com''" by (rule graphic_example)
  show "EmailAliasDedupProbes id ''a.b+c@gmail.com'' \<noteq> []"
    using split_alias [OF graphic_example, of id] split_example [of id]
    by (simp add: EmailAliasDedupProbes_def Let_def stripEmailPlusSuffix_def IndexByte_def RemoveByte_def)
  show "\<forall>u\<in>set [\<lparr>UserID = 7, Email = ''A.B@googlemail.com''\<rparr>]. graphic (Email u)"
    by (simp add: graphic_def is_graphic_def)
  show "length (alias_rows id id ''a.b+c@gmail.com'' [\<lparr>UserID = 7, Email = ''A.B@googlemail.com''\<rparr>]) \<le> emailAliasCandidateLimit"
    by (simp add: alias_rows_def emailAliasCandidateLimit_def)
qed simp

section \<open>The limit of the query\<close>

text \<open>Addresses of one domain that differ in the place of a dot only.\<close>

definition dotted :: "nat \<Rightarrow> string" where
  "dotted i = replicate i CHR ''a'' @ ''.'' @ replicate (60 - i) CHR ''a''"

definition dotted_users :: "user_row list" where
  "dotted_users = map (\<lambda>i. \<lparr>UserID = int i, Email = dotted i @ ''@y.com''\<rparr>) [1..<51]"

definition plain_local :: string where
  "plain_local = replicate 60 CHR ''a''"

lemma graphic_replicate: "is_graphic c \<Longrightarrow> graphic (replicate n c)"
  by (simp add: graphic_def list_all_iff)

lemma lower_append: "lower (s @ t) = lower s @ lower t"
  by (simp add: lower_def)

lemma graphic_append: "graphic (s @ t) \<longleftrightarrow> graphic s \<and> graphic t"
  by (simp add: graphic_def)

lemma IndexByte_absent: "c \<notin> set s \<Longrightarrow> IndexByte s c = None"
  by (simp add: IndexByte_def)

text \<open>An address at \<^verbatim>\<open>y.com\<close> with a local part of letters \<^verbatim>\<open>a\<close>, dots and plus signs.\<close>

lemma split_y:
  assumes "set l \<subseteq> set ''a.+x''" and "l \<noteq> []"
  shows "graphic (l @ ''@y.com'')" and "splitEmailForPolicy ulow (l @ ''@y.com'') = Some (l, ''y.com'')"
    and "NormalizeEmailForAliasDedup ulow (l @ ''@y.com'') = stripEmailPlusSuffix l @ ''@y.com''"
    and "dotStrippedEmail pglow (l @ ''@y.com'') = RemoveByte l CHR ''.'' @ ''@ycom''"
proof -
  have "set ''a.+x'' \<subseteq> {c. is_graphic c \<and> byte_lower c = c}" by (simp add: is_graphic_def byte_lower_def)
  then have l: "graphic l" "lower l = l" using assms(1) graphic_lower_chars [of l] by blast+
  then show g: "graphic (l @ ''@y.com'')" by (simp add: graphic_append) (simp add: graphic_def is_graphic_def)
  have low: "lower (l @ ''@y.com'') = l @ ''@'' @ ''y.com''" using l(2) by (simp add: lower_append) (simp add: lower_def byte_lower_def)
  have "CHR ''@'' \<notin> set l" using assms(1) by auto
  then have "parts_ok l ''y.com''" using assms(2) by (simp add: parts_ok_def)
  then show s: "splitEmailForPolicy ulow (l @ ''@y.com'') = Some (l, ''y.com'')" by (rule split_of_parts [OF g low])
  show "NormalizeEmailForAliasDedup ulow (l @ ''@y.com'') = stripEmailPlusSuffix l @ ''@y.com''"
    using Normalize_inbox [OF g s] by (simp add: inbox_def Let_def isGmailFamilyDomain_def)
  show "dotStrippedEmail pglow (l @ ''@y.com'') = RemoveByte l CHR ''.'' @ ''@ycom''"
    using dotStripped_lower [OF g] low by (simp add: RemoveByte_def)
qed

lemma dotted_set: "set (dotted i) \<subseteq> set ''a.+x''" "dotted i \<noteq> []"
  by (auto simp: dotted_def)

lemma plain_set: "set (plain_local @ ''+x'') \<subseteq> set ''a.+x''" "set plain_local \<subseteq> set ''a.+x''" "plain_local \<noteq> []"
  by (auto simp: plain_local_def)

lemma dotted_plus: "stripEmailPlusSuffix (dotted i) = dotted i" "stripEmailPlusSuffix plain_local = plain_local"
    "stripEmailPlusSuffix (plain_local @ ''+x'') = plain_local"
proof -
  have "takeWhile (\<lambda>x. x \<noteq> CHR ''+'') (plain_local @ ''+x'') = plain_local"
    by (subst takeWhile_append2) (auto simp: plain_local_def)
  then show "stripEmailPlusSuffix (plain_local @ ''+x'') = plain_local"
    by (simp add: stripEmailPlusSuffix_def IndexByte_def) (simp add: plain_local_def)
qed (simp_all add: stripEmailPlusSuffix_def IndexByte_def dotted_def plain_local_def)

lemma dotted_stripped: "i \<le> 60 \<Longrightarrow> RemoveByte (dotted i) CHR ''.'' = plain_local"
  by (simp add: dotted_def plain_local_def RemoveByte_def replicate_add [symmetric])

lemma plain_stripped: "RemoveByte plain_local CHR ''.'' = plain_local"
  by (simp add: plain_local_def RemoveByte_def)

lemma dotted_other: "dotted i @ t \<noteq> plain_local @ ''@y.com''" if "t = ''@y.com''"
proof
  assume "dotted i @ t = plain_local @ ''@y.com''"
  with that have "dotted i = plain_local" by simp
  moreover have "CHR ''.'' \<in> set (dotted i)" by (simp add: dotted_def)
  ultimately show False by (simp add: plain_local_def)
qed

lemma plain_probes:
  "EmailAliasDedupProbes ulow (plain_local @ ''+x@y.com'') = [\<lparr>Local = plain_local, Domain = ''ycom''\<rparr>]"
proof -
  have "splitEmailForAliasDedup ulow (plain_local @ ''+x@y.com'') = Some (plain_local @ ''+x'', ''y.com'')"
    using split_y(1,2) [of "plain_local @ ''+x''"] plain_set by (simp add: split_alias)
  then show ?thesis using plain_set(3)
    by (simp add: EmailAliasDedupProbes_def dotted_plus plain_stripped isGmailFamilyDomain_def Let_def) (simp add: RemoveByte_def)
qed

lemma dotted_length: "length dotted_users = 50"
  by (simp add: dotted_users_def)

text \<open>
  C36: the limit makes the check incomplete.  With fifty accounts at one domain whose addresses
  differ from a registered one in a dot of the local part, a plus alias of the registered address
  passes the check: outside the Gmail family the query over-matches these rows, and they use up the
  limit of fifty candidates.
\<close>

theorem alias_limit_hides:
  "existsByEmailOrAlias id id id (plain_local @ ''+x@y.com'') (dotted_users @ [\<lparr>UserID = 99, Email = plain_local @ ''@y.com''\<rparr>]) = False
    \<and> NormalizeEmailForAliasDedup id (plain_local @ ''+x@y.com'') = NormalizeEmailForAliasDedup id (plain_local @ ''@y.com'')"
proof
  let ?email = "plain_local @ ''+x@y.com''" and ?user = "\<lparr>UserID = 99, Email = plain_local @ ''@y.com''\<rparr>"
  let ?users = "dotted_users @ [?user]"
  have identity: "NormalizeEmailForAliasDedup id ?email = plain_local @ ''@y.com''"
    "NormalizeEmailForAliasDedup id (plain_local @ ''@y.com'') = plain_local @ ''@y.com''"
    using split_y(3) [of "plain_local @ ''+x''" id] split_y(3) [of plain_local id] plain_set by (simp_all add: dotted_plus)
  then show "NormalizeEmailForAliasDedup id ?email = NormalizeEmailForAliasDedup id (plain_local @ ''@y.com'')" by simp
  have "probe_matches id \<lparr>Local = plain_local, Domain = ''ycom''\<rparr> u" if "u \<in> set dotted_users" for u
    using that by (auto simp: dotted_users_def probe_matches_def split_y(4) [OF dotted_set] dotted_stripped)
  then have "filter (probe_matches id \<lparr>Local = plain_local, Domain = ''ycom''\<rparr>) dotted_users = dotted_users"
    by (simp add: filter_id_conv)
  then have "take emailAliasCandidateLimit (alias_rows id id ?email ?users) = dotted_users"
    by (simp add: alias_rows_def plain_probes emailAliasCandidateLimit_def dotted_length)
  then have no_alias: "\<not> ExistsByEmailAlias id id id ?email ?users"
    using identity dotted_other
    by (auto simp: ExistsByEmailAlias_iff plain_probes dotted_users_def split_y(3) [OF dotted_set] dotted_plus)
  have g: "graphic ?email" "\<forall>u\<in>set ?users. graphic (Email u)"
    using split_y(1) [of "plain_local @ ''+x''"] split_y(1) [of plain_local] split_y(1) [OF dotted_set] plain_set
    by (auto simp: dotted_users_def)
  have "lower (Email u) \<noteq> lower ?email" if "u \<in> set ?users" for u
  proof
    assume "lower (Email u) = lower ?email"
    then have "set (lower (Email u)) = set (lower ?email)" by simp
    moreover have "CHR ''+'' \<notin> set (lower (Email u))" using that
      by (auto simp: dotted_users_def dotted_def plain_local_def lower_def byte_lower_def)
    moreover have "CHR ''+'' \<in> set (lower ?email)" by (simp add: lower_def byte_lower_def)
    ultimately show False by simp
  qed
  then have "\<not> ExistsByEmail id id ?email ?users"
    using ExistsByEmail_graphic [OF g(1) _ g(2)] plain_set(3) by auto
  with no_alias show "existsByEmailOrAlias id id id ?email ?users = False" by (simp add: existsByEmailOrAlias_def)
qed

section \<open>The whitelist in normal form\<close>

lemma Split_set: "set s \<subseteq> insert c (\<Union> (set ` set (Split s c)))"
proof (induction s)
  case (Cons x xs)
  then show ?case by (cases "Split xs c") auto
qed simp

lemma label_plain: "label_char c \<or> c = CHR ''-'' \<or> c = CHR ''.'' \<Longrightarrow> is_graphic c \<and> \<not> (65 \<le> (of_char c :: nat) \<and> of_char c \<le> (90 :: nat))"
  by (auto simp: label_char_def is_graphic_def)

lemma valid_domain_chars:
  assumes "isValidRegistrationEmailDomain d"
  shows "c \<in> set d \<Longrightarrow> label_char c \<or> c = CHR ''-'' \<or> c = CHR ''.''"
  using assms Split_set [of d "CHR ''.''"]
  by (fastforce simp: isValidRegistrationEmailDomain_def domain_pattern_def label_ok_def list_all_iff)

lemma valid_domain_plain: "isValidRegistrationEmailDomain d \<Longrightarrow> plain_name d"
  unfolding plain_name_def list_all_iff using valid_domain_chars label_plain by blast

text \<open>An item of the normal form.\<close>

definition suffix_item :: "string \<Rightarrow> bool" where
  "suffix_item n \<longleftrightarrow> (\<exists>d. isValidRegistrationEmailDomain d \<and> (n = ''@'' @ d \<or> n = ''*.'' @ d))"

lemma suffix_item_plain: "suffix_item n \<Longrightarrow> plain_name n \<and> n \<noteq> []"
  using valid_domain_plain by (auto simp: suffix_item_def plain_name_def is_graphic_def)

lemma normalize_suffix_item:
  "normalizeRegistrationEmailSuffix ulow raw = Inr n \<Longrightarrow> n \<noteq> [] \<Longrightarrow> suffix_item n"
  by (auto simp: normalizeRegistrationEmailSuffix_def suffix_item_def Let_def split: if_splits)

lemma normalize_suffix_fixed:
  assumes "suffix_item n"
  shows "normalizeRegistrationEmailSuffix ulow n = Inr n"
proof -
  obtain d where d: "isValidRegistrationEmailDomain d" "n = ''@'' @ d \<or> n = ''*.'' @ d" using assms suffix_item_def by blast
  have "CHR ''@'' \<notin> set d" using d(1) by (simp add: isValidRegistrationEmailDomain_def Contains_byte)
  then have "count_list d CHR ''@'' = 0" by (simp add: count_list_0_iff)
  then show ?thesis using d suffix_item_plain [OF assms]
    by (auto simp: normalizeRegistrationEmailSuffix_def Let_def plain_simps TrimPrefix_def Contains_byte)
qed

lemma normalize_suffixes_items:
  "normalize_suffixes ulow strict seen raw = Inr wl \<Longrightarrow> distinct wl \<and> set wl \<inter> set seen = {} \<and> (\<forall>n\<in>set wl. suffix_item n)"
proof (induction raw arbitrary: seen wl)
  case (Cons item raw)
  show ?case
  proof (cases "normalizeRegistrationEmailSuffix ulow item")
    case (Inl e)
    with Cons show ?thesis by (auto split: if_splits)
  next
    case (Inr n)
    show ?thesis
    proof (cases "n = [] \<or> n \<in> set seen")
      case True
      with Cons Inr show ?thesis by simp
    next
      case False
      with Cons.prems Inr obtain out where out: "normalize_suffixes ulow strict (n # seen) raw = Inr out" "wl = n # out"
        by (cases "normalize_suffixes ulow strict (n # seen) raw") auto
      with Cons.IH [OF out(1)] normalize_suffix_item [OF Inr] False show ?thesis by auto
    qed
  qed
qed simp

lemma normalize_suffixes_fixed:
  "distinct wl \<Longrightarrow> set wl \<inter> set seen = {} \<Longrightarrow> \<forall>n\<in>set wl. suffix_item n \<Longrightarrow> normalize_suffixes ulow strict seen wl = Inr wl"
  by (induction wl arbitrary: seen) (auto simp: normalize_suffix_fixed suffix_item_plain)

text \<open>What the whitelist in normal form admits.\<close>

definition domain_listed :: "string list \<Rightarrow> string \<Rightarrow> bool" where
  "domain_listed wl host \<longleftrightarrow> ''@'' @ host \<in> set wl
     \<or> (\<exists>base. ''*.'' @ base \<in> set wl \<and> (host = base \<or> suffix (''.'' @ base) host))"

lemma allowed_item:
  assumes "suffix_item a"
  shows "suffix_allows ulow host a \<longleftrightarrow> a = ''@'' @ host \<or> (\<exists>base. a = ''*.'' @ base \<and> (host = base \<or> suffix (''.'' @ base) host))"
  using assms suffix_item_plain [OF assms]
  by (auto simp: suffix_allows_def suffix_item_def plain_simps registrationEmailDomainMatchesWildcard_def TrimPrefix_def Let_def)

lemma allowed_listed:
  assumes "\<forall>n\<in>set wl. suffix_item n"
  shows "(\<exists>a\<in>set wl. suffix_allows ulow host a) \<longleftrightarrow> domain_listed wl host"
proof -
  have "(\<exists>a\<in>set wl. suffix_allows ulow host a) \<longleftrightarrow>
      (\<exists>a\<in>set wl. a = ''@'' @ host \<or> (\<exists>base. a = ''*.'' @ base \<and> (host = base \<or> suffix (''.'' @ base) host)))"
    using assms allowed_item by blast
  then show ?thesis unfolding domain_listed_def by blast
qed

text \<open>
  A whitelist that the settings accept is stored in normal form: reading it back with either
  reader changes nothing, no item is listed twice, and it admits an address exactly when its domain
  is listed, or is a listed wildcard's base or a subdomain of it.
\<close>

theorem whitelist_normal_form:
  assumes "NormalizeRegistrationEmailSuffixWhitelist ulow raw = Inr wl"
  shows "normalizeRegistrationEmailSuffixWhitelist ulow strict wl = Inr wl \<and> distinct wl
    \<and> (wl \<noteq> [] \<longrightarrow> (IsRegistrationEmailSuffixAllowed ulow email wl \<longleftrightarrow>
         (\<exists>local host. splitEmailForPolicy ulow email = Some (local, host) \<and> domain_listed wl host)))"
proof -
  have wl: "distinct wl" "\<forall>n\<in>set wl. suffix_item n"
    using assms normalize_suffixes_items [of ulow True "[]" raw wl]
    by (auto simp: NormalizeRegistrationEmailSuffixWhitelist_def normalizeRegistrationEmailSuffixWhitelist_def split: if_splits)
  then have "normalizeRegistrationEmailSuffixWhitelist ulow strict wl = Inr wl"
    by (simp add: normalizeRegistrationEmailSuffixWhitelist_def normalize_suffixes_fixed)
  moreover have "IsRegistrationEmailSuffixAllowed ulow email wl \<longleftrightarrow>
      (\<exists>local host. splitEmailForPolicy ulow email = Some (local, host) \<and> domain_listed wl host)" if "wl \<noteq> []"
  proof (cases "splitEmailForPolicy ulow email")
    case (Some p)
    obtain l h where "p = (l, h)" by fastforce
    with Some that wl(2) show ?thesis
      by (auto simp: IsRegistrationEmailSuffixAllowed_def list_ex_iff allowed_listed)
  qed (use that in \<open>simp add: IsRegistrationEmailSuffixAllowed_def\<close>)
  ultimately show ?thesis using wl(1) by blast
qed

lemma normalize_example: "NormalizeRegistrationEmailSuffixWhitelist id [''*.b.co'', ''@b.co''] = Inr [''*.b.co'', ''@b.co'']"
proof -
  have "isValidRegistrationEmailDomain ''b.co''"
    by (simp add: isValidRegistrationEmailDomain_def Contains_byte domain_pattern_def label_ok_def label_char_def)
  then have "\<forall>n\<in>set [''*.b.co'', ''@b.co'']. suffix_item n" by (auto simp: suffix_item_def)
  then have "normalize_suffixes id True [] [''*.b.co'', ''@b.co''] = Inr [''*.b.co'', ''@b.co'']"
    by (intro normalize_suffixes_fixed) simp_all
  then show ?thesis
    by (simp add: NormalizeRegistrationEmailSuffixWhitelist_def normalizeRegistrationEmailSuffixWhitelist_def
        del: normalize_suffixes.simps)
qed

theorem whitelist_normal_form_witness:
  "normalizeRegistrationEmailSuffixWhitelist id False [''*.b.co'', ''@b.co''] = Inr [''*.b.co'', ''@b.co''] \<and> distinct [''*.b.co'', ''@b.co'']
    \<and> (IsRegistrationEmailSuffixAllowed id ''x@a.b.co'' [''*.b.co'', ''@b.co''] \<longleftrightarrow>
         (\<exists>local host. splitEmailForPolicy id ''x@a.b.co'' = Some (local, host) \<and> domain_listed [''*.b.co'', ''@b.co''] host))"
  using whitelist_normal_form [OF normalize_example, of False "''x@a.b.co''"] list.distinct(1) by blast

end
