(* ===== verification/Scoped_Locks.thy ===== *)
theory Scoped_Locks
  imports Go_Strings "HOL-Library.List_Lexorder" "HOL-Library.Char_ord" "HOL-Library.Word"
begin

unbundle bit_operations_syntax

text \<open>
  The registry of locks by key (\<^verbatim>\<open>scopedKeyLockRegistry\<close> in
  \<^verbatim>\<open>backend/internal/repository/user_profile_identity_repo.go\<close>) that serialises registrations of one
  e-mail address within a process.  The entries are counted by their users and dropped with the last
  one.  A critical section of the registry's mutex is one step; taking and giving back the mutex of an
  entry are steps of their own, so that the goroutines interleave between them.
\<close>

section \<open>Keys\<close>

text \<open>A set of trimmed keys, sorted: the order of Go's maps does not show.\<close>

definition normalizeLockKeys :: "string list \<Rightarrow> string list" where
  "normalizeLockKeys keys = sort (remdups (filter (\<lambda>k. k \<noteq> []) (map TrimSpace keys)))"

text \<open>FNV-1a with 64 bits, read as an \<^verbatim>\<open>int64\<close>.\<close>

definition advisoryLockHash :: "string \<Rightarrow> 64 word" where
  "advisoryLockHash key = fold (\<lambda>c hash. (hash XOR of_char c) * 1099511628211) key 14695981039346656037"

section \<open>The registry\<close>

text \<open>
  Entries live in memory under their addresses: \<open>refs\<close> counts the users of an entry, \<open>owner\<close> is the
  goroutine that holds its mutex.
\<close>

record registry =
  locks :: "string \<Rightarrow> nat option"
  refs :: "nat \<Rightarrow> int"
  owner :: "nat \<Rightarrow> nat option"
  fresh :: nat

definition newScopedKeyLockRegistry :: registry where
  "newScopedKeyLockRegistry = \<lparr>locks = (\<lambda>k. None), refs = (\<lambda>e. 0), owner = (\<lambda>e. None), fresh = 0\<rparr>"

definition new_entry :: "string \<Rightarrow> registry \<Rightarrow> registry" where
  "new_entry key r =
     r\<lparr>locks := (locks r)(key \<mapsto> fresh r), refs := (refs r)(fresh r := 0), owner := (owner r)(fresh r := None),
       fresh := fresh r + 1\<rparr>"

fun register_keys :: "string list \<Rightarrow> registry \<Rightarrow> nat list \<times> registry" where
  "register_keys [] r = ([], r)"
| "register_keys (key # keys) r =
     (let r1 = (if locks r key = None then new_entry key r else r);
          entry = the (locks r1 key);
          r2 = r1\<lparr>refs := (refs r1)(entry := refs r1 entry + 1)\<rparr>
      in case register_keys keys r2 of (entries, r3) \<Rightarrow> (entry # entries, r3))"

fun release_keys :: "string list \<Rightarrow> nat list \<Rightarrow> registry \<Rightarrow> registry" where
  "release_keys (key # keys) (entry # entries) r =
     (let r1 = r\<lparr>refs := (refs r)(entry := refs r entry - 1)\<rparr>;
          r2 = (if refs r1 entry = 0 then r1\<lparr>locks := (locks r1)(key := None)\<rparr> else r1)
      in release_keys keys entries r2)"
| "release_keys keys entries r = r"

section \<open>Goroutines\<close>

text \<open>
  Where a goroutine is: between the critical section of \<^verbatim>\<open>lock\<close> and its last mutex (with the number
  of mutexes it has), holding all locks, or in the function that \<^verbatim>\<open>lock\<close> returned (with the number of
  mutexes it still has).
\<close>

datatype goroutine = Idle
  | Locking "string list" "nat list" nat
  | Holding "string list" "nat list"
  | Unlocking "string list" "nat list" nat

record lock_sys =
  reg :: registry
  threads :: "nat \<Rightarrow> goroutine"

definition start_lock :: "nat \<Rightarrow> string list \<Rightarrow> lock_sys \<Rightarrow> lock_sys" where
  "start_lock t keys s =
     (let normalized = normalizeLockKeys keys
      in if normalized = [] then s
         else (case register_keys normalized (reg s) of (entries, r) \<Rightarrow>
                 \<lparr>reg = r, threads = (threads s)(t := Locking normalized entries 0)\<rparr>))"

definition set_owner :: "nat \<Rightarrow> nat option \<Rightarrow> registry \<Rightarrow> registry" where
  "set_owner e x r = r\<lparr>owner := (owner r)(e := x)\<rparr>"

inductive lock_step :: "lock_sys \<Rightarrow> nat \<Rightarrow> lock_sys \<Rightarrow> bool" where
  start: "threads s t = Idle \<Longrightarrow> lock_step s t (start_lock t keys s)"
| acquire: "threads s t = Locking ks es i \<Longrightarrow> i < length es \<Longrightarrow> owner (reg s) (es ! i) = None
    \<Longrightarrow> lock_step s t \<lparr>reg = set_owner (es ! i) (Some t) (reg s), threads = (threads s)(t := Locking ks es (Suc i))\<rparr>"
| locked: "threads s t = Locking ks es i \<Longrightarrow> i = length es
    \<Longrightarrow> lock_step s t \<lparr>reg = reg s, threads = (threads s)(t := Holding ks es)\<rparr>"
| release: "threads s t = Holding ks es
    \<Longrightarrow> lock_step s t \<lparr>reg = reg s, threads = (threads s)(t := Unlocking ks es (length es))\<rparr>"
| unlock: "threads s t = Unlocking ks es (Suc i)
    \<Longrightarrow> lock_step s t \<lparr>reg = set_owner (es ! i) None (reg s), threads = (threads s)(t := Unlocking ks es i)\<rparr>"
| unregister: "threads s t = Unlocking ks es 0
    \<Longrightarrow> lock_step s t \<lparr>reg = release_keys ks es (reg s), threads = (threads s)(t := Idle)\<rparr>"

definition initial_sys :: lock_sys where
  "initial_sys = \<lparr>reg = newScopedKeyLockRegistry, threads = (\<lambda>t. Idle)\<rparr>"

inductive lock_run :: "lock_sys \<Rightarrow> bool" where
  init: "lock_run initial_sys"
| step: "lock_run s \<Longrightarrow> lock_step s t s' \<Longrightarrow> lock_run s'"

section \<open>The registry counts the users of a key\<close>

text \<open>\<open>counts r n\<close>: a key has an entry exactly when it has users, and the entry counts them.\<close>

definition counts :: "registry \<Rightarrow> (string \<Rightarrow> nat) \<Rightarrow> bool" where
  "counts r n \<longleftrightarrow> (\<forall>k. locks r k = None \<longleftrightarrow> n k = 0)
     \<and> (\<forall>k e. locks r k = Some e \<longrightarrow> refs r e = int (n k) \<and> e < fresh r)
     \<and> (\<forall>k k' e. locks r k = Some e \<longrightarrow> locks r k' = Some e \<longrightarrow> k = k')
     \<and> (\<forall>e\<ge>fresh r. owner r e = None)"

lemma countsD:
  assumes "counts r n"
  shows "locks r k = None \<longleftrightarrow> n k = 0" and "locks r k = Some e \<Longrightarrow> refs r e = int (n k)"
    and "locks r k = Some e \<Longrightarrow> e < fresh r" and "locks r k = Some e \<Longrightarrow> locks r k' = Some e \<Longrightarrow> k = k'"
    and "fresh r \<le> e \<Longrightarrow> owner r e = None"
  using assms unfolding counts_def by blast+

lemma register_one:
  fixes k :: string
  assumes "counts r n"
  defines "r1 \<equiv> if locks r k = None then new_entry k r else r"
  defines "e \<equiv> the (locks r1 k)"
  defines "r2 \<equiv> r1\<lparr>refs := (refs r1)(e := refs r1 e + 1)\<rparr>"
  shows "counts r2 (n(k := Suc (n k)))" and "locks r2 k = Some e" and "owner r2 = owner r"
    and "locks r k' = Some e' \<Longrightarrow> locks r2 k' = Some e'"
proof -
  note c = countsD [OF assms(1)]
  have "counts r2 (n(k := Suc (n k))) \<and> locks r2 k = Some e \<and> owner r2 = owner r
    \<and> (\<forall>k' e'. locks r k' = Some e' \<longrightarrow> locks r2 k' = Some e')"
  proof (cases "locks r k")
    case None
    then have z: "n k = 0" and free: "owner r (fresh r) = None" using c by auto
    have new: "locks r j \<noteq> Some (fresh r)" for j using c(3) [of j "fresh r"] by blast
    have r2: "locks r2 = (locks r)(k \<mapsto> fresh r)" "refs r2 = (refs r)(fresh r := 1)" "owner r2 = owner r"
        "fresh r2 = Suc (fresh r)" "e = fresh r"
      using None free by (simp_all add: r2_def r1_def e_def new_entry_def fun_upd_idem)
    have "counts r2 (n(k := Suc (n k)))"
      unfolding counts_def r2 using c z new by (auto simp: less_Suc_eq)
    then show ?thesis using r2 None by auto
  next
    case (Some e0)
    then have r2: "locks r2 = locks r" "refs r2 = (refs r)(e0 := refs r e0 + 1)" "owner r2 = owner r"
        "fresh r2 = fresh r" "e = e0"
      by (simp_all add: r2_def r1_def e_def)
    have "0 < n k" using Some c(1) [of k] by auto
    then have "counts r2 (n(k := Suc (n k)))"
      unfolding counts_def r2 using c Some by auto
    then show ?thesis using r2 Some by auto
  qed
  then show "counts r2 (n(k := Suc (n k)))" "locks r2 k = Some e" "owner r2 = owner r"
    "locks r k' = Some e' \<Longrightarrow> locks r2 k' = Some e'" by blast+
qed

lemma register_keys_spec:
  assumes "counts r n" and "distinct ks" and "register_keys ks r = (es, r')"
  shows "counts r' (\<lambda>k. n k + (if k \<in> set ks then 1 else 0)) \<and> map (locks r') ks = map Some es
    \<and> owner r' = owner r \<and> (\<forall>k e. locks r k = Some e \<longrightarrow> locks r' k = Some e)"
  using assms
proof (induction ks arbitrary: r n es)
  case (Cons k ks)
  define r1 where "r1 = (if locks r k = None then new_entry k r else r)"
  define e where "e = the (locks r1 k)"
  define r2 where "r2 = r1\<lparr>refs := (refs r1)(e := refs r1 e + 1)\<rparr>"
  note one = register_one [OF Cons.prems(1), where k = k, folded r1_def, folded e_def, folded r2_def]
  obtain es' where rest: "register_keys ks r2 = (es', r')" "es = e # es'"
    using Cons.prems(3) by (cases "register_keys ks r2") (auto simp: r1_def [symmetric] e_def [symmetric] r2_def [symmetric] Let_def)
  have "distinct ks" "k \<notin> set ks" using Cons.prems(2) by auto
  note IH = Cons.IH [OF one(1) this(1) rest(1)]
  have "(\<lambda>j. (n(k := Suc (n k))) j + (if j \<in> set ks then 1 else 0)) = (\<lambda>j. n j + (if j \<in> set (k # ks) then 1 else 0))"
    using \<open>k \<notin> set ks\<close> by (auto simp: fun_eq_iff)
  then show ?case using IH one rest(2) by auto
qed auto

lemma release_one:
  assumes "counts r n" and "locks r k = Some e"
  defines "r1 \<equiv> r\<lparr>refs := (refs r)(e := refs r e - 1)\<rparr>"
  defines "r2 \<equiv> if refs r1 e = 0 then r1\<lparr>locks := (locks r1)(k := None)\<rparr> else r1"
  shows "counts r2 (n(k := n k - 1))" and "owner r2 = owner r"
    and "locks r k' = Some e' \<Longrightarrow> k' \<noteq> k \<or> 1 < n k \<Longrightarrow> locks r2 k' = Some e'"
proof -
  note c = countsD [OF assms(1)]
  have "0 < n k" "refs r e = int (n k)" using assms(2) c(1) [of k] c(2) by auto
  then have zero: "refs r1 e = 0 \<longleftrightarrow> n k = 1" "refs r1 = (refs r)(e := int (n k - 1))" "locks r1 = locks r" "fresh r1 = fresh r"
      "owner r1 = owner r"
    by (auto simp: r1_def of_nat_diff)
  show "counts r2 (n(k := n k - 1))"
    unfolding counts_def r2_def using zero c assms(2) \<open>0 < n k\<close> by (auto split: if_splits)
  show "owner r2 = owner r" by (simp add: r2_def zero)
  show "locks r k' = Some e' \<Longrightarrow> k' \<noteq> k \<or> 1 < n k \<Longrightarrow> locks r2 k' = Some e'" by (auto simp: r2_def zero)
qed

lemma release_keys_spec:
  assumes "counts r n" and "distinct ks" and "map (locks r) ks = map Some es"
  shows "counts (release_keys ks es r) (\<lambda>k. n k - (if k \<in> set ks then 1 else 0))
    \<and> owner (release_keys ks es r) = owner r
    \<and> (\<forall>k e. locks r k = Some e \<longrightarrow> (if k \<in> set ks then 1 else 0) < n k \<longrightarrow> locks (release_keys ks es r) k = Some e)"
  using assms
proof (induction ks es arbitrary: r n rule: list_induct2')
  case (4 k ks e es)
  define r1 where "r1 = r\<lparr>refs := (refs r)(e := refs r e - 1)\<rparr>"
  define r2 where "r2 = (if refs r1 e = 0 then r1\<lparr>locks := (locks r1)(k := None)\<rparr> else r1)"
  have e: "locks r k = Some e" using "4.prems"(3) by simp
  note one = release_one [OF "4.prems"(1) e, folded r1_def, folded r2_def]
  have d: "distinct ks" "k \<notin> set ks" using "4.prems"(2) by auto
  have keep: "map (locks r2) ks = map Some es"
  proof (rule nth_equalityI)
    show "length (map (locks r2) ks) = length (map Some es)" using "4.prems"(3) by (metis length_map list.inject list.simps(9))
    fix i assume i: "i < length (map (locks r2) ks)"
    have "map (locks r) ks = map Some es" using "4.prems"(3) by simp
    then have "locks r (ks ! i) = Some (es ! i)" using i by (metis length_map nth_map)
    then show "map (locks r2) ks ! i = map Some es ! i"
      using one(3) [of "ks ! i" "es ! i"] i d(2) \<open>map (locks r) ks = map Some es\<close> by (metis length_map nth_map nth_mem)
  qed
  have eq: "release_keys (k # ks) (e # es) r = release_keys ks es r2" by (simp add: r1_def r2_def Let_def)
  note IH = "4.IH" [OF one(1) d(1) keep]
  have "(\<lambda>j. (n(k := n k - 1)) j - (if j \<in> set ks then 1 else 0)) = (\<lambda>j. n j - (if j \<in> set (k # ks) then 1 else 0))"
    using d(2) by (auto simp: fun_eq_iff)
  moreover have "locks (release_keys ks es r2) j = Some x"
    if "locks r j = Some x" "(if j \<in> set (k # ks) then 1 else 0) < n j" for j x
  proof -
    have "locks r2 j = Some x" using one(3) [OF that(1)] that(2) by (auto split: if_splits)
    moreover have "(if j \<in> set ks then 1 else 0) < (n(k := n k - 1)) j" using that(2) d(2) by (auto split: if_splits)
    ultimately show ?thesis using IH by blast
  qed
  ultimately show ?case unfolding eq using IH one(2) by auto
qed auto

section \<open>The invariant\<close>

fun keys_of :: "goroutine \<Rightarrow> string list" where
  "keys_of Idle = []"
| "keys_of (Locking ks es i) = ks"
| "keys_of (Holding ks es) = ks"
| "keys_of (Unlocking ks es i) = ks"

fun entries_of :: "goroutine \<Rightarrow> nat list" where
  "entries_of Idle = []"
| "entries_of (Locking ks es i) = es"
| "entries_of (Holding ks es) = es"
| "entries_of (Unlocking ks es i) = es"

fun taken :: "goroutine \<Rightarrow> nat" where
  "taken Idle = 0"
| "taken (Locking ks es i) = i"
| "taken (Holding ks es) = length es"
| "taken (Unlocking ks es i) = i"

definition locked_of :: "goroutine \<Rightarrow> nat list" where
  "locked_of g = take (taken g) (entries_of g)"

definition users :: "lock_sys \<Rightarrow> string \<Rightarrow> nat" where
  "users s k = card {t. k \<in> set (keys_of (threads s t))}"

definition thread_ok :: "registry \<Rightarrow> goroutine \<Rightarrow> bool" where
  "thread_ok r g \<longleftrightarrow> sorted (keys_of g) \<and> distinct (keys_of g)
     \<and> map (locks r) (keys_of g) = map Some (entries_of g) \<and> taken g \<le> length (entries_of g)"

definition sys_ok :: "lock_sys \<Rightarrow> bool" where
  "sys_ok s \<longleftrightarrow> finite {t. threads s t \<noteq> Idle} \<and> counts (reg s) (users s)
     \<and> (\<forall>t. thread_ok (reg s) (threads s t))
     \<and> (\<forall>e t. owner (reg s) e = Some t \<longleftrightarrow> e \<in> set (locked_of (threads s t)))"

lemma sys_okD:
  assumes "sys_ok s"
  shows "finite {t. threads s t \<noteq> Idle}" and "counts (reg s) (users s)" and "thread_ok (reg s) (threads s t)"
    and "owner (reg s) e = Some t \<longleftrightarrow> e \<in> set (locked_of (threads s t))"
  using assms unfolding sys_ok_def by blast+

lemma entries_distinct:
  assumes "counts r n" and "thread_ok r g"
  shows "distinct (entries_of g)"
proof -
  have m: "map (locks r) (keys_of g) = map Some (entries_of g)" and d: "distinct (keys_of g)"
    using assms(2) by (auto simp: thread_ok_def)
  have "inj_on (locks r) (set (keys_of g))"
  proof (rule inj_onI)
    fix k k' assume "k \<in> set (keys_of g)" "k' \<in> set (keys_of g)" "locks r k = locks r k'"
    moreover from m \<open>k \<in> set (keys_of g)\<close> obtain e where "locks r k = Some e" by (metis image_iff list.set_map)
    ultimately show "k = k'" using countsD(4) [OF assms(1)] by metis
  qed
  with d have "distinct (map Some (entries_of g))" unfolding m [symmetric] by (simp add: distinct_map)
  then show ?thesis by (simp add: distinct_map)
qed

lemma thread_ok_other:
  assumes "thread_ok r g" and "\<And>k e. k \<in> set (keys_of g) \<Longrightarrow> locks r k = Some e \<Longrightarrow> locks r' k = Some e"
  shows "thread_ok r' g"
proof -
  have m: "map (locks r) (keys_of g) = map Some (entries_of g)" using assms(1) by (simp add: thread_ok_def)
  have "map (locks r') (keys_of g) = map (locks r) (keys_of g)"
  proof (rule map_cong [OF refl])
    fix k assume "k \<in> set (keys_of g)"
    moreover from this m obtain e where "locks r k = Some e" by (metis image_iff list.set_map)
    ultimately show "locks r' k = locks r k" using assms(2) by metis
  qed
  with assms(1) show ?thesis by (simp add: thread_ok_def)
qed

lemma users_cong: "(\<And>t. keys_of (threads s t) = keys_of (threads s' t)) \<Longrightarrow> users s = users s'"
  by (simp add: users_def fun_eq_iff)

lemma finite_users:
  assumes "finite {t. threads s t \<noteq> Idle}"
  shows "finite {t. k \<in> set (keys_of (threads s t))}"
  by (rule finite_subset [OF _ assms]) auto

text \<open>Registering turns an idle goroutine into a user of its keys.\<close>

lemma users_join:
  assumes "finite {t. threads s t \<noteq> Idle}" and "threads s t = Idle" and "threads s' = (threads s)(t := g)"
  shows "users s' = (\<lambda>k. users s k + (if k \<in> set (keys_of g) then 1 else 0))"
proof
  fix k
  have "{u. k \<in> set (keys_of (threads s' u))}
      = (if k \<in> set (keys_of g) then insert t {u. k \<in> set (keys_of (threads s u))} else {u. k \<in> set (keys_of (threads s u))})"
    using assms(2,3) by auto
  moreover have "t \<notin> {u. k \<in> set (keys_of (threads s u))}" using assms(2) by simp
  ultimately show "users s' k = users s k + (if k \<in> set (keys_of g) then 1 else 0)"
    using finite_users [OF assms(1)] by (simp add: users_def)
qed

lemma users_leave:
  assumes "finite {t. threads s t \<noteq> Idle}" and "threads s' = (threads s)(t := Idle)"
  shows "users s' = (\<lambda>k. users s k - (if k \<in> set (keys_of (threads s t)) then 1 else 0))"
proof
  fix k
  have "{u. k \<in> set (keys_of (threads s' u))} = {u. k \<in> set (keys_of (threads s u))} - {t}"
    using assms(2) by auto
  then show "users s' k = users s k - (if k \<in> set (keys_of (threads s t)) then 1 else 0)"
    using finite_users [OF assms(1)] by (simp add: users_def card_Diff_singleton_if)
qed

text \<open>A step of one goroutine that keeps its keys and changes the owner of at most one entry.\<close>

lemma sys_ok_local:
  assumes "sys_ok s" and g: "keys_of g = keys_of (threads s t)" "entries_of g = entries_of (threads s t)"
    "taken g \<le> length (entries_of g)" "g \<noteq> Idle \<longleftrightarrow> threads s t \<noteq> Idle"
    and r: "locks r = locks (reg s)" "refs r = refs (reg s)" "fresh r = fresh (reg s)"
    and own: "\<And>e u. owner r e = Some u \<longleftrightarrow> e \<in> set (locked_of (((threads s)(t := g)) u))"
    and low: "\<And>e. fresh (reg s) \<le> e \<Longrightarrow> owner r e = None"
  shows "sys_ok \<lparr>reg = r, threads = (threads s)(t := g)\<rparr>"
proof -
  note ok = sys_okD [OF assms(1)]
  let ?s = "\<lparr>reg = r, threads = (threads s)(t := g)\<rparr>"
  have "{u. threads ?s u \<noteq> Idle} = {u. threads s u \<noteq> Idle}" using g(4) by auto
  then have "finite {u. threads ?s u \<noteq> Idle}" using ok(1) by simp
  moreover have "users ?s = users s" by (rule users_cong) (simp add: g)
  then have "counts (reg ?s) (users ?s)" using ok(2) r low unfolding counts_def by simp
  moreover have "thread_ok (reg ?s) (threads ?s u)" for u
    using ok(3) [of u] ok(3) [of t] g r by (simp add: thread_ok_def)
  ultimately show ?thesis using own unfolding sys_ok_def by simp
qed

lemma owner_low: "counts r n \<Longrightarrow> thread_ok r g \<Longrightarrow> e \<in> set (entries_of g) \<Longrightarrow> e < fresh r"
  by (metis countsD(3) image_iff list.set_map thread_ok_def)

lemma normalizeLockKeys_order: "sorted (normalizeLockKeys keys) \<and> distinct (normalizeLockKeys keys)"
  by (simp add: normalizeLockKeys_def)

lemma locked_of_upd: "locked_of (((threads s)(t := g)) u) = (if u = t then locked_of g else locked_of (threads s u))"
  by simp

lemma take_Suc_set: "i < length es \<Longrightarrow> set (take (Suc i) es) = insert (es ! i) (set (take i es))"
  by (simp add: take_Suc_conv_app_nth)

lemma nth_not_taken: "distinct es \<Longrightarrow> i < length es \<Longrightarrow> es ! i \<notin> set (take i es)"
  by (metis distinct.simps(2) distinct_append id_take_nth_drop disjoint_iff list.set_intros(1))

lemma start_ok:
  assumes "sys_ok s" and "threads s t = Idle"
  shows "sys_ok (start_lock t keys s)"
proof (cases "normalizeLockKeys keys = []")
  case True
  with assms(1) show ?thesis by (simp add: start_lock_def)
next
  case False
  let ?ks = "normalizeLockKeys keys"
  obtain es r where reg: "register_keys ?ks (reg s) = (es, r)" by fastforce
  let ?g = "Locking ?ks es 0" and ?s = "\<lparr>reg = r, threads = (threads s)(t := Locking ?ks es 0)\<rparr>"
  note ok = sys_okD [OF assms(1)]
  note spec = register_keys_spec [OF ok(2) _ reg, unfolded normalizeLockKeys_order, simplified]
  have "users ?s = (\<lambda>k. users s k + (if k \<in> set ?ks then 1 else 0))"
    using users_join [OF ok(1) assms(2), of ?s ?g] by simp
  then have "counts (reg ?s) (users ?s)" using spec normalizeLockKeys_order by simp
  moreover have "finite {u. threads ?s u \<noteq> Idle}"
    by (rule finite_subset [of _ "insert t {u. threads s u \<noteq> Idle}"]) (use ok(1) in auto)
  moreover have "thread_ok (reg ?s) (threads ?s u)" for u
  proof (cases "u = t")
    case True
    then show ?thesis using spec normalizeLockKeys_order [of keys] by (simp add: thread_ok_def)
  next
    case False
    then show ?thesis using thread_ok_other [OF ok(3) [of u], of r] spec normalizeLockKeys_order [of keys] by simp
  qed
  moreover have "owner (reg ?s) e = Some u \<longleftrightarrow> e \<in> set (locked_of (threads ?s u))" for e u
    using ok(4) [of e u] spec normalizeLockKeys_order [of keys] assms(2) by (simp add: locked_of_def)
  ultimately have "sys_ok ?s" unfolding sys_ok_def by blast
  then show ?thesis using False reg by (simp add: start_lock_def Let_def)
qed

lemma unregister_ok:
  assumes "sys_ok s" and t: "threads s t = Unlocking ks es 0"
  shows "sys_ok \<lparr>reg = release_keys ks es (reg s), threads = (threads s)(t := Idle)\<rparr>" (is "sys_ok ?s")
proof -
  note ok = sys_okD [OF assms(1)]
  have th: "distinct ks" "map (locks (reg s)) ks = map Some es" using ok(3) [of t] t by (auto simp: thread_ok_def)
  note spec = release_keys_spec [OF ok(2) th]
  have "users ?s = (\<lambda>k. users s k - (if k \<in> set ks then 1 else 0))"
    using users_leave [OF ok(1), of ?s t] t by simp
  then have "counts (reg ?s) (users ?s)" using spec by simp
  moreover have "finite {u. threads ?s u \<noteq> Idle}"
    by (rule finite_subset [OF _ ok(1)]) auto
  moreover have "thread_ok (reg ?s) (threads ?s u)" for u
  proof (cases "u = t")
    case True
    then show ?thesis by (simp add: thread_ok_def)
  next
    case False
    have "thread_ok (release_keys ks es (reg s)) (threads s u)"
    proof (rule thread_ok_other [OF ok(3) [of u]])
      fix k e assume k: "k \<in> set (keys_of (threads s u))" and e: "locks (reg s) k = Some e"
      have "card (if k \<in> set ks then {t, u} else {u}) \<le> users s k" unfolding users_def
        by (rule card_mono [OF finite_users [OF ok(1)]]) (use k t in auto)
      then have "(if k \<in> set ks then 1 else 0) < users s k" using False by (auto split: if_splits)
      then show "locks (release_keys ks es (reg s)) k = Some e" using spec e by blast
    qed
    with False show ?thesis by simp
  qed
  moreover have "owner (reg ?s) e = Some u \<longleftrightarrow> e \<in> set (locked_of (threads ?s u))" for e u
    using ok(4) [of e u] spec t by (simp add: locked_of_def)
  ultimately show ?thesis unfolding sys_ok_def by blast
qed

lemma lock_step_ok:
  assumes "lock_step s t s'" and "sys_ok s"
  shows "sys_ok s'"
  using assms
proof (induction rule: lock_step.induct)
  case (start s t keys)
  then show ?case by (intro start_ok)
next
  case (acquire s t ks es i)
  note ok = sys_okD [OF acquire.prems]
  have low: "es ! i < fresh (reg s)" using owner_low [OF ok(2) ok(3) [of t]] acquire by simp
  have free: "es ! i \<notin> set (locked_of (threads s u))" for u using ok(4) [of "es ! i" u] acquire by simp
  show ?case
  proof (rule sys_ok_local [OF acquire.prems])
    fix e u
    show "owner (set_owner (es ! i) (Some t) (reg s)) e = Some u
        \<longleftrightarrow> e \<in> set (locked_of (((threads s)(t := Locking ks es (Suc i))) u))"
      using ok(4) [of e u] free [of u] acquire
      by (cases "u = t") (auto simp: set_owner_def locked_of_def take_Suc_set)
  qed (use acquire low countsD(5) [OF ok(2)] in \<open>auto simp: set_owner_def\<close>)
next
  case (locked s t ks es i)
  note ok = sys_okD [OF locked.prems]
  show ?case
    by (rule sys_ok_local [OF locked.prems])
      (use locked ok(4) countsD(5) [OF ok(2)] in \<open>auto simp: locked_of_upd, auto simp: locked_of_def\<close>)
next
  case (release s t ks es)
  note ok = sys_okD [OF release.prems]
  show ?case
    by (rule sys_ok_local [OF release.prems])
      (use release ok(4) countsD(5) [OF ok(2)] in \<open>auto simp: locked_of_upd, auto simp: locked_of_def\<close>)
next
  case (unlock s t ks es i)
  note ok = sys_okD [OF unlock.prems]
  have i: "i < length es" using ok(3) [of t] unlock by (simp add: thread_ok_def)
  have "distinct es" using entries_distinct [OF ok(2) ok(3) [of t]] unlock by simp
  then have out: "es ! i \<notin> set (take i es)" using i by (rule nth_not_taken)
  have mine: "owner (reg s) (es ! i) = Some t" using ok(4) [of "es ! i" t] unlock i by (simp add: locked_of_def take_Suc_set)
  show ?case
  proof (rule sys_ok_local [OF unlock.prems])
    fix e u
    show "owner (set_owner (es ! i) None (reg s)) e = Some u
        \<longleftrightarrow> e \<in> set (locked_of (((threads s)(t := Unlocking ks es i)) u))"
      using ok(4) [of e u] mine out unlock i
      by (cases "u = t") (auto simp: set_owner_def locked_of_def take_Suc_set)
  qed (use unlock i countsD(5) [OF ok(2)] in \<open>auto simp: set_owner_def\<close>)
next
  case (unregister s t ks es)
  then show ?case by (intro unregister_ok)
qed

lemma lock_run_ok: "lock_run s \<Longrightarrow> sys_ok s"
proof (induction rule: lock_run.induct)
  case init
  show ?case by (auto simp: sys_ok_def initial_sys_def newScopedKeyLockRegistry_def counts_def users_def thread_ok_def locked_of_def)
qed (rule lock_step_ok)

section \<open>Exclusion, exactness, progress\<close>

lemma held_entry:
  assumes "sys_ok s" and "k \<in> set (take (taken (threads s t)) (keys_of (threads s t)))"
  obtains e where "locks (reg s) k = Some e" and "owner (reg s) e = Some t"
proof -
  note ok = sys_okD [OF assms(1)]
  have m: "map (locks (reg s)) (keys_of (threads s t)) = map Some (entries_of (threads s t))"
    using ok(3) [of t] by (simp add: thread_ok_def)
  then have "map (locks (reg s)) (take (taken (threads s t)) (keys_of (threads s t)))
      = map Some (locked_of (threads s t))"
    unfolding locked_of_def by (metis take_map)
  with assms(2) obtain e where "locks (reg s) k = Some e" "e \<in> set (locked_of (threads s t))"
    by (metis image_iff list.set_map)
  with ok(4) show ?thesis by (intro that) auto
qed

text \<open>
  C15. Two goroutines never hold the lock of one key at a time, although entries are dropped and made
  anew while others wait: whenever two goroutines are past \<^verbatim>\<open>lock\<close>, their sets of keys are disjoint.
\<close>

theorem scoped_exclusion:
  assumes "lock_run s" and "threads s t1 = Holding ks1 es1" and "threads s t2 = Holding ks2 es2" and "t1 \<noteq> t2"
  shows "set ks1 \<inter> set ks2 = {}"
proof (rule ccontr)
  assume "set ks1 \<inter> set ks2 \<noteq> {}"
  then obtain k where k: "k \<in> set ks1" "k \<in> set ks2" by blast
  have ok: "sys_ok s" by (rule lock_run_ok [OF assms(1)])
  have "map (locks (reg s)) ks1 = map Some es1" "map (locks (reg s)) ks2 = map Some es2"
    using sys_okD(3) [OF ok, of t1] sys_okD(3) [OF ok, of t2] assms(2,3) by (simp_all add: thread_ok_def)
  then have "length es1 = length ks1" "length es2 = length ks2" by (metis length_map)+
  then have "k \<in> set (take (taken (threads s t1)) (keys_of (threads s t1)))"
    "k \<in> set (take (taken (threads s t2)) (keys_of (threads s t2)))" using k assms(2,3) by simp_all
  then obtain e1 e2 where e: "locks (reg s) k = Some e1" "owner (reg s) e1 = Some t1"
      "locks (reg s) k = Some e2" "owner (reg s) e2 = Some t2"
    by (metis held_entry [OF ok])
  from e(1,3) have "e1 = e2" by simp
  with e(2,4) assms(4) show False by simp
qed

text \<open>
  The registry holds exactly the keys in use: a key has an entry if and only if some goroutine is
  between its \<^verbatim>\<open>lock\<close> and the end of its release, so that nothing is left when all have finished.
\<close>

theorem registry_exact:
  assumes "lock_run s"
  shows "(locks (reg s) k \<noteq> None) = (\<exists>t. k \<in> set (keys_of (threads s t)))"
proof -
  note ok = sys_okD [OF lock_run_ok [OF assms]]
  have "(locks (reg s) k \<noteq> None) = (users s k \<noteq> 0)" using countsD(1) [OF ok(2)] by simp
  also have "\<dots> = ({t. k \<in> set (keys_of (threads s t))} \<noteq> {})"
    using finite_users [OF ok(1)] by (simp add: users_def)
  finally show ?thesis by blast
qed

text \<open>The key that a goroutine waits for.\<close>

definition waits :: "lock_sys \<Rightarrow> nat \<Rightarrow> string \<Rightarrow> bool" where
  "waits s t k \<longleftrightarrow> (\<exists>ks es i. threads s t = Locking ks es i \<and> i < length es \<and> ks ! i = k \<and> owner (reg s) (es ! i) \<noteq> None)"

lemma moves_or_waits:
  assumes "sys_ok s" and "threads s t \<noteq> Idle"
  shows "(\<exists>s'. lock_step s t s') \<or> (\<exists>k. waits s t k)"
proof (cases "threads s t")
  case (Locking ks es i)
  have "i \<le> length es" using sys_okD(3) [OF assms(1), of t] Locking by (simp add: thread_ok_def)
  then show ?thesis using lock_step.acquire [OF Locking] lock_step.locked [OF Locking] Locking
    unfolding waits_def by (metis le_neq_implies_less)
next
  case (Holding ks es)
  then show ?thesis using lock_step.release by blast
next
  case (Unlocking ks es i)
  then show ?thesis using lock_step.unlock lock_step.unregister by (cases i) blast+
qed (use assms(2) in simp)

text \<open>The owner of a mutex waits for a greater key, if at all: the keys are taken in order.\<close>

lemma waits_for_greater:
  assumes "sys_ok s" and "waits s t k"
  obtains u where "threads s u \<noteq> Idle" and "\<And>k'. waits s u k' \<Longrightarrow> k < k'"
proof -
  note ok = sys_okD [OF assms(1)]
  obtain ks es i u where t: "threads s t = Locking ks es i" "i < length es" "ks ! i = k" "owner (reg s) (es ! i) = Some u"
    using assms(2) by (auto simp: waits_def)
  have k: "locks (reg s) k = Some (es ! i)"
    using ok(3) [of t] t by (metis entries_of.simps(2) keys_of.simps(2) length_map nth_map thread_ok_def)
  have e: "es ! i \<in> set (locked_of (threads s u))" using ok(4) t(4) by blast
  show ?thesis
  proof (rule that [of u])
    show "threads s u \<noteq> Idle" using e by (auto simp: locked_of_def)
    fix k' assume "waits s u k'"
    then obtain ks' es' j where u: "threads s u = Locking ks' es' j" "j < length es'" "ks' ! j = k'"
      by (auto simp: waits_def)
    have th: "sorted ks'" "distinct ks'" "map (locks (reg s)) ks' = map Some es'"
      using ok(3) [of u] u by (simp_all add: thread_ok_def)
    have len: "length ks' = length es'" using th(3) by (metis length_map)
    have "es ! i \<in> set (take j es')" using e u(1) by (simp add: locked_of_def)
    then obtain m where m: "m < j" "es' ! m = es ! i" by (auto simp: in_set_conv_nth)
    have "locks (reg s) (ks' ! m) = Some (es' ! m)" using th(3) m(1) u(2) len by (metis length_map nth_map order.strict_trans)
    then have "ks' ! m = k" using countsD(4) [OF ok(2)] k m(2) by metis
    moreover have "ks' ! m \<le> ks' ! j" using th(1) m(1) u(2) len by (intro sorted_nth_mono) auto
    moreover have "ks' ! m \<noteq> ks' ! j" using th(2) m(1) u(2) len by (simp add: nth_eq_iff_index_eq)
    ultimately show "k < k'" using u(3) by simp
  qed
qed

text \<open>
  C18. There is no deadlock: as long as some goroutine is between \<^verbatim>\<open>lock\<close> and the end of its release,
  one of them can make a step, whatever sets of keys they ask for.
\<close>

theorem no_deadlock:
  assumes "lock_run s" and "threads s t \<noteq> Idle"
  shows "\<exists>u s'. threads s u \<noteq> Idle \<and> lock_step s u s'"
proof (rule ccontr)
  assume stuck: "\<not> ?thesis"
  have ok: "sys_ok s" by (rule lock_run_ok [OF assms(1)])
  define K where "K = {k. \<exists>u. waits s u k}"
  have "K \<subseteq> (\<Union>u\<in>{u. threads s u \<noteq> Idle}. set (keys_of (threads s u)))"
  proof
    fix k assume "k \<in> K"
    then obtain u ks es i where u: "threads s u = Locking ks es i" "i < length es" "ks ! i = k" by (auto simp: K_def waits_def)
    have "length ks = length es" using sys_okD(3) [OF ok, of u] u(1) by (metis entries_of.simps(2) keys_of.simps(2) length_map thread_ok_def)
    then show "k \<in> (\<Union>u\<in>{u. threads s u \<noteq> Idle}. set (keys_of (threads s u)))" using u by (auto intro!: exI [of _ u])
  qed
  moreover have "finite (\<Union>u\<in>{u. threads s u \<noteq> Idle}. set (keys_of (threads s u)))" using sys_okD(1) [OF ok] by auto
  ultimately have fin: "finite K" by (rule finite_subset)
  have waiting: "\<exists>k. waits s u k" if "threads s u \<noteq> Idle" for u using moves_or_waits [OF ok that] that stuck by blast
  then obtain k0 where "waits s t k0" using assms(2) by blast
  then have ne: "K \<noteq> {}" unfolding K_def by blast
  obtain v where v: "waits s v (Max K)" using Max_in [OF fin ne] by (auto simp: K_def)
  obtain u where u: "threads s u \<noteq> Idle" "\<And>k'. waits s u k' \<Longrightarrow> Max K < k'" by (rule waits_for_greater [OF ok v]) blast
  obtain k' where k': "waits s u k'" using waiting [OF u(1)] by blast
  then have "k' \<in> K" by (auto simp: K_def)
  with Max_ge [OF fin this] u(2) [OF k'] show False by simp
qed

section \<open>A run\<close>

lemma lone_key:
  assumes "lock_run s" and "threads s t = Idle" and "normalizeLockKeys [k] = [k]" and "locks (reg s) k = None"
  shows "\<exists>s'. lock_run s' \<and> threads s' = (threads s)(t := Holding [k] [fresh (reg s)])
    \<and> locks (reg s') = (locks (reg s))(k \<mapsto> fresh (reg s)) \<and> fresh (reg s') = Suc (fresh (reg s))"
proof -
  let ?e = "fresh (reg s)"
  define r1 where "r1 = (new_entry k (reg s))\<lparr>refs := (refs (reg s))(?e := 1)\<rparr>"
  define s1 where "s1 = \<lparr>reg = r1, threads = (threads s)(t := Locking [k] [?e] 0)\<rparr>"
  define s2 where "s2 = \<lparr>reg = set_owner ?e (Some t) r1, threads = (threads s)(t := Locking [k] [?e] 1)\<rparr>"
  define s3 where "s3 = \<lparr>reg = set_owner ?e (Some t) r1, threads = (threads s)(t := Holding [k] [?e])\<rparr>"
  have "start_lock t [k] s = s1"
    using assms(3,4) by (simp add: start_lock_def s1_def r1_def new_entry_def Let_def)
  then have "lock_run s1" using lock_run.step [OF assms(1) lock_step.start [OF assms(2), of "[k]"]] by simp
  moreover have "lock_step s1 t s2"
    using lock_step.acquire [of s1 t "[k]" "[?e]" 0] by (simp add: s1_def s2_def r1_def new_entry_def)
  moreover have "lock_step s2 t s3"
    using lock_step.locked [of s2 t "[k]" "[?e]" 1] by (simp add: s2_def s3_def)
  ultimately have "lock_run s3" by (blast intro: lock_run.step)
  then show ?thesis by (intro exI [of _ s3]) (simp add: s3_def r1_def new_entry_def set_owner_def)
qed

lemma demo_keys: "normalizeLockKeys [''a''] = [''a'']" "normalizeLockKeys [''b''] = [''b'']"
  by (simp_all add: normalizeLockKeys_def plain_TrimSpace plain_name_def is_graphic_def)

lemma demo_holders:
  "\<exists>s. lock_run s \<and> threads s 0 = Holding [''a''] [0] \<and> threads s 1 = Holding [''b''] [1]"
proof -
  obtain s1 where s1: "lock_run s1" "threads s1 = (threads initial_sys)(0 := Holding [''a''] [0])"
      "locks (reg s1) = [''a'' \<mapsto> 0]" "fresh (reg s1) = 1"
    using lone_key [OF lock_run.init, of 0 "''a''"] demo_keys
    by (auto simp: initial_sys_def newScopedKeyLockRegistry_def)
  have "threads s1 1 = Idle" "locks (reg s1) ''b'' = None" using s1 by (simp_all add: initial_sys_def)
  from lone_key [OF s1(1) this(1) demo_keys(2) this(2)] s1 show ?thesis by auto
qed

theorem scoped_exclusion_witness:
  "\<exists>s :: lock_sys. threads s 0 = Holding [''a''] [0] \<and> threads s 1 = Holding [''b''] [1] \<and> set [''a''] \<inter> set [''b''] = {}"
proof -
  obtain s where s: "lock_run s" "threads s 0 = Holding [''a''] [0]" "threads s 1 = Holding [''b''] [1]"
    using demo_holders by blast
  have "set [''a''] \<inter> set [''b''] = {}" by (rule scoped_exclusion [OF s]) simp
  with s(2,3) show ?thesis by blast
qed

theorem registry_exact_witness:
  "\<exists>s :: lock_sys. threads s 0 = Holding [''a''] [0]
    \<and> (locks (reg s) ''a'' \<noteq> None) = (\<exists>t. ''a'' \<in> set (keys_of (threads s t)))"
proof -
  obtain s where s: "lock_run s" "threads s 0 = Holding [''a''] [0]" using demo_holders by blast
  show ?thesis using registry_exact [OF s(1), of "''a''"] s(2) by blast
qed

theorem no_deadlock_witness: "\<exists>s u s'. threads (s :: lock_sys) 0 = Holding [''a''] [0] \<and> threads s u \<noteq> Idle \<and> lock_step s u s'"
proof -
  obtain s where s: "lock_run s" "threads s 0 = Holding [''a''] [0]" using demo_holders by blast
  then have "threads s 0 \<noteq> Idle" by simp
  then obtain u s' where "threads s u \<noteq> Idle" "lock_step s u s'" using no_deadlock [OF s(1)] by blast
  with s(2) show ?thesis by blast
qed

end
