(* ===== verification/Email_Registration.thy ===== *)
theory Email_Registration
  imports Email_Policy Scoped_Locks App_Errors
begin

text \<open>
  Registrations and changes of addresses as concurrent transactions
  (\<^verbatim>\<open>backend/internal/repository/user_repo.go\<close>: \<^verbatim>\<open>create\<close>, \<^verbatim>\<open>Update\<close> with a new address and
  \<^verbatim>\<open>UpdateEmailWithAliasGuard\<close>, with the choice of the guards in
  \<^verbatim>\<open>backend/internal/service/auth_service.go\<close>).  A transaction takes its advisory
  locks one by one and keeps them until it ends; between any two of its statements the others run, and
  each statement sees the rows that are committed at that moment.  Every address that is written is
  \<open>graphic\<close>: printable ASCII without blanks.  The locks of the process
  (\<^verbatim>\<open>Scoped_Locks\<close>) only restrict these runs further and are left out here.
\<close>

section \<open>Errors\<close>

definition ErrEmailExists :: app_error where
  "ErrEmailExists = Conflict ''EMAIL_EXISTS'' ''email already exists''"
definition ErrEmailSuffixNotAllowed :: app_error where
  "ErrEmailSuffixNotAllowed = BadRequest ''EMAIL_SUFFIX_NOT_ALLOWED'' ''email suffix is not allowed''"
definition ErrEmailDomainRegistrationLimit :: app_error where
  "ErrEmailDomainRegistrationLimit = BadRequest ''EMAIL_DOMAIN_REGISTRATION_LIMIT''
     ''this email domain cannot register another account; use a mainstream email or contact support to add the enterprise domain''"
definition ErrUserNotFound :: app_error where
  "ErrUserNotFound = NotFound ''USER_NOT_FOUND'' ''user not found''"

definition buildEmailSuffixNotAllowedError :: "string list \<Rightarrow> app_error" where
  "buildEmailSuffixNotAllowedError whitelist =
     (if whitelist = [] then ErrEmailSuffixNotAllowed
      else WithMetadata (BadRequest ''EMAIL_SUFFIX_NOT_ALLOWED''
               (''email suffix is not allowed, allowed suffixes: '' @ Join whitelist '', ''))
             (Some [(''allowed_suffixes'', Join whitelist '',''), (''allowed_suffix_count'', Itoa (int (length whitelist)))]))"

section \<open>What a transaction writes\<close>

text \<open>
  \<open>CreateUser email guardEmailAlias domainLimit\<close> is a call of \<^verbatim>\<open>create\<close>, \<open>ChangeEmail userID email\<close> one of
  \<^verbatim>\<open>UpdateEmailWithAliasGuard\<close>, \<open>UpdateUser userID email\<close> one of \<^verbatim>\<open>Update\<close> whose field mask holds the
  address: it looks for the literal address only, not for aliases.
\<close>

datatype user_write = CreateUser string bool string | ChangeEmail int string | UpdateUser int string

fun w_email :: "user_write \<Rightarrow> string" where
  "w_email (CreateUser e g d) = e"
| "w_email (ChangeEmail i e) = e"
| "w_email (UpdateUser i e) = e"

text \<open>The row that a transaction may own already; new rows have no number yet.\<close>

fun own_id :: "user_write \<Rightarrow> int" where
  "own_id (CreateUser e g d) = 0"
| "own_id (ChangeEmail i e) = i"
| "own_id (UpdateUser i e) = i"

fun guards_alias :: "user_write \<Rightarrow> bool" where
  "guards_alias (CreateUser e g d) = g"
| "guards_alias (ChangeEmail i e) = True"
| "guards_alias (UpdateUser i e) = False"

fun domain_limit :: "user_write \<Rightarrow> string" where
  "domain_limit (CreateUser e g d) = d"
| "domain_limit (ChangeEmail i e) = []"
| "domain_limit (UpdateUser i e) = []"

section \<open>Keys of the locks\<close>

definition normalizedEmailUniquenessLockKey :: "(string \<Rightarrow> string) \<Rightarrow> string \<Rightarrow> string" where
  "normalizedEmailUniquenessLockKey ulow email =
     (let normalized = ToLower ulow (TrimSpace email)
      in if normalized = [] then [] else ''users:normalized-email:'' @ normalized)"

definition emailAliasUniquenessLockKey :: "(string \<Rightarrow> string) \<Rightarrow> string \<Rightarrow> string" where
  "emailAliasUniquenessLockKey ulow email =
     (let identity = NormalizeEmailForAliasDedup ulow email
      in if identity = [] then [] else ''users:email-alias-identity:'' @ identity)"

definition normalizeEmailDomain :: "(string \<Rightarrow> string) \<Rightarrow> (string \<Rightarrow> string option) \<Rightarrow> string \<Rightarrow> string" where
  "normalizeEmailDomain ulow tld d = NormalizeRegistrationEmailDomain ulow tld d"

definition registrationEmailDomainLockKey :: "(string \<Rightarrow> string) \<Rightarrow> (string \<Rightarrow> string option) \<Rightarrow> string \<Rightarrow> string" where
  "registrationEmailDomainLockKey ulow tld d =
     (let normalized = normalizeEmailDomain ulow tld d
      in if normalized = [] then [] else ''users:registration-email-domain:'' @ normalized)"

definition lock_keys :: "(string \<Rightarrow> string) \<Rightarrow> (string \<Rightarrow> string option) \<Rightarrow> user_write \<Rightarrow> string list" where
  "lock_keys ulow tld w =
     [normalizedEmailUniquenessLockKey ulow (w_email w)]
     @ (if guards_alias w then [emailAliasUniquenessLockKey ulow (w_email w)] else [])
     @ (if domain_limit w \<noteq> [] then [registrationEmailDomainLockKey ulow tld (domain_limit w)] else [])"

definition lock_hashes :: "(string \<Rightarrow> string) \<Rightarrow> (string \<Rightarrow> string option) \<Rightarrow> user_write \<Rightarrow> 64 word list" where
  "lock_hashes ulow tld w = map advisoryLockHash (normalizeLockKeys (lock_keys ulow tld w))"

section \<open>Statements\<close>

text \<open>
  \<^verbatim>\<open>RTRIM(LOWER(TRIM(email)), '.')\<close> is \<^verbatim>\<open>LIKE\<close> \<^verbatim>\<open>%@domain\<close> or \<^verbatim>\<open>%@%.domain\<close>.
\<close>

definition userEmailDomainPredicate ::
    "(string \<Rightarrow> string) \<Rightarrow> (string \<Rightarrow> string option) \<Rightarrow> (string \<Rightarrow> string) \<Rightarrow> string \<Rightarrow> user_row \<Rightarrow> bool" where
  "userEmailDomainPredicate ulow tld pglow d u =
     (let d1 = normalizeEmailDomain ulow tld d; s = TrimRight (ToLower pglow (sql_trim (Email u))) CHR ''.''
      in suffix (''@'' @ d1) s
         \<or> (suffix (''.'' @ d1) s \<and> CHR ''@'' \<in> set (take (length s - length (''.'' @ d1)) s)))"

definition countUsersByEmailDomain ::
    "(string \<Rightarrow> string) \<Rightarrow> (string \<Rightarrow> string option) \<Rightarrow> (string \<Rightarrow> string) \<Rightarrow> string \<Rightarrow> user_row list \<Rightarrow> nat" where
  "countUsersByEmailDomain ulow tld pglow d rows =
     (let d1 = normalizeEmailDomain ulow tld d
      in if d1 = [] then 0 else length (filter (userEmailDomainPredicate ulow tld pglow d1) rows))"

definition ensureNormalizedEmailAvailable ::
    "(string \<Rightarrow> string) \<Rightarrow> (string \<Rightarrow> string) \<Rightarrow> int \<Rightarrow> string \<Rightarrow> user_row list \<Rightarrow> (go_error, unit) result" where
  "ensureNormalizedEmailAvailable ulow pglow userID email rows =
     (let normalized = ToLower ulow (TrimSpace email);
          matches = (if normalized = [] then filter (\<lambda>u. Email u = email) rows
                     else filter (\<lambda>u. ToLower pglow (sql_trim (Email u)) = normalized) rows)
      in if list_ex (\<lambda>u. UserID u \<noteq> userID) matches then Inl (to_error ErrEmailExists) else Inr ())"

definition check_domain ::
    "(string \<Rightarrow> string) \<Rightarrow> (string \<Rightarrow> string option) \<Rightarrow> (string \<Rightarrow> string) \<Rightarrow> user_write \<Rightarrow> user_row list \<Rightarrow> (go_error, unit) result" where
  "check_domain ulow tld pglow w rows =
     (if domain_limit w \<noteq> [] \<and> 0 < countUsersByEmailDomain ulow tld pglow (domain_limit w) rows
      then Inl (to_error ErrEmailDomainRegistrationLimit) else Inr ())"

text \<open>The check for aliases; a change of the address excepts the user's own row, \<^verbatim>\<open>Update\<close> has no such check.\<close>

fun check_alias ::
    "(string \<Rightarrow> string) \<Rightarrow> (string \<Rightarrow> string) \<Rightarrow> (user_row list \<Rightarrow> user_row list) \<Rightarrow> user_write \<Rightarrow> user_row list \<Rightarrow> (go_error, unit) result" where
  "check_alias ulow pglow ord (CreateUser email guardEmailAlias domainLimit) rows =
     (if guardEmailAlias \<and> ExistsByEmailAlias ulow pglow ord email rows
      then Inl (to_error ErrEmailExists) else Inr ())"
| "check_alias ulow pglow ord (ChangeEmail userID email) rows =
     (case emailAliasOwnerID ulow pglow ord email userID rows of (ownerID, exists) \<Rightarrow>
        if exists \<and> ownerID \<noteq> userID then Inl (to_error ErrEmailExists) else Inr ())"
| "check_alias ulow pglow ord (UpdateUser userID email) rows = Inr ()"

text \<open>The statement that writes: the unique index on the address, and the row to change.\<close>

fun check_write :: "user_write \<Rightarrow> user_row list \<Rightarrow> (go_error, unit) result" where
  "check_write (CreateUser email g d) rows =
     (if list_ex (\<lambda>u. Email u = email) rows
      then Inl (to_error (WithCause ErrEmailExists (Some (PlainError ''unique_violation'')))) else Inr ())"
| "check_write (ChangeEmail userID email) rows =
     (if \<not> list_ex (\<lambda>u. UserID u = userID) rows
      then Inl (to_error (WithCause ErrUserNotFound (Some (PlainError ''not found''))))
      else if list_ex (\<lambda>u. Email u = email \<and> UserID u \<noteq> userID) rows
      then Inl (to_error (WithCause ErrEmailExists (Some (PlainError ''unique_violation'')))) else Inr ())"
| "check_write (UpdateUser userID email) rows =
     (if \<not> list_ex (\<lambda>u. UserID u = userID) rows
      then Inl (to_error (WithCause ErrUserNotFound (Some (PlainError ''not found''))))
      else if list_ex (\<lambda>u. Email u = email \<and> UserID u \<noteq> userID) rows
      then Inl (to_error (WithCause ErrEmailExists (Some (PlainError ''unique_violation'')))) else Inr ())"

fun written :: "int \<Rightarrow> user_write \<Rightarrow> user_row list \<Rightarrow> user_row list" where
  "written newID (CreateUser email g d) rows = rows @ [\<lparr>UserID = newID, Email = email\<rparr>]"
| "written newID (ChangeEmail userID email) rows =
     map (\<lambda>u. if UserID u = userID then u\<lparr>Email := email\<rparr> else u) rows"
| "written newID (UpdateUser userID email) rows =
     map (\<lambda>u. if UserID u = userID then u\<lparr>Email := email\<rparr> else u) rows"

section \<open>Transactions\<close>

text \<open>
  The place of a transaction: waiting for the locks that remain, then before the count of its domain,
  before \<^verbatim>\<open>ensureNormalizedEmailAvailable\<close>, before the check for aliases, before its write, before its
  commit.  A change under the guard goes from its locks to the check for aliases; \<^verbatim>\<open>Update\<close> goes from its
  lock to \<^verbatim>\<open>ensureNormalizedEmailAvailable\<close> and from there to its write.
\<close>

datatype tx = NoTx
  | Locking user_write "64 word list" | Counting user_write | Matching user_write | Aliasing user_write | Writing user_write | Committing user_write

fun after_locks :: "user_write \<Rightarrow> tx" where
  "after_locks (CreateUser e g d) = Counting (CreateUser e g d)"
| "after_locks (ChangeEmail i e) = Aliasing (ChangeEmail i e)"
| "after_locks (UpdateUser i e) = Matching (UpdateUser i e)"

fun after_match :: "user_write \<Rightarrow> tx" where
  "after_match (CreateUser e g d) = Aliasing (CreateUser e g d)"
| "after_match (ChangeEmail i e) = Aliasing (ChangeEmail i e)"
| "after_match (UpdateUser i e) = Writing (UpdateUser i e)"

text \<open>
  The committed rows, the holders of the advisory locks, the transactions and the answers of those that
  ended.  Two fields only record history: the write that last set the address of a row, and whether a
  check for aliases has hit the limit of its query.
\<close>

record reg_state =
  table :: "user_row list"
  next_user :: int
  held :: "64 word \<Rightarrow> nat option"
  txs :: "nat \<Rightarrow> tx"
  answers :: "nat \<Rightarrow> (go_error, unit) result option"
  last_write :: "int \<Rightarrow> user_write option"
  cut :: bool

definition end_tx :: "nat \<Rightarrow> (go_error, unit) result \<Rightarrow> reg_state \<Rightarrow> reg_state" where
  "end_tx t r s =
     s\<lparr>held := (\<lambda>h. if held s h = Some t then None else held s h), txs := (txs s)(t := NoTx), answers := (answers s)(t \<mapsto> r)\<rparr>"

definition goto :: "nat \<Rightarrow> tx \<Rightarrow> reg_state \<Rightarrow> reg_state" where
  "goto t p s = s\<lparr>txs := (txs s)(t := p)\<rparr>"

text \<open>A statement: go on, or end with its error.\<close>

definition statement :: "nat \<Rightarrow> (go_error, unit) result \<Rightarrow> tx \<Rightarrow> reg_state \<Rightarrow> reg_state" where
  "statement t r p s = (case r of Inl e \<Rightarrow> end_tx t (Inl e) s | Inr _ \<Rightarrow> goto t p s)"

definition commit :: "nat \<Rightarrow> user_write \<Rightarrow> reg_state \<Rightarrow> reg_state" where
  "commit t w s =
     (let target = (case w of CreateUser e g d \<Rightarrow> next_user s | ChangeEmail i e \<Rightarrow> i | UpdateUser i e \<Rightarrow> i)
      in end_tx t (Inr ())
           (s\<lparr>table := written (next_user s) w (table s),
              next_user := (case w of CreateUser e g d \<Rightarrow> next_user s + 1 | ChangeEmail i e \<Rightarrow> next_user s | UpdateUser i e \<Rightarrow> next_user s),
              last_write := (last_write s)(target \<mapsto> w)\<rparr>))"

text \<open>
  Which call a registration makes (\<^verbatim>\<open>createUserWithRegistrationEmailGuard\<close>): \<open>whitelist\<close> and \<open>quota\<close> are
  the settings.
\<close>

definition createUserWithRegistrationEmailGuard ::
    "(string \<Rightarrow> string) \<Rightarrow> (string \<Rightarrow> string option) \<Rightarrow> string list \<Rightarrow> bool \<Rightarrow> string \<Rightarrow> (go_error, user_write) result" where
  "createUserWithRegistrationEmailGuard ulow tld whitelist quota email =
     (let d = RegistrationEmailDomain ulow tld email
      in if \<not> IsRegistrationEmailSuffixLimited ulow email whitelist then Inr (CreateUser email True [])
         else if \<not> quota then Inl (to_error (buildEmailSuffixNotAllowedError whitelist))
         else if d = [] then Inl (to_error (buildEmailSuffixNotAllowedError whitelist))
         else Inr (CreateUser email True (normalizeEmailDomain ulow tld d)))"

inductive reg_step ::
    "(string \<Rightarrow> string) \<Rightarrow> (string \<Rightarrow> string option) \<Rightarrow> (string \<Rightarrow> string) \<Rightarrow> reg_state \<Rightarrow> reg_state \<Rightarrow> bool"
  for ulow tld pglow where
  register: "txs s t = NoTx \<Longrightarrow> createUserWithRegistrationEmailGuard ulow tld whitelist quota email = Inr w
    \<Longrightarrow> graphic email \<Longrightarrow> reg_step ulow tld pglow s (goto t (Locking w (lock_hashes ulow tld w)) s)"
| create: "txs s t = NoTx \<Longrightarrow> w = CreateUser email False [] \<Longrightarrow> graphic email
    \<Longrightarrow> reg_step ulow tld pglow s (goto t (Locking w (lock_hashes ulow tld w)) s)"
| change: "txs s t = NoTx \<Longrightarrow> w = ChangeEmail i email \<Longrightarrow> 0 < i \<Longrightarrow> TrimSpace email \<noteq> [] \<Longrightarrow> graphic email
    \<Longrightarrow> reg_step ulow tld pglow s (goto t (Locking w (lock_hashes ulow tld w)) s)"
| update: "txs s t = NoTx \<Longrightarrow> w = UpdateUser i email \<Longrightarrow> graphic email
    \<Longrightarrow> reg_step ulow tld pglow s (goto t (Locking w (lock_hashes ulow tld w)) s)"
| lock: "txs s t = Locking w (h # hs) \<Longrightarrow> held s h \<in> {None, Some t}
    \<Longrightarrow> reg_step ulow tld pglow s (goto t (Locking w hs) (s\<lparr>held := (held s)(h \<mapsto> t)\<rparr>))"
| locked: "txs s t = Locking w [] \<Longrightarrow> reg_step ulow tld pglow s (goto t (after_locks w) s)"
| count: "txs s t = Counting w
    \<Longrightarrow> reg_step ulow tld pglow s (statement t (check_domain ulow tld pglow w (table s)) (Matching w) s)"
| match: "txs s t = Matching w
    \<Longrightarrow> reg_step ulow tld pglow s
          (statement t (ensureNormalizedEmailAvailable ulow pglow (own_id w) (w_email w) (table s)) (after_match w) s)"
| dedup: "txs s t = Aliasing w \<Longrightarrow> mset sel = mset (alias_rows ulow pglow (w_email w) (table s))
    \<Longrightarrow> ord (alias_rows ulow pglow (w_email w) (table s)) = sel
    \<Longrightarrow> reg_step ulow tld pglow s
          (statement t (check_alias ulow pglow ord w (table s)) (Writing w)
             (s\<lparr>cut := cut s \<or> (guards_alias w \<and> emailAliasCandidateLimit < length sel)\<rparr>))"
| do_write: "txs s t = Writing w
    \<Longrightarrow> reg_step ulow tld pglow s (statement t (check_write w (table s)) (Committing w) s)"
| commit: "txs s t = Committing w \<Longrightarrow> reg_step ulow tld pglow s (commit t w s)"
| fault: "txs s t \<noteq> NoTx \<Longrightarrow> reg_step ulow tld pglow s (end_tx t (Inl e) s)"
| remove: "reg_step ulow tld pglow s (s\<lparr>table := filter (\<lambda>u. UserID u \<noteq> i) (table s)\<rparr>)"

text \<open>At the start there may be users, and no transaction runs.\<close>

definition initial_reg :: "user_row list \<Rightarrow> int \<Rightarrow> reg_state" where
  "initial_reg rows0 n = \<lparr>table = rows0, next_user = n, held = (\<lambda>h. None), txs = (\<lambda>t. NoTx),
     answers = (\<lambda>t. None), last_write = (\<lambda>i. None), cut = False\<rparr>"

definition users_ok :: "user_row list \<Rightarrow> int \<Rightarrow> bool" where
  "users_ok rows0 n \<longleftrightarrow> distinct (map UserID rows0) \<and> list_all (\<lambda>u. 0 < UserID u \<and> UserID u < n \<and> graphic (Email u)) rows0"

inductive reg_run :: "(string \<Rightarrow> string) \<Rightarrow> (string \<Rightarrow> string option) \<Rightarrow> (string \<Rightarrow> string) \<Rightarrow> reg_state \<Rightarrow> bool"
  for ulow tld pglow where
  init: "users_ok rows0 n \<Longrightarrow> 0 < n \<Longrightarrow> reg_run ulow tld pglow (initial_reg rows0 n)"
| step: "reg_run ulow tld pglow s \<Longrightarrow> reg_step ulow tld pglow s s' \<Longrightarrow> reg_run ulow tld pglow s'"

section \<open>Domains\<close>

text \<open>What the public suffix list documents: the registrable domain is the domain itself or a parent of it.\<close>

definition tld_laws :: "(string \<Rightarrow> string option) \<Rightarrow> bool" where
  "tld_laws tld \<longleftrightarrow> (\<forall>d r. tld d = Some r \<longrightarrow> r \<noteq> [] \<and> (r = d \<or> suffix (''.'' @ r) d))"

text \<open>A domain in normal form, and its parents.\<close>

definition clean_domain :: "string \<Rightarrow> bool" where
  "clean_domain d \<longleftrightarrow> graphic d \<and> lower d = d \<and> d \<noteq> [] \<and> last d \<noteq> CHR ''.'' \<and> CHR ''@'' \<notin> set d"

definition within :: "string \<Rightarrow> string \<Rightarrow> bool" where
  "within h d \<longleftrightarrow> h = d \<or> suffix (''.'' @ d) h"

lemma within_trans: "within a b \<Longrightarrow> within b c \<Longrightarrow> within a c"
  unfolding within_def by (metis append.assoc suffix_appendI suffix_def suffix_order.trans)

lemma clean_suffix:
  assumes "clean_domain d" and "suffix r d" and "r \<noteq> []"
  shows "clean_domain r"
proof -
  obtain a where d: "d = a @ r" using assms(2) by (auto simp: suffix_def)
  have "lower a @ lower r = a @ r" using assms(1) unfolding d clean_domain_def by (simp add: lower_def)
  moreover have "length (lower a) = length a" by (simp add: lower_def)
  ultimately have "lower r = r" by simp
  then show ?thesis using assms(1,3) unfolding d clean_domain_def by (auto simp: graphic_append)
qed

lemma domain_normal:
  assumes "clean_domain d" and "tld_laws tld"
  shows "clean_domain (normalizeEmailDomain ulow tld d) \<and> within d (normalizeEmailDomain ulow tld d)"
proof -
  have "TrimPrefix d ''@'' = d" using assms(1) by (auto simp: TrimPrefix_def clean_domain_def prefix_def)
  moreover have "ToLower ulow (TrimSpace d) = d" using assms(1) graphic_lower [of d ulow] by (simp add: clean_domain_def)
  moreover have "TrimRight d CHR ''.'' = d" "d \<noteq> []" using assms(1) by (auto simp: clean_domain_def TrimRight_fixed)
  ultimately have n: "normalizeEmailDomain ulow tld d = (case tld d of None \<Rightarrow> d | Some r \<Rightarrow> r)"
    by (simp add: normalizeEmailDomain_def NormalizeRegistrationEmailDomain_def)
  show ?thesis
  proof (cases "tld d")
    case None
    with assms(1) show ?thesis by (simp add: n within_def)
  next
    case (Some r)
    then have r: "r \<noteq> []" "r = d \<or> suffix (''.'' @ r) d" using assms(2) unfolding tld_laws_def by blast+
    then have "suffix r d" by (metis suffix_appendD suffix_order.refl)
    with clean_suffix [OF assms(1) _ r(1)] r(2) Some show ?thesis by (auto simp: n within_def)
  qed
qed

lemma split_domain:
  assumes "graphic s" and "splitEmailForPolicy ulow s = Some (l, h)"
  shows "clean_domain h"
proof -
  obtain n where n: "parts_ok l h" "lower s = l @ ''@'' @ h @ replicate n CHR ''.''" using parts_of_split [OF assms] by blast
  have "set h \<subseteq> set (lower s)" unfolding n(2) by auto
  then have "graphic h" "lower h = h" using graphic_lower_sub [OF assms(1)] by blast+
  then show ?thesis using n(1) by (simp add: clean_domain_def parts_ok_def)
qed

text \<open>A row is counted for a domain that its own domain lies within.\<close>

lemma domain_predicate:
  assumes "graphic (Email u)" and "splitEmailForPolicy ulow (Email u) = Some (l, h)"
    and "within h d" and "clean_domain d" and "tld_laws tld"
  shows "userEmailDomainPredicate ulow tld pglow d u"
proof -
  let ?d = "normalizeEmailDomain ulow tld d"
  have w: "within h ?d" using within_trans [OF assms(3)] domain_normal [OF assms(4,5)] by blast
  obtain n where n: "parts_ok l h" "lower (Email u) = l @ ''@'' @ h @ replicate n CHR ''.''"
    using parts_of_split [OF assms(1,2)] by blast
  have "TrimRight (l @ ''@'' @ h @ replicate n CHR ''.'') CHR ''.'' = l @ ''@'' @ h"
  proof -
    have "dropWhile (\<lambda>x. x = CHR ''.'') (replicate n CHR ''.'' @ t) = dropWhile (\<lambda>x. x = CHR ''.'') t" for t
      by (induction n) auto
    then have "TrimRight (l @ ''@'' @ h @ replicate n CHR ''.'') CHR ''.'' = TrimRight (l @ ''@'' @ h) CHR ''.''"
      by (simp add: TrimRight_def)
    also have "\<dots> = l @ ''@'' @ h" using n(1) by (intro TrimRight_fixed) (simp add: parts_ok_def)
    finally show ?thesis .
  qed
  then have s: "TrimRight (ToLower pglow (sql_trim (Email u))) CHR ''.'' = l @ ''@'' @ h"
    using n(2) assms(1) by (simp add: graphic_sql_trim ToLower_ascii graphic_ascii lower_def)
  from w show ?thesis unfolding within_def
  proof
    assume "h = ?d"
    then show ?thesis by (simp add: userEmailDomainPredicate_def Let_def s suffix_def)
  next
    assume "suffix (''.'' @ ?d) h"
    then obtain a where "h = a @ ''.'' @ ?d" by (auto simp: suffix_def)
    then have "l @ ''@'' @ h = (l @ ''@'' @ a) @ ''.'' @ ?d" by simp
    then show ?thesis unfolding userEmailDomainPredicate_def Let_def s by (simp add: suffix_def)
  qed
qed

section \<open>Claims\<close>

text \<open>What a transaction has verified to be free, and what the row that it writes occupies.\<close>

datatype claim = ByEmail string | ByInbox string | ByDomain string

fun claim_key :: "claim \<Rightarrow> string" where
  "claim_key (ByEmail x) = ''users:normalized-email:'' @ x"
| "claim_key (ByInbox x) = ''users:email-alias-identity:'' @ x"
| "claim_key (ByDomain x) = ''users:registration-email-domain:'' @ x"

definition domain_claims :: "(string \<Rightarrow> string) \<Rightarrow> (string \<Rightarrow> string option) \<Rightarrow> user_write \<Rightarrow> claim set" where
  "domain_claims ulow tld w = (if domain_limit w \<noteq> [] then {ByDomain (normalizeEmailDomain ulow tld (domain_limit w))} else {})"

fun email_claims :: "user_write \<Rightarrow> claim set" where
  "email_claims (CreateUser e g d) = (if e \<noteq> [] then {ByEmail (lower e)} else {})"
| "email_claims (ChangeEmail i e) = {}"
| "email_claims (UpdateUser i e) = (if e \<noteq> [] then {ByEmail (lower e)} else {})"

definition inbox_claims :: "(string \<Rightarrow> string) \<Rightarrow> user_write \<Rightarrow> claim set" where
  "inbox_claims ulow w = (if guards_alias w \<and> EmailAliasDedupProbes ulow (w_email w) \<noteq> []
     then {ByInbox (NormalizeEmailForAliasDedup ulow (w_email w)), ByEmail (lower (w_email w))} else {})"

definition claims_of :: "(string \<Rightarrow> string) \<Rightarrow> (string \<Rightarrow> string option) \<Rightarrow> user_write \<Rightarrow> claim set" where
  "claims_of ulow tld w = domain_claims ulow tld w \<union> email_claims w \<union> inbox_claims ulow w"

definition wf_write :: "(string \<Rightarrow> string) \<Rightarrow> (string \<Rightarrow> string option) \<Rightarrow> user_write \<Rightarrow> bool" where
  "wf_write ulow tld w \<longleftrightarrow> graphic (w_email w)
     \<and> (domain_limit w \<noteq> [] \<longrightarrow> clean_domain (normalizeEmailDomain ulow tld (domain_limit w))
          \<and> (\<exists>l h. splitEmailForPolicy ulow (w_email w) = Some (l, h) \<and> within h (normalizeEmailDomain ulow tld (domain_limit w))))"

lemma probes_not_Nil: "EmailAliasDedupProbes ulow e \<noteq> [] \<Longrightarrow> graphic e \<Longrightarrow> e \<noteq> [] \<and> NormalizeEmailForAliasDedup ulow e \<noteq> []"
proof -
  assume "EmailAliasDedupProbes ulow e \<noteq> []" "graphic e"
  then obtain l h where p: "splitEmailForPolicy ulow e = Some (l, h)"
    by (cases "splitEmailForPolicy ulow e") (auto simp: EmailAliasDedupProbes_def split_alias)
  obtain n where "lower e = l @ ''@'' @ h @ replicate n CHR ''.''" using parts_of_split [OF \<open>graphic e\<close> p] by blast
  then have "e \<noteq> []" by (auto simp: lower_def)
  with Normalize_inbox [OF \<open>graphic e\<close> p] show ?thesis by simp
qed

lemma claim_locked:
  assumes "c \<in> claims_of ulow tld w" and "wf_write ulow tld w"
  shows "advisoryLockHash (claim_key c) \<in> set (lock_hashes ulow tld w)"
proof -
  have g: "graphic (w_email w)" using assms(2) by (simp add: wf_write_def)
  have "claim_key c \<in> set (lock_keys ulow tld w) \<and> graphic (claim_key c) \<and> claim_key c \<noteq> []"
  proof (cases c)
    case (ByEmail x)
    then have "x = lower (w_email w) \<and> w_email w \<noteq> []"
      using assms(1) probes_not_Nil [OF _ g] by (cases w) (auto simp: claims_of_def domain_claims_def inbox_claims_def split: if_splits)
    then show ?thesis using ByEmail g graphic_of_lower [OF g]
      by (simp add: lock_keys_def normalizedEmailUniquenessLockKey_def graphic_lower graphic_append)
        (simp add: lower_def graphic_def is_graphic_def)
  next
    case (ByInbox x)
    then have x: "guards_alias w" "x = NormalizeEmailForAliasDedup ulow (w_email w)" "EmailAliasDedupProbes ulow (w_email w) \<noteq> []"
      using assms(1) by (cases w; auto simp: claims_of_def domain_claims_def inbox_claims_def split: if_splits)+
    obtain l h where p: "splitEmailForPolicy ulow (w_email w) = Some (l, h)"
      using x(3) g by (cases "splitEmailForPolicy ulow (w_email w)") (auto simp: EmailAliasDedupProbes_def split_alias)
    have "graphic x" using inbox_graphic_lower [OF g p] Normalize_inbox [OF g p] x(2) by simp
    then show ?thesis using ByInbox x probes_not_Nil [OF x(3) g]
      by (simp add: lock_keys_def emailAliasUniquenessLockKey_def graphic_append) (simp add: graphic_def is_graphic_def)
  next
    case (ByDomain x)
    then have x: "domain_limit w \<noteq> []" "x = normalizeEmailDomain ulow tld (domain_limit w)"
      using assms(1) by (cases w; auto simp: claims_of_def domain_claims_def inbox_claims_def split: if_splits)+
    then have "clean_domain x" using assms(2) by (simp add: wf_write_def)
    then show ?thesis using ByDomain x
      by (simp add: lock_keys_def registrationEmailDomainLockKey_def clean_domain_def graphic_append) (simp add: graphic_def is_graphic_def)
  qed
  then have "claim_key c \<in> set (normalizeLockKeys (lock_keys ulow tld w))"
    by (auto simp: normalizeLockKeys_def graphic_trim intro!: image_eqI [of _ TrimSpace "claim_key c"])
  then show ?thesis by (simp add: lock_hashes_def)
qed

section \<open>The invariant\<close>

fun op_of :: "tx \<Rightarrow> user_write option" where
  "op_of NoTx = None"
| "op_of (Locking w hs) = Some w"
| "op_of (Counting w) = Some w"
| "op_of (Matching w) = Some w"
| "op_of (Aliasing w) = Some w"
| "op_of (Writing w) = Some w"
| "op_of (Committing w) = Some w"

fun remaining :: "tx \<Rightarrow> 64 word set" where
  "remaining (Locking w hs) = set hs"
| "remaining p = {}"

text \<open>What a transaction has found to be free, at the place where it is.\<close>

fun verified :: "(string \<Rightarrow> string) \<Rightarrow> (string \<Rightarrow> string option) \<Rightarrow> tx \<Rightarrow> claim set" where
  "verified ulow tld (Matching w) = domain_claims ulow tld w"
| "verified ulow tld (Aliasing w) = domain_claims ulow tld w \<union> email_claims w"
| "verified ulow tld (Writing w) = claims_of ulow tld w"
| "verified ulow tld (Committing w) = claims_of ulow tld w"
| "verified ulow tld p = {}"

definition row_claims :: "(string \<Rightarrow> string) \<Rightarrow> (string \<Rightarrow> string option) \<Rightarrow> reg_state \<Rightarrow> int \<Rightarrow> claim set" where
  "row_claims ulow tld s i = (case last_write s i of None \<Rightarrow> {} | Some w \<Rightarrow> claims_of ulow tld w)"

definition rows_ok :: "(string \<Rightarrow> string) \<Rightarrow> (string \<Rightarrow> string option) \<Rightarrow> reg_state \<Rightarrow> bool" where
  "rows_ok ulow tld s \<longleftrightarrow> users_ok (table s) (next_user s) \<and> 0 < next_user s
     \<and> (\<forall>u\<in>set (table s). \<forall>w. last_write s (UserID u) = Some w \<longrightarrow> w_email w = Email u \<and> wf_write ulow tld w)"

definition tx_ok :: "(string \<Rightarrow> string) \<Rightarrow> (string \<Rightarrow> string option) \<Rightarrow> reg_state \<Rightarrow> nat \<Rightarrow> tx \<Rightarrow> bool" where
  "tx_ok ulow tld s t p \<longleftrightarrow> (\<forall>w. op_of p = Some w \<longrightarrow> wf_write ulow tld w
     \<and> set (lock_hashes ulow tld w) \<subseteq> remaining p \<union> {h. held s h = Some t})"

text \<open>A check for aliases that was cut proves nothing; the claims of domains do not depend on it.\<close>

definition reliable :: "reg_state \<Rightarrow> claim \<Rightarrow> bool" where
  "reliable s c \<longleftrightarrow> \<not> cut s \<or> c \<in> range ByDomain"

text \<open>No row occupies what a transaction has verified, except the row that it will change.\<close>

definition unclaimed :: "(string \<Rightarrow> string) \<Rightarrow> (string \<Rightarrow> string option) \<Rightarrow> reg_state \<Rightarrow> user_write \<Rightarrow> claim set \<Rightarrow> bool" where
  "unclaimed ulow tld s w C \<longleftrightarrow> (\<forall>u\<in>set (table s). UserID u \<noteq> own_id w
     \<longrightarrow> (\<forall>c\<in>C. reliable s c \<longrightarrow> c \<notin> row_claims ulow tld s (UserID u)))"

definition exclusive :: "(string \<Rightarrow> string) \<Rightarrow> (string \<Rightarrow> string option) \<Rightarrow> reg_state \<Rightarrow> bool" where
  "exclusive ulow tld s \<longleftrightarrow>
     (\<forall>t w. op_of (txs s t) = Some w \<longrightarrow> unclaimed ulow tld s w (verified ulow tld (txs s t)))
   \<and> (\<forall>u1\<in>set (table s). \<forall>u2\<in>set (table s). UserID u1 \<noteq> UserID u2
        \<longrightarrow> (\<forall>c. reliable s c \<longrightarrow> c \<in> row_claims ulow tld s (UserID u1) \<longrightarrow> c \<notin> row_claims ulow tld s (UserID u2)))"

definition reg_ok :: "(string \<Rightarrow> string) \<Rightarrow> (string \<Rightarrow> string option) \<Rightarrow> reg_state \<Rightarrow> bool" where
  "reg_ok ulow tld s \<longleftrightarrow> rows_ok ulow tld s \<and> (\<forall>t. tx_ok ulow tld s t (txs s t)) \<and> exclusive ulow tld s"

lemma reg_okD:
  assumes "reg_ok ulow tld s"
  shows "rows_ok ulow tld s" and "tx_ok ulow tld s t (txs s t)" and "exclusive ulow tld s"
  using assms unfolding reg_ok_def by blast+

lemma rows_okD:
  assumes "rows_ok ulow tld s" and "u \<in> set (table s)"
  shows "0 < UserID u" and "UserID u < next_user s" and "graphic (Email u)"
    and "last_write s (UserID u) = Some w \<Longrightarrow> w_email w = Email u \<and> wf_write ulow tld w"
  using assms unfolding rows_ok_def users_ok_def list_all_iff by blast+

lemma rows_distinct:
  assumes "rows_ok ulow tld s" and "u1 \<in> set (table s)" and "u2 \<in> set (table s)" and "UserID u1 = UserID u2"
  shows "u1 = u2"
proof -
  have "inj_on UserID (set (table s))" using assms(1) by (simp add: rows_ok_def users_ok_def distinct_map)
  then show ?thesis using assms(4,2,3) by (rule inj_onD)
qed

lemma verified_sub: "op_of p = Some w \<Longrightarrow> verified ulow tld p \<subseteq> claims_of ulow tld w"
  by (cases p) (auto simp: claims_of_def)

lemma verified_after_match:
  "verified ulow tld (after_match w) = domain_claims ulow tld w \<union> email_claims w"
  by (cases w) (auto simp: claims_of_def inbox_claims_def)

lemma op_of_after_match [simp]: "op_of (after_match w) = Some w"
  by (cases w) simp_all

lemma verified_locked: "verified ulow tld p \<noteq> {} \<Longrightarrow> remaining p = {}"
  by (cases p) auto

text \<open>Two transactions never verify the same claim: both would hold its lock.\<close>

lemma claims_exclude:
  assumes "reg_ok ulow tld s" and "c \<in> verified ulow tld (txs s t)" and "c \<in> verified ulow tld (txs s t')"
  shows "t = t'"
proof -
  have "held s (advisoryLockHash (claim_key c)) = Some u" if c: "c \<in> verified ulow tld (txs s u)" for u
  proof -
    obtain w where w: "op_of (txs s u) = Some w" using c by (cases "txs s u") auto
    have ok: "wf_write ulow tld w" "set (lock_hashes ulow tld w) \<subseteq> remaining (txs s u) \<union> {h. held s h = Some u}"
      using reg_okD(2) [OF assms(1), of u] w by (auto simp: tx_ok_def)
    moreover have "advisoryLockHash (claim_key c) \<in> set (lock_hashes ulow tld w)"
      using claim_locked [OF _ ok(1)] verified_sub [OF w] c by blast
    moreover have "remaining (txs s u) = {}" using verified_locked c by blast
    ultimately show ?thesis by auto
  qed
  from this [OF assms(2)] this [OF assms(3)] show ?thesis by simp
qed

section \<open>Steps that leave the rows alone\<close>

lemma goto_ok:
  assumes "reg_ok ulow tld s" and "tx_ok ulow tld s t p"
    and "\<And>w. op_of p = Some w \<Longrightarrow> unclaimed ulow tld s w (verified ulow tld p)"
  shows "reg_ok ulow tld (goto t p s)"
proof -
  note ok = reg_okD [OF assms(1)]
  have [simp]: "table (goto t p s) = table s" "next_user (goto t p s) = next_user s" "held (goto t p s) = held s"
    "last_write (goto t p s) = last_write s" "cut (goto t p s) = cut s" "txs (goto t p s) = (txs s)(t := p)"
    "row_claims ulow tld (goto t p s) = row_claims ulow tld s" "reliable (goto t p s) = reliable s"
    by (auto simp: goto_def row_claims_def reliable_def fun_eq_iff)
  have "rows_ok ulow tld (goto t p s)" using ok(1) by (simp add: rows_ok_def)
  moreover have "tx_ok ulow tld (goto t p s) u (txs (goto t p s) u)" for u
    using ok(2) [of u] assms(2) by (simp add: tx_ok_def)
  moreover have "exclusive ulow tld (goto t p s)"
    using ok(3) assms(3) by (simp add: exclusive_def unclaimed_def)
  ultimately show ?thesis by (simp add: reg_ok_def)
qed

lemma end_tx_ok:
  assumes "reg_ok ulow tld s"
  shows "reg_ok ulow tld (end_tx t r s)"
proof -
  note ok = reg_okD [OF assms]
  have [simp]: "table (end_tx t r s) = table s" "next_user (end_tx t r s) = next_user s" "cut (end_tx t r s) = cut s"
    "held (end_tx t r s) = (\<lambda>h. if held s h = Some t then None else held s h)"
    "last_write (end_tx t r s) = last_write s" "txs (end_tx t r s) = (txs s)(t := NoTx)"
    "row_claims ulow tld (end_tx t r s) = row_claims ulow tld s" "reliable (end_tx t r s) = reliable s"
    by (auto simp: end_tx_def row_claims_def reliable_def fun_eq_iff)
  have "rows_ok ulow tld (end_tx t r s)" using ok(1) by (simp add: rows_ok_def)
  moreover have "tx_ok ulow tld (end_tx t r s) u (txs (end_tx t r s) u)" for u
    using ok(2) [of u] by (auto simp: tx_ok_def dest!: subsetD)
  moreover have "unclaimed ulow tld (end_tx t r s) = unclaimed ulow tld s" by (simp add: unclaimed_def fun_eq_iff)
  then have "exclusive ulow tld (end_tx t r s)"
    using ok(3) unfolding exclusive_def by (simp del: not_None_eq)
  ultimately show ?thesis by (simp add: reg_ok_def)
qed

lemma statement_ok:
  assumes "reg_ok ulow tld s" and "op_of (txs s t) = Some w" and "remaining (txs s t) = {}" and "op_of p = Some w"
    and "r = Inr () \<Longrightarrow> unclaimed ulow tld s w (verified ulow tld p)"
  shows "reg_ok ulow tld (statement t r p s)"
proof (cases r)
  case (Inl e)
  then show ?thesis using end_tx_ok [OF assms(1)] by (simp add: statement_def)
next
  case (Inr x)
  have "tx_ok ulow tld s t p" using reg_okD(2) [OF assms(1), of t] assms(2-4) by (auto simp: tx_ok_def)
  then have "reg_ok ulow tld (goto t p s)" using assms(4,5) Inr by (intro goto_ok [OF assms(1)]) auto
  with Inr show ?thesis by (simp add: statement_def)
qed

lemma unclaimed_Un: "unclaimed ulow tld s w A \<Longrightarrow> unclaimed ulow tld s w B \<Longrightarrow> unclaimed ulow tld s w (A \<union> B)"
  unfolding unclaimed_def by blast

lemma cut_ok:
  assumes "reg_ok ulow tld s" and "cut s \<Longrightarrow> b"
  shows "reg_ok ulow tld (s\<lparr>cut := b\<rparr>)"
proof -
  have "reliable s c" if "reliable (s\<lparr>cut := b\<rparr>) c" for c using that assms(2) by (auto simp: reliable_def)
  moreover have "row_claims ulow tld (s\<lparr>cut := b\<rparr>) = row_claims ulow tld s" by (simp add: row_claims_def fun_eq_iff)
  ultimately have "exclusive ulow tld (s\<lparr>cut := b\<rparr>)"
    using reg_okD(3) [OF assms(1)] unfolding exclusive_def unclaimed_def by simp
  then show ?thesis using reg_okD(1,2) [OF assms(1)] by (simp add: reg_ok_def rows_ok_def tx_ok_def)
qed

section \<open>What the checks verify\<close>

lemma row_claimsD:
  assumes "rows_ok ulow tld s" and "u \<in> set (table s)" and "c \<in> row_claims ulow tld s (UserID u)"
  obtains w where "c \<in> claims_of ulow tld w" and "w_email w = Email u" and "wf_write ulow tld w"
  using assms rows_okD(4) [OF assms(1,2)] by (auto simp: row_claims_def split: option.splits)

lemma claim_meaning:
  assumes "c \<in> claims_of ulow tld w" and "wf_write ulow tld w"
  shows "c = ByEmail x \<Longrightarrow> x = lower (w_email w)"
    and "c = ByInbox x \<Longrightarrow> x = NormalizeEmailForAliasDedup ulow (w_email w)"
    and "c = ByDomain x \<Longrightarrow> clean_domain x \<and> (\<exists>l h. splitEmailForPolicy ulow (w_email w) = Some (l, h) \<and> within h x)"
  using assms by (cases w; auto simp: claims_of_def domain_claims_def inbox_claims_def wf_write_def split: if_splits)+

lemma check_domain_free:
  assumes "rows_ok ulow tld s" and "tld_laws tld" and "check_domain ulow tld pglow w (table s) = Inr ()"
  shows "unclaimed ulow tld s w (domain_claims ulow tld w)"
proof -
  have False if u: "u \<in> set (table s)" and c: "c \<in> row_claims ulow tld s (UserID u)" "c \<in> domain_claims ulow tld w" for u c
  proof -
    let ?d = "normalizeEmailDomain ulow tld (domain_limit w)"
    have w: "domain_limit w \<noteq> []" "c = ByDomain ?d" using c(2) by (auto simp: domain_claims_def split: if_splits)
    obtain w' where w': "c \<in> claims_of ulow tld w'" "w_email w' = Email u" "wf_write ulow tld w'"
      by (rule row_claimsD [OF assms(1) u c(1)])
    obtain l h where d: "clean_domain ?d" "splitEmailForPolicy ulow (Email u) = Some (l, h)" "within h ?d"
      using claim_meaning(3) [OF w'(1,3) w(2)] w'(2) by auto
    have "userEmailDomainPredicate ulow tld pglow ?d u"
      by (rule domain_predicate [OF rows_okD(3) [OF assms(1) u] d(2,3,1) assms(2)])
    then have "filter (userEmailDomainPredicate ulow tld pglow ?d) (table s) \<noteq> []" using u by (auto simp: filter_empty_conv)
    moreover have "?d \<noteq> []" using d(1) by (simp add: clean_domain_def)
    ultimately have "0 < countUsersByEmailDomain ulow tld pglow (domain_limit w) (table s)"
      by (simp add: countUsersByEmailDomain_def Let_def)
    with assms(3) w(1) show False by (simp add: check_domain_def)
  qed
  then show ?thesis unfolding unclaimed_def by blast
qed

lemma check_email_free:
  assumes "rows_ok ulow tld s" and "graphic (w_email w)"
    and "ensureNormalizedEmailAvailable ulow pglow (own_id w) (w_email w) (table s) = Inr ()"
  shows "unclaimed ulow tld s w (email_claims w)"
proof -
  have False if u: "u \<in> set (table s)" "UserID u \<noteq> own_id w" and c: "c \<in> row_claims ulow tld s (UserID u)" "c \<in> email_claims w"
    for u c
  proof -
    have w: "w_email w \<noteq> []" "c = ByEmail (lower (w_email w))" using c(2) by (cases w; auto split: if_splits)+
    obtain w' where w': "c \<in> claims_of ulow tld w'" "w_email w' = Email u" "wf_write ulow tld w'"
      by (rule row_claimsD [OF assms(1) u(1) c(1)])
    have "lower (w_email w) = lower (Email u)" using claim_meaning(1) [OF w'(1,3) w(2)] w'(2) by simp
    moreover have "ToLower pglow (sql_trim (Email u)) = lower (Email u)"
      using rows_okD(3) [OF assms(1) u(1)] by (simp add: graphic_sql_trim ToLower_ascii graphic_ascii lower_def)
    moreover have "lower (w_email w) \<noteq> []" using w(1) by (simp add: lower_def)
    ultimately show False using assms(3) u
      by (auto simp: ensureNormalizedEmailAvailable_def graphic_lower [OF assms(2)] Let_def list_ex_iff split: if_splits)
  qed
  then show ?thesis unfolding unclaimed_def by blast
qed

definition other_owner :: "int \<Rightarrow> int \<times> bool \<Rightarrow> bool" where
  "other_owner current r \<longleftrightarrow> snd r \<and> fst r \<noteq> current"

lemma alias_owner_other:
  assumes "\<not> other_owner current self"
  shows "other_owner current (alias_owner ulow identity current self cs) \<longleftrightarrow>
    (\<exists>c\<in>set cs. NormalizeEmailForAliasDedup ulow (Email c) = identity \<and> UserID c \<noteq> 0 \<and> UserID c \<noteq> current)"
  using assms
proof (induction cs arbitrary: self)
  case (Cons c cs)
  have "\<not> other_owner current (current, True)" by (simp add: other_owner_def)
  note IH = Cons.IH [OF Cons.prems] Cons.IH [OF this]
  have "other_owner current (UserID c, True)" if "UserID c \<noteq> current" using that by (simp add: other_owner_def)
  with IH show ?case by (cases "current = 0") auto
qed simp

text \<open>The check for aliases, when the query is not cut, sees every other row with the same inbox.\<close>

lemma check_alias_same:
  assumes "rows_ok ulow tld s" and "graphic (w_email w)" and "guards_alias w"
    and "EmailAliasDedupProbes ulow (w_email w) \<noteq> []"
    and sel: "mset (ord (alias_rows ulow pglow (w_email w) (table s))) = mset (alias_rows ulow pglow (w_email w) (table s))"
    and short: "length (ord (alias_rows ulow pglow (w_email w) (table s))) \<le> emailAliasCandidateLimit"
    and free: "check_alias ulow pglow ord w (table s) = Inr ()"
    and u: "u \<in> set (table s)" "UserID u \<noteq> own_id w"
  shows "NormalizeEmailForAliasDedup ulow (Email u) \<noteq> NormalizeEmailForAliasDedup ulow (w_email w)"
proof
  assume eq: "NormalizeEmailForAliasDedup ulow (Email u) = NormalizeEmailForAliasDedup ulow (w_email w)"
  let ?rows = "alias_rows ulow pglow (w_email w) (table s)"
  have "u \<in> set ?rows" by (rule alias_selected [OF assms(2,4) rows_okD(3) [OF assms(1) u(1)] u(1) eq])
  then have mem: "u \<in> set (take emailAliasCandidateLimit (ord ?rows))" using sel short by (metis set_mset_mset take_all)
  have pos: "UserID u \<noteq> 0" using rows_okD(1) [OF assms(1) u(1)] by simp
  show False
  proof (cases w)
    case (CreateUser e g d)
    have "ExistsByEmailAlias ulow pglow ord e (table s)"
      using mem eq assms(4) CreateUser by (auto simp: ExistsByEmailAlias_iff)
    with free assms(3) CreateUser show False by simp
  next
    case (ChangeEmail i e)
    have "emailAliasOwnerID ulow pglow ord e i (table s) =
        alias_owner ulow (NormalizeEmailForAliasDedup ulow e) i (0, False) (take emailAliasCandidateLimit (ord ?rows))"
      using assms(4) ChangeEmail by (simp add: emailAliasOwnerID_def alias_rows_def Let_def)
    moreover have "\<exists>c\<in>set (take emailAliasCandidateLimit (ord ?rows)).
        NormalizeEmailForAliasDedup ulow (Email c) = NormalizeEmailForAliasDedup ulow e \<and> UserID c \<noteq> 0 \<and> UserID c \<noteq> i"
      using mem eq pos u(2) ChangeEmail by auto
    moreover have "\<not> other_owner i (0, False)" by (simp add: other_owner_def)
    ultimately have "other_owner i (emailAliasOwnerID ulow pglow ord e i (table s))" by (simp add: alias_owner_other)
    then show False using free ChangeEmail by (auto simp: other_owner_def split: prod.splits if_splits)
  next
    case (UpdateUser i e)
    with assms(3) show False by simp
  qed
qed

lemma check_alias_free:
  assumes "rows_ok ulow tld s" and "graphic (w_email w)"
    and "mset (ord (alias_rows ulow pglow (w_email w) (table s))) = mset (alias_rows ulow pglow (w_email w) (table s))"
    and "\<not> cut s \<longrightarrow> guards_alias w \<longrightarrow> length (ord (alias_rows ulow pglow (w_email w) (table s))) \<le> emailAliasCandidateLimit"
    and "check_alias ulow pglow ord w (table s) = Inr ()"
  shows "unclaimed ulow tld s w (inbox_claims ulow w)"
proof -
  have False if u: "u \<in> set (table s)" "UserID u \<noteq> own_id w"
    and c: "c \<in> row_claims ulow tld s (UserID u)" "c \<in> inbox_claims ulow w" "reliable s c" for u c
  proof -
    have whole: "\<not> cut s" using c(2,3) by (auto simp: inbox_claims_def reliable_def split: if_splits)
    have w: "guards_alias w" "EmailAliasDedupProbes ulow (w_email w) \<noteq> []"
      using c(2) by (auto simp: inbox_claims_def split: if_splits)
    obtain w' where w': "c \<in> claims_of ulow tld w'" "w_email w' = Email u" "wf_write ulow tld w'"
      by (rule row_claimsD [OF assms(1) u(1) c(1)])
    have "NormalizeEmailForAliasDedup ulow (Email u) = NormalizeEmailForAliasDedup ulow (w_email w)"
      using c(2) claim_meaning(1,2) [OF w'(1,3)] w'(2) Normalize_lower [OF rows_okD(3) [OF assms(1) u(1)] assms(2)]
      by (auto simp: inbox_claims_def split: if_splits)
    with check_alias_same [OF assms(1,2) w assms(3) _ assms(5) u] assms(4) w(1) whole show False by blast
  qed
  then show ?thesis unfolding unclaimed_def by blast
qed

section \<open>The commit\<close>

definition write_target :: "user_write \<Rightarrow> reg_state \<Rightarrow> int" where
  "write_target w s = (case w of CreateUser e g d \<Rightarrow> next_user s | ChangeEmail i e \<Rightarrow> i | UpdateUser i e \<Rightarrow> i)"

text \<open>The rows after a commit: the others, and the row that was written.\<close>

lemma written_rows:
  assumes "rows_ok ulow tld s" and "u \<in> set (written (next_user s) w (table s))"
  shows "(u \<in> set (table s) \<and> UserID u \<noteq> write_target w s) \<or> (UserID u = write_target w s \<and> Email u = w_email w)"
proof (cases w)
  case (CreateUser e g d)
  then show ?thesis using assms(2) rows_okD(2) [OF assms(1), of u] by (auto simp: write_target_def)
next
  case (ChangeEmail i e)
  then show ?thesis using assms(2) by (auto simp: write_target_def)
next
  case (UpdateUser i e)
  then show ?thesis using assms(2) by (auto simp: write_target_def)
qed

lemma written_users_ok:
  assumes "users_ok rows n" and "graphic (w_email w)" and "0 < n"
  shows "users_ok (written n w rows) (case w of CreateUser e g d \<Rightarrow> n + 1 | ChangeEmail i e \<Rightarrow> n | UpdateUser i e \<Rightarrow> n)"
proof (cases w)
  case (CreateUser e g d)
  then show ?thesis using assms by (fastforce simp: users_ok_def list_all_iff)
next
  case (ChangeEmail i e)
  have "distinct (map UserID (written n w rows)) = distinct (map UserID rows)"
    by (rule arg_cong [where f = distinct]) (simp add: ChangeEmail)
  then show ?thesis using assms ChangeEmail unfolding users_ok_def by (auto simp: list_all_iff)
next
  case (UpdateUser i e)
  have "distinct (map UserID (written n w rows)) = distinct (map UserID rows)"
    by (rule arg_cong [where f = distinct]) (simp add: UpdateUser)
  then show ?thesis using assms UpdateUser unfolding users_ok_def by (auto simp: list_all_iff)
qed

lemma commit_ok:
  assumes ok: "reg_ok ulow tld s" and t: "txs s t = Committing w"
  shows "reg_ok ulow tld (commit t w s)"
proof -
  note rows = reg_okD(1) [OF ok]
  define s1 where "s1 = s\<lparr>table := written (next_user s) w (table s),
      next_user := (case w of CreateUser e g d \<Rightarrow> next_user s + 1 | ChangeEmail i e \<Rightarrow> next_user s | UpdateUser i e \<Rightarrow> next_user s),
      last_write := (last_write s)(write_target w s \<mapsto> w), txs := (txs s)(t := NoTx)\<rparr>"
  have wf: "wf_write ulow tld w" using reg_okD(2) [OF ok, of t] t by (simp add: tx_ok_def)
  have commit: "commit t w s = end_tx t (Inr ()) s1"
    by (simp add: commit_def s1_def end_tx_def write_target_def Let_def cong: if_cong)
  have claims: "row_claims ulow tld s1 i = (if i = write_target w s then claims_of ulow tld w else row_claims ulow tld s i)" for i
    by (simp add: s1_def row_claims_def)
  have split: "(u \<in> set (table s) \<and> UserID u \<noteq> write_target w s) \<or> (UserID u = write_target w s \<and> Email u = w_email w)"
    if "u \<in> set (table s1)" for u
    using written_rows [OF rows, of u w] that by (simp add: s1_def)
  have "users_ok (table s1) (next_user s1)"
    using written_users_ok [of "table s" "next_user s" w] rows wf by (simp add: s1_def rows_ok_def wf_write_def)
  moreover have "0 < next_user s1" using rows by (simp add: s1_def rows_ok_def split: user_write.splits)
  moreover have "w_email w' = Email u \<and> wf_write ulow tld w'"
    if "u \<in> set (table s1)" "last_write s1 (UserID u) = Some w'" for u w'
    using split [OF that(1)] that(2) wf rows_okD(4) [OF rows, of u w'] by (auto simp: s1_def)
  ultimately have r1: "rows_ok ulow tld s1" unfolding rows_ok_def by blast
  have tx1: "tx_ok ulow tld s1 u (txs s1 u)" for u
    using reg_okD(2) [OF ok, of u] by (simp add: tx_ok_def s1_def)
  have "exclusive ulow tld s1"
  proof -
    note ex = reg_okD(3) [OF ok, unfolded exclusive_def]
    have reliable: "reliable s1 = reliable s" by (simp add: reliable_def s1_def fun_eq_iff)
    have "op_of (txs s t) = Some w" "verified ulow tld (txs s t) = claims_of ulow tld w" using t by simp_all
    then have mine: "unclaimed ulow tld s w (claims_of ulow tld w)" using ex by metis
    have free: "c \<notin> claims_of ulow tld w"
      if "u \<in> set (table s)" "UserID u \<noteq> write_target w s" "reliable s c" "c \<in> row_claims ulow tld s (UserID u)" for u c
      using mine that rows_okD(1) [OF rows that(1)] unfolding unclaimed_def by (cases w) (auto simp: write_target_def)
    have "unclaimed ulow tld s1 w' (verified ulow tld (txs s1 t'))" if w': "op_of (txs s1 t') = Some w'" for t' w'
    proof -
      have t': "t' \<noteq> t" "txs s1 t' = txs s t'" using w' by (auto simp: s1_def split: if_splits)
      have "claims_of ulow tld w \<inter> verified ulow tld (txs s t') = {}"
        using claims_exclude [OF ok, of _ t t'] t t'(1) by auto
      moreover have "unclaimed ulow tld s w' (verified ulow tld (txs s t'))" using ex w' t'(2) by metis
      ultimately show ?thesis unfolding unclaimed_def t'(2) claims reliable using split by (metis (full_types) disjoint_iff)
    qed
    moreover have "c \<notin> row_claims ulow tld s1 (UserID u2)"
      if "u1 \<in> set (table s1)" "u2 \<in> set (table s1)" "UserID u1 \<noteq> UserID u2" "reliable s1 c"
        "c \<in> row_claims ulow tld s1 (UserID u1)" for u1 u2 c
    proof (cases "UserID u1 = write_target w s \<or> UserID u2 = write_target w s")
      case True
      then show ?thesis
        using split [OF that(1)] split [OF that(2)] that(3-5) free [of u1 c] free [of u2 c] unfolding claims reliable by auto
    next
      case False
      then have "u1 \<in> set (table s)" "u2 \<in> set (table s)" using split that(1,2) by blast+
      then show ?thesis using ex that(3-5) False unfolding claims reliable by simp
    qed
    ultimately show ?thesis unfolding exclusive_def by blast
  qed
  then have "reg_ok ulow tld s1" using r1 tx1 by (simp add: reg_ok_def s1_def)
  then show ?thesis unfolding commit by (rule end_tx_ok)
qed

lemma remove_ok:
  assumes "reg_ok ulow tld s"
  shows "reg_ok ulow tld (s\<lparr>table := filter (\<lambda>u. UserID u \<noteq> i) (table s)\<rparr>)"
proof -
  let ?s = "s\<lparr>table := filter (\<lambda>u. UserID u \<noteq> i) (table s)\<rparr>"
  have [simp]: "row_claims ulow tld ?s = row_claims ulow tld s" by (simp add: row_claims_def fun_eq_iff)
  have "users_ok (filter (\<lambda>u. UserID u \<noteq> i) (table s)) (next_user s)"
    using reg_okD(1) [OF assms] by (auto simp: rows_ok_def users_ok_def list_all_iff distinct_map_filter)
  then have "rows_ok ulow tld ?s" using reg_okD(1) [OF assms] unfolding rows_ok_def by simp blast
  moreover have "tx_ok ulow tld ?s t (txs ?s t)" for t using reg_okD(2) [OF assms, of t] by (simp add: tx_ok_def)
  moreover have "reliable ?s = reliable s" by (simp add: reliable_def fun_eq_iff)
  then have "exclusive ulow tld ?s"
    using reg_okD(3) [OF assms] unfolding exclusive_def unclaimed_def by simp blast
  ultimately show ?thesis by (simp add: reg_ok_def)
qed

section \<open>Every run keeps the invariant\<close>

lemma registration_wf:
  assumes "createUserWithRegistrationEmailGuard ulow tld whitelist quota email = Inr w" and "graphic email" and "tld_laws tld"
  shows "wf_write ulow tld w"
proof (cases "IsRegistrationEmailSuffixLimited ulow email whitelist")
  case False
  then have "w = CreateUser email True []" using assms(1) by (simp add: createUserWithRegistrationEmailGuard_def Let_def)
  then show ?thesis using assms(2) by (simp add: wf_write_def)
next
  case True
  let ?N = "normalizeEmailDomain ulow tld"
  have d: "RegistrationEmailDomain ulow tld email \<noteq> []" "w = CreateUser email True (?N (RegistrationEmailDomain ulow tld email))"
    using True assms(1) by (auto simp: createUserWithRegistrationEmailGuard_def Let_def split: if_splits)
  then obtain l h where p: "splitEmailForPolicy ulow email = Some (l, h)"
    by (cases "splitEmailForPolicy ulow email") (auto simp: RegistrationEmailDomain_def)
  have r: "RegistrationEmailDomain ulow tld email = ?N h"
    using p by (simp add: RegistrationEmailDomain_def normalizeEmailDomain_def)
  note n1 = domain_normal [OF split_domain [OF assms(2) p] assms(3), of ulow]
  note n2 = domain_normal [OF conjunct1 [OF n1] assms(3), of ulow]
  note n3 = domain_normal [OF conjunct1 [OF n2] assms(3), of ulow]
  have "within h (?N (?N (?N h)))" using n1 n2 n3 within_trans by blast
  then show ?thesis using n3 p d assms(2) r by (auto simp: wf_write_def)
qed

lemma goto_locking_ok:
  assumes "reg_ok ulow tld s" and "wf_write ulow tld w"
  shows "reg_ok ulow tld (goto t (Locking w (lock_hashes ulow tld w)) s)"
  by (rule goto_ok [OF assms(1)]) (use assms(2) in \<open>auto simp: tx_ok_def unclaimed_def\<close>)

lemma lock_ok:
  assumes "reg_ok ulow tld s" and t: "txs s t = Locking w (h # hs)" and "held s h \<in> {None, Some t}"
  shows "reg_ok ulow tld (goto t (Locking w hs) (s\<lparr>held := (held s)(h \<mapsto> t)\<rparr>))"
proof (rule goto_ok)
  have "tx_ok ulow tld (s\<lparr>held := (held s)(h \<mapsto> t)\<rparr>) u (txs s u)" if "u \<noteq> t" for u
    using reg_okD(2) [OF assms(1), of u] assms(3) that by (auto simp: tx_ok_def dest!: subsetD)
  moreover have mine: "tx_ok ulow tld (s\<lparr>held := (held s)(h \<mapsto> t)\<rparr>) t (Locking w hs)"
    using reg_okD(2) [OF assms(1), of t] t by (auto simp: tx_ok_def)
  moreover have "tx_ok ulow tld (s\<lparr>held := (held s)(h \<mapsto> t)\<rparr>) t (txs s t)"
    using reg_okD(2) [OF assms(1), of t] t by (auto simp: tx_ok_def)
  ultimately have "\<forall>u. tx_ok ulow tld (s\<lparr>held := (held s)(h \<mapsto> t)\<rparr>) u (txs s u)" by metis
  then show "reg_ok ulow tld (s\<lparr>held := (held s)(h \<mapsto> t)\<rparr>)"
    using reg_okD(1,3) [OF assms(1)] by (simp add: reg_ok_def rows_ok_def exclusive_def unclaimed_def row_claims_def reliable_def)
  show "tx_ok ulow tld (s\<lparr>held := (held s)(h \<mapsto> t)\<rparr>) t (Locking w hs)" by (rule mine)
qed (simp add: unclaimed_def)

lemma at_place:
  assumes "reg_ok ulow tld s" and "op_of (txs s t) = Some w"
  shows "wf_write ulow tld w" and "unclaimed ulow tld s w (verified ulow tld (txs s t))"
  using assms reg_okD(2) [OF assms(1), of t] reg_okD(3) [OF assms(1)] by (simp_all add: tx_ok_def exclusive_def)

lemma dedup_ok:
  assumes ok: "reg_ok ulow tld s" and t: "txs s t = Aliasing w"
    and sel: "mset sel = mset (alias_rows ulow pglow (w_email w) (table s))"
      "ord (alias_rows ulow pglow (w_email w) (table s)) = sel"
  shows "reg_ok ulow tld (statement t (check_alias ulow pglow ord w (table s)) (Writing w)
           (s\<lparr>cut := cut s \<or> (guards_alias w \<and> emailAliasCandidateLimit < length sel)\<rparr>))"
proof (rule statement_ok)
  let ?s = "s\<lparr>cut := cut s \<or> (guards_alias w \<and> emailAliasCandidateLimit < length sel)\<rparr>"
  show ok': "reg_ok ulow tld ?s" by (rule cut_ok [OF ok]) simp
  assume free: "check_alias ulow pglow ord w (table s) = Inr ()"
  have t': "op_of (txs ?s t) = Some w" "table ?s = table s" by (simp_all add: t)
  note place = at_place [OF ok' t'(1)]
  have g: "graphic (w_email w)" using place(1) by (simp add: wf_write_def)
  have "unclaimed ulow tld ?s w (inbox_claims ulow w)"
    by (rule check_alias_free [OF reg_okD(1) [OF ok'] g, where ord = ord and pglow = pglow]) (use sel free in auto)
  moreover have "unclaimed ulow tld ?s w (domain_claims ulow tld w \<union> email_claims w)"
    using place(2) t by simp
  ultimately have "unclaimed ulow tld ?s w (claims_of ulow tld w)" unfolding claims_of_def by (rule unclaimed_Un [rotated])
  then show "unclaimed ulow tld ?s w (verified ulow tld (Writing w))" by simp
qed (simp_all add: t)

lemma reg_step_ok:
  assumes "reg_step ulow tld pglow s s'" and "reg_ok ulow tld s" and "tld_laws tld"
  shows "reg_ok ulow tld s'"
  using assms
proof (induction rule: reg_step.induct)
  case (register s t whitelist quota email w)
  show ?case using goto_locking_ok [OF register.prems(1) registration_wf [OF register.hyps(2,3) register.prems(2)]] .
next
  case (create s t w email)
  then show ?case by (intro goto_locking_ok) (simp_all add: wf_write_def)
next
  case (change s t w i email)
  then show ?case by (intro goto_locking_ok) (simp_all add: wf_write_def)
next
  case (update s t w i email)
  then show ?case by (intro goto_locking_ok) (simp_all add: wf_write_def)
next
  case (lock s t w h hs)
  then show ?case by (intro lock_ok)
next
  case (locked s t w)
  have "tx_ok ulow tld s t (after_locks w)"
    using reg_okD(2) [OF locked.prems(1), of t] locked.hyps by (cases w) (auto simp: tx_ok_def)
  moreover have "verified ulow tld (after_locks w) = {}" by (cases w) (simp_all add: domain_claims_def)
  ultimately show ?case by (intro goto_ok [OF locked.prems(1)]) (auto simp: unclaimed_def)
next
  case (count s t w)
  show ?case
    by (rule statement_ok [OF count.prems(1)])
      (use count.hyps check_domain_free [OF reg_okD(1) [OF count.prems(1)] count.prems(2)] in simp_all)
next
  case (match s t w)
  have g: "graphic (w_email w)" using at_place(1) [OF match.prems(1), of t w] match.hyps by (simp add: wf_write_def)
  have d: "unclaimed ulow tld s w (domain_claims ulow tld w)"
    using at_place(2) [OF match.prems(1), of t w] match.hyps by simp
  show ?case
    by (rule statement_ok [OF match.prems(1)])
      (use match.hyps d check_email_free [OF reg_okD(1) [OF match.prems(1)] g] in \<open>auto simp: verified_after_match intro: unclaimed_Un\<close>)
next
  case (dedup s t w sel ord)
  then show ?case by (intro dedup_ok)
next
  case (do_write s t w)
  show ?case
    by (rule statement_ok [OF do_write.prems(1)]) (use do_write.hyps at_place(2) [OF do_write.prems(1), of t w] in simp_all)
next
  case (commit s t w)
  then show ?case by (intro commit_ok)
next
  case (fault s t e)
  then show ?case by (intro end_tx_ok)
next
  case (remove s i)
  then show ?case by (intro remove_ok)
qed

lemma reg_run_ok: "reg_run ulow tld pglow s \<Longrightarrow> tld_laws tld \<Longrightarrow> reg_ok ulow tld s"
proof (induction rule: reg_run.induct)
  case (init rows n)
  then show ?case
    by (simp add: reg_ok_def rows_ok_def tx_ok_def exclusive_def row_claims_def initial_reg_def)
next
  case (step s s')
  then show ?case using reg_step_ok by blast
qed

section \<open>One account per address, inbox and domain\<close>

lemma rows_share_nothing:
  assumes "reg_run ulow tld pglow s" and "tld_laws tld" and "reliable s c"
    and "u1 \<in> set (table s)" and "u2 \<in> set (table s)"
    and "c \<in> row_claims ulow tld s (UserID u1)" and "c \<in> row_claims ulow tld s (UserID u2)"
  shows "u1 = u2"
proof -
  note ok = reg_okD [OF reg_run_ok [OF assms(1,2)]]
  have "UserID u1 = UserID u2" using ok(3) assms(3-7) unfolding exclusive_def by blast
  then show ?thesis by (rule rows_distinct [OF ok(1) assms(4,5)])
qed

text \<open>
  C5. Concurrent registrations and changes of addresses do not give one inbox two accounts: in every
  state that transactions reach by interleaving their statements, two rows have different inboxes when
  the write that last set the address of each was guarded against aliases (a registration, or
  \<^verbatim>\<open>UpdateEmailWithAliasGuard\<close>; not a creation without the guard, nor \<^verbatim>\<open>Update\<close>).  The conditions: no check
  for aliases has hit the limit of fifty rows of its query so far, the list of probes of either address
  is not empty, and all addresses are printable ASCII without blanks.
\<close>

theorem one_account_per_inbox:
  assumes "reg_run ulow tld pglow s" and "tld_laws tld" and "\<not> cut s"
    and "u1 \<in> set (table s)" and "last_write s (UserID u1) = Some w1" and "guards_alias w1"
    and "u2 \<in> set (table s)" and "last_write s (UserID u2) = Some w2" and "guards_alias w2"
    and "EmailAliasDedupProbes ulow (Email u1) \<noteq> []" and "EmailAliasDedupProbes ulow (Email u2) \<noteq> []" and "u1 \<noteq> u2"
  shows "NormalizeEmailForAliasDedup ulow (Email u1) \<noteq> NormalizeEmailForAliasDedup ulow (Email u2)"
proof
  assume same: "NormalizeEmailForAliasDedup ulow (Email u1) = NormalizeEmailForAliasDedup ulow (Email u2)"
  have rows: "rows_ok ulow tld s" using reg_okD(1) [OF reg_run_ok [OF assms(1,2)]] .
  have "ByInbox (NormalizeEmailForAliasDedup ulow (Email u1)) \<in> row_claims ulow tld s (UserID u1)"
    using assms(5,6,10) rows_okD(4) [OF rows assms(4,5)] by (simp add: row_claims_def claims_of_def inbox_claims_def)
  moreover have "ByInbox (NormalizeEmailForAliasDedup ulow (Email u1)) \<in> row_claims ulow tld s (UserID u2)"
    using assms(8,9,11) rows_okD(4) [OF rows assms(7,8)] same by (simp add: row_claims_def claims_of_def inbox_claims_def)
  moreover have "reliable s c" for c using assms(3) by (simp add: reliable_def)
  ultimately show False using rows_share_nothing [OF assms(1,2) _ assms(4,7)] assms(12) by blast
qed

text \<open>
  C19. The quota of a domain holds under concurrency: of the accounts whose address was last written by
  a registration under the quota of one registrable domain there is at most one.  An account whose
  address is changed later no longer counts, and then another one is admitted.
\<close>

theorem one_account_per_domain:
  assumes "reg_run ulow tld pglow s" and "tld_laws tld"
    and "u1 \<in> set (table s)" and "last_write s (UserID u1) = Some (CreateUser e1 g1 d)"
    and "u2 \<in> set (table s)" and "last_write s (UserID u2) = Some (CreateUser e2 g2 d)" and "d \<noteq> []"
  shows "u1 = u2"
proof (rule rows_share_nothing [OF assms(1,2) _ assms(3,5)])
  show "reliable s (ByDomain (normalizeEmailDomain ulow tld d))" by (simp add: reliable_def)
  show "ByDomain (normalizeEmailDomain ulow tld d) \<in> row_claims ulow tld s (UserID u1)"
    using assms(4,7) by (simp add: row_claims_def claims_of_def domain_claims_def)
  show "ByDomain (normalizeEmailDomain ulow tld d) \<in> row_claims ulow tld s (UserID u2)"
    using assms(6,7) by (simp add: row_claims_def claims_of_def domain_claims_def)
qed

section \<open>Runs\<close>

lemma take_locks:
  assumes "reg_run ulow tld pglow s" and "txs s t = Locking w hs" and "\<forall>h. held s h \<in> {None, Some t}"
  shows "\<exists>H. reg_run ulow tld pglow (s\<lparr>held := H, txs := (txs s)(t := Locking w [])\<rparr>) \<and> (\<forall>h. H h \<in> {None, Some t})"
  using assms
proof (induction hs arbitrary: s)
  case Nil
  then have "s\<lparr>held := held s, txs := (txs s)(t := Locking w [])\<rparr> = s" by (simp add: fun_upd_idem)
  with Nil show ?case by metis
next
  case (Cons h hs)
  let ?s = "goto t (Locking w hs) (s\<lparr>held := (held s)(h \<mapsto> t)\<rparr>)"
  have "reg_run ulow tld pglow ?s"
    by (rule reg_run.step [OF Cons.prems(1) reg_step.lock [OF Cons.prems(2)]]) (use Cons.prems(3) in blast)
  moreover have "txs ?s t = Locking w hs" "\<forall>h. held ?s h \<in> {None, Some t}" using Cons.prems(3) by (simp_all add: goto_def)
  ultimately obtain H where "reg_run ulow tld pglow (?s\<lparr>held := H, txs := (txs ?s)(t := Locking w [])\<rparr>)"
      "\<forall>h. H h \<in> {None, Some t}" using Cons.IH [of ?s] by blast
  moreover have "?s\<lparr>held := H, txs := (txs ?s)(t := Locking w [])\<rparr> = s\<lparr>held := H, txs := (txs s)(t := Locking w [])\<rparr>"
    by (simp add: goto_def)
  ultimately show ?case by metis
qed

lemma statement_passes: "r = Inr () \<Longrightarrow> statement t r p s = s\<lparr>txs := (txs s)(t := p)\<rparr>"
  by (simp add: statement_def goto_def)

text \<open>A registration that runs alone and passes its checks.\<close>

lemma lone_registration:
  assumes run: "reg_run ulow tld pglow s" and idle: "txs s t = NoTx" and free: "held s = (\<lambda>h. None)" and "graphic e"
    and w: "createUserWithRegistrationEmailGuard ulow tld whitelist quota e = Inr w" "w = CreateUser e True d"
    and checks: "check_domain ulow tld pglow w (table s) = Inr ()"
      "ensureNormalizedEmailAvailable ulow pglow 0 e (table s) = Inr ()"
      "check_alias ulow pglow id w (table s) = Inr ()" "check_write w (table s) = Inr ()"
    and short: "length (table s) \<le> emailAliasCandidateLimit"
  shows "\<exists>s'. reg_run ulow tld pglow s' \<and> table s' = table s @ [\<lparr>UserID = next_user s, Email = e\<rparr>] \<and> next_user s' = next_user s + 1
    \<and> held s' = (\<lambda>h. None) \<and> txs s' = txs s \<and> last_write s' = (last_write s)(next_user s \<mapsto> w) \<and> cut s' = cut s"
proof -
  note step = reg_run.step [where ulow = ulow and tld = tld and pglow = pglow]
  let ?T = "\<lambda>p. (txs s)(t := p)"
  have "reg_run ulow tld pglow (goto t (Locking w (lock_hashes ulow tld w)) s)"
    by (rule step [OF run reg_step.register [OF idle w(1) \<open>graphic e\<close>]])
  then obtain H where "reg_run ulow tld pglow (s\<lparr>held := H, txs := ?T (Locking w [])\<rparr>)" and H: "\<forall>h. H h \<in> {None, Some t}"
    using take_locks [of ulow tld pglow "goto t (Locking w (lock_hashes ulow tld w)) s" t w] free
    by (auto simp: goto_def fun_upd_upd)
  from step [OF this(1) reg_step.locked [where t = t and w = w]] w(2)
  have "reg_run ulow tld pglow (s\<lparr>held := H, txs := ?T (Counting w)\<rparr>)" by (simp add: goto_def)
  from step [OF this reg_step.count [where t = t and w = w]] checks(1)
  have "reg_run ulow tld pglow (s\<lparr>held := H, txs := ?T (Matching w)\<rparr>)" by (simp add: statement_passes)
  from step [OF this reg_step.match [where t = t and w = w]] checks(2) w(2)
  have at: "reg_run ulow tld pglow (s\<lparr>held := H, txs := ?T (Aliasing w)\<rparr>)" by (simp add: statement_passes)
  have "length (alias_rows ulow pglow e (table s)) \<le> emailAliasCandidateLimit"
    using short by (simp add: alias_rows_def le_trans [OF length_filter_le])
  then have "reg_run ulow tld pglow (s\<lparr>held := H, txs := ?T (Writing w)\<rparr>)"
    using step [OF at reg_step.dedup [where t = t and w = w and ord = id and sel = "alias_rows ulow pglow e (table s)"]] checks(3) w(2)
    by (simp add: statement_passes not_less)
  from step [OF this reg_step.do_write [where t = t and w = w]] checks(4)
  have "reg_run ulow tld pglow (s\<lparr>held := H, txs := ?T (Committing w)\<rparr>)" by (simp add: statement_passes)
  from step [OF this reg_step.commit [where t = t and w = w]]
  have "reg_run ulow tld pglow (commit t w (s\<lparr>held := H, txs := ?T (Committing w)\<rparr>))" by simp
  moreover have "(\<lambda>h. if H h = Some t then None else H h) = (\<lambda>h. None)" using H by (auto simp: fun_eq_iff)
  moreover have "?T NoTx = txs s" using idle by (simp add: fun_upd_idem)
  ultimately show ?thesis using w(2)
    by (intro exI [of _ "commit t w (s\<lparr>held := H, txs := ?T (Committing w)\<rparr>)"]) (simp add: commit_def end_tx_def Let_def cong: if_cong)
qed

text \<open>Two users who register one after the other.\<close>

definition demo_email :: "char \<Rightarrow> string" where
  "demo_email c = [c] @ ''@'' @ ''y.co''"

lemma demo_email_not_Nil [simp]: "demo_email c \<noteq> []"
  by (simp add: demo_email_def)

lemma demo_address:
  assumes "c \<in> {CHR ''a'', CHR ''b''}"
  shows "graphic (demo_email c)" and "lower (demo_email c) = demo_email c"
    and "splitEmailForPolicy ulow (demo_email c) = Some ([c], ''y.co'')"
    and "NormalizeEmailForAliasDedup ulow (demo_email c) = demo_email c"
    and "EmailAliasDedupProbes ulow (demo_email c) = [\<lparr>Local = [c], Domain = ''yco''\<rparr>]"
proof -
  have "set (demo_email c) \<subseteq> {c. is_graphic c \<and> byte_lower c = c}"
    using assms by (auto simp: demo_email_def is_graphic_def byte_lower_def)
  then show g: "graphic (demo_email c)" and l: "lower (demo_email c) = demo_email c"
    using graphic_lower_chars [of "demo_email c"] by blast+
  show s: "splitEmailForPolicy ulow (demo_email c) = Some ([c], ''y.co'')"
    by (rule split_of_parts [OF g]) (use assms l in \<open>auto simp: demo_email_def parts_ok_def\<close>)
  have plus: "stripEmailPlusSuffix [c] = [c]" using assms by (auto simp: stripEmailPlusSuffix_def IndexByte_def)
  then show "NormalizeEmailForAliasDedup ulow (demo_email c) = demo_email c"
    using Normalize_inbox [OF g s] by (simp add: inbox_def isGmailFamilyDomain_def demo_email_def)
  show "EmailAliasDedupProbes ulow (demo_email c) = [\<lparr>Local = [c], Domain = ''yco''\<rparr>]"
    using assms plus s by (auto simp: EmailAliasDedupProbes_def split_alias [OF g] isGmailFamilyDomain_def Let_def RemoveByte_def)
qed

lemma tld_laws_none: "tld_laws (\<lambda>d. None)"
  by (simp add: tld_laws_def)

lemma demo_two_users:
  "\<exists>s. reg_run id (\<lambda>d. None) id s \<and> table s = [\<lparr>UserID = 1, Email = demo_email CHR ''a''\<rparr>, \<lparr>UserID = 2, Email = demo_email CHR ''b''\<rparr>]
     \<and> last_write s = [1 \<mapsto> CreateUser (demo_email CHR ''a'') True [], 2 \<mapsto> CreateUser (demo_email CHR ''b'') True []] \<and> \<not> cut s"
proof -
  let ?a = "demo_email CHR ''a''" and ?b = "demo_email CHR ''b''" and ?tld = "\<lambda>d :: string. None :: string option"
  note addr = demo_address [of "CHR ''a''", simplified] demo_address [of "CHR ''b''", simplified]
  have ab: "?a \<noteq> ?b" by (simp add: demo_email_def)
  have w: "createUserWithRegistrationEmailGuard id ?tld [] False e = Inr (CreateUser e True [])" for e
    by (simp add: createUserWithRegistrationEmailGuard_def IsRegistrationEmailSuffixLimited_def Let_def)
  let ?s0 = "initial_reg [] 1"
  have run0: "reg_run id ?tld id ?s0" by (rule reg_run.init) (simp_all add: users_ok_def)
  have none: "\<not> ExistsByEmailAlias id id id ?a []" "ensureNormalizedEmailAvailable id id 0 ?a [] = Inr ()"
    using addr by (simp_all add: ExistsByEmailAlias_iff alias_rows_def ensureNormalizedEmailAvailable_def Let_def)
  have "\<exists>s1. reg_run id ?tld id s1 \<and> table s1 = table ?s0 @ [\<lparr>UserID = next_user ?s0, Email = ?a\<rparr>] \<and> next_user s1 = next_user ?s0 + 1
      \<and> held s1 = (\<lambda>h. None) \<and> txs s1 = txs ?s0 \<and> last_write s1 = (last_write ?s0)(next_user ?s0 \<mapsto> CreateUser ?a True []) \<and> cut s1 = cut ?s0"
    by (rule lone_registration [OF run0 _ _ addr(1) w refl, of 0]) (use none in \<open>simp_all add: initial_reg_def check_domain_def\<close>)
  then obtain s1 where s1: "reg_run id ?tld id s1" "table s1 = [\<lparr>UserID = 1, Email = ?a\<rparr>]" "next_user s1 = 2" "held s1 = (\<lambda>h. None)"
      "txs s1 = (\<lambda>t. NoTx)" "last_write s1 = [1 \<mapsto> CreateUser ?a True []]" "\<not> cut s1"
    by (auto simp: initial_reg_def)
  have no_alias: "\<not> ExistsByEmailAlias id id id ?b [\<lparr>UserID = 1, Email = ?a\<rparr>]"
    using addr ab by (auto simp: ExistsByEmailAlias_iff alias_rows_def dest!: in_set_takeD)
  have no_mail: "ensureNormalizedEmailAvailable id id 0 ?b [\<lparr>UserID = 1, Email = ?a\<rparr>] = Inr ()"
    using addr ab by (simp add: ensureNormalizedEmailAvailable_def graphic_lower graphic_sql_trim ToLower_ascii graphic_ascii
        lower_def [symmetric] Let_def)
  have "\<exists>s2. reg_run id ?tld id s2 \<and> table s2 = table s1 @ [\<lparr>UserID = next_user s1, Email = ?b\<rparr>] \<and> next_user s2 = next_user s1 + 1
      \<and> held s2 = (\<lambda>h. None) \<and> txs s2 = txs s1 \<and> last_write s2 = (last_write s1)(next_user s1 \<mapsto> CreateUser ?b True []) \<and> cut s2 = cut s1"
    by (rule lone_registration [OF s1(1) _ s1(4) addr(6) w refl, of 0])
      (use no_alias no_mail s1 ab in \<open>simp_all add: check_domain_def emailAliasCandidateLimit_def\<close>)
  with s1 show ?thesis by auto
qed

theorem one_account_per_inbox_witness:
  "\<exists>s :: reg_state. table s = [\<lparr>UserID = 1, Email = demo_email CHR ''a''\<rparr>, \<lparr>UserID = 2, Email = demo_email CHR ''b''\<rparr>]
     \<and> NormalizeEmailForAliasDedup id (demo_email CHR ''a'') \<noteq> NormalizeEmailForAliasDedup id (demo_email CHR ''b'')"
proof -
  let ?a = "demo_email CHR ''a''" and ?b = "demo_email CHR ''b''"
  obtain s where s: "reg_run id (\<lambda>d. None) id s" "table s = [\<lparr>UserID = 1, Email = ?a\<rparr>, \<lparr>UserID = 2, Email = ?b\<rparr>]"
      "last_write s = [1 \<mapsto> CreateUser ?a True [], 2 \<mapsto> CreateUser ?b True []]" "\<not> cut s"
    using demo_two_users by blast
  have "EmailAliasDedupProbes id ?a \<noteq> []" "EmailAliasDedupProbes id ?b \<noteq> []" by (simp_all add: demo_address)
  then have "NormalizeEmailForAliasDedup id ?a \<noteq> NormalizeEmailForAliasDedup id ?b"
    using one_account_per_inbox [OF s(1) tld_laws_none s(4), of "\<lparr>UserID = 1, Email = ?a\<rparr>" "CreateUser ?a True []"
        "\<lparr>UserID = 2, Email = ?b\<rparr>" "CreateUser ?b True []"] s(2,3) by simp
  with s(2) show ?thesis by blast
qed

theorem one_account_per_domain_witness:
  "\<exists>s :: reg_state. table s = [\<lparr>UserID = 1, Email = demo_email CHR ''a''\<rparr>]
     \<and> last_write s 1 = Some (CreateUser (demo_email CHR ''a'') True ''y.co'')
     \<and> list_all (\<lambda>u1. list_all (\<lambda>u2. u1 = u2) (table s)) (table s)"
proof -
  let ?a = "demo_email CHR ''a''" and ?tld = "\<lambda>d :: string. None :: string option"
  note addr = demo_address [of "CHR ''a''", simplified]
  have plain: "plain_name ''@z.co''" "plain_name ''y.co''" by (simp_all add: plain_name_def is_graphic_def)
  have dom: "normalizeEmailDomain id ?tld ''y.co'' = ''y.co''"
    by (simp add: normalizeEmailDomain_def NormalizeRegistrationEmailDomain_def TrimPrefix_def plain_simps plain TrimRight_fixed)
  then have reg: "RegistrationEmailDomain id ?tld ?a = ''y.co''" using addr by (simp add: RegistrationEmailDomain_def normalizeEmailDomain_def)
  have "IsRegistrationEmailSuffixLimited id ?a [''@z.co'']" using addr
    by (simp add: IsRegistrationEmailSuffixLimited_def IsRegistrationEmailSuffixAllowed_def suffix_allows_def plain_simps plain)
  then have w: "createUserWithRegistrationEmailGuard id ?tld [''@z.co''] True ?a = Inr (CreateUser ?a True ''y.co'')"
    by (simp add: createUserWithRegistrationEmailGuard_def Let_def reg dom)
  let ?s0 = "initial_reg [] 1"
  have run0: "reg_run id ?tld id ?s0" by (rule reg_run.init) (simp_all add: users_ok_def)
  have none: "\<not> ExistsByEmailAlias id id id ?a []" "ensureNormalizedEmailAvailable id id 0 ?a [] = Inr ()"
    using addr by (simp_all add: ExistsByEmailAlias_iff alias_rows_def ensureNormalizedEmailAvailable_def Let_def)
  have "\<exists>s1. reg_run id ?tld id s1 \<and> table s1 = table ?s0 @ [\<lparr>UserID = next_user ?s0, Email = ?a\<rparr>] \<and> next_user s1 = next_user ?s0 + 1
      \<and> held s1 = (\<lambda>h. None) \<and> txs s1 = txs ?s0
      \<and> last_write s1 = (last_write ?s0)(next_user ?s0 \<mapsto> CreateUser ?a True ''y.co'') \<and> cut s1 = cut ?s0"
    by (rule lone_registration [OF run0 _ _ addr(1) w refl, of 0])
      (use none in \<open>simp_all add: initial_reg_def check_domain_def countUsersByEmailDomain_def Let_def\<close>)
  then obtain s where s: "reg_run id ?tld id s" "table s = [\<lparr>UserID = 1, Email = ?a\<rparr>]"
      "last_write s 1 = Some (CreateUser ?a True ''y.co'')" by (auto simp: initial_reg_def)
  have "u1 = u2" if "u1 \<in> set (table s)" "u2 \<in> set (table s)" for u1 u2
    by (rule one_account_per_domain [OF s(1) tld_laws_none that(1) _ that(2)]) (use that s(2,3) in auto)
  then have "list_all (\<lambda>u1. list_all (\<lambda>u2. u1 = u2) (table s)) (table s)" by (simp add: list_all_iff)
  with s(2,3) show ?thesis by blast
qed

end
