(* ===== verification/Effort_Policy.thy ===== *)
theory Effort_Policy
  imports Platforms "HOL-Library.Product_Lexorder"
begin

text \<open>
  The policy of a group on reasoning efforts
  (\<^verbatim>\<open>backend/internal/service/openai_reasoning_effort_policy.go\<close>): a ceiling, what happens above it, and
  mappings from one effort to another, which may be limited to some models.  \<open>ulow\<close> and \<open>ufold\<close> are the
  Unicode tables.  The text of an error message is replaced by a constructor with its arguments.

  The body of a request is JSON, which the program reads and writes with \<^verbatim>\<open>gjson\<close> and \<^verbatim>\<open>sjson\<close>: the
  record \<open>json_api\<close> holds the four functions that are used, and \<open>json_laws\<close> what is documented of them.
\<close>

section \<open>Efforts\<close>

definition ReasoningEffortOverLimitDowngrade :: string where "ReasoningEffortOverLimitDowngrade = ''downgrade''"
definition ReasoningEffortOverLimitDeny :: string where "ReasoningEffortOverLimitDeny = ''deny''"
definition ReasoningEffortMappingDeny :: string where "ReasoningEffortMappingDeny = ''deny''"
definition ReasoningEffortMatchExact :: string where "ReasoningEffortMatchExact = ''exact''"
definition ReasoningEffortMatchPrefix :: string where "ReasoningEffortMatchPrefix = ''prefix''"
definition ReasoningEffortMatchSuffix :: string where "ReasoningEffortMatchSuffix = ''suffix''"
definition maxReasoningEffortMappings :: nat where "maxReasoningEffortMappings = 64"
definition maxReasoningEffortValueLen :: nat where "maxReasoningEffortValueLen = 64"
definition maxReasoningEffortModelLen :: nat where "maxReasoningEffortModelLen = 200"

lemmas effort_words = ReasoningEffortOverLimitDowngrade_def ReasoningEffortOverLimitDeny_def ReasoningEffortMappingDeny_def
  ReasoningEffortMatchExact_def ReasoningEffortMatchPrefix_def ReasoningEffortMatchSuffix_def

definition openAIReasoningEffortValues :: "string list" where
  "openAIReasoningEffortValues = [''minimal'', ''low'', ''medium'', ''high'', ''xhigh'', ''max'']"
definition anthropicReasoningEffortValues :: "string list" where
  "anthropicReasoningEffortValues = [''low'', ''medium'', ''high'', ''xhigh'', ''max'']"

datatype effort_error = TooManyMappings
  | UnknownValue nat | TooLongValue nat | TooLongModel nat
  | MappingSource nat effort_error | MappingTarget nat effort_error | MappingMatch nat effort_error
  | UnsupportedPlatform | UnsupportedValue string string
  | BadMatchType string | BadOverLimit string
  | DuplicateSource string | DuplicateScoped string string string

definition NormalizeMaxReasoningEffort :: "(string \<Rightarrow> string) \<Rightarrow> string \<Rightarrow> string" where
  "NormalizeMaxReasoningEffort ulow raw =
     (let value = RemoveByte (RemoveByte (RemoveByte (ToLower ulow (TrimSpace raw)) CHR ''-'') CHR ''_'') CHR '' ''
      in if value \<in> {''minimal'', ''low'', ''medium'', ''high'', ''max''} then value
         else if value \<in> {''xhigh'', ''extrahigh''} then ''xhigh''
         else [])"

definition normalizeReasoningEffortMappingSource ::
    "(string \<Rightarrow> string) \<Rightarrow> (string \<Rightarrow> string \<Rightarrow> bool) \<Rightarrow> string \<Rightarrow> string" where
  "normalizeReasoningEffortMappingSource ulow ufold raw =
     (if EqualFold ufold (TrimSpace raw) ''none'' then ''none'' else NormalizeMaxReasoningEffort ulow raw)"

definition isReasoningEffortMappingDeny :: "(string \<Rightarrow> string \<Rightarrow> bool) \<Rightarrow> string \<Rightarrow> bool" where
  "isReasoningEffortMappingDeny ufold raw = EqualFold ufold (TrimSpace raw) ReasoningEffortMappingDeny"

definition normalizeReasoningEffortMappingTarget ::
    "(string \<Rightarrow> string) \<Rightarrow> (string \<Rightarrow> string \<Rightarrow> bool) \<Rightarrow> string \<Rightarrow> string" where
  "normalizeReasoningEffortMappingTarget ulow ufold raw =
     (if isReasoningEffortMappingDeny ufold raw then ReasoningEffortMappingDeny else NormalizeMaxReasoningEffort ulow raw)"

definition reasoningEffortValuesForPlatform :: "string \<Rightarrow> string list" where
  "reasoningEffortValuesForPlatform platform =
     (if platform = PlatformOpenAI \<or> platform = PlatformComposite then openAIReasoningEffortValues
      else if platform = PlatformAnthropic then anthropicReasoningEffortValues else [])"

definition normalizeMaxReasoningEffortForPlatform ::
    "(string \<Rightarrow> string) \<Rightarrow> string \<Rightarrow> string \<Rightarrow> (effort_error, string) result" where
  "normalizeMaxReasoningEffortForPlatform ulow platform raw =
     (if TrimSpace raw = [] then Inr []
      else (let allowedValues = reasoningEffortValuesForPlatform platform
            in if allowedValues = [] then Inl UnsupportedPlatform
               else (let value = NormalizeMaxReasoningEffort ulow raw
                     in if value \<in> set allowedValues then Inr value else Inl (UnsupportedValue raw platform))))"

definition NormalizeMaxReasoningEffortOverLimit :: "(string \<Rightarrow> string) \<Rightarrow> string \<Rightarrow> string" where
  "NormalizeMaxReasoningEffortOverLimit ulow raw =
     (let value = ToLower ulow (TrimSpace raw)
      in if value = [] \<or> value = ReasoningEffortOverLimitDowngrade then ReasoningEffortOverLimitDowngrade
         else if value = ReasoningEffortOverLimitDeny then ReasoningEffortOverLimitDeny else [])"

definition normalizeMaxReasoningEffortOverLimitForPlatform ::
    "(string \<Rightarrow> string) \<Rightarrow> string \<Rightarrow> string \<Rightarrow> (effort_error, string) result" where
  "normalizeMaxReasoningEffortOverLimitForPlatform ulow platform raw =
     (let value = NormalizeMaxReasoningEffortOverLimit ulow raw
      in if value = [] then Inl (BadOverLimit raw)
         else if value = ReasoningEffortOverLimitDowngrade then Inr value
         else if reasoningEffortValuesForPlatform platform = [] then Inl UnsupportedPlatform
         else Inr value)"

text \<open>\<^verbatim>\<open>(0, false)\<close> is \<^const>\<open>None\<close>.\<close>

definition reasoningEffortRank :: "(string \<Rightarrow> string) \<Rightarrow> string \<Rightarrow> int option" where
  "reasoningEffortRank ulow raw =
     map_of [(''minimal'', 1), (''low'', 2), (''medium'', 3), (''high'', 4), (''xhigh'', 5), (''max'', 6)]
       (NormalizeMaxReasoningEffort ulow raw)"

section \<open>Mappings\<close>

record effort_mapping =
  em_From :: string
  em_To :: string
  em_MatchType :: string
  em_Model :: string

definition normalizeReasoningEffortMatchType :: "(string \<Rightarrow> string) \<Rightarrow> string \<Rightarrow> string \<Rightarrow> (effort_error, string) result" where
  "normalizeReasoningEffortMatchType ulow mt m =
     (let model = TrimSpace m; matchType = ToLower ulow (TrimSpace mt)
      in if model = [] then Inr []
         else if matchType = [] \<or> matchType = ReasoningEffortMatchExact then Inr ReasoningEffortMatchExact
         else if matchType = ReasoningEffortMatchPrefix then Inr ReasoningEffortMatchPrefix
         else if matchType = ReasoningEffortMatchSuffix then Inr ReasoningEffortMatchSuffix
         else Inl (BadMatchType matchType))"

definition reasoningEffortMappingDuplicateKey :: "(string \<Rightarrow> string) \<Rightarrow> string \<Rightarrow> string \<Rightarrow> string \<Rightarrow> string" where
  "reasoningEffortMappingDuplicateKey ulow from matchType model =
     from @ [CHR 0x00] @ matchType @ [CHR 0x00] @ ToLower ulow (TrimSpace model)"

definition requestModelMatchesReasoningEffortMapping :: "(string \<Rightarrow> string) \<Rightarrow> string \<Rightarrow> string \<Rightarrow> string \<Rightarrow> bool" where
  "requestModelMatchesReasoningEffortMapping ulow requestModel matchType mappingModel =
     (let sc = ToLower ulow (TrimSpace mappingModel); req = ToLower ulow (TrimSpace requestModel)
      in if matchType = [] then True
         else if matchType = ReasoningEffortMatchExact then sc \<noteq> [] \<and> sc = req
         else if matchType = ReasoningEffortMatchPrefix then sc \<noteq> [] \<and> req \<noteq> [] \<and> HasPrefix req sc
         else if matchType = ReasoningEffortMatchSuffix then sc \<noteq> [] \<and> req \<noteq> [] \<and> HasSuffix req sc
         else False)"

record effort_candidate =
  ec_mapping :: effort_mapping
  matchStrength :: nat
  patternLen :: nat
  index :: nat

definition mapping_candidate ::
    "(string \<Rightarrow> string) \<Rightarrow> (string \<Rightarrow> string \<Rightarrow> bool) \<Rightarrow> string \<Rightarrow> string \<Rightarrow> nat \<times> effort_mapping \<Rightarrow> effort_candidate option" where
  "mapping_candidate ulow ufold from requestModel = (\<lambda>(i, mapping).
     if normalizeReasoningEffortMappingSource ulow ufold (em_From mapping) \<noteq> from then None
     else (let model = TrimSpace (em_Model mapping)
           in case normalizeReasoningEffortMatchType ulow (em_MatchType mapping) model of
                Inl e \<Rightarrow> None
              | Inr matchType \<Rightarrow>
                  if \<not> requestModelMatchesReasoningEffortMapping ulow requestModel matchType model then None
                  else Some \<lparr>ec_mapping = mapping,
                    matchStrength = (if matchType = ReasoningEffortMatchExact then 3
                                     else if matchType = ReasoningEffortMatchPrefix \<or> matchType = ReasoningEffortMatchSuffix then 2 else 1),
                    patternLen = (if matchType = ReasoningEffortMatchPrefix \<or> matchType = ReasoningEffortMatchSuffix
                                  then length (ToLower ulow model) else 0),
                    index = i\<rparr>))"

definition better :: "effort_candidate \<Rightarrow> effort_candidate \<Rightarrow> bool" where
  "better item best =
     (if matchStrength item \<noteq> matchStrength best then matchStrength best < matchStrength item
      else if patternLen item \<noteq> patternLen best then patternLen best < patternLen item
      else index item < index best)"

definition selectReasoningEffortMapping ::
    "(string \<Rightarrow> string) \<Rightarrow> (string \<Rightarrow> string \<Rightarrow> bool) \<Rightarrow> effort_mapping list \<Rightarrow> string \<Rightarrow> string \<Rightarrow> effort_mapping option" where
  "selectReasoningEffortMapping ulow ufold mappings from requestModel =
     (case List.map_filter (mapping_candidate ulow ufold from requestModel) (List.enumerate 0 mappings) of
        [] \<Rightarrow> None
      | c # cs \<Rightarrow> Some (ec_mapping (fold (\<lambda>item best. if better item best then item else best) cs c)))"

text \<open>The body of the loop over the submitted mappings, with the keys seen so far; \<open>i\<close> counts from one.\<close>

definition check_mapping ::
    "(string \<Rightarrow> string) \<Rightarrow> (string \<Rightarrow> string \<Rightarrow> bool) \<Rightarrow> string \<Rightarrow> nat \<Rightarrow> string list \<Rightarrow> effort_mapping \<Rightarrow> (effort_error, effort_mapping) result" where
  "check_mapping ulow ufold platform i seen mapping =
     (let from = normalizeReasoningEffortMappingSource ulow ufold (em_From mapping);
          to = normalizeReasoningEffortMappingTarget ulow ufold (em_To mapping);
          model = TrimSpace (em_Model mapping);
          unsupported = reasoningEffortValuesForPlatform platform = []
      in if from = [] \<or> to = [] then Inl (UnknownValue i)
         else if maxReasoningEffortValueLen < length from \<or> maxReasoningEffortValueLen < length to then Inl (TooLongValue i)
         else case (if from \<noteq> ''none'' then map_sum id (\<lambda>x. ()) (normalizeMaxReasoningEffortForPlatform ulow platform from)
                    else if unsupported then Inl UnsupportedPlatform else Inr ()) of
           Inl e \<Rightarrow> Inl (MappingSource i e)
         | Inr _ \<Rightarrow>
             (case (if to \<noteq> ReasoningEffortMappingDeny then map_sum id (\<lambda>x. ()) (normalizeMaxReasoningEffortForPlatform ulow platform to)
                    else if unsupported then Inl UnsupportedPlatform else Inr ()) of
                Inl e \<Rightarrow> Inl (MappingTarget i e)
              | Inr _ \<Rightarrow>
                  if maxReasoningEffortModelLen < length model then Inl (TooLongModel i)
                  else (case normalizeReasoningEffortMatchType ulow (em_MatchType mapping) model of
                          Inl e \<Rightarrow> Inl (MappingMatch i e)
                        | Inr matchType \<Rightarrow>
                            if reasoningEffortMappingDuplicateKey ulow from matchType model \<in> set seen
                            then (if model = [] then Inl (DuplicateSource from)
                                  else Inl (DuplicateScoped from matchType (ToLower ulow model)))
                            else Inr \<lparr>em_From = from, em_To = to, em_MatchType = matchType, em_Model = model\<rparr>)))"

fun normalize_mappings ::
    "(string \<Rightarrow> string) \<Rightarrow> (string \<Rightarrow> string \<Rightarrow> bool) \<Rightarrow> string \<Rightarrow> nat \<Rightarrow> string list \<Rightarrow> effort_mapping list
       \<Rightarrow> (effort_error, effort_mapping list) result" where
  "normalize_mappings ulow ufold platform i seen [] = Inr []"
| "normalize_mappings ulow ufold platform i seen (mapping # raw) =
     (case check_mapping ulow ufold platform i seen mapping of
        Inl e \<Rightarrow> Inl e
      | Inr m \<Rightarrow> map_sum id (\<lambda>ms. m # ms)
          (normalize_mappings ulow ufold platform (i + 1)
             (reasoningEffortMappingDuplicateKey ulow (em_From m) (em_MatchType m) (em_Model m) # seen) raw))"

definition NormalizeReasoningEffortMappings ::
    "(string \<Rightarrow> string) \<Rightarrow> (string \<Rightarrow> string \<Rightarrow> bool) \<Rightarrow> string \<Rightarrow> effort_mapping list \<Rightarrow> (effort_error, effort_mapping list) result" where
  "NormalizeReasoningEffortMappings ulow ufold platform raw =
     (if maxReasoningEffortMappings < length raw then Inl TooManyMappings
      else normalize_mappings ulow ufold platform 1 [] raw)"

text \<open>The result says whether a mapping was applied.\<close>

definition mapReasoningEffort ::
    "(string \<Rightarrow> string) \<Rightarrow> (string \<Rightarrow> string \<Rightarrow> bool) \<Rightarrow> string \<Rightarrow> effort_mapping list \<Rightarrow> string \<Rightarrow> string \<times> bool" where
  "mapReasoningEffort ulow ufold raw mappings requestModel =
     (let value = TrimSpace raw; canonical = normalizeReasoningEffortMappingSource ulow ufold value
      in if canonical = [] then (value, False)
         else (case selectReasoningEffortMapping ulow ufold mappings canonical requestModel of
                 None \<Rightarrow> (value, False)
               | Some mapping \<Rightarrow> (TrimSpace (em_To mapping), True)))"

section \<open>The policy of a group\<close>

text \<open>The fields of \<^verbatim>\<open>Group\<close> that the policy uses.\<close>

record effort_group =
  Platform :: string
  MaxReasoningEffort :: string
  MaxReasoningEffortOverLimit :: string
  ReasoningEffortMappings :: "effort_mapping list"

definition sanitizeGroupReasoningEffortPolicy ::
    "(string \<Rightarrow> string) \<Rightarrow> (string \<Rightarrow> string \<Rightarrow> bool) \<Rightarrow> effort_group \<Rightarrow> effort_group" where
  "sanitizeGroupReasoningEffortPolicy ulow ufold g =
     (let maxEffort = (case normalizeMaxReasoningEffortForPlatform ulow (Platform g) (MaxReasoningEffort g) of
                         Inl e \<Rightarrow> [] | Inr v \<Rightarrow> v);
          mappings = (case NormalizeReasoningEffortMappings ulow ufold (Platform g) (ReasoningEffortMappings g) of
                        Inl e \<Rightarrow> [] | Inr ms \<Rightarrow> ms);
          overLimit = NormalizeMaxReasoningEffortOverLimit ulow (MaxReasoningEffortOverLimit g)
      in g\<lparr>MaxReasoningEffort := maxEffort,
               MaxReasoningEffortOverLimit :=
                 (if overLimit = [] \<or> Platform g \<noteq> PlatformAnthropic \<and> Platform g \<noteq> PlatformOpenAI \<and> Platform g \<noteq> PlatformComposite
                  then ReasoningEffortOverLimitDowngrade else overLimit),
               ReasoningEffortMappings := mappings\<rparr>)"

section \<open>Requests\<close>

record 'b json_api =
  is_empty :: "'b \<Rightarrow> bool"
  is_string :: "'b \<Rightarrow> string \<Rightarrow> bool"
  get_string :: "'b \<Rightarrow> string \<Rightarrow> string"
  set_string :: "'b \<Rightarrow> string \<Rightarrow> string \<Rightarrow> 'b option"

datatype policy_error = ReasoningEffortOverLimitError string string | ReasoningEffortMappingDeniedError string

definition effort_paths :: "string list" where
  "effort_paths = [''reasoning.effort'', ''reasoning_effort'', ''output_config.effort'']"

text \<open>The value that replaces an effort, or the refusal.\<close>

definition effective_effort ::
    "(string \<Rightarrow> string) \<Rightarrow> (string \<Rightarrow> string \<Rightarrow> bool) \<Rightarrow> string \<Rightarrow> effort_mapping list \<Rightarrow> string \<Rightarrow> string \<Rightarrow> string
       \<Rightarrow> (policy_error, string) result" where
  "effective_effort ulow ufold maxEffort mappings overLimit requestModel original =
     (let maxRank = reasoningEffortRank ulow maxEffort;
          deny = maxRank \<noteq> None \<and> NormalizeMaxReasoningEffortOverLimit ulow overLimit = ReasoningEffortOverLimitDeny;
          canonicalMax = NormalizeMaxReasoningEffort ulow maxEffort
      in case mapReasoningEffort ulow ufold original mappings requestModel of (effective, mapped) \<Rightarrow>
           if mapped \<and> isReasoningEffortMappingDeny ufold effective
           then (let requested = normalizeReasoningEffortMappingSource ulow ufold original
                 in Inl (ReasoningEffortMappingDeniedError (if requested = [] then original else requested)))
           else (case reasoningEffortRank ulow effective of
                   None \<Rightarrow> Inr effective
                 | Some currentRank \<Rightarrow>
                     (case maxRank of
                        None \<Rightarrow> Inr (NormalizeMaxReasoningEffort ulow effective)
                      | Some r \<Rightarrow>
                          if r < currentRank
                          then (if deny then Inl (ReasoningEffortOverLimitError (NormalizeMaxReasoningEffort ulow effective) canonicalMax)
                                else Inr canonicalMax)
                          else Inr (NormalizeMaxReasoningEffort ulow effective))))"

fun apply_paths ::
    "'b json_api \<Rightarrow> (string \<Rightarrow> (policy_error, string) result) \<Rightarrow> string list \<Rightarrow> 'b \<Rightarrow> bool \<Rightarrow> (policy_error, 'b \<times> bool) result" where
  "apply_paths J effective_of [] body changed = Inr (body, changed)"
| "apply_paths J effective_of (path # paths) body changed =
     (if \<not> is_string J body path then apply_paths J effective_of paths body changed
      else (let original = TrimSpace (get_string J body path)
            in if original = [] then apply_paths J effective_of paths body changed
               else (case effective_of original of
                       Inl e \<Rightarrow> Inl e
                     | Inr effective \<Rightarrow>
                         if effective = original then apply_paths J effective_of paths body changed
                         else (case set_string J body path effective of
                                 None \<Rightarrow> apply_paths J effective_of paths body changed
                               | Some updated \<Rightarrow> apply_paths J effective_of paths updated True))))"

text \<open>\<^verbatim>\<open>([]byte, bool, error)\<close>; a refused body is returned as it came.\<close>

definition ApplyReasoningEffortPolicy ::
    "(string \<Rightarrow> string) \<Rightarrow> (string \<Rightarrow> string \<Rightarrow> bool) \<Rightarrow> 'b json_api \<Rightarrow> 'b \<Rightarrow> string \<Rightarrow> effort_mapping list \<Rightarrow> string
       \<Rightarrow> 'b \<times> bool \<times> policy_error option" where
  "ApplyReasoningEffortPolicy ulow ufold J body maxEffort mappings overLimit =
     (if is_empty J body \<or> (reasoningEffortRank ulow maxEffort = None \<and> mappings = []) then (body, False, None)
      else (let requestModel = TrimSpace (get_string J body ''model'')
            in case apply_paths J (effective_effort ulow ufold maxEffort mappings overLimit requestModel) effort_paths body False of
                 Inl e \<Rightarrow> (body, False, Some e)
               | Inr (result, changed) \<Rightarrow> (result, changed, None)))"

text \<open>The bound policy of a request; \<^const>\<open>None\<close> when none is bound.\<close>

definition ApplyOpenAIReasoningEffortPolicyFromContext ::
    "(string \<Rightarrow> string) \<Rightarrow> (string \<Rightarrow> string \<Rightarrow> bool) \<Rightarrow> 'b json_api \<Rightarrow> (string \<times> effort_mapping list \<times> string) option \<Rightarrow> 'b
       \<Rightarrow> 'b \<times> bool \<times> policy_error option" where
  "ApplyOpenAIReasoningEffortPolicyFromContext ulow ufold J bound body =
     (case bound of None \<Rightarrow> (body, False, None)
      | Some (maxEffort, mappings, overLimit) \<Rightarrow> ApplyReasoningEffortPolicy ulow ufold J body maxEffort mappings overLimit)"

definition applyOpenAIWSReasoningEffortPolicy ::
    "(string \<Rightarrow> string) \<Rightarrow> (string \<Rightarrow> string \<Rightarrow> bool) \<Rightarrow> 'b json_api \<Rightarrow> (string \<times> effort_mapping list \<times> string) option \<Rightarrow> 'b
       \<Rightarrow> 'b \<times> policy_error option" where
  "applyOpenAIWSReasoningEffortPolicy ulow ufold J hooks payload =
     (case hooks of None \<Rightarrow> (payload, None)
      | Some (maxEffort, mappings, overLimit) \<Rightarrow>
          if maxEffort = [] \<and> mappings = [] then (payload, None)
          else (case ApplyReasoningEffortPolicy ulow ufold J payload maxEffort mappings overLimit of
                  (capped, changed, Some e) \<Rightarrow> (payload, Some e)
                | (capped, changed, None) \<Rightarrow> (if changed then capped else payload, None)))"

section \<open>Normal forms\<close>

definition effort_names :: "string list" where
  "effort_names = [''minimal'', ''low'', ''medium'', ''high'', ''xhigh'', ''max'']"

lemma effort_plain: "e \<in> insert ''none'' (insert ''deny'' (set effort_names)) \<Longrightarrow> plain_name e \<and> CHR ''-'' \<notin> set e \<and> CHR ''_'' \<notin> set e \<and> CHR '' '' \<notin> set e"
  by (auto simp: effort_names_def plain_name_def is_graphic_def)

lemma RemoveByte_id: "c \<notin> set s \<Longrightarrow> RemoveByte s c = s"
  by (induction s) (auto simp: RemoveByte_def)

lemma Normalize_values: "NormalizeMaxReasoningEffort ulow raw = [] \<or> NormalizeMaxReasoningEffort ulow raw \<in> set effort_names"
  by (auto simp: NormalizeMaxReasoningEffort_def Let_def effort_names_def)

lemma Normalize_fixed [simp]: "e \<in> set effort_names \<Longrightarrow> NormalizeMaxReasoningEffort ulow e = e"
  using effort_plain [of e] by (auto simp: NormalizeMaxReasoningEffort_def Let_def plain_simps RemoveByte_id effort_names_def)

lemma Normalize_Nil [simp]: "NormalizeMaxReasoningEffort ulow [] = []"
  using ToLower_ascii [of "[]" ulow] by (simp add: NormalizeMaxReasoningEffort_def is_ascii_def RemoveByte_def)

lemma Normalize_trim [simp]: "NormalizeMaxReasoningEffort ulow (TrimSpace raw) = NormalizeMaxReasoningEffort ulow raw"
  by (simp add: NormalizeMaxReasoningEffort_def)

lemma Normalize_idem [simp]: "NormalizeMaxReasoningEffort ulow (NormalizeMaxReasoningEffort ulow raw) = NormalizeMaxReasoningEffort ulow raw"
  using Normalize_values [of ulow raw] by auto

lemma effort_not_word: "e \<in> set effort_names \<Longrightarrow> \<not> EqualFold ufold e ''none'' \<and> \<not> EqualFold ufold e ''deny'' \<and> TrimSpace e = e \<and> e \<noteq> []"
  using effort_plain [of e] effort_plain [of "''none''"] effort_plain [of "''deny''"]
  by (auto simp: plain_simps effort_names_def)

lemma word_fixed: "TrimSpace ''none'' = ''none'' \<and> TrimSpace ''deny'' = ''deny'' \<and> EqualFold ufold ''none'' ''none'' \<and> EqualFold ufold ''deny'' ''deny''"
  using effort_plain [of "''none''"] effort_plain [of "''deny''"] by (simp add: plain_simps)

lemma source_values:
  "normalizeReasoningEffortMappingSource ulow ufold raw = [] \<or> normalizeReasoningEffortMappingSource ulow ufold raw = ''none''
   \<or> normalizeReasoningEffortMappingSource ulow ufold raw \<in> set effort_names"
  using Normalize_values by (auto simp: normalizeReasoningEffortMappingSource_def)

lemma Nil_not_word: "\<not> EqualFold ufold [] ''none'' \<and> \<not> EqualFold ufold [] ''deny''"
  by (simp add: EqualFold_def is_ascii_def)

lemma source_idem [simp]:
  "normalizeReasoningEffortMappingSource ulow ufold (normalizeReasoningEffortMappingSource ulow ufold raw)
   = normalizeReasoningEffortMappingSource ulow ufold raw"
  using source_values [of ulow ufold raw] word_fixed Nil_not_word [of ufold] effort_not_word
  by (auto simp: normalizeReasoningEffortMappingSource_def [of ulow ufold "normalizeReasoningEffortMappingSource ulow ufold raw"]
      normalizeReasoningEffortMappingSource_def [of ulow ufold "''none''"] normalizeReasoningEffortMappingSource_def [of ulow ufold "[]"])

lemma target_idem [simp]:
  "normalizeReasoningEffortMappingTarget ulow ufold (normalizeReasoningEffortMappingTarget ulow ufold raw)
   = normalizeReasoningEffortMappingTarget ulow ufold raw"
proof (cases "isReasoningEffortMappingDeny ufold raw")
  case True
  then show ?thesis using word_fixed by (simp add: normalizeReasoningEffortMappingTarget_def isReasoningEffortMappingDeny_def effort_words)
next
  case False
  then show ?thesis using Normalize_values [of ulow raw] Nil_not_word [of ufold] effort_not_word
    by (auto simp: normalizeReasoningEffortMappingTarget_def isReasoningEffortMappingDeny_def effort_words)
qed

lemma match_type_idem:
  "normalizeReasoningEffortMatchType ulow mt m = Inr t \<Longrightarrow> normalizeReasoningEffortMatchType ulow t (TrimSpace m) = Inr t
    \<and> normalizeReasoningEffortMatchType ulow mt (TrimSpace m) = Inr t"
proof -
  have "plain_name ''exact''" "plain_name ''prefix''" "plain_name ''suffix''" by (simp_all add: plain_name_def is_graphic_def)
  then show "normalizeReasoningEffortMatchType ulow mt m = Inr t \<Longrightarrow> normalizeReasoningEffortMatchType ulow t (TrimSpace m) = Inr t
    \<and> normalizeReasoningEffortMatchType ulow mt (TrimSpace m) = Inr t"
    by (auto simp: normalizeReasoningEffortMatchType_def effort_words plain_simps Let_def split: if_splits)
qed

section \<open>Selection\<close>

definition effort_key :: "effort_candidate \<Rightarrow> int \<times> int \<times> int" where
  "effort_key c = (- int (matchStrength c), - int (patternLen c), int (index c))"

lemma better_key: "better a b \<longleftrightarrow> effort_key a < effort_key b"
  by (auto simp: better_def effort_key_def)

lemma fold_better:
  "fold (\<lambda>item best. if better item best then item else best) cs c \<in> set (c # cs)
   \<and> (\<forall>x\<in>set (c # cs). effort_key (fold (\<lambda>item best. if better item best then item else best) cs c) \<le> effort_key x)"
proof (induction cs arbitrary: c)
  case (Cons d cs)
  let ?c = "if better d c then d else c"
  have "effort_key ?c \<le> effort_key c" "effort_key ?c \<le> effort_key d" by (auto simp: better_key)
  with Cons [of ?c] show ?case by (auto intro: order_trans)
qed simp

text \<open>The rank of a mapping for a model: strength of its match, length of its pattern, position.\<close>

definition mapping_applies ::
    "(string \<Rightarrow> string) \<Rightarrow> (string \<Rightarrow> string \<Rightarrow> bool) \<Rightarrow> string \<Rightarrow> string \<Rightarrow> effort_mapping \<Rightarrow> bool" where
  "mapping_applies ulow ufold from requestModel m \<longleftrightarrow>
     normalizeReasoningEffortMappingSource ulow ufold (em_From m) = from
     \<and> (case normalizeReasoningEffortMatchType ulow (em_MatchType m) (em_Model m) of
          Inl e \<Rightarrow> False
        | Inr t \<Rightarrow> requestModelMatchesReasoningEffortMapping ulow requestModel t (em_Model m))"

definition mapping_rank :: "(string \<Rightarrow> string) \<Rightarrow> nat \<Rightarrow> effort_mapping \<Rightarrow> int \<times> int \<times> int" where
  "mapping_rank ulow i m =
     (case normalizeReasoningEffortMatchType ulow (em_MatchType m) (em_Model m) of
        Inl e \<Rightarrow> (0, 0, 0)
      | Inr t \<Rightarrow> (if t = ReasoningEffortMatchExact then (-3, 0, int i)
                 else if t = [] then (-1, 0, int i)
                 else (-2, - int (length (ToLower ulow (TrimSpace (em_Model m)))), int i)))"

lemma match_type_values: "normalizeReasoningEffortMatchType ulow mt m = Inr t \<Longrightarrow>
    t \<in> {[], ReasoningEffortMatchExact, ReasoningEffortMatchPrefix, ReasoningEffortMatchSuffix}"
  by (auto simp: normalizeReasoningEffortMatchType_def Let_def split: if_splits)

lemma match_type_trim [simp]: "normalizeReasoningEffortMatchType ulow mt (TrimSpace m) = normalizeReasoningEffortMatchType ulow mt m"
  by (simp add: normalizeReasoningEffortMatchType_def)

lemma model_matches_trim [simp]:
  "requestModelMatchesReasoningEffortMapping ulow r t (TrimSpace m) = requestModelMatchesReasoningEffortMapping ulow r t m"
  by (simp add: requestModelMatchesReasoningEffortMapping_def)

lemma mapping_candidate_iff:
  "(mapping_candidate ulow ufold from r (i, m) = None \<longleftrightarrow> \<not> mapping_applies ulow ufold from r m)
   \<and> (mapping_candidate ulow ufold from r (i, m) = Some c \<longrightarrow> ec_mapping c = m \<and> index c = i \<and> effort_key c = mapping_rank ulow i m)"
  using match_type_values [of ulow "em_MatchType m" "em_Model m"]
  by (auto simp: mapping_candidate_def mapping_applies_def mapping_rank_def effort_key_def effort_words Let_def split: sum.splits if_splits)

lemma select_spec:
  "case selectReasoningEffortMapping ulow ufold ms from r of
     None \<Rightarrow> filter (mapping_applies ulow ufold from r) ms = []
   | Some m \<Rightarrow> \<exists>i<length ms. m = ms ! i \<and> mapping_applies ulow ufold from r m
       \<and> (\<forall>j<length ms. mapping_applies ulow ufold from r (ms ! j) \<longrightarrow> mapping_rank ulow i m \<le> mapping_rank ulow j (ms ! j))"
proof -
  let ?f = "mapping_candidate ulow ufold from r" and ?A = "mapping_applies ulow ufold from r"
  let ?cs = "List.map_filter ?f (List.enumerate 0 ms)"
  have mem: "c \<in> set ?cs \<longleftrightarrow> (\<exists>i<length ms. ?f (i, ms ! i) = Some c)" for c
    by (auto simp: List.map_filter_def in_set_enumerate_eq image_iff) 
  show ?thesis
  proof (cases ?cs)
    case Nil
    then have "\<not> ?A (ms ! i)" if "i < length ms" for i
      using mem mapping_candidate_iff [of ulow ufold "from" r i "ms ! i"] that by fastforce
    then have "filter ?A ms = []" by (auto simp: filter_empty_conv in_set_conv_nth)
    with Nil show ?thesis by (simp add: selectReasoningEffortMapping_def)
  next
    case (Cons c cs)
    let ?b = "fold (\<lambda>item best. if better item best then item else best) cs c"
    from fold_better [of cs c] Cons have b: "?b \<in> set ?cs" "\<forall>x\<in>set ?cs. effort_key ?b \<le> effort_key x" by auto
    from b(1) obtain i where i: "i < length ms" "?f (i, ms ! i) = Some ?b" unfolding mem by blast
    note bi = mapping_candidate_iff [of ulow ufold "from" r i "ms ! i" ?b]
    have "mapping_rank ulow i (ms ! i) \<le> mapping_rank ulow j (ms ! j)" if "j < length ms" "?A (ms ! j)" for j
    proof -
      note j = that
      obtain x where x: "?f (j, ms ! j) = Some x" using j(2) mapping_candidate_iff [of ulow ufold "from" r j "ms ! j"] by blast
      then have "x \<in> set ?cs" using j(1) unfolding mem by blast
      with b(2) x i(2) bi mapping_candidate_iff [of ulow ufold "from" r j "ms ! j" x] show ?thesis by auto
    qed
    moreover have "?A (ms ! i)" "ec_mapping ?b = ms ! i" using i(2) bi by auto
    ultimately show ?thesis using i(1) Cons by (auto simp: selectReasoningEffortMapping_def)
  qed
qed

section \<open>Normalised mappings\<close>

definition normal_mapping :: "(string \<Rightarrow> string) \<Rightarrow> (string \<Rightarrow> string \<Rightarrow> bool) \<Rightarrow> effort_mapping \<Rightarrow> effort_mapping" where
  "normal_mapping ulow ufold m =
     \<lparr>em_From = normalizeReasoningEffortMappingSource ulow ufold (em_From m),
      em_To = normalizeReasoningEffortMappingTarget ulow ufold (em_To m),
      em_MatchType = (case normalizeReasoningEffortMatchType ulow (em_MatchType m) (em_Model m) of Inl e \<Rightarrow> [] | Inr t \<Rightarrow> t),
      em_Model = TrimSpace (em_Model m)\<rparr>"

definition mapping_key :: "(string \<Rightarrow> string) \<Rightarrow> effort_mapping \<Rightarrow> string" where
  "mapping_key ulow m = reasoningEffortMappingDuplicateKey ulow (em_From m) (em_MatchType m) (em_Model m)"

definition valid_effort :: "string \<Rightarrow> string \<Rightarrow> string \<Rightarrow> bool" where
  "valid_effort platform word e \<longleftrightarrow> reasoningEffortValuesForPlatform platform \<noteq> [] \<and> (e = word \<or> e \<in> set (reasoningEffortValuesForPlatform platform))"

definition valid_mapping :: "(string \<Rightarrow> string) \<Rightarrow> string \<Rightarrow> effort_mapping \<Rightarrow> bool" where
  "valid_mapping ulow platform m \<longleftrightarrow> valid_effort platform ''none'' (em_From m) \<and> valid_effort platform ''deny'' (em_To m)
     \<and> length (em_Model m) \<le> maxReasoningEffortModelLen
     \<and> (case normalizeReasoningEffortMatchType ulow (em_MatchType m) (em_Model m) of Inl e \<Rightarrow> False | Inr t \<Rightarrow> True)"

lemma platform_values: "set (reasoningEffortValuesForPlatform p) \<subseteq> set effort_names"
  by (auto simp: reasoningEffortValuesForPlatform_def openAIReasoningEffortValues_def anthropicReasoningEffortValues_def effort_names_def)

lemma for_platform:
  assumes "e \<in> set effort_names"
  shows "normalizeMaxReasoningEffortForPlatform ulow p e =
    (if reasoningEffortValuesForPlatform p = [] then Inl UnsupportedPlatform
     else if e \<in> set (reasoningEffortValuesForPlatform p) then Inr e else Inl (UnsupportedValue e p))"
  using assms effort_not_word [OF assms] by (simp add: normalizeMaxReasoningEffortForPlatform_def)

lemma effort_length: "e \<in> insert ''none'' (insert ''deny'' (set effort_names)) \<Longrightarrow> length e \<le> maxReasoningEffortValueLen"
  by (auto simp: effort_names_def maxReasoningEffortValueLen_def)

lemma target_values:
  "normalizeReasoningEffortMappingTarget ulow ufold raw = [] \<or> normalizeReasoningEffortMappingTarget ulow ufold raw = ''deny''
   \<or> normalizeReasoningEffortMappingTarget ulow ufold raw \<in> set effort_names"
  using Normalize_values by (auto simp: normalizeReasoningEffortMappingTarget_def effort_words)

lemma none_not_name: "''none'' \<notin> set effort_names" "''deny'' \<notin> set effort_names" by (simp_all add: effort_names_def)

text \<open>A mapping is accepted exactly when its normal form is valid and its key is new.\<close>

lemma check_mapping_iff:
  "check_mapping ulow ufold p i seen m = Inr m' \<longleftrightarrow>
     m' = normal_mapping ulow ufold m \<and> mapping_key ulow m' \<notin> set seen \<and> valid_mapping ulow p m'
     \<and> (case normalizeReasoningEffortMatchType ulow (em_MatchType m) (em_Model m) of Inl e \<Rightarrow> False | Inr t \<Rightarrow> True)"
proof -
  define fr tt mo R vals where "fr = normalizeReasoningEffortMappingSource ulow ufold (em_From m)"
    and "tt = normalizeReasoningEffortMappingTarget ulow ufold (em_To m)" and "mo = TrimSpace (em_Model m)"
    and "R = normalizeReasoningEffortMatchType ulow (em_MatchType m) (em_Model m)" and "vals = reasoningEffortValuesForPlatform p"
  note folds = fr_def [symmetric] tt_def [symmetric] R_def [symmetric] mo_def [symmetric] vals_def [symmetric]
  define S where "S = (if fr \<noteq> ''none'' then map_sum id (\<lambda>x. ()) (normalizeMaxReasoningEffortForPlatform ulow p fr)
      else if vals = [] then Inl UnsupportedPlatform else Inr ())"
  define T where "T = (if tt \<noteq> ReasoningEffortMappingDeny then map_sum id (\<lambda>x. ()) (normalizeMaxReasoningEffortForPlatform ulow p tt)
      else if vals = [] then Inl UnsupportedPlatform else Inr ())"
  have fro: "fr = [] \<or> fr = ''none'' \<or> fr \<in> set effort_names" unfolding fr_def by (rule source_values)
  have tto: "tt = [] \<or> tt = ''deny'' \<or> tt \<in> set effort_names" unfolding tt_def by (rule target_values)
  have no_vals: "[] \<notin> set vals" using platform_values [of p] effort_not_word unfolding vals_def by blast
  have len: "fr \<noteq> [] \<Longrightarrow> \<not> maxReasoningEffortValueLen < length fr" "tt \<noteq> [] \<Longrightarrow> \<not> maxReasoningEffortValueLen < length tt"
    using fro tto effort_length by (auto simp: not_less)
  have src: "S = Inr () \<longleftrightarrow> valid_effort p ''none'' fr" if "fr \<noteq> []"
    using fro that none_not_name by (auto simp: S_def for_platform valid_effort_def vals_def split: if_splits)
  have tgt: "T = Inr () \<longleftrightarrow> valid_effort p ''deny'' tt" if "tt \<noteq> []"
    using tto that none_not_name by (auto simp: T_def for_platform valid_effort_def vals_def effort_words split: if_splits)
  have nonempty: "valid_effort p ''none'' fr \<Longrightarrow> fr \<noteq> []" "valid_effort p ''deny'' tt \<Longrightarrow> tt \<noteq> []"
    using no_vals by (auto simp: valid_effort_def vals_def)
  have R_mo: "normalizeReasoningEffortMatchType ulow (em_MatchType m) mo = R" by (simp add: R_def mo_def)
  have check: "check_mapping ulow ufold p i seen m =
     (if fr = [] \<or> tt = [] then Inl (UnknownValue i)
      else case S of Inl e \<Rightarrow> Inl (MappingSource i e)
         | Inr _ \<Rightarrow> (case T of Inl e \<Rightarrow> Inl (MappingTarget i e)
              | Inr _ \<Rightarrow> if maxReasoningEffortModelLen < length mo then Inl (TooLongModel i)
                  else (case R of Inl e \<Rightarrow> Inl (MappingMatch i e)
                        | Inr t \<Rightarrow> if reasoningEffortMappingDuplicateKey ulow fr t mo \<in> set seen
                            then (if mo = [] then Inl (DuplicateSource fr) else Inl (DuplicateScoped fr t (ToLower ulow mo)))
                            else Inr \<lparr>em_From = fr, em_To = tt, em_MatchType = t, em_Model = mo\<rparr>)))"
    unfolding check_mapping_def Let_def match_type_trim folds R_mo S_def [symmetric] T_def [symmetric] using len by simp
  show ?thesis
  proof (cases R)
    case (Inl e)
    then show ?thesis unfolding check folds by (auto split: sum.splits)
  next
    case (Inr t)
    have "normalizeReasoningEffortMatchType ulow t mo = Inr t"
      using match_type_idem [of ulow "em_MatchType m" "em_Model m" t] Inr by (simp add: R_def mo_def)
    then have valid: "valid_mapping ulow p (normal_mapping ulow ufold m) \<longleftrightarrow>
        valid_effort p ''none'' fr \<and> valid_effort p ''deny'' tt \<and> length mo \<le> maxReasoningEffortModelLen"
      using Inr by (simp add: valid_mapping_def normal_mapping_def folds)
    have normal: "normal_mapping ulow ufold m = \<lparr>em_From = fr, em_To = tt, em_MatchType = t, em_Model = mo\<rparr>"
      using Inr by (simp add: normal_mapping_def folds)
    have key: "mapping_key ulow (normal_mapping ulow ufold m) = reasoningEffortMappingDuplicateKey ulow fr t mo"
      by (simp add: normal mapping_key_def)
    have "S = Inr () \<or> (\<exists>e. S = Inl e)" "T = Inr () \<or> (\<exists>e. T = Inl e)" by (metis old.unit.exhaust sum.exhaust)+
    then show ?thesis unfolding check folds Inr using valid key normal src tgt nonempty
      by (auto simp: not_less split: if_splits)
  qed
qed

lemma normalize_mappings_spec:
  "normalize_mappings ulow ufold p i seen raw = Inr out \<Longrightarrow> out = map (normal_mapping ulow ufold) raw
   \<and> list_all (valid_mapping ulow p) out \<and> distinct (map (mapping_key ulow) out) \<and> set (map (mapping_key ulow) out) \<inter> set seen = {}
   \<and> list_all (\<lambda>m. case normalizeReasoningEffortMatchType ulow (em_MatchType m) (em_Model m) of Inl e \<Rightarrow> False | Inr t \<Rightarrow> True) raw"
proof (induction raw arbitrary: i seen out)
  case (Cons m raw)
  from Cons.prems obtain m' where m': "check_mapping ulow ufold p i seen m = Inr m'" by (auto split: sum.splits)
  let ?rest = "normalize_mappings ulow ufold p (i + 1) (mapping_key ulow m' # seen) raw"
  have "map_sum id (\<lambda>ms. m' # ms) ?rest = Inr out" using Cons.prems m' by (simp add: mapping_key_def)
  then obtain ms where ms: "?rest = Inr ms" and out: "out = m' # ms" by (cases ?rest) auto
  from m' have "m' = normal_mapping ulow ufold m" "mapping_key ulow m' \<notin> set seen" "valid_mapping ulow p m'"
    "case normalizeReasoningEffortMatchType ulow (em_MatchType m) (em_Model m) of Inl e \<Rightarrow> False | Inr t \<Rightarrow> True"
    unfolding check_mapping_iff by blast+
  moreover have "set (map (mapping_key ulow) ms) \<inter> set seen = {}" "mapping_key ulow m' \<notin> set (map (mapping_key ulow) ms)"
    using conjunct1 [OF conjunct2 [OF conjunct2 [OF conjunct2 [OF Cons.IH [OF ms]]]]]
    unfolding disjoint_iff list.set by blast+
  moreover have "ms = map (normal_mapping ulow ufold) raw" "list_all (valid_mapping ulow p) ms" "distinct (map (mapping_key ulow) ms)"
    "list_all (\<lambda>m. case normalizeReasoningEffortMatchType ulow (em_MatchType m) (em_Model m) of Inl e \<Rightarrow> False | Inr t \<Rightarrow> True) raw"
    using Cons.IH [OF ms] by blast+
  ultimately show ?case using out by simp
qed simp

lemma normalize_mappings_valid:
  "list_all (valid_mapping ulow p) ms \<Longrightarrow> distinct (map (mapping_key ulow) ms) \<Longrightarrow> set (map (mapping_key ulow) ms) \<inter> set seen = {}
   \<Longrightarrow> list_all (\<lambda>m. normal_mapping ulow ufold m = m) ms \<Longrightarrow> normalize_mappings ulow ufold p i seen ms = Inr ms"
proof (induction ms arbitrary: i seen)
  case (Cons m ms)
  then have "check_mapping ulow ufold p i seen m = Inr m" by (simp add: check_mapping_iff valid_mapping_def)
  moreover have "normalize_mappings ulow ufold p (i + 1) (mapping_key ulow m # seen) ms = Inr ms" by (rule Cons.IH) (use Cons.prems in auto)
  ultimately show ?case by (simp add: mapping_key_def)
qed simp

lemma normal_mapping_idem:
  "(case normalizeReasoningEffortMatchType ulow (em_MatchType m) (em_Model m) of Inl e \<Rightarrow> False | Inr t \<Rightarrow> True) \<Longrightarrow>
   normal_mapping ulow ufold (normal_mapping ulow ufold m) = normal_mapping ulow ufold m"
  using match_type_idem [of ulow "em_MatchType m" "em_Model m"] by (auto simp: normal_mapping_def split: sum.splits)

lemma applies_normal:
  assumes "case normalizeReasoningEffortMatchType ulow (em_MatchType m) (em_Model m) of Inl e \<Rightarrow> False | Inr t \<Rightarrow> True"
  shows "mapping_applies ulow ufold f r (normal_mapping ulow ufold m) = mapping_applies ulow ufold f r m"
    and "mapping_rank ulow i (normal_mapping ulow ufold m) = mapping_rank ulow i m"
    and "snd (snd (mapping_rank ulow i m)) = int i"
  using assms match_type_idem [of ulow "em_MatchType m" "em_Model m"]
  by (auto simp: normal_mapping_def mapping_applies_def mapping_rank_def split: sum.splits)

lemma select_normal:
  assumes "list_all (\<lambda>m. case normalizeReasoningEffortMatchType ulow (em_MatchType m) (em_Model m) of Inl e \<Rightarrow> False | Inr t \<Rightarrow> True) raw"
  shows "selectReasoningEffortMapping ulow ufold (map (normal_mapping ulow ufold) raw) f r
    = map_option (normal_mapping ulow ufold) (selectReasoningEffortMapping ulow ufold raw f r)"
proof -
  let ?n = "normal_mapping ulow ufold" and ?A = "mapping_applies ulow ufold f r"
  have ok: "?A (?n (raw ! i)) = ?A (raw ! i)" "mapping_rank ulow k (?n (raw ! i)) = mapping_rank ulow k (raw ! i)"
      "snd (snd (mapping_rank ulow k (raw ! i))) = int k" if "i < length raw" for i k
    using assms that applies_normal by (auto simp: list_all_length)
  note a = select_spec [of ulow ufold f r raw] and b = select_spec [of ulow ufold f r "map ?n raw"]
  show ?thesis
  proof (cases "selectReasoningEffortMapping ulow ufold raw f r")
    case None
    then have "\<not> ?A (raw ! i)" if "i < length raw" for i using a that by (auto simp: filter_empty_conv)
    then show ?thesis using b None ok by (auto split: option.splits)
  next
    case (Some m)
    then obtain i where i: "i < length raw" "m = raw ! i" "?A m"
        "\<forall>j<length raw. ?A (raw ! j) \<longrightarrow> mapping_rank ulow i m \<le> mapping_rank ulow j (raw ! j)" using a by auto
    have "?A (?n (raw ! i))" using i ok by simp
    then have "filter ?A (map ?n raw) \<noteq> []" using i(1) nth_mem [OF i(1)] unfolding filter_empty_conv by auto
    then obtain m' where m': "selectReasoningEffortMapping ulow ufold (map ?n raw) f r = Some m'" using b by (auto split: option.splits)
    then obtain j where j: "j < length raw" "m' = ?n (raw ! j)" "?A m'"
        "\<forall>k<length raw. ?A (?n (raw ! k)) \<longrightarrow> mapping_rank ulow j m' \<le> mapping_rank ulow k (?n (raw ! k))" using b by auto
    have "mapping_rank ulow i (raw ! i) \<le> mapping_rank ulow j (raw ! j)" using i j ok by simp
    moreover have "mapping_rank ulow j (raw ! j) \<le> mapping_rank ulow i (raw ! i)" using i j ok by simp
    ultimately have "i = j" using ok(3) [OF i(1), of i] ok(3) [OF j(1), of j] by (metis antisym of_nat_eq_iff)
    then show ?thesis using Some m' i j by simp
  qed
qed

lemma mappings_normal_form:
  assumes "NormalizeReasoningEffortMappings ulow ufold p raw = Inr out"
  shows "NormalizeReasoningEffortMappings ulow ufold p out = Inr out
    \<and> length out \<le> maxReasoningEffortMappings \<and> list_all (valid_mapping ulow p) out \<and> distinct (map (mapping_key ulow) out)
    \<and> selectReasoningEffortMapping ulow ufold out f r = map_option (normal_mapping ulow ufold) (selectReasoningEffortMapping ulow ufold raw f r)"
proof -
  have len: "length raw \<le> maxReasoningEffortMappings" and "normalize_mappings ulow ufold p 1 [] raw = Inr out"
    using assms by (auto simp: NormalizeReasoningEffortMappings_def split: if_splits)
  note spec = normalize_mappings_spec [OF this(2)]
  have "list_all (\<lambda>m. normal_mapping ulow ufold m = m) out"
    using spec normal_mapping_idem by (auto simp: list_all_iff)
  then have "normalize_mappings ulow ufold p 1 [] out = Inr out" using spec by (intro normalize_mappings_valid) blast+
  moreover have "length out = length raw" using spec by simp
  ultimately have "NormalizeReasoningEffortMappings ulow ufold p out = Inr out"
    using len by (simp add: NormalizeReasoningEffortMappings_def)
  moreover have "list_all (valid_mapping ulow p) out" "distinct (map (mapping_key ulow) out)" "length out = length raw"
      "out = map (normal_mapping ulow ufold) raw" using spec by auto
  moreover have "selectReasoningEffortMapping ulow ufold out f r = map_option (normal_mapping ulow ufold) (selectReasoningEffortMapping ulow ufold raw f r)"
    using select_normal [of ulow raw ufold f r] spec by metis
  ultimately show ?thesis using len by simp
qed

text \<open>
  What an administrator's list of mappings becomes: an accepted list is stored in normal form, with
  valid efforts and different keys; it is accepted again without a change; and for every effort and
  model it selects the normal form of the mapping that the submitted list selects.
\<close>

theorem effort_mappings_normal_form:
  assumes "NormalizeReasoningEffortMappings ulow ufold p raw = Inr out"
  shows "NormalizeReasoningEffortMappings ulow ufold p out = Inr out
    \<and> length out \<le> maxReasoningEffortMappings \<and> list_all (valid_mapping ulow p) out \<and> distinct (map (mapping_key ulow) out)
    \<and> selectReasoningEffortMapping ulow ufold out f r = map_option (normal_mapping ulow ufold) (selectReasoningEffortMapping ulow ufold raw f r)"
  using mappings_normal_form [OF assms] .

section \<open>The ceiling\<close>

text \<open>What is documented of \<^verbatim>\<open>gjson\<close> and \<^verbatim>\<open>sjson\<close>: a string that is there can be replaced, and nothing else changes.
  This is for bodies that name a member once and for efforts in well-formed UTF-8: \<^verbatim>\<open>sjson\<close> writes other bytes as
  the replacement character, and of two members with one name both libraries use the first.\<close>

definition json_laws :: "'b json_api \<Rightarrow> bool" where
  "json_laws J \<longleftrightarrow> (\<forall>b. \<forall>p\<in>set effort_paths. \<forall>v. is_string J b p \<longrightarrow>
     (\<exists>b'. set_string J b p v = Some b' \<and> is_string J b' p \<and> get_string J b' p = v
       \<and> (\<forall>q\<in>set effort_paths - {p}. is_string J b' q = is_string J b q \<and> get_string J b' q = get_string J b q)))"

lemma json_lawsE:
  assumes "json_laws J" and "p \<in> set effort_paths" and "is_string J b p"
  obtains b' where "set_string J b p v = Some b'" "is_string J b' p" "get_string J b' p = v"
    "\<And>q. q \<in> set effort_paths \<Longrightarrow> q \<noteq> p \<Longrightarrow> is_string J b' q = is_string J b q \<and> get_string J b' q = get_string J b q"
  using assms unfolding json_laws_def by blast

definition within_rank :: "(string \<Rightarrow> string) \<Rightarrow> int \<Rightarrow> string \<Rightarrow> bool" where
  "within_rank ulow r effort \<longleftrightarrow> (case reasoningEffortRank ulow effort of None \<Rightarrow> True | Some k \<Rightarrow> k \<le> r)"

lemma rank_Normalize [simp]: "reasoningEffortRank ulow (NormalizeMaxReasoningEffort ulow e) = reasoningEffortRank ulow e"
  by (simp add: reasoningEffortRank_def)

lemma rank_trim [simp]: "reasoningEffortRank ulow (TrimSpace e) = reasoningEffortRank ulow e"
  by (simp add: reasoningEffortRank_def)

lemma rank_Nil [simp]: "reasoningEffortRank ulow [] = None"
  by (simp add: reasoningEffortRank_def)

lemma effective_within:
  assumes "effective_effort ulow ufold mx ms over r original = Inr e" and "reasoningEffortRank ulow mx = Some k"
  shows "within_rank ulow k e"
  using assms by (auto simp: effective_effort_def within_rank_def Let_def split: prod.splits if_splits option.splits)

lemma apply_paths_within:
  assumes "json_laws J" and "\<And>original e. eff original = Inr e \<Longrightarrow> within_rank ulow k e"
    and "apply_paths J eff paths body ch = Inr (out, ch')" and "distinct paths" and "set paths \<subseteq> set effort_paths"
  shows "(\<forall>p\<in>set paths. is_string J out p \<longrightarrow> within_rank ulow k (get_string J out p))
    \<and> (\<forall>q\<in>set effort_paths - set paths. is_string J out q = is_string J body q \<and> get_string J out q = get_string J body q)"
  using assms(3-)
proof (induction paths arbitrary: body ch)
  case (Cons p paths)
  let ?original = "TrimSpace (get_string J body p)"
  have p: "p \<in> set effort_paths" "p \<notin> set paths" and rest: "distinct paths" "set paths \<subseteq> set effort_paths" using Cons.prems by auto
  have keep: ?case if "apply_paths J eff paths body ch = Inr (out, ch')" "is_string J body p \<longrightarrow> within_rank ulow k (get_string J body p)"
    using Cons.IH [OF that(1) rest] that(2) p by (auto simp: within_rank_def)
  show ?case
  proof (cases "is_string J body p \<and> ?original \<noteq> []")
    case False
    have "TrimSpace (get_string J body p) = [] \<Longrightarrow> within_rank ulow k (get_string J body p)"
      using rank_trim [of ulow "get_string J body p"] by (simp add: within_rank_def)
    then show ?thesis using keep Cons.prems(1) False by (auto split: if_splits)
  next
    case True
    then obtain e where e: "eff ?original = Inr e" using Cons.prems(1) by (auto simp: Let_def split: sum.splits)
    have within: "within_rank ulow k e" using assms(2) e by blast
    show ?thesis
    proof (cases "e = ?original")
      case same: True
      then have "within_rank ulow k (get_string J body p)" using within by (simp add: within_rank_def)
      then show ?thesis using keep Cons.prems(1) True e same by simp
    next
      case False
      obtain b' where b': "set_string J body p e = Some b'" "is_string J b' p" "get_string J b' p = e"
        "\<And>q. q \<in> set effort_paths \<Longrightarrow> q \<noteq> p \<Longrightarrow> is_string J b' q = is_string J body q \<and> get_string J b' q = get_string J body q"
        using json_lawsE [OF assms(1) p(1)] True by metis
      have "apply_paths J eff paths b' True = Inr (out, ch')" using Cons.prems(1) True e False b'(1) by simp
      from Cons.IH [OF this rest] show ?thesis using b' within p by auto
    qed
  qed
qed simp

text \<open>
  C16. The ceiling holds: a request that passes the policy carries no effort above the ceiling of the
  group, in any of the three places where a request can name one, whatever the mappings are.
\<close>

theorem reasoning_effort_capped:
  assumes "json_laws J" and "\<not> is_empty J body" and "reasoningEffortRank ulow mx = Some k"
    and "ApplyReasoningEffortPolicy ulow ufold J body mx ms over = (out, changed, None)"
  shows "list_all (\<lambda>p. is_string J out p \<longrightarrow> within_rank ulow k (get_string J out p)) effort_paths"
proof -
  have "apply_paths J (effective_effort ulow ufold mx ms over (TrimSpace (get_string J body ''model''))) effort_paths body False = Inr (out, changed)"
    using assms(2-) by (auto simp: ApplyReasoningEffortPolicy_def Let_def split: sum.splits)
  from apply_paths_within [OF assms(1) _ this] effective_within [OF _ assms(3)]
  have "\<forall>p\<in>set effort_paths. is_string J out p \<longrightarrow> within_rank ulow k (get_string J out p)"
    by (auto simp: effort_paths_def)
  then show ?thesis by (simp add: list_all_iff)
qed

text \<open>A body as a map from paths to strings.\<close>

definition map_json :: "(string \<Rightarrow> string option) json_api" where
  "map_json = \<lparr>is_empty = (\<lambda>b. False), is_string = (\<lambda>b p. b p \<noteq> None), get_string = (\<lambda>b p. case b p of None \<Rightarrow> [] | Some s \<Rightarrow> s),
     set_string = (\<lambda>b p v. Some (b(p \<mapsto> v)))\<rparr>"

lemma json_laws_map: "json_laws map_json"
  by (auto simp: json_laws_def map_json_def)

lemma demo_policy:
  "ApplyReasoningEffortPolicy id (=) map_json [''reasoning.effort'' \<mapsto> ''max''] ''high'' [] ''''
   = ([''reasoning.effort'' \<mapsto> ''high''], True, None)"
proof -
  have e: "''high'' \<in> set effort_names" "''max'' \<in> set effort_names" by (simp_all add: effort_names_def)
  note n = Normalize_fixed [OF e(1)] Normalize_fixed [OF e(2)]
  have t: "TrimSpace ''max'' = ''max''" "TrimSpace ''high'' = ''high''" using effort_not_word [OF e(1)] effort_not_word [OF e(2)] by simp_all
  have low: "NormalizeMaxReasoningEffortOverLimit id [] = ReasoningEffortOverLimitDowngrade"
    using ToLower_ascii [of "[]" id] by (simp add: NormalizeMaxReasoningEffortOverLimit_def is_ascii_def)
  show ?thesis
    by (simp add: ApplyReasoningEffortPolicy_def map_json_def effort_paths_def effective_effort_def mapReasoningEffort_def
        selectReasoningEffortMapping_def List.map_filter_def reasoningEffortRank_def n t low effort_words Let_def fun_upd_upd split: if_splits)
qed

theorem reasoning_effort_capped_witness:
  "within_rank id 4 (get_string map_json [''reasoning.effort'' \<mapsto> ''high''] ''reasoning.effort'')"
proof -
  have "reasoningEffortRank id ''high'' = Some 4" by (simp add: reasoningEffortRank_def effort_names_def)
  from reasoning_effort_capped [OF json_laws_map _ this demo_policy] show ?thesis
    by (simp add: map_json_def effort_paths_def)
qed

section \<open>Refusing\<close>

lemma no_mappings: "effective_effort ulow ufold mx [] over r original =
   (case reasoningEffortRank ulow original of
      None \<Rightarrow> Inr (TrimSpace original)
    | Some c \<Rightarrow> (case reasoningEffortRank ulow mx of
        None \<Rightarrow> Inr (NormalizeMaxReasoningEffort ulow original)
      | Some k \<Rightarrow> if k < c
          then (if NormalizeMaxReasoningEffortOverLimit ulow over = ReasoningEffortOverLimitDeny
                then Inl (ReasoningEffortOverLimitError (NormalizeMaxReasoningEffort ulow original) (NormalizeMaxReasoningEffort ulow mx))
                else Inr (NormalizeMaxReasoningEffort ulow mx))
          else Inr (NormalizeMaxReasoningEffort ulow original)))"
  by (auto simp: effective_effort_def mapReasoningEffort_def selectReasoningEffortMapping_def List.map_filter_def Let_def split: option.splits)

lemma apply_paths_refuses:
  assumes "json_laws J" and "\<And>original. (\<exists>e. eff original = Inl e) \<longleftrightarrow> \<not> within_rank ulow k original"
    and "distinct paths" and "set paths \<subseteq> set effort_paths"
  shows "(\<exists>e. apply_paths J eff paths body ch = Inl e) \<longleftrightarrow> (\<exists>p\<in>set paths. is_string J body p \<and> \<not> within_rank ulow k (get_string J body p))"
  using assms(3-)
proof (induction paths arbitrary: body ch)
  case (Cons p paths)
  let ?original = "TrimSpace (get_string J body p)"
  have p: "p \<in> set effort_paths" "p \<notin> set paths" and rest: "distinct paths" "set paths \<subseteq> set effort_paths" using Cons.prems by auto
  have trim: "within_rank ulow k ?original = within_rank ulow k (get_string J body p)" by (simp add: within_rank_def)
  show ?case
  proof (cases "is_string J body p \<and> ?original \<noteq> []")
    case False
    have "?original = [] \<Longrightarrow> within_rank ulow k (get_string J body p)" using trim by (simp add: within_rank_def)
    then show ?thesis using Cons.IH [OF rest, of body ch] False by auto
  next
    case True
    show ?thesis
    proof (cases "eff ?original")
      case (Inl e)
      then have "\<not> within_rank ulow k (get_string J body p)" using assms(2) trim by blast
      then show ?thesis using True Inl by auto
    next
      case (Inr e)
      then have within: "within_rank ulow k (get_string J body p)" using assms(2) [of ?original] trim by fastforce
      show ?thesis
      proof (cases "e = ?original")
        case same: True
        then show ?thesis using True Inr Cons.IH [OF rest, of body ch] within by auto
      next
        case False
        obtain b' where b': "set_string J body p e = Some b'"
          "\<And>q. q \<in> set effort_paths \<Longrightarrow> q \<noteq> p \<Longrightarrow> is_string J b' q = is_string J body q \<and> get_string J b' q = get_string J body q"
          using json_lawsE [OF assms(1) p(1)] True by metis
        have "(\<exists>q\<in>set paths. is_string J b' q \<and> \<not> within_rank ulow k (get_string J b' q))
          \<longleftrightarrow> (\<exists>q\<in>set paths. is_string J body q \<and> \<not> within_rank ulow k (get_string J body q))"
          using b'(2) p(2) rest(2) by (metis subsetD)
        then show ?thesis using True Inr False b'(1) Cons.IH [OF rest, of b' True] within by auto
      qed
    qed
  qed
qed simp

text \<open>
  With the action \<^verbatim>\<open>deny\<close> and no mappings a request is refused exactly when one of its efforts is above the
  ceiling, and a refused body is left alone.
\<close>

theorem over_limit_denied:
  assumes "json_laws J" and "\<not> is_empty J body" and "reasoningEffortRank ulow mx = Some k"
    and "NormalizeMaxReasoningEffortOverLimit ulow over = ReasoningEffortOverLimitDeny"
  shows "(case ApplyReasoningEffortPolicy ulow ufold J body mx [] over of (out, changed, err) \<Rightarrow>
      if list_ex (\<lambda>p. is_string J body p \<and> \<not> within_rank ulow k (get_string J body p)) effort_paths
      then err \<noteq> None \<and> out = body \<and> \<not> changed else err = None)"
proof -
  let ?eff = "effective_effort ulow ufold mx [] over (TrimSpace (get_string J body ''model''))"
  have "(\<exists>e. ?eff original = Inl e) \<longleftrightarrow> \<not> within_rank ulow k original" for original
    using assms(3,4) by (auto simp: no_mappings within_rank_def split: option.split)
  from apply_paths_refuses [OF assms(1) this, of effort_paths body False]
  have "(\<exists>e. apply_paths J ?eff effort_paths body False = Inl e)
      \<longleftrightarrow> list_ex (\<lambda>p. is_string J body p \<and> \<not> within_rank ulow k (get_string J body p)) effort_paths"
    by (simp add: list_ex_iff effort_paths_def)
  then show ?thesis using assms(2,3)
    by (cases "apply_paths J ?eff effort_paths body False") (auto simp: ApplyReasoningEffortPolicy_def)
qed

theorem over_limit_denied_witness:
  "snd (snd (ApplyReasoningEffortPolicy id (=) map_json [''reasoning_effort'' \<mapsto> ''max''] ''high'' [] ''deny'')) \<noteq> None"
proof -
  have e: "''high'' \<in> set effort_names" "''max'' \<in> set effort_names" by (simp_all add: effort_names_def)
  have r: "reasoningEffortRank id ''high'' = Some 4" "reasoningEffortRank id ''max'' = Some 6"
    using Normalize_fixed [OF e(1)] Normalize_fixed [OF e(2)] by (simp_all add: reasoningEffortRank_def)
  have "plain_name ''deny''" using effort_plain by blast
  then have "NormalizeMaxReasoningEffortOverLimit id ''deny'' = ReasoningEffortOverLimitDeny"
    by (simp add: NormalizeMaxReasoningEffortOverLimit_def plain_simps effort_words)
  from over_limit_denied [OF json_laws_map _ r(1) this, of "[''reasoning_effort'' \<mapsto> ''max'']" "(=)"]
  show ?thesis by (auto simp: map_json_def effort_paths_def within_rank_def r split: prod.splits)
qed

section \<open>Stored groups\<close>

text \<open>
  Sanitising the policy of a stored group is stable, and what it leaves is valid for the platform
  of the group.
\<close>

theorem sanitized_policy_valid:
  "sanitizeGroupReasoningEffortPolicy ulow ufold (sanitizeGroupReasoningEffortPolicy ulow ufold g) = sanitizeGroupReasoningEffortPolicy ulow ufold g
   \<and> MaxReasoningEffort (sanitizeGroupReasoningEffortPolicy ulow ufold g) \<in> insert [] (set (reasoningEffortValuesForPlatform (Platform g)))
   \<and> list_all (valid_mapping ulow (Platform g)) (ReasoningEffortMappings (sanitizeGroupReasoningEffortPolicy ulow ufold g))"
proof -
  let ?g = "sanitizeGroupReasoningEffortPolicy ulow ufold g" and ?p = "Platform g"
  have plat: "Platform ?g = ?p" by (simp add: sanitizeGroupReasoningEffortPolicy_def Let_def)
  have max: "MaxReasoningEffort ?g \<in> insert [] (set (reasoningEffortValuesForPlatform ?p))"
    by (auto simp: sanitizeGroupReasoningEffortPolicy_def normalizeMaxReasoningEffortForPlatform_def Let_def split: sum.splits if_splits)
  have max2: "normalizeMaxReasoningEffortForPlatform ulow ?p (MaxReasoningEffort ?g) = Inr (MaxReasoningEffort ?g)"
  proof (cases "MaxReasoningEffort ?g = []")
    case False
    then have "MaxReasoningEffort ?g \<in> set (reasoningEffortValuesForPlatform ?p)" using max by simp
    then show ?thesis using platform_values [of ?p] for_platform [of "MaxReasoningEffort ?g" ulow ?p] by (auto split: if_splits)
  qed (simp add: normalizeMaxReasoningEffortForPlatform_def)
  have maps: "NormalizeReasoningEffortMappings ulow ufold ?p (ReasoningEffortMappings ?g) = Inr (ReasoningEffortMappings ?g)
      \<and> list_all (valid_mapping ulow ?p) (ReasoningEffortMappings ?g)"
  proof (cases "NormalizeReasoningEffortMappings ulow ufold ?p (ReasoningEffortMappings g)")
    case (Inl e)
    then have "ReasoningEffortMappings ?g = []" by (simp add: sanitizeGroupReasoningEffortPolicy_def Let_def)
    then show ?thesis by (simp add: NormalizeReasoningEffortMappings_def)
  next
    case (Inr ms)
    then have "ReasoningEffortMappings ?g = ms" by (simp add: sanitizeGroupReasoningEffortPolicy_def Let_def)
    then show ?thesis using mappings_normal_form [OF Inr] by simp
  qed
  have plain: "plain_name ''downgrade''" "plain_name ''deny''" by (simp_all add: plain_name_def is_graphic_def)
  have over: "NormalizeMaxReasoningEffortOverLimit ulow ReasoningEffortOverLimitDowngrade = ReasoningEffortOverLimitDowngrade"
    "NormalizeMaxReasoningEffortOverLimit ulow ReasoningEffortOverLimitDeny = ReasoningEffortOverLimitDeny"
    by (simp_all add: NormalizeMaxReasoningEffortOverLimit_def effort_words plain plain_simps)
  have "MaxReasoningEffortOverLimit (sanitizeGroupReasoningEffortPolicy ulow ufold ?g) = MaxReasoningEffortOverLimit ?g"
  proof -
    have "NormalizeMaxReasoningEffortOverLimit ulow x \<in> {[], ReasoningEffortOverLimitDowngrade, ReasoningEffortOverLimitDeny}" for x
      by (auto simp: NormalizeMaxReasoningEffortOverLimit_def Let_def)
    from this [of "MaxReasoningEffortOverLimit g"] over show ?thesis
      by (auto simp: sanitizeGroupReasoningEffortPolicy_def Let_def)
  qed
  moreover have "MaxReasoningEffort (sanitizeGroupReasoningEffortPolicy ulow ufold ?g) = MaxReasoningEffort ?g"
    using max2 plat by (simp add: sanitizeGroupReasoningEffortPolicy_def [of ulow ufold ?g] Let_def)
  moreover have "ReasoningEffortMappings (sanitizeGroupReasoningEffortPolicy ulow ufold ?g) = ReasoningEffortMappings ?g"
    using maps plat by (simp add: sanitizeGroupReasoningEffortPolicy_def [of ulow ufold ?g] Let_def)
  moreover have "Platform (sanitizeGroupReasoningEffortPolicy ulow ufold ?g) = Platform ?g" by (simp add: sanitizeGroupReasoningEffortPolicy_def Let_def)
  ultimately show ?thesis using max maps by (intro conjI effort_group.equality) simp_all
qed

section \<open>An accepted list\<close>

definition demo_mapping :: effort_mapping where
  "demo_mapping = \<lparr>em_From = ''low'', em_To = ''max'', em_MatchType = ''prefix'', em_Model = ''gpt-''\<rparr>"

lemma demo_mapping_ok: "NormalizeReasoningEffortMappings id (=) PlatformOpenAI [demo_mapping] = Inr [demo_mapping]"
proof -
  have e: "''low'' \<in> set effort_names" "''max'' \<in> set effort_names" by (simp_all add: effort_names_def)
  have plain: "plain_name ''prefix''" "plain_name ''gpt-''" by (simp_all add: plain_name_def is_graphic_def)
  have mt: "normalizeReasoningEffortMatchType id ''prefix'' ''gpt-'' = Inr ''prefix''"
    by (simp add: normalizeReasoningEffortMatchType_def plain plain_simps effort_words)
  have "normalizeReasoningEffortMappingSource id (=) ''low'' = ''low''" "normalizeReasoningEffortMappingTarget id (=) ''max'' = ''max''"
    using effort_not_word [OF e(1), of "(=)"] effort_not_word [OF e(2), of "(=)"] Normalize_fixed [OF e(1)] Normalize_fixed [OF e(2)]
    by (simp_all add: normalizeReasoningEffortMappingSource_def normalizeReasoningEffortMappingTarget_def
        isReasoningEffortMappingDeny_def effort_words)
  then have normal: "normal_mapping id (=) demo_mapping = demo_mapping"
    by (simp add: normal_mapping_def demo_mapping_def mt plain plain_simps)
  have "valid_mapping id PlatformOpenAI demo_mapping"
    by (simp add: valid_mapping_def demo_mapping_def mt valid_effort_def reasoningEffortValuesForPlatform_def
        openAIReasoningEffortValues_def maxReasoningEffortModelLen_def)
  then have "normalize_mappings id (=) PlatformOpenAI 1 [] [demo_mapping] = Inr [demo_mapping]"
    using normal by (intro normalize_mappings_valid) simp_all
  then show ?thesis by (simp add: NormalizeReasoningEffortMappings_def maxReasoningEffortMappings_def)
qed

theorem effort_mappings_normal_form_witness:
  "list_all (valid_mapping id PlatformOpenAI) [demo_mapping] \<and> distinct (map (mapping_key id) [demo_mapping])"
  using effort_mappings_normal_form [OF demo_mapping_ok] by blast

end
