(* ===== verification/Redeem_Codes.thy ===== *)
theory Redeem_Codes
  imports App_Errors Complex_Main
begin

text \<open>
  Redeem codes (\<^verbatim>\<open>backend/internal/service/redeem_service.go\<close>, \<^verbatim>\<open>redeem_code.go\<close>, the administrator's
  operations of \<^verbatim>\<open>admin_user.go\<close>, and the statements of \<^verbatim>\<open>backend/internal/repository/redeem_code_repo.go\<close>
  and \<^verbatim>\<open>redeem_code_share_gotocc.go\<close>).  A call of \<^verbatim>\<open>redeem\<close> reads the code, checks its copy, and later runs
  one transaction that marks the code and grants its benefits; other calls run in between.  The update
  that marks the code holds the row until the transaction ends, so the transaction takes effect at once
  or not at all.  The conditional update is what makes a code count once: the lock in the cache may be
  refused, or granted to two calls when the cache fails, and is an answer from outside here.

  Amounts are the decimals of the column, as rational numbers.  The snapshot of an order that a code may
  carry (\<^verbatim>\<open>freezeRedeemOrder\<close>, \<^verbatim>\<open>createRedeemOrder\<close>), the check of the account's funding and the caches of balances
  are left out.
\<close>

section \<open>Codes\<close>

definition StatusUnused :: string where "StatusUnused = ''unused''"
definition StatusUsed :: string where "StatusUsed = ''used''"
definition StatusExpired :: string where "StatusExpired = ''expired''"
definition StatusDisabled :: string where "StatusDisabled = ''disabled''"

definition RedeemTypeBalance :: string where "RedeemTypeBalance = ''balance''"
definition RedeemTypeConcurrency :: string where "RedeemTypeConcurrency = ''concurrency''"
definition RedeemTypeSubscription :: string where "RedeemTypeSubscription = ''subscription''"
definition RedeemTypeInvitation :: string where "RedeemTypeInvitation = ''invitation''"

lemmas status_names = StatusUnused_def StatusUsed_def StatusExpired_def StatusDisabled_def
lemmas type_names = RedeemTypeBalance_def RedeemTypeConcurrency_def RedeemTypeSubscription_def RedeemTypeInvitation_def

text \<open>The fields of a code that the service reads.  The row of a code always has a limit.\<close>

record redeem_code =
  RID :: int
  RCode :: string
  RType :: string
  RValue :: rat
  RStatus :: string
  RUsedBy :: "int option"
  RNotes :: string
  RExpiresAt :: "go_time option"
  RGroupID :: "int option"
  RValidityDays :: int
  MaxUses :: "int option"
  UsedCount :: int

definition IsShared :: "redeem_code \<Rightarrow> bool" where
  "IsShared r \<longleftrightarrow> (case MaxUses r of None \<Rightarrow> False | Some m \<Rightarrow> m \<noteq> 1)"

definition IsUsed :: "redeem_code \<Rightarrow> bool" where
  "IsUsed r \<longleftrightarrow> RStatus r = StatusUsed"

definition IsExpiredAt :: "go_time \<Rightarrow> redeem_code \<Rightarrow> bool" where
  "IsExpiredAt now r =
     (if RStatus r = StatusExpired then True
      else RStatus r = StatusUnused \<and> (case RExpiresAt r of None \<Rightarrow> False | Some t \<Rightarrow> \<not> time_After t now))"

definition CanUse :: "go_time \<Rightarrow> redeem_code \<Rightarrow> bool" where
  "CanUse now r \<longleftrightarrow> RStatus r = StatusUnused \<and> \<not> IsExpiredAt now r"

section \<open>Errors\<close>

definition ErrRedeemCodeNotFound :: app_error where
  "ErrRedeemCodeNotFound = NotFound ''REDEEM_CODE_NOT_FOUND'' ''redeem code not found''"
definition ErrRedeemCodeUsed :: app_error where
  "ErrRedeemCodeUsed = Conflict ''REDEEM_CODE_USED'' ''redeem code already used''"
definition ErrRedeemCodeExpired :: app_error where
  "ErrRedeemCodeExpired = Conflict ''REDEEM_CODE_EXPIRED'' ''redeem code expired''"
definition ErrRedeemRateLimited :: app_error where
  "ErrRedeemRateLimited = TooManyRequests ''REDEEM_RATE_LIMITED'' ''too many failed attempts, please try again later''"
definition ErrRedeemCodeLocked :: app_error where
  "ErrRedeemCodeLocked = Conflict ''REDEEM_CODE_LOCKED'' ''redeem code is being processed, please try again''"
definition ErrRedeemCodeDeleteUsed :: app_error where
  "ErrRedeemCodeDeleteUsed = Conflict ''REDEEM_CODE_DELETE_USED'' ''cannot delete used redeem code''"
definition ErrRedeemCodeRedeemed :: app_error where
  "ErrRedeemCodeRedeemed = Conflict ''REDEEM_CODE_ALREADY_REDEEMED'' ''you have already redeemed this code''"

definition unsupportedRedeemTypeError :: "string \<Rightarrow> app_error" where
  "unsupportedRedeemTypeError codeType =
     (if codeType = RedeemTypeInvitation
      then BadRequest ''REDEEM_CODE_UNSUPPORTED_TYPE'' ''invitation codes can only be used during registration''
      else BadRequest ''REDEEM_CODE_UNSUPPORTED_TYPE'' (''unsupported redeem type: '' @ codeType))"

definition redeemMaxFailedAttempts :: int where "redeemMaxFailedAttempts = 30"

section \<open>Tables\<close>

text \<open>
  What a redemption grants: a change of the balance, with the rebate of the inviter and the cashback of a
  code that no payment stands behind, a change of the concurrency, or days of a subscription.
\<close>

datatype benefit = BalanceChange rat | InviteRebate rat | Cashback rat | ConcurrencyChange int
  | SubscriptionDays int int | SubscriptionReduction int int

record payout =
  PCodeID :: int
  PCode :: string
  PUser :: int
  PBenefits :: "benefit list"

text \<open>
  A call is one of a user, one of the administrator's \<^verbatim>\<open>CreateAndRedeem\<close>, or one of a worker that fulfils
  a payment.  It is at rest, it has checked its copy of a code, or it has answered.
\<close>

datatype caller = Public nat | AdminCall nat | Fulfil nat

datatype session = Idle | Checked int redeem_code | Answered int string "(go_error, redeem_code) result"

text \<open>
  \<open>payouts\<close> lists the benefits of committed redemptions in their order, \<open>editing\<close> the copies that calls of
  \<^verbatim>\<open>ExpireRedeemCode\<close> have read and not yet written back, \<open>attempts\<close> the counter of failures in the cache.
\<close>

record redeem_state =
  rcodes :: "redeem_code list"
  next_code :: int
  usages :: "(int \<times> int) list"
  payouts :: "payout list"
  attempts :: "int \<Rightarrow> int"
  sessions :: "caller \<Rightarrow> session"
  editing :: "nat \<Rightarrow> redeem_code option"

section \<open>Statements of the repository\<close>

definition repo_GetByID :: "int \<Rightarrow> redeem_state \<Rightarrow> (go_error, redeem_code) result" where
  "repo_GetByID i s = (case find (\<lambda>r. RID r = i) (rcodes s) of
     None \<Rightarrow> Inl (to_error ErrRedeemCodeNotFound) | Some r \<Rightarrow> Inr r)"

definition repo_GetByCode :: "string \<Rightarrow> redeem_state \<Rightarrow> (go_error, redeem_code) result" where
  "repo_GetByCode c s = (case find (\<lambda>r. RCode r = c) (rcodes s) of
     None \<Rightarrow> Inl (to_error ErrRedeemCodeNotFound) | Some r \<Rightarrow> Inr r)"

text \<open>The limit has the default 1 and the check of the column; the code is unique, not empty and of at most 32 bytes.\<close>

definition repo_Create :: "redeem_code \<Rightarrow> redeem_state \<Rightarrow> (go_error, redeem_code) result \<times> redeem_state" where
  "repo_Create code s =
     (let m = (case MaxUses code of None \<Rightarrow> 1 | Some m \<Rightarrow> m);
          row = code\<lparr>RID := next_code s, MaxUses := Some m, UsedCount := 0\<rparr>
      in if RCode code = [] \<or> 32 < length (RCode code) then (Inl (PlainError ''validation''), s)
         else if list_ex (\<lambda>r. RCode r = RCode code) (rcodes s) \<or> m < 0 then (Inl (PlainError ''constraint''), s)
         else (Inr row, s\<lparr>rcodes := rcodes s @ [row], next_code := next_code s + 1\<rparr>))"

definition repo_Delete :: "int \<Rightarrow> redeem_state \<Rightarrow> (go_error, unit) result \<times> redeem_state" where
  "repo_Delete i s =
     (let hit = (\<lambda>r. RID r = i \<and> RStatus r \<noteq> StatusUsed \<and> RUsedBy r = None \<and> UsedCount r = 0)
      in if list_ex hit (rcodes s) then (Inr (), s\<lparr>rcodes := filter (\<lambda>r. \<not> hit r) (rcodes s)\<rparr>)
         else (Inl (to_error ErrRedeemCodeDeleteUsed), s))"

text \<open>\<^verbatim>\<open>Update\<close> writes a copy back, without a condition; the limit and the count are not among its columns.\<close>

definition repo_Update :: "redeem_code \<Rightarrow> redeem_state \<Rightarrow> (go_error, unit) result \<times> redeem_state" where
  "repo_Update code s =
     (if list_ex (\<lambda>r. RID r = RID code) (rcodes s)
      then (Inr (), s\<lparr>rcodes := map (\<lambda>r. if RID r = RID code
              then code\<lparr>MaxUses := MaxUses r, UsedCount := UsedCount r\<rparr> else r) (rcodes s)\<rparr>)
      else (Inl (to_error ErrRedeemCodeNotFound), s))"

text \<open>\<^verbatim>\<open>Use\<close>: a code without shares is marked if it is still unused.\<close>

definition repo_Use :: "int \<Rightarrow> int \<Rightarrow> redeem_state \<Rightarrow> (go_error, unit) result \<times> redeem_state" where
  "repo_Use i userID s =
     (let hit = (\<lambda>r. RID r = i \<and> RStatus r = StatusUnused)
      in if list_ex hit (rcodes s)
         then (Inr (), s\<lparr>rcodes := map (\<lambda>r. if hit r then r\<lparr>RStatus := StatusUsed, RUsedBy := Some userID\<rparr> else r) (rcodes s)\<rparr>)
         else (Inl (to_error ErrRedeemCodeUsed), s))"

text \<open>\<^verbatim>\<open>UseShared\<close>: the count goes up while the limit allows it, and the user gets one usage per code.\<close>

definition share_open :: "int \<Rightarrow> redeem_code \<Rightarrow> bool" where
  "share_open i r \<longleftrightarrow> RID r = i \<and> RStatus r = StatusUnused
     \<and> (case MaxUses r of None \<Rightarrow> False | Some m \<Rightarrow> m \<noteq> 1 \<and> (m = 0 \<or> UsedCount r < m))"

definition count_share :: "redeem_code \<Rightarrow> redeem_code" where
  "count_share r = r\<lparr>UsedCount := UsedCount r + 1,
     RStatus := (case MaxUses r of None \<Rightarrow> RStatus r | Some m \<Rightarrow>
        if 0 < m \<and> m \<le> UsedCount r + 1 then StatusUsed else RStatus r)\<rparr>"

definition repo_UseShared :: "int \<Rightarrow> int \<Rightarrow> redeem_state \<Rightarrow> (go_error, unit) result \<times> redeem_state" where
  "repo_UseShared i userID s =
     (if \<not> list_ex (share_open i) (rcodes s) then (Inl (to_error ErrRedeemCodeUsed), s)
      else (let s1 = s\<lparr>rcodes := map (\<lambda>r. if share_open i r then count_share r else r) (rcodes s)\<rparr>
            in if (i, userID) \<in> set (usages s1) then (Inl (to_error ErrRedeemCodeRedeemed), s1)
               else (Inr (), s1\<lparr>usages := usages s1 @ [(i, userID)]\<rparr>)))"

section \<open>Redemption\<close>

text \<open>What \<^verbatim>\<open>redeem\<close> checks on its copy, in its order, and whether the failure counts against the user.\<close>

definition redeem_refusal :: "go_time \<Rightarrow> go_time \<Rightarrow> redeem_code \<Rightarrow> (app_error \<times> bool) option" where
  "redeem_refusal now now1 r =
     (if IsExpiredAt now r then Some (ErrRedeemCodeExpired, True)
      else if \<not> CanUse now1 r then Some (ErrRedeemCodeUsed, True)
      else if RType r = RedeemTypeBalance \<or> RType r = RedeemTypeConcurrency then None
      else if RType r = RedeemTypeSubscription
      then (if RGroupID r = None
            then Some (BadRequest ''REDEEM_CODE_INVALID'' ''invalid subscription redeem code: missing group_id'', False)
            else None)
      else Some (unsupportedRedeemTypeError (RType r), False))"

fun enforces_rate_limit :: "caller \<Rightarrow> bool" where
  "enforces_rate_limit (Public n) = True"
| "enforces_rate_limit (AdminCall n) = False"
| "enforces_rate_limit (Fulfil n) = False"

definition incrementRedeemErrorCount :: "caller \<Rightarrow> bool \<Rightarrow> int \<Rightarrow> redeem_state \<Rightarrow> redeem_state" where
  "incrementRedeemErrorCount c cache userID s =
     (if enforces_rate_limit c \<and> cache then s\<lparr>attempts := (attempts s)(userID := attempts s userID + 1)\<rparr> else s)"

definition answer :: "caller \<Rightarrow> int \<Rightarrow> string \<Rightarrow> (go_error, redeem_code) result \<Rightarrow> redeem_state \<Rightarrow> redeem_state" where
  "answer c userID code r s = s\<lparr>sessions := (sessions s)(c := Answered userID code r)\<rparr>"

text \<open>
  The answers from outside: whether the cache can be reached and grants the lock, the two readings of
  the clock, and the error of the lookup of the user.
\<close>

record redeem_input =
  in_cache :: bool
  in_lock :: bool
  in_now :: go_time
  in_now1 :: go_time
  in_user :: "go_error option"

text \<open>\<^verbatim>\<open>redeem\<close> up to its transaction.\<close>

definition redeem_open :: "redeem_input \<Rightarrow> caller \<Rightarrow> int \<Rightarrow> string \<Rightarrow> redeem_state \<Rightarrow> redeem_state" where
  "redeem_open a c userID code s =
     (if enforces_rate_limit c \<and> in_cache a \<and> redeemMaxFailedAttempts \<le> attempts s userID
      then answer c userID code (Inl (to_error ErrRedeemRateLimited)) s
      else if in_cache a \<and> \<not> in_lock a then answer c userID code (Inl (to_error ErrRedeemCodeLocked)) s
      else (case repo_GetByCode code s of
         Inl e \<Rightarrow> answer c userID code (Inl e) (incrementRedeemErrorCount c (in_cache a) userID s)
       | Inr r \<Rightarrow> (case redeem_refusal (in_now a) (in_now1 a) r of
           Some (e, counts) \<Rightarrow> answer c userID code (Inl (to_error e))
               (if counts then incrementRedeemErrorCount c (in_cache a) userID s else s)
         | None \<Rightarrow> (case in_user a of
             Some e \<Rightarrow> answer c userID code (Inl (WrapError ''get user'' e)) s
           | None \<Rightarrow> s\<lparr>sessions := (sessions s)(c := Checked userID r)\<rparr>))))"

text \<open>\<^verbatim>\<open>int(value)\<close> drops the fraction.\<close>

definition go_trunc :: "rat \<Rightarrow> int" where
  "go_trunc x = (if 0 \<le> x then \<lfloor>x\<rfloor> else \<lceil>x\<rceil>)"

text \<open>The benefits of a code; \<open>backed\<close> tells whether a payment order has the code as its recharge code.\<close>

definition redeem_benefits :: "(string \<Rightarrow> bool) \<Rightarrow> redeem_code \<Rightarrow> (app_error, benefit list) result" where
  "redeem_benefits backed r =
     (if RType r = RedeemTypeBalance
      then Inr (BalanceChange (RValue r)
                # (if 0 < RValue r \<and> \<not> backed (RCode r) then [InviteRebate (RValue r), Cashback (RValue r)] else []))
      else if RType r = RedeemTypeConcurrency then Inr [ConcurrencyChange (go_trunc (RValue r))]
      else if RType r = RedeemTypeSubscription
      then (case RGroupID r of
              None \<Rightarrow> Inl (BadRequest ''REDEEM_CODE_INVALID'' ''invalid subscription redeem code: missing group_id'')
            | Some g \<Rightarrow> if RValidityDays r < 0 then Inr [SubscriptionReduction g (- RValidityDays r)]
                else Inr [SubscriptionDays g (if RValidityDays r = 0 then 30 else RValidityDays r)])
      else Inl (unsupportedRedeemTypeError (RType r)))"

text \<open>
  What the statement of a benefit makes of the user's balance and concurrency.  Positive amounts are added
  (\<^verbatim>\<open>UpdateBalance\<close>, \<^verbatim>\<open>UpdateConcurrency\<close>), negative ones are taken down to zero at most
  (\<^verbatim>\<open>ApplyRedeemBalanceAdjustment\<close>, \<^verbatim>\<open>ApplyRedeemConcurrencyAdjustment\<close>).  The cashback depends on the
  settings; decimals are rounded half away from zero, and a division keeps sixteen digits.  The row that
  records the cashback in the ledger is left out.
\<close>

definition round_to :: "nat \<Rightarrow> rat \<Rightarrow> rat" where
  "round_to d x = (if 0 \<le> x then of_int \<lfloor>x * 10 ^ d + 1 / 2\<rfloor> / 10 ^ d else - (of_int \<lfloor>(- x) * 10 ^ d + 1 / 2\<rfloor> / 10 ^ d))"

record cashback_settings =
  CEnabled :: bool
  CMinimumAmount :: rat
  CPercent :: rat

definition creditBalanceCashback :: "cashback_settings \<Rightarrow> rat \<Rightarrow> rat" where
  "creditBalanceCashback config v =
     (let amount = round_to 8 v
      in if \<not> CEnabled config \<or> CPercent config = 0 \<or> \<not> CMinimumAmount config < amount then 0
         else (let bonus = round_to 8 (round_to 16 (amount * CPercent config / 100)) in if 0 < bonus then bonus else 0))"

definition balance_after :: "cashback_settings \<Rightarrow> benefit \<Rightarrow> rat \<Rightarrow> rat" where
  "balance_after config b x = (case b of
     BalanceChange v \<Rightarrow> if v < 0 then max (x + v) 0 else x + v
   | Cashback v \<Rightarrow> x + creditBalanceCashback config v
   | _ \<Rightarrow> x)"

definition concurrency_after :: "benefit \<Rightarrow> int \<Rightarrow> int" where
  "concurrency_after b x = (case b of ConcurrencyChange d \<Rightarrow> if d < 0 then max (x + d) 0 else x + d | _ \<Rightarrow> x)"

text \<open>
  How the transaction ends: committed, rolled back with an error of one of its statements, or committed
  with an error that only the caller sees (the answer to the commit is lost, or the code cannot be read again).
\<close>

datatype tx_end = Committed | RolledBack go_error | Unseen go_error

definition use_code :: "redeem_code \<Rightarrow> int \<Rightarrow> redeem_state \<Rightarrow> (go_error, unit) result \<times> redeem_state" where
  "use_code r userID s = (if IsShared r then repo_UseShared (RID r) userID s else repo_Use (RID r) userID s)"

definition redeem_tx ::
    "(string \<Rightarrow> bool) \<Rightarrow> tx_end \<Rightarrow> redeem_code \<Rightarrow> int \<Rightarrow> redeem_state \<Rightarrow> (go_error, redeem_code) result \<times> redeem_state" where
  "redeem_tx backed t r userID s =
     (case use_code r userID s of
        (Inl e, _) \<Rightarrow> (Inl e, s)
      | (Inr _, s1) \<Rightarrow> (case redeem_benefits backed r of
          Inl e \<Rightarrow> (Inl (to_error e), s)
        | Inr bs \<Rightarrow>
            (let s2 = s1\<lparr>payouts := payouts s1 @ [\<lparr>PCodeID = RID r, PCode = RCode r, PUser = userID, PBenefits = bs\<rparr>]\<rparr>
             in case t of Committed \<Rightarrow> (Inr r, s2) | RolledBack e \<Rightarrow> (Inl e, s) | Unseen e \<Rightarrow> (Inl e, s2))))"

definition redeem_close :: "(string \<Rightarrow> bool) \<Rightarrow> tx_end \<Rightarrow> caller \<Rightarrow> int \<Rightarrow> redeem_code \<Rightarrow> redeem_state \<Rightarrow> redeem_state" where
  "redeem_close backed t c userID r s =
     (case redeem_tx backed t r userID s of (res, s1) \<Rightarrow> answer c userID (RCode r) res s1)"

section \<open>Operations of the administrator\<close>

text \<open>\<^verbatim>\<open>CreateCode\<close>, for codes without an order.\<close>

definition CreateCode :: "go_time \<Rightarrow> redeem_code \<Rightarrow> redeem_state \<Rightarrow> (go_error, redeem_code) result \<times> redeem_state" where
  "CreateCode now code s =
     (let c1 = code\<lparr>RCode := TrimSpace (RCode code)\<rparr>;
          c2 = c1\<lparr>RType := (if RType c1 = [] then RedeemTypeBalance else RType c1)\<rparr>;
          c3 = c2\<lparr>RStatus := (if RStatus c2 = [] then StatusUnused else RStatus c2)\<rparr>
      in if RCode c1 = [] then (Inl (PlainError ''code is required''), s)
         else if RType c2 \<noteq> RedeemTypeInvitation \<and> RValue c2 = 0 then (Inl (PlainError ''value must not be zero''), s)
         else if IsExpiredAt now c3 then (Inl (to_error ErrRedeemCodeExpired), s)
         else (case repo_Create c3 s of
            (Inl e, s1) \<Rightarrow> (Inl (WrapError ''create redeem code'' e), s1) | (Inr r, s1) \<Rightarrow> (Inr r, s1)))"

text \<open>The first half of \<^verbatim>\<open>ExpireRedeemCode\<close> reads the code; the second half writes the copy back as expired.\<close>

definition expire_read :: "nat \<Rightarrow> int \<Rightarrow> redeem_state \<Rightarrow> redeem_state" where
  "expire_read n i s = (case repo_GetByID i s of
     Inl e \<Rightarrow> s | Inr r \<Rightarrow> s\<lparr>editing := (editing s)(n \<mapsto> r\<lparr>RStatus := StatusExpired\<rparr>)\<rparr>)"

definition expire_write :: "nat \<Rightarrow> redeem_state \<Rightarrow> redeem_state" where
  "expire_write n s = (case editing s n of
     None \<Rightarrow> s | Some r \<Rightarrow> (snd (repo_Update r s))\<lparr>editing := (editing s)(n := None)\<rparr>)"

text \<open>A field of \<^verbatim>\<open>RedeemCodeBatchUpdateFields\<close> is absent (\<^const>\<open>None\<close>) or set; \<open>FExpiresAt\<close> and \<open>FGroupID\<close> can be set to nil.\<close>

record batch_fields =
  FStatus :: "string option"
  FExpiresAt :: "go_time option option"
  FNotes :: "string option"
  FGroupID :: "int option option"
  FType :: "string option"
  FValue :: "rat option"

definition HasChanges :: "batch_fields \<Rightarrow> bool" where
  "HasChanges f \<longleftrightarrow> FStatus f \<noteq> None \<or> FExpiresAt f \<noteq> None \<or> FNotes f \<noteq> None \<or> FGroupID f \<noteq> None
     \<or> FType f \<noteq> None \<or> FValue f \<noteq> None"

definition HasCoreFieldChanges :: "batch_fields \<Rightarrow> bool" where
  "HasCoreFieldChanges f \<longleftrightarrow> FType f \<noteq> None \<or> FValue f \<noteq> None"

definition TouchesUsedSensitiveFields :: "batch_fields \<Rightarrow> bool" where
  "TouchesUsedSensitiveFields f \<longleftrightarrow> FStatus f \<noteq> None \<or> FExpiresAt f \<noteq> None \<or> FGroupID f \<noteq> None"

definition opt_set :: "'a option \<Rightarrow> 'a \<Rightarrow> 'a" where
  "opt_set v x = (case v of None \<Rightarrow> x | Some y \<Rightarrow> y)"

definition batch_write :: "batch_fields \<Rightarrow> redeem_code \<Rightarrow> redeem_code" where
  "batch_write f r = r\<lparr>RStatus := opt_set (FStatus f) (RStatus r), RNotes := opt_set (FNotes f) (RNotes r),
     RExpiresAt := opt_set (FExpiresAt f) (RExpiresAt r), RGroupID := opt_set (FGroupID f) (RGroupID r)\<rparr>"

text \<open>The rows are locked and the answer is the number of them; a missing or used one stops the update.\<close>

definition repo_BatchUpdate :: "int list \<Rightarrow> batch_fields \<Rightarrow> redeem_state \<Rightarrow> (go_error, nat) result \<times> redeem_state" where
  "repo_BatchUpdate ids f s =
     (let ids1 = remdups ids; existing = filter (\<lambda>r. RID r \<in> set ids1) (rcodes s)
      in if ids1 = [] then (Inr 0, s)
         else if length existing \<noteq> length ids1 then (Inl (to_error ErrRedeemCodeNotFound), s)
         else if TouchesUsedSensitiveFields f \<and> list_ex (\<lambda>r. RStatus r = StatusUsed \<or> 0 < UsedCount r) existing
         then (Inl (to_error ErrRedeemCodeUsed), s)
         else (Inr (length existing),
               s\<lparr>rcodes := map (\<lambda>r. if RID r \<in> set ids1 then batch_write f r else r) (rcodes s)\<rparr>))"

definition batch_refusal :: "go_time \<Rightarrow> int list \<Rightarrow> batch_fields \<Rightarrow> app_error option" where
  "batch_refusal now ids f =
     (if ids = [] then Some (BadRequest ''REDEEM_CODE_BATCH_UPDATE_IDS_REQUIRED'' ''ids are required'')
      else if \<not> HasChanges f then Some (BadRequest ''REDEEM_CODE_BATCH_UPDATE_EMPTY'' ''at least one field must be selected'')
      else if HasCoreFieldChanges f then Some (BadRequest ''REDEEM_CODE_CORE_FIELDS_IMMUTABLE'' ''type and value cannot be batch updated'')
      else if list_ex (\<lambda>i. i \<le> 0) ids then Some (BadRequest ''REDEEM_CODE_BATCH_UPDATE_INVALID_ID'' ''ids must be positive'')
      else if \<not> (case FStatus f of None \<Rightarrow> True | Some st \<Rightarrow> st = StatusUnused \<or> st = StatusDisabled)
      then Some (BadRequest ''REDEEM_CODE_STATUS_INVALID'' ''status must be unused or disabled'')
      else if \<not> (case FExpiresAt f of Some (Some t) \<Rightarrow> time_After t now | _ \<Rightarrow> True)
      then Some (BadRequest ''REDEEM_CODE_EXPIRES_AT_INVALID'' ''expires_at must be in the future'')
      else if \<not> (case FGroupID f of Some (Some g) \<Rightarrow> 0 < g | _ \<Rightarrow> True)
      then Some (BadRequest ''REDEEM_CODE_GROUP_ID_INVALID'' ''group_id must be positive'')
      else None)"

definition BatchUpdate :: "go_time \<Rightarrow> int list \<Rightarrow> batch_fields \<Rightarrow> redeem_state \<Rightarrow> (go_error, nat) result \<times> redeem_state" where
  "BatchUpdate now ids f s = (case batch_refusal now ids f of
     Some e \<Rightarrow> (Inl (to_error e), s) | None \<Rightarrow> repo_BatchUpdate ids f s)"

text \<open>\<^verbatim>\<open>Delete\<close> of the service looks at the code first; the administrator's \<^verbatim>\<open>DeleteRedeemCode\<close> is the statement alone.\<close>

definition Delete :: "int \<Rightarrow> redeem_state \<Rightarrow> (go_error, unit) result \<times> redeem_state" where
  "Delete i s = (case repo_GetByID i s of
     Inl e \<Rightarrow> (Inl (WrapError ''get redeem code'' e), s)
   | Inr r \<Rightarrow> if IsUsed r \<or> 0 < UsedCount r then (Inl (to_error ErrRedeemCodeDeleteUsed), s)
       else (case repo_Delete i s of (Inl e, s1) \<Rightarrow> (Inl (WrapError ''delete redeem code'' e), s1) | (Inr u, s1) \<Rightarrow> (Inr u, s1)))"

section \<open>Runs\<close>

text \<open>
  \<open>edits\<close> tells whether \<^verbatim>\<open>ExpireRedeemCode\<close> is called in the run.  A session that has answered, or crashed,
  comes to rest; the window of the failure counter may end at any time; an invitation is used by a registration.
\<close>

inductive redeem_step :: "bool \<Rightarrow> (string \<Rightarrow> bool) \<Rightarrow> redeem_state \<Rightarrow> redeem_state \<Rightarrow> bool" for edits backed where
  open_call: "sessions s c = Idle \<Longrightarrow> redeem_step edits backed s (redeem_open a c u code s)"
| close_call: "sessions s c = Checked u r \<Longrightarrow> redeem_step edits backed s (redeem_close backed t c u r s)"
| rest: "redeem_step edits backed s (s\<lparr>sessions := (sessions s)(c := Idle)\<rparr>)"
| create: "redeem_step edits backed s (snd (repo_Create code s))"
| remove: "redeem_step edits backed s (snd (repo_Delete i s))"
| batch: "redeem_step edits backed s (snd (BatchUpdate now ids f s))"
| invite: "list_all (\<lambda>r. RID r = i \<longrightarrow> RType r = RedeemTypeInvitation) (rcodes s)
    \<Longrightarrow> redeem_step edits backed s (snd (repo_Use i u s))"
| forget: "redeem_step edits backed s (s\<lparr>attempts := n\<rparr>)"
| read_copy: "edits \<Longrightarrow> redeem_step edits backed s (expire_read k i s)"
| write_copy: "edits \<Longrightarrow> redeem_step edits backed s (expire_write k s)"

definition initial_redeem :: redeem_state where
  "initial_redeem = \<lparr>rcodes = [], next_code = 1, usages = [], payouts = [], attempts = (\<lambda>u. 0),
     sessions = (\<lambda>c. Idle), editing = (\<lambda>n. None)\<rparr>"

lemma initial_redeem_fields [simp]:
  "rcodes initial_redeem = []" "next_code initial_redeem = 1" "usages initial_redeem = []" "payouts initial_redeem = []"
  "attempts initial_redeem = (\<lambda>u. 0)" "sessions initial_redeem = (\<lambda>c. Idle)" "editing initial_redeem = (\<lambda>n. None)"
  by (simp_all add: initial_redeem_def)

inductive redeem_run :: "bool \<Rightarrow> (string \<Rightarrow> bool) \<Rightarrow> redeem_state \<Rightarrow> bool" for edits backed where
  start: "redeem_run edits backed initial_redeem"
| step: "redeem_run edits backed s \<Longrightarrow> redeem_step edits backed s s' \<Longrightarrow> redeem_run edits backed s'"

section \<open>The invariant\<close>

text \<open>What no operation changes of a code, the redemptions of a code, and copies that may be out of date.\<close>

definition core :: "redeem_code \<Rightarrow> string \<times> string \<times> rat \<times> int option \<times> int" where
  "core r = (RCode r, RType r, RValue r, MaxUses r, RValidityDays r)"

definition paid_out :: "int \<Rightarrow> redeem_state \<Rightarrow> payout list" where
  "paid_out i s = filter (\<lambda>p. PCodeID p = i) (payouts s)"

definition copy_ok :: "redeem_state \<Rightarrow> redeem_code \<Rightarrow> bool" where
  "copy_ok s c \<longleftrightarrow> RID c < next_code s \<and> (\<forall>r \<in> set (rcodes s). RID r = RID c \<longrightarrow> core r = core c)"

definition rows_ok :: "redeem_state \<Rightarrow> bool" where
  "rows_ok s \<longleftrightarrow> distinct (map RID (rcodes s)) \<and> distinct (map RCode (rcodes s))
     \<and> (\<forall>r \<in> set (rcodes s). RID r < next_code s \<and> (\<exists>m \<ge> 0. MaxUses r = Some m))
     \<and> (\<forall>x \<in> set (usages s). fst x < next_code s)"

definition shared_ok :: "redeem_state \<Rightarrow> redeem_code \<Rightarrow> bool" where
  "shared_ok s r \<longleftrightarrow> UsedCount r = int (length (paid_out (RID r) s)) \<and> distinct (map PUser (paid_out (RID r) s))
     \<and> (\<forall>u. (RID r, u) \<in> set (usages s) \<longleftrightarrow> u \<in> PUser ` set (paid_out (RID r) s))
     \<and> (\<forall>m. MaxUses r = Some m \<and> 0 < m \<longrightarrow> UsedCount r \<le> m)"

definition single_ok :: "redeem_state \<Rightarrow> redeem_code \<Rightarrow> bool" where
  "single_ok s r \<longleftrightarrow> (case paid_out (RID r) s of [] \<Rightarrow> True
     | [p] \<Rightarrow> RStatus r = StatusUsed \<and> RUsedBy r = Some (PUser p) | _ \<Rightarrow> False)"

definition limits_ok :: "bool \<Rightarrow> redeem_state \<Rightarrow> bool" where
  "limits_ok edits s \<longleftrightarrow> (\<forall>r \<in> set (rcodes s). if MaxUses r = Some 1 then edits \<or> single_ok s r else shared_ok s r)"

definition payout_ok :: "bool \<Rightarrow> (string \<Rightarrow> bool) \<Rightarrow> redeem_state \<Rightarrow> payout \<Rightarrow> bool" where
  "payout_ok edits backed s p \<longleftrightarrow>
     (\<exists>c. copy_ok s c \<and> RID c = PCodeID p \<and> RCode c = PCode p \<and> redeem_benefits backed c = Inr (PBenefits p))
     \<and> (edits \<or> PCodeID p \<in> RID ` set (rcodes s))"

definition session_ok :: "redeem_state \<Rightarrow> session \<Rightarrow> bool" where
  "session_ok s x = (case x of Idle \<Rightarrow> True | Checked u r \<Rightarrow> copy_ok s r
     | Answered u code (Inr r) \<Rightarrow> (\<exists>p \<in> set (payouts s). PUser p = u \<and> PCode p = code) | Answered u code (Inl e) \<Rightarrow> True)"

definition redeem_inv :: "bool \<Rightarrow> (string \<Rightarrow> bool) \<Rightarrow> redeem_state \<Rightarrow> bool" where
  "redeem_inv edits backed s \<longleftrightarrow> rows_ok s \<and> limits_ok edits s \<and> (\<forall>p \<in> set (payouts s). payout_ok edits backed s p)
     \<and> (\<forall>c. session_ok s (sessions s c)) \<and> (\<forall>n r. editing s n = Some r \<longrightarrow> copy_ok s r)"

lemmas redeem_inv_defs = redeem_inv_def rows_ok_def limits_ok_def shared_ok_def single_ok_def

lemma inv_initial: "redeem_inv edits backed initial_redeem"
  by (simp add: redeem_inv_defs initial_redeem_def session_ok_def)

text \<open>Everything reads only the tables; sessions and copies may change freely when they are in order.\<close>

lemma copy_ok_cong: "rcodes s' = rcodes s \<Longrightarrow> next_code s' = next_code s \<Longrightarrow> copy_ok s' = copy_ok s"
  by (rule ext) (simp add: copy_ok_def)

lemma inv_local:
  assumes "redeem_inv edits backed s"
    and "rcodes s' = rcodes s" "next_code s' = next_code s" "usages s' = usages s" "payouts s' = payouts s"
    and "\<forall>c. sessions s' c = sessions s c \<or> session_ok s (sessions s' c)"
    and "\<forall>n r. editing s' n = Some r \<longrightarrow> copy_ok s r"
  shows "redeem_inv edits backed s'"
proof -
  have c: "copy_ok s' = copy_ok s" using assms(2,3) by (rule copy_ok_cong)
  have p: "paid_out i s' = paid_out i s" for i using assms(5) by (simp add: paid_out_def)
  have f: "session_ok s' = session_ok s"
    by (rule ext) (auto simp: session_ok_def c assms(5) split: session.splits sum.splits)
  have "payout_ok edits backed s' = payout_ok edits backed s" by (rule ext) (simp add: payout_ok_def c assms(2))
  moreover have "rows_ok s' = rows_ok s" "limits_ok edits s' = limits_ok edits s"
    using assms(2-5) by (simp_all add: rows_ok_def limits_ok_def shared_ok_def single_ok_def p)
  moreover have "\<forall>c. session_ok s' (sessions s' c)"
    using assms(1,6) unfolding f redeem_inv_def by metis
  ultimately show ?thesis using assms(1,5,7) unfolding redeem_inv_def by (simp add: c)
qed

lemma copy_of_row: "redeem_inv edits backed s \<Longrightarrow> r \<in> set (rcodes s) \<Longrightarrow> core c = core r \<Longrightarrow> RID c = RID r \<Longrightarrow> copy_ok s c"
  unfolding redeem_inv_def rows_ok_def copy_ok_def by (auto simp: distinct_map inj_on_def)

lemma GetByID_row: "repo_GetByID i s = Inr r \<Longrightarrow> r \<in> set (rcodes s) \<and> RID r = i"
  by (auto simp: repo_GetByID_def find_Some_iff split: option.splits)

lemma GetByCode_row: "repo_GetByCode c s = Inr r \<Longrightarrow> r \<in> set (rcodes s) \<and> RCode r = c"
  by (auto simp: repo_GetByCode_def find_Some_iff split: option.splits)

text \<open>A change of rows that keeps the fixed part, the counts, and codes that are used.\<close>

lemma inv_map_rows:
  assumes inv: "redeem_inv edits backed s"
    and s': "s' = s\<lparr>rcodes := map f (rcodes s)\<rparr>"
    and f: "\<And>r. r \<in> set (rcodes s) \<Longrightarrow> RID (f r) = RID r \<and> core (f r) = core r \<and> UsedCount (f r) = UsedCount r"
    and used: "\<And>r. r \<in> set (rcodes s) \<Longrightarrow> \<not> edits \<Longrightarrow> MaxUses r = Some 1 \<Longrightarrow> RStatus r = StatusUsed
      \<Longrightarrow> RStatus (f r) = StatusUsed \<and> RUsedBy (f r) = RUsedBy r"
  shows "redeem_inv edits backed s'"
proof -
  have ids: "map RID (map f (rcodes s)) = map RID (rcodes s)" "map RCode (map f (rcodes s)) = map RCode (rcodes s)"
    using f by (simp_all add: core_def)
  have m: "MaxUses (f r) = MaxUses r" if "r \<in> set (rcodes s)" for r using f [OF that] by (simp add: core_def)
  have c: "copy_ok s' = copy_ok s" unfolding s' copy_ok_def using f by (intro ext) auto
  have p: "paid_out i s' = paid_out i s" for i by (simp add: paid_out_def s')
  have us: "usages s' = usages s" by (simp add: s')
  have x: "session_ok s' = session_ok s"
    unfolding session_ok_def c by (rule ext) (simp add: s' split: session.splits sum.splits)
  have "RID ` set (rcodes s') = RID ` set (rcodes s)" using ids(1) by (metis s' list.set_map redeem_state.select_convs(1) redeem_state.surjective redeem_state.update_convs(1))
  then have "payout_ok edits backed s' = payout_ok edits backed s" by (intro ext) (simp add: payout_ok_def c)
  moreover have "rows_ok s'"
  proof -
    have "rcodes s' = map f (rcodes s)" "next_code s' = next_code s" "usages s' = usages s" by (simp_all add: s')
    moreover have "rows_ok s" using inv by (simp add: redeem_inv_def)
    ultimately show ?thesis using f m by (auto simp: rows_ok_def ids simp del: map_map)
  qed
  moreover have "limits_ok edits s'"
  proof -
    have "if MaxUses (f r) = Some 1 then edits \<or> single_ok s' (f r) else shared_ok s' (f r)" if r: "r \<in> set (rcodes s)" for r
    proof -
      have l: "if MaxUses r = Some 1 then edits \<or> single_ok s r else shared_ok s r"
        using inv r unfolding redeem_inv_def limits_ok_def by blast
      show ?thesis
      proof (cases "MaxUses r = Some 1")
        case True
        then show ?thesis using l used [OF r] f [OF r] m [OF r] by (auto simp: single_ok_def p split: list.splits)
      next
        case False
        then show ?thesis using l f [OF r] m [OF r] us by (clarsimp simp: shared_ok_def p)
      qed
    qed
    then show ?thesis unfolding limits_ok_def s' by auto
  qed
  ultimately show ?thesis using inv unfolding redeem_inv_def c x by (simp add: s')
qed

text \<open>A redemption: the row is marked, and the benefits are listed once.\<close>

lemma use_code_Inr:
  assumes "redeem_inv edits backed s" and "copy_ok s c" and "use_code c u s = (Inr x, s1)"
  obtains r where "r \<in> set (rcodes s)" "RID r = RID c" "core r = core c" "RStatus r = StatusUnused"
    "MaxUses r \<noteq> Some 1 \<longrightarrow> share_open (RID r) r \<and> (RID r, u) \<notin> set (usages s)
       \<and> s1 = s\<lparr>rcodes := map (\<lambda>r. if share_open (RID c) r then count_share r else r) (rcodes s), usages := usages s @ [(RID r, u)]\<rparr>"
    "MaxUses r = Some 1 \<longrightarrow> s1 = s\<lparr>rcodes := map (\<lambda>r. if RID r = RID c \<and> RStatus r = StatusUnused
       then r\<lparr>RStatus := StatusUsed, RUsedBy := Some u\<rparr> else r) (rcodes s)\<rparr>"
proof (cases "IsShared c")
  case True
  then have o: "list_ex (share_open (RID c)) (rcodes s)" "(RID c, u) \<notin> set (usages s)"
    "s1 = s\<lparr>rcodes := map (\<lambda>r. if share_open (RID c) r then count_share r else r) (rcodes s), usages := usages s @ [(RID c, u)]\<rparr>"
    using assms(3) by (auto simp: use_code_def repo_UseShared_def Let_def split: if_splits)
  then obtain r where r: "r \<in> set (rcodes s)" "share_open (RID c) r" by (auto simp: list_ex_iff)
  then have "RID r = RID c" "RStatus r = StatusUnused" "MaxUses r \<noteq> Some 1" by (auto simp: share_open_def split: option.splits)
  moreover from this have "core r = core c" using assms(2) r(1) by (auto simp: copy_ok_def)
  ultimately show thesis using that [of r] r o by simp
next
  case False
  then have "list_ex (\<lambda>r. RID r = RID c \<and> RStatus r = StatusUnused) (rcodes s)"
    "s1 = s\<lparr>rcodes := map (\<lambda>r. if RID r = RID c \<and> RStatus r = StatusUnused
       then r\<lparr>RStatus := StatusUsed, RUsedBy := Some u\<rparr> else r) (rcodes s)\<rparr>"
    using assms(3) by (auto simp: use_code_def repo_Use_def Let_def split: if_splits)
  moreover from this(1) obtain r where r: "r \<in> set (rcodes s)" "RID r = RID c" "RStatus r = StatusUnused"
    by (auto simp: list_ex_iff)
  moreover have k: "core r = core c" using assms(2) r(1,2) by (auto simp: copy_ok_def)
  moreover have "MaxUses r = Some 1"
  proof -
    have "MaxUses c = MaxUses r" using k by (simp add: core_def)
    moreover obtain m where "MaxUses r = Some m" using assms(1) r(1) unfolding redeem_inv_def rows_ok_def by blast
    ultimately show ?thesis using False by (simp add: IsShared_def)
  qed
  ultimately show thesis using that [of r] by blast
qed

lemma inv_redeem:
  assumes inv: "redeem_inv edits backed s" and c: "copy_ok s c" and u: "use_code c u s = (Inr x, s1)"
    and b: "redeem_benefits backed c = Inr bs"
    and s': "s' = s1\<lparr>payouts := payouts s1 @ [\<lparr>PCodeID = RID c, PCode = RCode c, PUser = u, PBenefits = bs\<rparr>]\<rparr>"
  shows "redeem_inv edits backed s'"
proof -
  let ?p = "\<lparr>PCodeID = RID c, PCode = RCode c, PUser = u, PBenefits = bs\<rparr>"
  obtain r where r: "r \<in> set (rcodes s)" "RID r = RID c" "core r = core c" "RStatus r = StatusUnused"
    and shared: "MaxUses r \<noteq> Some 1 \<longrightarrow> share_open (RID r) r \<and> (RID r, u) \<notin> set (usages s)
       \<and> s1 = s\<lparr>rcodes := map (\<lambda>r. if share_open (RID c) r then count_share r else r) (rcodes s), usages := usages s @ [(RID r, u)]\<rparr>"
    and single: "MaxUses r = Some 1 \<longrightarrow> s1 = s\<lparr>rcodes := map (\<lambda>r. if RID r = RID c \<and> RStatus r = StatusUnused
       then r\<lparr>RStatus := StatusUsed, RUsedBy := Some u\<rparr> else r) (rcodes s)\<rparr>"
    by (rule use_code_Inr [OF inv c u])
  define g where "g = (if MaxUses r = Some 1
    then (\<lambda>r. if RID r = RID c \<and> RStatus r = StatusUnused then r\<lparr>RStatus := StatusUsed, RUsedBy := Some u\<rparr> else r)
    else (\<lambda>r. if share_open (RID c) r then count_share r else r))"
  have s1: "s1 = s\<lparr>rcodes := map g (rcodes s), usages := usages s @ (if MaxUses r = Some 1 then [] else [(RID r, u)])\<rparr>"
  proof (cases "MaxUses r = Some 1")
    case True
    with single show ?thesis by (simp add: g_def)
  next
    case False
    with shared show ?thesis by (simp add: g_def)
  qed
  have rows: "rcodes s' = map g (rcodes s)" "next_code s' = next_code s" "payouts s' = payouts s @ [?p]"
    "sessions s' = sessions s" "editing s' = editing s"
    "usages s' = usages s @ (if MaxUses r = Some 1 then [] else [(RID r, u)])"
    by (simp_all add: s' s1)
  have g: "RID (g y) = RID y" "core (g y) = core y" "MaxUses (g y) = MaxUses y" "RCode (g y) = RCode y" for y
    by (auto simp: g_def core_def count_share_def)
  have ids: "map RID (rcodes s') = map RID (rcodes s)" "map RCode (rcodes s') = map RCode (rcodes s)" by (simp_all add: rows g)
  have cc: "copy_ok s' = copy_ok s" by (intro ext) (simp add: copy_ok_def rows g)
  have pid: "RID ` set (rcodes s') = RID ` set (rcodes s)" using ids(1) by (metis list.set_map)
  have uniq: "y = r" if "y \<in> set (rcodes s)" "RID y = RID c" for y
    using inv that r(1,2) unfolding redeem_inv_def rows_ok_def by (auto simp: distinct_map inj_on_def)
  have other: "paid_out i s' = paid_out i s" if "i \<noteq> RID c" for i using that by (simp add: paid_out_def rows)
  have own: "paid_out (RID c) s' = paid_out (RID c) s @ [?p]" by (simp add: paid_out_def rows)
  have "rows_ok s'" using inv r(1) unfolding redeem_inv_def rows_ok_def ids by (auto simp: rows g)
  moreover have "limits_ok edits s'"
  proof -
    have "if MaxUses y = Some 1 then edits \<or> single_ok s' (g y) else shared_ok s' (g y)" if y: "y \<in> set (rcodes s)" for y
    proof -
      have l: "if MaxUses y = Some 1 then edits \<or> single_ok s y else shared_ok s y"
        using inv y unfolding redeem_inv_def limits_ok_def by blast
      show ?thesis
      proof (cases "RID y = RID c")
        case False
        have "single_ok s' y = single_ok s y" by (simp add: single_ok_def other [OF False])
        moreover have "shared_ok s' y = shared_ok s y" using False r(2) by (auto simp: shared_ok_def other [OF False] rows)
        moreover have "g y = y" using False by (auto simp: g_def share_open_def)
        ultimately show ?thesis using l by simp
      next
        case True
        then have yr: "y = r" using uniq y by blast
        show ?thesis
        proof (cases "MaxUses r = Some 1")
          case one: True
          then have "edits \<or> paid_out (RID c) s = []"
            using l yr r(2,4) by (auto simp: single_ok_def status_names split: list.splits)
          then show ?thesis using one yr r(2,4) own by (auto simp: single_ok_def g_def)
        next
          case many: False
          then have o: "share_open (RID r) r" "(RID r, u) \<notin> set (usages s)" using shared by blast+
          then show ?thesis using l many yr r(2) own
            by (auto simp: shared_ok_def g_def count_share_def rows share_open_def split: option.splits)
        qed
      qed
    qed
    then show ?thesis unfolding limits_ok_def rows(1) by (auto simp: g)
  qed
  moreover have "\<forall>p \<in> set (payouts s'). payout_ok edits backed s' p"
  proof -
    have "payout_ok edits backed s' p" if "payout_ok edits backed s p" for p using that by (simp add: payout_ok_def cc pid)
    moreover have "RID c \<in> RID ` set (rcodes s)" using r(1) r(2) [symmetric] by simp
    then have "payout_ok edits backed s' ?p" using c b by (auto simp: payout_ok_def cc pid)
    ultimately show ?thesis using inv by (simp add: rows redeem_inv_def)
  qed
  moreover have "\<forall>k. session_ok s' (sessions s' k)"
  proof
    fix k
    have "session_ok s (sessions s k)" using inv by (simp add: redeem_inv_def)
    then show "session_ok s' (sessions s' k)" by (auto simp: session_ok_def rows cc split: session.splits sum.splits)
  qed
  moreover have "\<forall>n y. editing s' n = Some y \<longrightarrow> copy_ok s' y" using inv by (simp add: redeem_inv_def rows cc)
  ultimately show ?thesis by (simp add: redeem_inv_def)
qed

text \<open>A new code, and a deleted one.\<close>

lemma inv_create:
  assumes inv: "redeem_inv edits backed s" shows "redeem_inv edits backed (snd (repo_Create code s))"
proof (cases "snd (repo_Create code s) = s")
  case False
  define row where "row = code\<lparr>RID := next_code s, MaxUses := Some (case MaxUses code of None \<Rightarrow> 1 | Some m \<Rightarrow> m), UsedCount := 0\<rparr>"
  have s': "snd (repo_Create code s) = s\<lparr>rcodes := rcodes s @ [row], next_code := next_code s + 1\<rparr>"
    and fresh: "\<forall>r \<in> set (rcodes s). RCode r \<noteq> RCode code" "0 \<le> (case MaxUses code of None \<Rightarrow> 1 | Some m \<Rightarrow> m)"
    using False by (auto simp: repo_Create_def Let_def row_def list_ex_iff split: if_splits)
  let ?s = "s\<lparr>rcodes := rcodes s @ [row], next_code := next_code s + 1\<rparr>"
  have row: "RID row = next_code s" "RCode row = RCode code" "UsedCount row = 0"
    "\<exists>m \<ge> 0. MaxUses row = Some m" using fresh(2) by (auto simp: row_def)
  have old: "RID r < next_code s" if "r \<in> set (rcodes s)" for r
    using inv that unfolding redeem_inv_def rows_ok_def by blast
  have copy: "copy_ok ?s c" if "copy_ok s c" for c using that row(1) by (auto simp: copy_ok_def)
  have po: "paid_out i ?s = paid_out i s" for i by (simp add: paid_out_def)
  have "PCodeID p < next_code s" if "p \<in> set (payouts s)" for p
  proof -
    have "payout_ok edits backed s p" using inv that by (simp add: redeem_inv_def)
    then obtain c where "copy_ok s c" "RID c = PCodeID p" unfolding payout_ok_def by blast
    then show ?thesis by (simp add: copy_ok_def)
  qed
  then have none: "paid_out (next_code s) s = []" by (fastforce simp: paid_out_def filter_empty_conv)
  have "rows_ok ?s"
  proof -
    have k: "rows_ok s" using inv by (simp add: redeem_inv_def)
    have "next_code s \<notin> RID ` set (rcodes s)" using old by fastforce
    moreover have "RCode code \<notin> RCode ` set (rcodes s)" using fresh(1) by fastforce
    moreover have "fst x < next_code s + 1" if "x \<in> set (usages s)" for x using k that by (fastforce simp: rows_ok_def)
    moreover have "RID r < next_code s + 1" if "r \<in> set (rcodes s)" for r using old [OF that] by simp
    moreover have "\<exists>m \<ge> 0. MaxUses r = Some m" if "r \<in> set (rcodes s)" for r using k that by (simp add: rows_ok_def)
    ultimately show ?thesis using k row by (simp add: rows_ok_def)
  qed
  moreover have "limits_ok edits ?s"
  proof -
    have "single_ok ?s r = single_ok s r" "shared_ok ?s r = shared_ok s r" for r
      by (simp_all add: single_ok_def shared_ok_def po)
    moreover have "single_ok s row" using none row(1) by (simp add: single_ok_def)
    moreover have "shared_ok s row"
    proof -
      have "(next_code s, u) \<notin> set (usages s)" for u using inv unfolding redeem_inv_def rows_ok_def by force
      then show ?thesis using none row by (auto simp: shared_ok_def)
    qed
    ultimately show ?thesis using inv unfolding redeem_inv_def limits_ok_def by auto
  qed
  moreover have "\<forall>p \<in> set (payouts s). payout_ok edits backed ?s p"
    using inv copy unfolding redeem_inv_def payout_ok_def by fastforce
  moreover have "session_ok ?s (sessions s c)" for c
    using inv copy unfolding redeem_inv_def session_ok_def by (fastforce split: session.splits sum.splits)
  moreover have "\<forall>n r. editing s n = Some r \<longrightarrow> copy_ok ?s r" using inv copy unfolding redeem_inv_def by blast
  ultimately show ?thesis unfolding s' by (simp add: redeem_inv_def)
qed (simp add: inv)

lemma inv_delete:
  assumes inv: "redeem_inv edits backed s" shows "redeem_inv edits backed (snd (repo_Delete i s))"
proof (cases "snd (repo_Delete i s) = s")
  case False
  define keep where "keep = (\<lambda>r :: redeem_code. \<not> (RID r = i \<and> RStatus r \<noteq> StatusUsed \<and> RUsedBy r = None \<and> UsedCount r = 0))"
  have s': "snd (repo_Delete i s) = s\<lparr>rcodes := filter keep (rcodes s)\<rparr>"
    using False by (auto simp: repo_Delete_def Let_def keep_def split: if_splits)
  let ?s = "s\<lparr>rcodes := filter keep (rcodes s)\<rparr>"
  have copy: "copy_ok ?s c" if "copy_ok s c" for c using that by (auto simp: copy_ok_def)
  have po: "paid_out i ?s = paid_out i s" for i by (simp add: paid_out_def)
  have ok: "single_ok ?s r = single_ok s r" "shared_ok ?s r = shared_ok s r" for r
    by (simp_all add: single_ok_def shared_ok_def po)
  have "rows_ok ?s" using inv unfolding redeem_inv_def rows_ok_def by (auto simp: distinct_map_filter)
  moreover have "limits_ok edits ?s" using inv unfolding redeem_inv_def limits_ok_def by (simp add: ok)
  moreover have "payout_ok edits backed ?s p" if p: "p \<in> set (payouts s)" for p
  proof -
    have q: "payout_ok edits backed s p" using inv p by (simp add: redeem_inv_def)
    have "PCodeID p \<in> RID ` set (rcodes ?s)" if "\<not> edits"
    proof -
      note e = that
      obtain r where r: "r \<in> set (rcodes s)" "RID r = PCodeID p" using q e by (auto simp: payout_ok_def)
      have l: "if MaxUses r = Some 1 then single_ok s r else shared_ok s r"
        using inv r(1) e unfolding redeem_inv_def limits_ok_def by auto
      have "p \<in> set (paid_out (RID r) s)" using p r(2) by (simp add: paid_out_def)
      then have "keep r" using l by (cases "MaxUses r = Some 1") (auto simp: keep_def single_ok_def shared_ok_def split: list.splits)
      then have "r \<in> set (rcodes ?s)" using r(1) by simp
      then show ?thesis using r(2) [symmetric] by blast
    qed
    then show ?thesis using q copy unfolding payout_ok_def by blast
  qed
  moreover have "session_ok ?s (sessions s c)" for c
    using inv copy unfolding redeem_inv_def session_ok_def by (fastforce split: session.splits sum.splits)
  moreover have "\<forall>n r. editing s n = Some r \<longrightarrow> copy_ok ?s r" using inv copy unfolding redeem_inv_def by blast
  ultimately show ?thesis unfolding s' by (simp add: redeem_inv_def)
qed (simp add: inv)

section \<open>Every step keeps the invariant\<close>

lemma inv_batch:
  assumes inv: "redeem_inv edits backed s" shows "redeem_inv edits backed (snd (BatchUpdate now ids f s))"
proof (cases "snd (BatchUpdate now ids f s) = s")
  case False
  let ?f = "\<lambda>r. if RID r \<in> set ids then batch_write f r else r"
  have s': "snd (BatchUpdate now ids f s) = s\<lparr>rcodes := map ?f (rcodes s)\<rparr>"
    and guard: "\<not> (TouchesUsedSensitiveFields f \<and> list_ex (\<lambda>r. RStatus r = StatusUsed \<or> 0 < UsedCount r)
      (filter (\<lambda>r. RID r \<in> set ids) (rcodes s)))"
    using False by (auto simp: BatchUpdate_def repo_BatchUpdate_def Let_def split: option.splits if_splits)
  show ?thesis
  proof (rule inv_map_rows [OF inv s'])
    fix r assume r: "r \<in> set (rcodes s)"
    show "RID (?f r) = RID r \<and> core (?f r) = core r \<and> UsedCount (?f r) = UsedCount r"
      by (simp add: batch_write_def core_def)
    assume "RStatus r = StatusUsed"
    then have "RID r \<notin> set ids \<or> FStatus f = None" using guard r by (auto simp: TouchesUsedSensitiveFields_def list_ex_iff)
    then show "RStatus (?f r) = StatusUsed \<and> RUsedBy (?f r) = RUsedBy r"
      using \<open>RStatus r = StatusUsed\<close> by (auto simp: batch_write_def opt_set_def)
  qed
qed (simp add: inv)

lemma inv_invite:
  assumes inv: "redeem_inv edits backed s" shows "redeem_inv edits backed (snd (repo_Use i u s))"
proof (cases "snd (repo_Use i u s) = s")
  case False
  then have s': "snd (repo_Use i u s) = s\<lparr>rcodes := map (\<lambda>r. if RID r = i \<and> RStatus r = StatusUnused
      then r\<lparr>RStatus := StatusUsed, RUsedBy := Some u\<rparr> else r) (rcodes s)\<rparr>"
    by (auto simp: repo_Use_def Let_def split: if_splits)
  show ?thesis by (rule inv_map_rows [OF inv s']) (auto simp: core_def status_names)
qed (simp add: inv)

lemma inv_expire:
  assumes inv: "redeem_inv edits backed s" and "edits"
  shows "redeem_inv edits backed (expire_write k s)"
proof (cases "editing s k")
  case (Some c)
  have c: "copy_ok s c" using inv Some by (simp add: redeem_inv_def)
  have i: "redeem_inv edits backed (snd (repo_Update c s))"
  proof (cases "snd (repo_Update c s) = s")
    case False
    then have s': "snd (repo_Update c s) = s\<lparr>rcodes := map (\<lambda>r. if RID r = RID c
        then c\<lparr>MaxUses := MaxUses r, UsedCount := UsedCount r\<rparr> else r) (rcodes s)\<rparr>"
      by (auto simp: repo_Update_def split: if_splits)
    show ?thesis using c assms(2) by (intro inv_map_rows [OF inv s']) (auto simp: copy_ok_def core_def)
  qed (simp add: inv)
  have e: "editing (snd (repo_Update c s)) = editing s" by (simp add: repo_Update_def)
  show ?thesis unfolding expire_write_def Some option.case
    by (rule inv_local [OF i]) (use i in \<open>auto simp: redeem_inv_def e split: if_splits\<close>)
qed (simp add: inv expire_write_def)

lemma inv_close:
  assumes inv: "redeem_inv edits backed s" and c: "copy_ok s r"
  shows "redeem_inv edits backed (redeem_close backed t c u r s)"
proof (cases "\<exists>x s1 bs. use_code r u s = (Inr x, s1) \<and> redeem_benefits backed r = Inr bs \<and> (\<forall>e. t \<noteq> RolledBack e)")
  case True
  then obtain x s1 bs where u: "use_code r u s = (Inr x, s1)" and b: "redeem_benefits backed r = Inr bs"
    and t: "\<forall>e. t \<noteq> RolledBack e" by blast
  let ?s = "s1\<lparr>payouts := payouts s1 @ [\<lparr>PCodeID = RID r, PCode = RCode r, PUser = u, PBenefits = bs\<rparr>]\<rparr>"
  have i: "redeem_inv edits backed ?s" using inv_redeem [OF inv c u b] by simp
  have "\<exists>res. redeem_close backed t c u r s = answer c u (RCode r) res ?s"
    using t by (cases t) (auto simp: redeem_close_def redeem_tx_def u b)
  then obtain res where k: "redeem_close backed t c u r s = answer c u (RCode r) res ?s" by blast
  have "session_ok ?s (Answered u (RCode r) res)" by (auto simp: session_ok_def split: sum.splits)
  then show ?thesis unfolding k answer_def
    by (intro inv_local [OF i]) (use i in \<open>auto simp: redeem_inv_def\<close>)
next
  case False
  then have "\<exists>e. redeem_tx backed t r u s = (Inl e, s)"
    by (auto simp: redeem_tx_def split: prod.splits sum.splits tx_end.splits)
  then obtain e where "redeem_tx backed t r u s = (Inl e, s)" by blast
  then have k: "redeem_close backed t c u r s = answer c u (RCode r) (Inl e) s" by (simp add: redeem_close_def)
  show ?thesis unfolding k answer_def
    by (rule inv_local [OF inv]) (use inv in \<open>auto simp: redeem_inv_def session_ok_def\<close>)
qed

definition open_fails :: "redeem_input \<Rightarrow> caller \<Rightarrow> int \<Rightarrow> string \<Rightarrow> redeem_state \<Rightarrow> redeem_state \<Rightarrow> bool" where
  "open_fails a c u code s s' \<longleftrightarrow> (\<exists>e s1. s' = answer c u code (Inl e) s1 \<and> (s1 = s \<or> s1 = incrementRedeemErrorCount c (in_cache a) u s))"

lemma open_failsI [intro]: "open_fails a c u code s (answer c u code (Inl e) s)"
  "open_fails a c u code s (answer c u code (Inl e) (incrementRedeemErrorCount c (in_cache a) u s))"
  by (auto simp: open_fails_def)

lemma open_cases:
  "open_fails a c u code s (redeem_open a c u code s)
   \<or> (\<exists>r. redeem_open a c u code s = s\<lparr>sessions := (sessions s)(c := Checked u r)\<rparr> \<and> repo_GetByCode code s = Inr r
        \<and> redeem_refusal (in_now a) (in_now1 a) r = None)"
proof (cases "repo_GetByCode code s")
  case (Inl e)
  then show ?thesis unfolding redeem_open_def by (simp add: open_failsI)
next
  case (Inr r)
  then show ?thesis unfolding redeem_open_def
    by (cases "redeem_refusal (in_now a) (in_now1 a) r"; cases "in_user a") (auto simp: open_failsI split: prod.splits)
qed

lemma inv_open:
  assumes inv: "redeem_inv edits backed s" shows "redeem_inv edits backed (redeem_open a c u code s)"
  using open_cases [of a c u code s]
proof (elim disjE exE conjE)
  assume "open_fails a c u code s (redeem_open a c u code s)"
  then obtain e s1 where f: "redeem_open a c u code s = answer c u code (Inl e) s1"
    "s1 = s \<or> s1 = incrementRedeemErrorCount c (in_cache a) u s" unfolding open_fails_def by blast
  then have "rcodes s1 = rcodes s" "next_code s1 = next_code s" "usages s1 = usages s" "payouts s1 = payouts s"
    "sessions s1 = sessions s" "editing s1 = editing s"
    by (auto simp: incrementRedeemErrorCount_def)
  then show ?thesis unfolding f(1) answer_def
    by (intro inv_local [OF inv]) (use inv in \<open>auto simp: redeem_inv_def session_ok_def\<close>)
next
  fix r assume o: "redeem_open a c u code s = s\<lparr>sessions := (sessions s)(c := Checked u r)\<rparr>" "repo_GetByCode code s = Inr r"
  have "copy_ok s r" using copy_of_row [OF inv, of r r] GetByCode_row [OF o(2)] by simp
  then show ?thesis unfolding o(1)
    by (intro inv_local [OF inv]) (use inv in \<open>auto simp: redeem_inv_def session_ok_def\<close>)
qed

lemma inv_step: "redeem_step edits backed s s' \<Longrightarrow> redeem_inv edits backed s \<Longrightarrow> redeem_inv edits backed s'"
proof (induction rule: redeem_step.induct)
  case (close_call s c u r t)
  have "session_ok s (sessions s c)" using close_call.prems by (simp add: redeem_inv_def)
  then have "copy_ok s r" using close_call.hyps by (simp add: session_ok_def)
  with close_call.prems show ?case by (rule inv_close)
next
  case (rest s c)
  then show ?case by (intro inv_local [OF rest]) (auto simp: redeem_inv_def session_ok_def)
next
  case (forget s n)
  then show ?case by (intro inv_local [OF forget]) (auto simp: redeem_inv_def)
next
  case (read_copy s k i)
  show ?case
  proof (cases "repo_GetByID i s")
    case (Inr r)
    have "copy_ok s (r\<lparr>RStatus := StatusExpired\<rparr>)"
      using copy_of_row [OF read_copy(2), of r] GetByID_row [OF Inr] by (simp add: core_def)
    with Inr read_copy show ?thesis
      by (intro inv_local [OF read_copy(2)]) (auto simp: expire_read_def redeem_inv_def split: if_splits)
  qed (simp add: expire_read_def read_copy(2))
qed (simp_all add: inv_open inv_create inv_delete inv_batch inv_invite inv_expire)

lemma run_inv: "redeem_run edits backed s \<Longrightarrow> redeem_inv edits backed s"
  by (induction rule: redeem_run.induct) (blast intro: inv_initial inv_step)+

section \<open>One undisturbed redemption\<close>

text \<open>A code that can be used, with the user known, is paid out and the answer is the code.\<close>

definition undisturbed :: "redeem_input \<Rightarrow> redeem_state \<Rightarrow> caller \<Rightarrow> int \<Rightarrow> bool" where
  "undisturbed a s c u \<longleftrightarrow> in_lock a \<and> in_user a = None \<and> \<not> (enforces_rate_limit c \<and> redeemMaxFailedAttempts \<le> attempts s u)"

lemma open_usable:
  assumes "undisturbed a s c u" and "repo_GetByCode code s = Inr r" and "redeem_refusal (in_now a) (in_now1 a) r = None"
  shows "redeem_open a c u code s = s\<lparr>sessions := (sessions s)(c := Checked u r)\<rparr>"
  using assms by (auto simp: redeem_open_def undisturbed_def)

lemma close_single:
  assumes "r \<in> set (rcodes s)" and "RStatus r = StatusUnused" and "MaxUses r = Some 1"
    and "redeem_benefits backed r = Inr bs"
  shows "redeem_close backed Committed c u r s = answer c u (RCode r) (Inr r)
    (s\<lparr>rcodes := map (\<lambda>y. if RID y = RID r \<and> RStatus y = StatusUnused then y\<lparr>RStatus := StatusUsed, RUsedBy := Some u\<rparr> else y) (rcodes s),
       payouts := payouts s @ [\<lparr>PCodeID = RID r, PCode = RCode r, PUser = u, PBenefits = bs\<rparr>]\<rparr>)"
  using assms by (auto simp: redeem_close_def redeem_tx_def use_code_def IsShared_def repo_Use_def Let_def list_ex_iff)

section \<open>What one step can do\<close>

text \<open>For the components that pay by codes: payouts are only added, rows keep their core, and a row becomes used by a payout.\<close>

definition row_kept :: "redeem_state \<Rightarrow> redeem_state \<Rightarrow> redeem_code \<Rightarrow> bool" where
  "row_kept s s' r' \<longleftrightarrow> RID r' \<notin> RID ` set (rcodes s)
     \<or> (\<exists>r \<in> set (rcodes s). RID r = RID r' \<and> core r = core r'
          \<and> (RStatus r' = StatusUsed \<longrightarrow> RStatus r = StatusUsed \<or> RType r = RedeemTypeInvitation
               \<or> (\<exists>p \<in> set (payouts s'). PCodeID p = RID r')))"

definition small_step :: "redeem_state \<Rightarrow> redeem_state \<Rightarrow> bool" where
  "small_step s s' \<longleftrightarrow> set (payouts s) \<subseteq> set (payouts s') \<and> (\<forall>r' \<in> set (rcodes s'). row_kept s s' r')"

lemma small_step_rows [intro]:
  assumes "set (rcodes s') \<subseteq> set (rcodes s)" and "payouts s' = payouts s" shows "small_step s s'"
  using assms by (auto simp: small_step_def row_kept_def)

lemma small_step_map:
  assumes "rcodes s' = map f (rcodes s)" and "set (payouts s) \<subseteq> set (payouts s')"
    and "\<And>r. r \<in> set (rcodes s) \<Longrightarrow> RID (f r) = RID r \<and> core (f r) = core r
      \<and> (RStatus (f r) = StatusUsed \<longrightarrow> RStatus r = StatusUsed \<or> RType r = RedeemTypeInvitation
           \<or> (\<exists>p \<in> set (payouts s'). PCodeID p = RID r))"
  shows "small_step s s'"
  unfolding small_step_def row_kept_def using assms(2)
proof (intro conjI ballI)
  fix r' assume "r' \<in> set (rcodes s')"
  then obtain r where r: "r \<in> set (rcodes s)" "r' = f r" using assms(1) by auto
  with assms(3) [OF r(1)] show "RID r' \<notin> RID ` set (rcodes s)
     \<or> (\<exists>r \<in> set (rcodes s). RID r = RID r' \<and> core r = core r'
          \<and> (RStatus r' = StatusUsed \<longrightarrow> RStatus r = StatusUsed \<or> RType r = RedeemTypeInvitation
               \<or> (\<exists>p \<in> set (payouts s'). PCodeID p = RID r')))"
    by (intro disjI2 bexI [of _ r]) simp_all
qed

lemma small_create:
  assumes "redeem_inv edits backed s" shows "small_step s (snd (repo_Create code s))"
proof (cases "snd (repo_Create code s) = s")
  case False
  define row where "row = code\<lparr>RID := next_code s, MaxUses := Some (case MaxUses code of None \<Rightarrow> 1 | Some m \<Rightarrow> m), UsedCount := 0\<rparr>"
  have s': "snd (repo_Create code s) = s\<lparr>rcodes := rcodes s @ [row], next_code := next_code s + 1\<rparr>"
    using False by (auto simp: repo_Create_def Let_def row_def split: if_splits)
  have "RID row = next_code s" by (simp add: row_def)
  moreover have "\<forall>r \<in> set (rcodes s). RID r < next_code s" using assms unfolding redeem_inv_def rows_ok_def by blast
  ultimately have "RID row \<notin> RID ` set (rcodes s)" by fastforce
  then show ?thesis unfolding s' by (auto simp: small_step_def row_kept_def)
qed (simp add: small_step_rows)

lemma small_batch: "small_step s (snd (BatchUpdate now ids f s))"
proof (cases "snd (BatchUpdate now ids f s) = s")
  case False
  let ?f = "\<lambda>r. if RID r \<in> set ids then batch_write f r else r"
  have s': "snd (BatchUpdate now ids f s) = s\<lparr>rcodes := map ?f (rcodes s)\<rparr>" and b: "batch_refusal now ids f = None"
    using False by (auto simp: BatchUpdate_def repo_BatchUpdate_def Let_def split: option.splits if_splits)
  have "FStatus f \<noteq> Some StatusUsed"
  proof
    assume "FStatus f = Some StatusUsed"
    with b show False unfolding batch_refusal_def by (simp add: status_names split: if_split_asm)
  qed
  then have u: "RStatus (?f r) = StatusUsed \<longrightarrow> RStatus r = StatusUsed" for r
    by (auto simp: batch_write_def opt_set_def split: if_splits option.splits)
  have "RID (?f r) = RID r \<and> core (?f r) = core r" for r by (simp add: batch_write_def core_def)
  with u have k: "RID (?f r) = RID r \<and> core (?f r) = core r \<and> (RStatus (?f r) = StatusUsed \<longrightarrow> RStatus r = StatusUsed)" for r
    by blast
  show ?thesis unfolding s'
  proof (rule small_step_map [of _ ?f])
    fix r
    from k [of r] show "RID (?f r) = RID r \<and> core (?f r) = core r \<and> (RStatus (?f r) = StatusUsed \<longrightarrow> RStatus r = StatusUsed
      \<or> RType r = RedeemTypeInvitation \<or> (\<exists>p \<in> set (payouts (s\<lparr>rcodes := map ?f (rcodes s)\<rparr>)). PCodeID p = RID r))" by blast
  qed simp_all
qed (simp add: small_step_rows)

lemma small_close: "small_step s (redeem_close backed t c u r s)"
proof (cases "use_code r u s")
  case (Pair x s1)
  show ?thesis
  proof (cases x)
    case (Inl e)
    then show ?thesis using Pair by (intro small_step_rows) (simp_all add: redeem_close_def redeem_tx_def answer_def)
  next
    case (Inr y)
    obtain f where f: "rcodes s1 = map f (rcodes s)" "payouts s1 = payouts s"
      "\<And>q. RID (f q) = RID q \<and> core (f q) = core q \<and> (RStatus (f q) = StatusUsed \<longrightarrow> RStatus q = StatusUsed \<or> RID q = RID r)"
    proof (cases "IsShared r")
      case True
      with Pair Inr that [of "\<lambda>q. if share_open (RID r) q then count_share q else q"] show thesis
        by (auto simp: use_code_def repo_UseShared_def Let_def share_open_def count_share_def core_def split: if_splits option.splits)
    next
      case False
      with Pair Inr that [of "\<lambda>q. if RID q = RID r \<and> RStatus q = StatusUnused then q\<lparr>RStatus := StatusUsed, RUsedBy := Some u\<rparr> else q"] show thesis
        by (auto simp: use_code_def repo_Use_def Let_def core_def split: if_splits)
    qed
    have "small_step s (s1\<lparr>payouts := payouts s1 @ [\<lparr>PCodeID = RID r, PCode = RCode r, PUser = u, PBenefits = bs\<rparr>], sessions := ss\<rparr>)" for bs ss
    proof (rule small_step_map [of _ f])
      fix q
      show "RID (f q) = RID q \<and> core (f q) = core q
        \<and> (RStatus (f q) = StatusUsed \<longrightarrow> RStatus q = StatusUsed \<or> RType q = RedeemTypeInvitation
           \<or> (\<exists>p \<in> set (payouts (s1\<lparr>payouts := payouts s1 @ [\<lparr>PCodeID = RID r, PCode = RCode r, PUser = u, PBenefits = bs\<rparr>],
                sessions := ss\<rparr>)). PCodeID p = RID q))"
        using f(3) [of q] by auto
    qed (auto simp: f)
    moreover have "small_step s (s\<lparr>sessions := ss\<rparr>)" for ss by (intro small_step_rows) simp_all
    moreover have "(\<exists>ss. redeem_close backed t c u r s = s\<lparr>sessions := ss\<rparr>)
      \<or> (\<exists>bs ss. redeem_close backed t c u r s =
           s1\<lparr>payouts := payouts s1 @ [\<lparr>PCodeID = RID r, PCode = RCode r, PUser = u, PBenefits = bs\<rparr>], sessions := ss\<rparr>)"
      using Pair Inr by (auto simp: redeem_close_def redeem_tx_def answer_def Let_def split: sum.splits tx_end.splits)
    ultimately show ?thesis by fastforce
  qed
qed

lemma step_small: "redeem_step False backed s s' \<Longrightarrow> redeem_inv False backed s \<Longrightarrow> small_step s s'"
proof (induction rule: redeem_step.induct)
  case (open_call s c a u code)
  have "rcodes (redeem_open a c u code s) = rcodes s \<and> payouts (redeem_open a c u code s) = payouts s"
    using open_cases [of a c u code s] by (auto simp: open_fails_def answer_def incrementRedeemErrorCount_def split: if_splits)
  then show ?case by (intro small_step_rows) simp_all
next
  case (remove s i)
  then show ?case by (intro small_step_rows) (auto simp: repo_Delete_def Let_def)
next
  case (invite i s u)
  show ?case
  proof (cases "snd (repo_Use i u s) = s")
    case False
    let ?f = "\<lambda>r. if RID r = i \<and> RStatus r = StatusUnused then r\<lparr>RStatus := StatusUsed, RUsedBy := Some u\<rparr> else r"
    have "snd (repo_Use i u s) = s\<lparr>rcodes := map ?f (rcodes s)\<rparr>"
      using False by (auto simp: repo_Use_def Let_def split: if_splits)
    then show ?thesis using invite.hyps by (intro small_step_map [of _ ?f]) (auto simp: core_def list_all_iff)
  qed (simp add: small_step_rows)
next
  case (create s code)
  then show ?case by (rule small_create)
next
  case (close_call s c u r t)
  show ?case by (rule small_close)
next
  case (rest s c)
  show ?case by (intro small_step_rows) simp_all
next
  case (batch s now ids f)
  show ?case by (rule small_batch)
next
  case (forget s n)
  show ?case by (intro small_step_rows) simp_all
qed simp_all

lemma CreateCode_cases: "snd (CreateCode now code s) = s \<or> (\<exists>c. snd (CreateCode now code s) = snd (repo_Create c s))"
proof -
  have k: "snd (case x of (Inl e, s1) \<Rightarrow> (Inl (WrapError m e), s1) | (Inr r, s1) \<Rightarrow> (Inr r, s1)) = snd x"
    for m and x :: "(go_error, redeem_code) result \<times> redeem_state"
    by (cases x; cases "fst x") simp_all
  show ?thesis unfolding CreateCode_def Let_def if_distrib [of snd] k snd_conv by metis
qed

text \<open>The row behind a payout.\<close>

lemma payout_row:
  assumes "redeem_inv False backed s" and "p \<in> set (payouts s)"
  shows "\<exists>r \<in> set (rcodes s). RID r = PCodeID p \<and> RCode r = PCode p
    \<and> (MaxUses r = Some 1 \<longrightarrow> filter (\<lambda>q. PCodeID q = RID r) (payouts s) = [p]
         \<and> RStatus r = StatusUsed \<and> RUsedBy r = Some (PUser p))
    \<and> (RType r = RedeemTypeBalance \<or> RType r = RedeemTypeConcurrency \<longrightarrow> redeem_benefits backed r = Inr (PBenefits p))"
proof -
  note inv = assms(1)
  then have "payout_ok False backed s p" using assms(2) by (simp add: redeem_inv_def)
  then obtain c r where c: "copy_ok s c" "RID c = PCodeID p" "RCode c = PCode p" "redeem_benefits backed c = Inr (PBenefits p)"
    and r: "r \<in> set (rcodes s)" "RID r = PCodeID p"
    unfolding payout_ok_def by auto
  have k: "core r = core c" using c(1,2) r by (auto simp: copy_ok_def)
  have "filter (\<lambda>q. PCodeID q = RID r) (payouts s) = [p] \<and> RStatus r = StatusUsed \<and> RUsedBy r = Some (PUser p)" if "MaxUses r = Some 1"
  proof -
    have "single_ok s r" using inv r(1) that unfolding redeem_inv_def limits_ok_def by auto
    moreover have "p \<in> set (paid_out (RID r) s)" using assms(2) r(2) by (simp add: paid_out_def)
    ultimately have "paid_out (RID r) s = [p] \<and> RStatus r = StatusUsed \<and> RUsedBy r = Some (PUser p)"
      by (auto simp: single_ok_def split: list.splits)
    then show ?thesis by (simp add: paid_out_def)
  qed
  moreover have "redeem_benefits backed r = Inr (PBenefits p)" if "RType r = RedeemTypeBalance \<or> RType r = RedeemTypeConcurrency"
    using c(4) k that by (auto simp: redeem_benefits_def core_def)
  ultimately show ?thesis using r k c(3) by (auto simp: core_def)
qed

section \<open>What holds of codes\<close>

text \<open>
  C11. Without \<^verbatim>\<open>ExpireRedeemCode\<close>, a code that is not shared pays out at most once, whatever calls of users,
  administrators and fulfilments run concurrently and wherever they fail: every committed payout belongs
  to a code that still exists, and of a code with the limit 1 it is the only one, the code is marked as
  used, and its recorded user is the one who was paid.  The payout of a balance code changes the balance of
  its user by the value of the code, but a negative value takes it down to zero at most, and a positive
  one that no payment stands behind adds the cashback of the settings; the payout of a concurrency code
  changes the concurrency by the whole part of the value, down to zero at most.
\<close>

theorem single_use_code_once:
  assumes "redeem_run False backed s" and "p \<in> set (payouts s)"
  shows "\<exists>r \<in> set (rcodes s). RID r = PCodeID p \<and> RCode r = PCode p
    \<and> (MaxUses r = Some 1 \<longrightarrow> filter (\<lambda>q. PCodeID q = RID r) (payouts s) = [p]
         \<and> RStatus r = StatusUsed \<and> RUsedBy r = Some (PUser p))
    \<and> (RType r = RedeemTypeBalance \<longrightarrow> fold (balance_after config) (PBenefits p) x =
         (if RValue r < 0 then max (x + RValue r) 0
          else x + RValue r + (if 0 < RValue r \<and> \<not> backed (RCode r) then creditBalanceCashback config (RValue r) else 0)))
    \<and> (RType r = RedeemTypeConcurrency \<longrightarrow> fold concurrency_after (PBenefits p) y =
         (if go_trunc (RValue r) < 0 then max (y + go_trunc (RValue r)) 0 else y + go_trunc (RValue r)))"
proof -
  obtain r where r: "r \<in> set (rcodes s)" "RID r = PCodeID p" "RCode r = PCode p"
    "MaxUses r = Some 1 \<longrightarrow> filter (\<lambda>q. PCodeID q = RID r) (payouts s) = [p] \<and> RStatus r = StatusUsed \<and> RUsedBy r = Some (PUser p)"
    "RType r = RedeemTypeBalance \<or> RType r = RedeemTypeConcurrency \<longrightarrow> redeem_benefits backed r = Inr (PBenefits p)"
    using payout_row [OF run_inv [OF assms(1)] assms(2)] by blast
  have "RType r = RedeemTypeBalance \<longrightarrow> fold (balance_after config) (PBenefits p) x =
         (if RValue r < 0 then max (x + RValue r) 0
          else x + RValue r + (if 0 < RValue r \<and> \<not> backed (RCode r) then creditBalanceCashback config (RValue r) else 0))"
  proof
    assume ty: "RType r = RedeemTypeBalance"
    then have "PBenefits p = BalanceChange (RValue r) # (if 0 < RValue r \<and> \<not> backed (RCode r)
        then [InviteRebate (RValue r), Cashback (RValue r)] else [])"
      using r(5) by (simp add: redeem_benefits_def)
    then show "fold (balance_after config) (PBenefits p) x = (if RValue r < 0 then max (x + RValue r) 0
        else x + RValue r + (if 0 < RValue r \<and> \<not> backed (RCode r) then creditBalanceCashback config (RValue r) else 0))"
      by (simp add: balance_after_def)
  qed
  moreover have "RType r = RedeemTypeConcurrency \<longrightarrow> fold concurrency_after (PBenefits p) y =
         (if go_trunc (RValue r) < 0 then max (y + go_trunc (RValue r)) 0 else y + go_trunc (RValue r))"
  proof
    assume ty: "RType r = RedeemTypeConcurrency"
    then have "PBenefits p = [ConcurrencyChange (go_trunc (RValue r))]"
      using r(5) by (simp add: redeem_benefits_def type_names)
    then show "fold concurrency_after (PBenefits p) y =
        (if go_trunc (RValue r) < 0 then max (y + go_trunc (RValue r)) 0 else y + go_trunc (RValue r))"
      by (simp add: concurrency_after_def)
  qed
  ultimately show ?thesis using r(1-4) by blast
qed

text \<open>
  C23. A shared code is redeemed at most once by each user and at most as often as its limit, and its count
  is the number of its payouts, in every run, with calls of \<^verbatim>\<open>ExpireRedeemCode\<close> too.
\<close>

theorem shared_code_limit:
  assumes "redeem_run edits backed s" and "r \<in> set (rcodes s)" and "MaxUses r = Some m" and "m \<noteq> 1"
  shows "distinct (map PUser (filter (\<lambda>p. PCodeID p = RID r) (payouts s)))
    \<and> UsedCount r = int (length (filter (\<lambda>p. PCodeID p = RID r) (payouts s)))
    \<and> (0 < m \<longrightarrow> UsedCount r \<le> m)"
proof -
  have "limits_ok edits s" using run_inv [OF assms(1)] by (simp add: redeem_inv_def)
  then have "shared_ok s r" using assms(2-4) unfolding limits_ok_def by auto
  then show ?thesis using assms(3) unfolding shared_ok_def paid_out_def by blast
qed

section \<open>Concrete runs\<close>

definition demo_code :: redeem_code where
  "demo_code = \<lparr>RID = 0, RCode = ''gift'', RType = RedeemTypeBalance, RValue = 10, RStatus = StatusUnused, RUsedBy = None,
     RNotes = [], RExpiresAt = None, RGroupID = None, RValidityDays = 0, MaxUses = None, UsedCount = 0\<rparr>"

definition demo_row :: "string \<Rightarrow> int option \<Rightarrow> redeem_code" where
  "demo_row st u = demo_code\<lparr>RID := 1, MaxUses := Some 1, RStatus := st, RUsedBy := u\<rparr>"

definition demo_input :: redeem_input where
  "demo_input = \<lparr>in_cache = True, in_lock = True, in_now = 1, in_now1 = 1, in_user = None\<rparr>"

definition demo_payout :: "int \<Rightarrow> payout" where
  "demo_payout u = \<lparr>PCodeID = 1, PCode = ''gift'', PUser = u, PBenefits = [BalanceChange 10, InviteRebate 10, Cashback 10]\<rparr>"

lemmas demo_redeem_defs = demo_code_def demo_row_def demo_input_def demo_payout_def

text \<open>One user redeems the code when it stands unused in the table.\<close>

lemma demo_redemption:
  assumes "redeem_run edits (\<lambda>c. False) s" and "rcodes s = [demo_row StatusUnused v]" and "attempts s = (\<lambda>u. 0)" and "sessions s = (\<lambda>c. Idle)"
  obtains s1 where "redeem_run edits (\<lambda>c. False) s1" "rcodes s1 = [demo_row StatusUsed (Some u)]"
    "payouts s1 = payouts s @ [demo_payout u]" "attempts s1 = (\<lambda>u. 0)" "sessions s1 = (\<lambda>c. Idle)" "editing s1 = editing s"
proof -
  let ?c = "Public 0" and ?r = "demo_row StatusUnused v"
  let ?s1 = "redeem_open demo_input ?c u ''gift'' s"
  have g: "repo_GetByCode ''gift'' s = Inr ?r" by (simp add: repo_GetByCode_def assms(2) demo_redeem_defs)
  have s1: "?s1 = s\<lparr>sessions := (sessions s)(?c := Checked u ?r)\<rparr>"
    by (rule open_usable [OF _ g]) (simp_all add: undisturbed_def demo_redeem_defs assms(3) redeemMaxFailedAttempts_def
        redeem_refusal_def IsExpiredAt_def CanUse_def status_names type_names)
  have run1: "redeem_run edits (\<lambda>c. False) ?s1"
    by (rule redeem_run.step [OF assms(1) redeem_step.open_call]) (simp add: assms(4))
  let ?s2 = "redeem_close (\<lambda>c. False) Committed ?c u ?r ?s1"
  have run2: "redeem_run edits (\<lambda>c. False) ?s2"
    by (rule redeem_run.step [OF run1 redeem_step.close_call]) (simp add: s1)
  have t1: "rcodes ?s1 = [?r]" using s1 assms(2) by simp
  have b: "redeem_benefits (\<lambda>c. False) ?r = Inr [BalanceChange 10, InviteRebate 10, Cashback 10]"
    by (simp add: redeem_benefits_def demo_redeem_defs)
  have "?s2 = answer ?c u (RCode ?r) (Inr ?r)
    (?s1\<lparr>rcodes := map (\<lambda>y. if RID y = RID ?r \<and> RStatus y = StatusUnused then y\<lparr>RStatus := StatusUsed, RUsedBy := Some u\<rparr> else y) (rcodes ?s1),
       payouts := payouts ?s1 @ [\<lparr>PCodeID = RID ?r, PCode = RCode ?r, PUser = u, PBenefits = [BalanceChange 10, InviteRebate 10, Cashback 10]\<rparr>]\<rparr>)"
    by (rule close_single [OF _ _ _ b]) (simp_all add: t1, simp_all add: demo_redeem_defs)
  then have e: "?s2 = answer ?c u (RCode ?r) (Inr ?r) (s\<lparr>sessions := (sessions s)(?c := Checked u ?r),
       rcodes := [demo_row StatusUsed (Some u)], payouts := payouts s @ [demo_payout u]\<rparr>)"
    unfolding s1 assms(2) by (simp add: assms(2)) (simp add: demo_redeem_defs)
  then have s2: "rcodes ?s2 = [demo_row StatusUsed (Some u)]" "payouts ?s2 = payouts s @ [demo_payout u]"
    "attempts ?s2 = (\<lambda>u. 0)" "editing ?s2 = editing s" unfolding e by (simp_all add: answer_def assms)
  let ?s3 = "?s2\<lparr>sessions := (sessions ?s2)(?c := Idle)\<rparr>"
  have "sessions ?s3 = (\<lambda>c. Idle)" unfolding e by (simp add: answer_def assms fun_upd_def fun_eq_iff)
  then show thesis using that [of ?s3] redeem_run.step [OF run2 redeem_step.rest [of _ _ _ ?c]] s2 by simp
qed

lemma demo_created:
  obtains s where "redeem_run edits backed s" "rcodes s = [demo_row StatusUnused None]" "payouts s = []"
    "attempts s = (\<lambda>u. 0)" "sessions s = (\<lambda>c. Idle)" "editing s = (\<lambda>n. None)"
proof -
  have "redeem_run edits backed (snd (repo_Create demo_code initial_redeem))"
    by (rule redeem_run.step [OF redeem_run.start redeem_step.create])
  then show thesis by (rule that) (simp_all add: repo_Create_def Let_def demo_redeem_defs)
qed

text \<open>
  C37. The exception: \<^verbatim>\<open>ExpireRedeemCode\<close> does not look at the status, so a code that is used becomes expired,
  \<^verbatim>\<open>BatchUpdate\<close>, which refuses used codes only, sets it to unused, and a second user is paid by the same
  code, although no two calls overlap.
\<close>

theorem expired_code_pays_twice:
  "\<exists>s. redeem_run True (\<lambda>c. False) s
     \<and> list_ex (\<lambda>r. MaxUses r = Some 1 \<and> map PUser (filter (\<lambda>p. PCodeID p = RID r) (payouts s)) = [7, 8]) (rcodes s)"
proof -
  obtain s0 where s0: "redeem_run True (\<lambda>c. False) s0" "rcodes s0 = [demo_row StatusUnused None]" "payouts s0 = []"
    "attempts s0 = (\<lambda>u. 0)" "sessions s0 = (\<lambda>c. Idle)" by (rule demo_created)
  obtain s1 where s1: "redeem_run True (\<lambda>c. False) s1" "rcodes s1 = [demo_row StatusUsed (Some 7)]"
    "payouts s1 = [demo_payout 7]" "attempts s1 = (\<lambda>u. 0)" "sessions s1 = (\<lambda>c. Idle)"
    using demo_redemption [OF s0(1,2,4,5), of 7] s0(3) by auto
  let ?s2 = "expire_read 0 1 s1"
  have run2: "redeem_run True (\<lambda>c. False) ?s2" by (rule redeem_run.step [OF s1(1) redeem_step.read_copy]) simp
  have s2: "?s2 = s1\<lparr>editing := (editing s1)(0 \<mapsto> demo_row StatusExpired (Some 7))\<rparr>"
    by (simp add: expire_read_def repo_GetByID_def s1(2) demo_redeem_defs)
  let ?s3 = "expire_write 0 ?s2"
  have run3: "redeem_run True (\<lambda>c. False) ?s3" by (rule redeem_run.step [OF run2 redeem_step.write_copy]) simp
  have s3: "rcodes ?s3 = [demo_row StatusExpired (Some 7)]" "payouts ?s3 = [demo_payout 7]" "attempts ?s3 = (\<lambda>u. 0)"
    "sessions ?s3 = (\<lambda>c. Idle)"
    by (simp_all add: expire_write_def s2 repo_Update_def s1(2-5) demo_redeem_defs)
  let ?f = "\<lparr>FStatus = Some StatusUnused, FExpiresAt = None, FNotes = None, FGroupID = None, FType = None, FValue = None\<rparr>"
  let ?s4 = "snd (BatchUpdate 1 [1] ?f ?s3)"
  have run4: "redeem_run True (\<lambda>c. False) ?s4" by (rule redeem_run.step [OF run3 redeem_step.batch])
  have s4: "rcodes ?s4 = [demo_row StatusUnused (Some 7)]" "payouts ?s4 = [demo_payout 7]" "attempts ?s4 = (\<lambda>u. 0)"
    "sessions ?s4 = (\<lambda>c. Idle)"
    by (simp_all add: BatchUpdate_def batch_refusal_def repo_BatchUpdate_def HasChanges_def HasCoreFieldChanges_def
        TouchesUsedSensitiveFields_def batch_write_def opt_set_def s3 demo_redeem_defs status_names)
  obtain s5 where "redeem_run True (\<lambda>c. False) s5" "rcodes s5 = [demo_row StatusUsed (Some 8)]" "payouts s5 = [demo_payout 7, demo_payout 8]"
    using demo_redemption [OF run4 s4(1,3,4), of 8] s4(2) by auto
  then show ?thesis by (intro exI [of _ s5]) (simp add: demo_redeem_defs)
qed

theorem single_use_code_once_witness:
  "\<exists>s :: redeem_state. payouts s = [demo_payout 7] \<and> list_ex (\<lambda>r. RID r = 1 \<and> RStatus r = StatusUsed \<and> RUsedBy r = Some 7) (rcodes s)"
proof -
  obtain s0 where s0: "redeem_run False (\<lambda>c. False) s0" "rcodes s0 = [demo_row StatusUnused None]" "payouts s0 = []"
    "attempts s0 = (\<lambda>u. 0)" "sessions s0 = (\<lambda>c. Idle)" by (rule demo_created)
  obtain s where s: "redeem_run False (\<lambda>c. False) s" "rcodes s = [demo_row StatusUsed (Some 7)]" "payouts s = [demo_payout 7]"
    using demo_redemption [OF s0(1,2,4,5), of 7] s0(3) by auto
  have "demo_payout 7 \<in> set (payouts s)" by (simp add: s(3))
  then obtain r where "r \<in> set (rcodes s)" "RID r = 1" "MaxUses r = Some 1 \<longrightarrow> RStatus r = StatusUsed \<and> RUsedBy r = Some 7"
    using single_use_code_once [OF s(1), where p = "demo_payout 7" and x = 0 and y = 0] unfolding demo_payout_def payout.simps by blast
  moreover from this(1) have "MaxUses r = Some 1" by (simp add: s(2) demo_redeem_defs)
  ultimately have "list_ex (\<lambda>r. RID r = 1 \<and> RStatus r = StatusUsed \<and> RUsedBy r = Some 7) (rcodes s)"
    unfolding list_ex_iff by blast
  with s(3) show ?thesis by blast
qed

theorem shared_code_limit_witness:
  "\<exists>s :: redeem_state. payouts s = [demo_payout 7]
     \<and> list_ex (\<lambda>r. MaxUses r = Some 2 \<and> UsedCount r = int (length (filter (\<lambda>p. PCodeID p = RID r) (payouts s))) \<and> UsedCount r \<le> 2) (rcodes s)"
proof -
  let ?code = "demo_code\<lparr>MaxUses := Some 2\<rparr>" and ?c = "Public 0"
  let ?r = "?code\<lparr>RID := 1\<rparr>"
  let ?s0 = "snd (repo_Create ?code initial_redeem)"
  have run0: "redeem_run True (\<lambda>c. False) ?s0" by (rule redeem_run.step [OF redeem_run.start redeem_step.create])
  have s0: "?s0 = initial_redeem\<lparr>rcodes := [?r], next_code := 2\<rparr>"
    by (simp add: repo_Create_def Let_def demo_code_def)
  let ?s1 = "redeem_open demo_input ?c 7 ''gift'' ?s0"
  have run1: "redeem_run True (\<lambda>c. False) ?s1"
    by (rule redeem_run.step [OF run0 redeem_step.open_call]) (simp add: s0)
  have g: "repo_GetByCode ''gift'' ?s0 = Inr ?r" unfolding repo_GetByCode_def s0 by (simp add: demo_code_def)
  have s1: "?s1 = ?s0\<lparr>sessions := (sessions ?s0)(?c := Checked 7 ?r)\<rparr>"
    by (rule open_usable [OF _ g]) (simp_all add: s0 undisturbed_def redeemMaxFailedAttempts_def, simp_all add: demo_redeem_defs
        redeem_refusal_def IsExpiredAt_def CanUse_def status_names type_names)
  let ?s2 = "redeem_close (\<lambda>c. False) Committed ?c 7 ?r ?s1"
  have run2: "redeem_run True (\<lambda>c. False) ?s2" by (rule redeem_run.step [OF run1 redeem_step.close_call]) (simp add: s1)
  have s2: "payouts ?s2 = [demo_payout 7]" "rcodes ?s2 = [?r\<lparr>UsedCount := 1\<rparr>]" unfolding s1 unfolding s0
    by (simp_all add: redeem_close_def redeem_tx_def use_code_def IsShared_def repo_UseShared_def share_open_def count_share_def
        redeem_benefits_def answer_def demo_redeem_defs)
  have "UsedCount (?r\<lparr>UsedCount := 1\<rparr>) = int (length (filter (\<lambda>p. PCodeID p = RID (?r\<lparr>UsedCount := 1\<rparr>)) (payouts ?s2)))
      \<and> (0 < (2 :: int) \<longrightarrow> UsedCount (?r\<lparr>UsedCount := 1\<rparr>) \<le> 2)"
    using shared_code_limit [OF run2, of "?r\<lparr>UsedCount := 1\<rparr>" 2] s2(2) by simp
  then have "list_ex (\<lambda>r. MaxUses r = Some 2 \<and> UsedCount r = int (length (filter (\<lambda>p. PCodeID p = RID r) (payouts ?s2))) \<and> UsedCount r \<le> 2) (rcodes ?s2)"
    unfolding s2(2) by simp
  with s2(1) show ?thesis by blast
qed

end
