(* ===== verification/Payment_Orders.thy ===== *)
theory Payment_Orders
  imports Redeem_Codes Go_Strings
begin

text \<open>
  Payment orders and the checks on a provider's notification (\<^verbatim>\<open>backend/internal/service\<close>:
  \<^verbatim>\<open>payment_fulfillment.go\<close>, \<^verbatim>\<open>payment_order_provider_snapshot.go\<close>, \<^verbatim>\<open>payment_currency.go\<close>,
  \<^verbatim>\<open>payment_recharge_bonus.go\<close> and \<^verbatim>\<open>backend/internal/payment\<close>: \<^verbatim>\<open>types.go\<close>, \<^verbatim>\<open>currency.go\<close>).  Amounts of an
  order are the decimals of their columns.  The amount that a provider reports is a float: a finite number, an
  infinity or NaN; finite ones are rational numbers here, and their differences are exact.
\<close>

section \<open>Orders\<close>

datatype order_status = Pending | Paid | Recharging | Completed | Expired | Cancelled | Failed
  | RefundRequested | Refunding | RefundPending | PartiallyRefunded | Refunded | RefundFailed

definition psIsRefundStatus :: "order_status \<Rightarrow> bool" where
  "psIsRefundStatus st \<longleftrightarrow> (case st of RefundRequested \<Rightarrow> True | Refunding \<Rightarrow> True | RefundPending \<Rightarrow> True
     | PartiallyRefunded \<Rightarrow> True | Refunded \<Rightarrow> True | RefundFailed \<Rightarrow> True | _ \<Rightarrow> False)"

text \<open>The text of a status in messages.\<close>

fun status_text :: "order_status \<Rightarrow> string" where
  "status_text Pending = ''PENDING''"
| "status_text Paid = ''PAID''"
| "status_text Recharging = ''RECHARGING''"
| "status_text Completed = ''COMPLETED''"
| "status_text Expired = ''EXPIRED''"
| "status_text Cancelled = ''CANCELLED''"
| "status_text Failed = ''FAILED''"
| "status_text RefundRequested = ''REFUND_REQUESTED''"
| "status_text Refunding = ''REFUNDING''"
| "status_text RefundPending = ''REFUND_PENDING''"
| "status_text PartiallyRefunded = ''PARTIALLY_REFUNDED''"
| "status_text Refunded = ''REFUNDED''"
| "status_text RefundFailed = ''REFUND_FAILED''"

definition OrderTypeBalance :: string where "OrderTypeBalance = ''balance''"
definition OrderTypeSubscription :: string where "OrderTypeSubscription = ''subscription''"
definition OrderSourceRedeem :: string where "OrderSourceRedeem = ''redeem''"

lemma order_types_differ [simp]: "OrderTypeBalance \<noteq> OrderTypeSubscription" "OrderTypeSubscription \<noteq> OrderTypeBalance"
  by (simp_all add: OrderTypeBalance_def OrderTypeSubscription_def)

text \<open>The configuration of the provider that an order was placed with, as \<^verbatim>\<open>psOrderProviderSnapshot\<close> reads it.\<close>

record provider_snapshot =
  SnapKey :: string
  SnapAppID :: string
  SnapMerchantID :: string
  SnapCurrency :: string

record pay_order =
  OrderID :: int
  OUserID :: int
  OAmount :: rat
  OPayAmount :: rat
  OBonusAmount :: rat
  ORechargeCode :: string
  OOutTradeNo :: string
  OPaymentType :: string
  OTradeNo :: string
  OOrderType :: string
  OSource :: string
  OCurrency :: string
  OProviderKey :: "string option"
  OSnapshot :: "provider_snapshot option"
  OGroupID :: "int option"
  ODays :: "int option"
  OStatus :: order_status
  OPaidAt :: "go_time option"
  OUpdatedAt :: go_time

definition isSupportedPaymentOrderType :: "string \<Rightarrow> bool" where
  "isSupportedPaymentOrderType t \<longleftrightarrow> t = OrderTypeBalance \<or> t = OrderTypeSubscription"

section \<open>Amounts and currencies\<close>

datatype float64 = Fin rat | PosInf | NegInf | NaN

definition isValidProviderAmount :: "float64 \<Rightarrow> bool" where
  "isValidProviderAmount x \<longleftrightarrow> (case x of Fin a \<Rightarrow> 0 < a | _ \<Rightarrow> False)"

definition DefaultPaymentCurrency :: string where "DefaultPaymentCurrency = ''CNY''"

text \<open>The units per currency: the digits of the smallest unit of the provider's interface, and the digits shown.\<close>

definition paymentCurrencyAmountUnits :: "(string \<times> int \<times> int) list" where
  "paymentCurrencyAmountUnits =
     map (\<lambda>c. (c, 0, 0)) [''BIF'', ''CLP'', ''DJF'', ''GNF'', ''JPY'', ''KMF'', ''KRW'', ''MGA'', ''PYG'', ''RWF'', ''VND'', ''VUV'', ''XAF'', ''XOF'', ''XPF'']
     @ map (\<lambda>c. (c, 2, 0)) [''ISK'', ''UGX'']
     @ map (\<lambda>c. (c, 3, 3)) [''BHD'', ''IQD'', ''JOD'', ''KWD'', ''LYD'', ''OMR'', ''TND'']"

definition NormalizePaymentCurrency :: "(string \<Rightarrow> string) \<Rightarrow> string \<Rightarrow> (go_error, string) result" where
  "NormalizePaymentCurrency uupp raw =
     (let currency = ToUpper uupp (TrimSpace raw)
      in if currency = [] then Inr DefaultPaymentCurrency
         else if length currency \<noteq> 3 then Inl (PlainError ''payment currency must be a 3-letter ISO currency code'')
         else if list_ex (\<lambda>ch. of_char ch < (65 :: nat) \<or> (90 :: nat) < of_char ch) currency
         then Inl (PlainError ''payment currency must be a 3-letter ISO currency code'')
         else Inr currency)"

definition paymentCurrencyAmountUnitFor :: "(string \<Rightarrow> string) \<Rightarrow> string \<Rightarrow> int \<times> int" where
  "paymentCurrencyAmountUnitFor uupp currency = (case NormalizePaymentCurrency uupp currency of
     Inl e \<Rightarrow> (2, 2)
   | Inr normalized \<Rightarrow> (case map_of paymentCurrencyAmountUnits normalized of Some u \<Rightarrow> u | None \<Rightarrow> (2, 2)))"

definition CurrencyMinorUnit :: "(string \<Rightarrow> string) \<Rightarrow> string \<Rightarrow> int" where
  "CurrencyMinorUnit uupp currency = fst (paymentCurrencyAmountUnitFor uupp currency)"

definition PaymentOrderCurrency :: "(string \<Rightarrow> string) \<Rightarrow> pay_order \<Rightarrow> string" where
  "PaymentOrderCurrency uupp o1 =
     (if OCurrency o1 \<noteq> [] then OCurrency o1
      else (case OSnapshot o1 of None \<Rightarrow> DefaultPaymentCurrency
        | Some sn \<Rightarrow> (case NormalizePaymentCurrency uupp (SnapCurrency sn) of
            Inr c \<Rightarrow> c | Inl e \<Rightarrow> DefaultPaymentCurrency)))"

definition amountToleranceCNY :: rat where "amountToleranceCNY = 1 / 100"

definition paymentAmountToleranceForCurrency :: "(string \<Rightarrow> string) \<Rightarrow> string \<Rightarrow> rat" where
  "paymentAmountToleranceForCurrency uupp currency =
     (let minorUnit = CurrencyMinorUnit uupp currency
      in if minorUnit \<le> 2 then amountToleranceCNY else (1 / 10 ^ nat minorUnit) / 2)"

text \<open>The part of a balance order that was paid for: without the bonus, rounded to two digits, half away from zero.\<close>

definition round2 :: "rat \<Rightarrow> rat" where
  "round2 x = (if 0 \<le> x then of_int \<lfloor>x * 100 + 1 / 2\<rfloor> / 100 else - (of_int \<lfloor>(- x) * 100 + 1 / 2\<rfloor> / 100))"

definition paymentOrderAmountWithoutBonus :: "pay_order \<Rightarrow> rat" where
  "paymentOrderAmountWithoutBonus o1 =
     (if OOrderType o1 \<noteq> OrderTypeBalance \<or> OBonusAmount o1 \<le> 0 then OAmount o1
      else (let b = round2 (OAmount o1 - OBonusAmount o1) in if b < 0 then 0 else b))"

definition affiliateRebateBaseAmount :: "pay_order \<Rightarrow> rat" where
  "affiliateRebateBaseAmount o1 =
     (if OOrderType o1 \<noteq> OrderTypeBalance \<or> OPaidAt o1 = None \<or> OPayAmount o1 \<le> 0 then 0
      else paymentOrderAmountWithoutBonus o1)"

section \<open>Who notifies\<close>

definition TypeAlipay :: string where "TypeAlipay = ''alipay''"
definition TypeWxpay :: string where "TypeWxpay = ''wxpay''"
definition TypeStripe :: string where "TypeStripe = ''stripe''"
definition TypeEasyPay :: string where "TypeEasyPay = ''easypay''"
definition TypeAirwallex :: string where "TypeAirwallex = ''airwallex''"

definition psStringValue :: "string option \<Rightarrow> string" where
  "psStringValue v = (case v of None \<Rightarrow> [] | Some s \<Rightarrow> s)"

text \<open>\<open>registry\<close> maps a payment type to the key of its registered provider, or to the empty string.\<close>

definition expectedNotificationProviderKey :: "(string \<Rightarrow> string) \<Rightarrow> string \<Rightarrow> string \<Rightarrow> string \<Rightarrow> string" where
  "expectedNotificationProviderKey registry orderPaymentType orderProviderKey instanceProviderKey =
     (if TrimSpace instanceProviderKey \<noteq> [] then TrimSpace instanceProviderKey
      else if TrimSpace orderProviderKey \<noteq> [] then TrimSpace orderProviderKey
      else if TrimSpace (registry orderPaymentType) \<noteq> [] then TrimSpace (registry orderPaymentType)
      else TrimSpace orderPaymentType)"

definition expectedNotificationProviderKeyForOrder :: "(string \<Rightarrow> string) \<Rightarrow> pay_order \<Rightarrow> string \<Rightarrow> string" where
  "expectedNotificationProviderKeyForOrder registry o1 instanceProviderKey =
     (let orderProviderKey = (case OSnapshot o1 of
            Some sn \<Rightarrow> if SnapKey sn \<noteq> [] then SnapKey sn else psStringValue (OProviderKey o1)
          | None \<Rightarrow> psStringValue (OProviderKey o1))
      in expectedNotificationProviderKey registry (OPaymentType o1) orderProviderKey instanceProviderKey)"

text \<open>The metadata of a notification is a map; a missing key reads as the empty string.\<close>

type_synonym metadata = "(string \<times> string) list"

definition meta :: "metadata \<Rightarrow> string \<Rightarrow> string" where
  "meta md k = TrimSpace (case map_of md k of None \<Rightarrow> [] | Some v \<Rightarrow> v)"

text \<open>A field that the snapshot has must be present and equal up to case.\<close>

definition must_match :: "(string \<Rightarrow> string \<Rightarrow> bool) \<Rightarrow> string \<Rightarrow> string \<Rightarrow> string \<Rightarrow> string \<Rightarrow> (go_error, unit) result" where
  "must_match ufold expected0 actual missing mismatch =
     (let expected = TrimSpace expected0
      in if expected = [] then Inr ()
         else if actual = [] then Inl (PlainError missing)
         else if \<not> EqualFold ufold expected actual
         then Inl (PlainError (mismatch @ '' mismatch: expected '' @ expected @ '', got '' @ actual))
         else Inr ())"

definition must_be :: "(string \<Rightarrow> string \<Rightarrow> bool) \<Rightarrow> string \<Rightarrow> string \<Rightarrow> string \<Rightarrow> (go_error, unit) result" where
  "must_be ufold actual expected mismatch =
     (if actual \<noteq> [] \<and> \<not> EqualFold ufold actual expected
      then Inl (PlainError (mismatch @ '' mismatch: expected '' @ expected @ '', got '' @ actual)) else Inr ())"

definition validateProviderSnapshotMetadata ::
    "(string \<Rightarrow> string \<Rightarrow> bool) \<Rightarrow> (string \<Rightarrow> string) \<Rightarrow> pay_order \<Rightarrow> string \<Rightarrow> metadata \<Rightarrow> (go_error, unit) result" where
  "validateProviderSnapshotMetadata ufold uupp o1 providerKey md =
     (if md = [] then Inr ()
      else (case OSnapshot o1 of None \<Rightarrow> Inr ()
        | Some sn \<Rightarrow>
            (let currency = ToUpper uupp (meta md ''currency''); key = TrimSpace providerKey
             in if key = TypeWxpay
                then result_bind (must_match ufold (SnapAppID sn) (meta md ''appid'') ''wxpay notification missing appid'' ''wxpay appid'')
                   (\<lambda>_. result_bind (must_match ufold (SnapMerchantID sn) (meta md ''mchid'') ''wxpay notification missing mchid'' ''wxpay mchid'')
                   (\<lambda>_. result_bind (must_match ufold (SnapCurrency sn) currency ''wxpay notification missing currency'' ''wxpay currency'')
                   (\<lambda>_. must_be ufold (meta md ''trade_state'') ''SUCCESS'' ''wxpay trade_state'')))
                else if key = TypeAlipay
                then must_match ufold (SnapAppID sn) (meta md ''app_id'') ''alipay app_id missing'' ''alipay app_id''
                else if key = TypeEasyPay
                then must_match ufold (SnapMerchantID sn) (meta md ''pid'') ''easypay pid missing'' ''easypay pid''
                else if key = TypeStripe
                then must_match ufold (SnapCurrency sn) currency ''stripe notification missing currency'' ''stripe currency''
                else if key = TypeAirwallex
                then result_bind (must_match ufold (SnapMerchantID sn) (meta md ''account_id'') ''airwallex account_id missing'' ''airwallex account_id'')
                   (\<lambda>_. result_bind (must_match ufold (SnapCurrency sn) currency ''airwallex notification missing currency'' ''airwallex currency'')
                   (\<lambda>_. must_be ufold (meta md ''status'') ''SUCCEEDED'' ''airwallex status''))
                else Inr ())))"

section \<open>The checks of \<^verbatim>\<open>confirmPayment\<close>\<close>

text \<open>
  What is outside: case mapping, the registry, and the provider key of the order's instance (empty without
  one).  A refusal carries the action of the audit entry, if one is written.
\<close>

record pay_env =
  env_fold :: "string \<Rightarrow> string \<Rightarrow> bool"
  env_upper :: "string \<Rightarrow> string"
  env_registry :: "string \<Rightarrow> string"
  env_instance :: "pay_order \<Rightarrow> string"

record notification =
  NTradeNo :: string
  NAmount :: float64
  NMetadata :: metadata

definition within_tolerance :: "(string \<Rightarrow> string) \<Rightarrow> pay_order \<Rightarrow> float64 \<Rightarrow> bool" where
  "within_tolerance uupp o1 paid \<longleftrightarrow> (case paid of
     Fin a \<Rightarrow> \<bar>a - OPayAmount o1\<bar> \<le> paymentAmountToleranceForCurrency uupp (PaymentOrderCurrency uupp o1) | _ \<Rightarrow> False)"

definition confirmPayment_check ::
    "pay_env \<Rightarrow> pay_order \<Rightarrow> notification \<Rightarrow> string \<Rightarrow> (string option \<times> go_error, unit) result" where
  "confirmPayment_check E o1 n pk =
     (let expected = expectedNotificationProviderKeyForOrder (env_registry E) o1 (env_instance E o1)
      in if OSource o1 = OrderSourceRedeem
         then Inl (None, to_error (BadRequest ''REDEEM_ORDER_PAYMENT_DISABLED'' ''redeem orders cannot be fulfilled by a payment provider''))
         else if expected \<noteq> [] \<and> TrimSpace pk \<noteq> [] \<and> \<not> EqualFold (env_fold E) expected (TrimSpace pk)
         then Inl (Some ''PAYMENT_PROVIDER_MISMATCH'', PlainError (''provider mismatch: expected '' @ expected @ '', got '' @ pk))
         else (case validateProviderSnapshotMetadata (env_fold E) (env_upper E) o1 pk (NMetadata n) of
             Inl e \<Rightarrow> Inl (Some ''PAYMENT_PROVIDER_METADATA_MISMATCH'', e)
           | Inr _ \<Rightarrow> if \<not> isValidProviderAmount (NAmount n)
               then Inl (Some ''PAYMENT_INVALID_AMOUNT'', PlainError ''invalid paid amount from provider'')
               else if \<not> within_tolerance (env_upper E) o1 (NAmount n)
               then Inl (Some ''PAYMENT_AMOUNT_MISMATCH'', PlainError ''amount mismatch'')
               else Inr ()))"

lemma confirmed_amount:
  assumes "confirmPayment_check E o1 n pk = Inr ()"
  obtains a where "NAmount n = Fin a" "0 < a"
    "\<bar>a - OPayAmount o1\<bar> \<le> paymentAmountToleranceForCurrency (env_upper E) (PaymentOrderCurrency (env_upper E) o1)"
  using assms by (auto simp: confirmPayment_check_def Let_def isValidProviderAmount_def within_tolerance_def
      split: if_splits sum.splits float64.splits)

text \<open>The tolerance is never more than a hundredth of a unit.\<close>

lemma tolerance_bound:
  "0 < paymentAmountToleranceForCurrency uupp c \<and> paymentAmountToleranceForCurrency uupp c \<le> 1 / 100"
proof (cases "CurrencyMinorUnit uupp c \<le> 2")
  case True
  then show ?thesis by (simp add: paymentAmountToleranceForCurrency_def amountToleranceCNY_def)
next
  case False
  then have "(10 :: rat) ^ 2 \<le> 10 ^ nat (CurrencyMinorUnit uupp c)" by (intro power_increasing) simp_all
  then have "1 / 10 ^ nat (CurrencyMinorUnit uupp c) \<le> (1 / 10 ^ 2 :: rat)" by (intro divide_left_mono) simp_all
  with False show ?thesis by (simp add: paymentAmountToleranceForCurrency_def)
qed

lemma third_digit_off:
  assumes "k mod 10 \<noteq> 0" shows "1 / 1000 \<le> \<bar>of_int k / 1000 - of_int i / (100 :: rat)\<bar>"
proof -
  have "k - 10 * i \<noteq> 0" using assms by presburger
  then have "1 \<le> \<bar>k - 10 * i\<bar>" by linarith
  then have "(1 :: rat) \<le> of_int \<bar>k - 10 * i\<bar>" by linarith
  then have "(1 :: rat) / 1000 \<le> \<bar>of_int (k - 10 * i)\<bar> / 1000" by simp
  also have "\<dots> = \<bar>of_int k / 1000 - of_int i / (100 :: rat)\<bar>" by (simp add: field_simps abs_if)
  finally show ?thesis .
qed

text \<open>
  C24. Amounts with three decimals are lost: the column of the amount due keeps two digits, and in a currency with
  three, such as KWD, the tolerance is half of the third, so that a customer who pays an amount with a third digit
  in full is refused for a mismatch of the amount.
\<close>

theorem third_decimal_refused:
  assumes "CurrencyMinorUnit (env_upper E) (PaymentOrderCurrency (env_upper E) o1) = 3"
    and "NAmount n = Fin (of_int k / 1000)" and "k mod 10 \<noteq> 0" and "OPayAmount o1 = round2 (of_int k / 1000)"
  shows "confirmPayment_check E o1 n pk \<noteq> Inr ()"
proof
  assume "confirmPayment_check E o1 n pk = Inr ()"
  then obtain a where a: "NAmount n = Fin a"
    "\<bar>a - OPayAmount o1\<bar> \<le> paymentAmountToleranceForCurrency (env_upper E) (PaymentOrderCurrency (env_upper E) o1)"
    by (rule confirmed_amount)
  have "paymentAmountToleranceForCurrency (env_upper E) (PaymentOrderCurrency (env_upper E) o1) = 1 / 2000"
    using assms(1) by (simp add: paymentAmountToleranceForCurrency_def)
  then have "\<bar>a - OPayAmount o1\<bar> \<le> 1 / 2000" using a(2) by simp
  moreover obtain i :: int where i: "round2 (of_int k / 1000) = of_int i / 100"
    unfolding round2_def by (metis minus_divide_left of_int_minus)
  have k: "a = of_int k / 1000" using a(1) assms(2) by simp
  have "1 / 1000 \<le> \<bar>a - OPayAmount o1\<bar>" unfolding assms(4) i unfolding k by (rule third_digit_off [OF assms(3)])
  ultimately show False by linarith
qed

section \<open>Legacy order numbers\<close>

definition orderIDPrefix :: string where "orderIDPrefix = ''sub2_''"

definition parseLegacyPaymentOrderID :: "string \<Rightarrow> bool \<Rightarrow> int option" where
  "parseLegacyPaymentOrderID orderID0 notFound =
     (let orderID = TrimSpace orderID0; trimmed = TrimPrefix orderID orderIDPrefix
      in if \<not> notFound then None
         else if \<not> HasPrefix orderID orderIDPrefix then None
         else if trimmed = [] \<or> trimmed = orderID then None
         else (case Atoi trimmed of None \<Rightarrow> None | Some oid \<Rightarrow> if oid \<le> 0 then None else Some oid))"

section \<open>A concrete refusal\<close>

definition kwd_order :: pay_order where
  "kwd_order = \<lparr>OrderID = 1, OUserID = 7, OAmount = 4, OPayAmount = round2 (1234 / 1000), OBonusAmount = 0, ORechargeCode = ''pay1'',
     OOutTradeNo = ''sub2_1'', OPaymentType = ''stripe'', OTradeNo = [], OOrderType = OrderTypeBalance, OSource = ''payment'', OCurrency = ''KWD'',
     OProviderKey = None, OSnapshot = None, OGroupID = None, ODays = None, OStatus = Pending, OPaidAt = None, OUpdatedAt = 0\<rparr>"

definition plain_env :: pay_env where
  "plain_env = \<lparr>env_fold = (\<lambda>x y. x = y), env_upper = (\<lambda>x. x), env_registry = (\<lambda>x. []), env_instance = (\<lambda>x. [])\<rparr>"

theorem third_decimal_refused_witness:
  "confirmPayment_check plain_env kwd_order \<lparr>NTradeNo = ''t1'', NAmount = Fin (1234 / 1000), NMetadata = []\<rparr> ''stripe'' \<noteq> Inr ()"
proof -
  have "CurrencyMinorUnit (\<lambda>x. x) ''KWD'' = 3" by code_simp
  then have "CurrencyMinorUnit (env_upper plain_env) (PaymentOrderCurrency (env_upper plain_env) kwd_order) = 3"
    by (simp add: plain_env_def PaymentOrderCurrency_def kwd_order_def)
  then show ?thesis
    using third_decimal_refused [of plain_env kwd_order "\<lparr>NTradeNo = ''t1'', NAmount = Fin (1234 / 1000), NMetadata = []\<rparr>" 1234 "''stripe''"]
    by (simp add: kwd_order_def)
qed

end
