(* ===== verification/Payment_Fulfillment.thy ===== *)
theory Payment_Fulfillment
  imports Payment_Orders
begin

text \<open>
  The fulfilment of one payment order (\<^verbatim>\<open>backend/internal/service/payment_fulfillment.go\<close> and
  \<^verbatim>\<open>payment_order_lifecycle.go\<close>).  A worker is a call of \<^verbatim>\<open>HandlePaymentNotification\<close> that has passed the
  checks of \<^verbatim>\<open>confirmPayment\<close>, or a call of \<^verbatim>\<open>RetryFulfillment\<close>.  It runs one statement of the database at a
  time; between them other workers run, the order is cancelled, expired or refunded, its trade number is
  written, and redeem codes are redeemed and edited (\<open>Redeem_Codes\<close>).  A statement works, fails, or works
  with an error as its only answer, and a worker may die at any time.  Each reading of the clock is an input,
  so clocks may differ.  Times are those that the database keeps.
\<close>

definition paymentGraceMinutes :: duration where "paymentGraceMinutes = 5"
definition paymentFulfillmentLeaseDuration :: duration where "paymentFulfillmentLeaseDuration = 5 * Minute"

section \<open>Redeem codes of orders\<close>

datatype redeem_action = ActionCreate | ActionRedeem | ActionSkipCompleted

text \<open>The lookup answers a code or an error (\<^verbatim>\<open>GetByCode\<close> wraps it, and \<^verbatim>\<open>errors.Is\<close> sees through that).\<close>

definition resolveRedeemAction :: "(go_error, redeem_code) result \<Rightarrow> (go_error, redeem_action) result" where
  "resolveRedeemAction found = (case found of
     Inl e \<Rightarrow> if Is ErrRedeemCodeNotFound e then Inr ActionCreate else Inl (WrapError ''lookup payment redeem code'' e)
   | Inr code \<Rightarrow> if IsUsed code then Inr ActionSkipCompleted else Inr ActionRedeem)"

definition service_GetByCode :: "string \<Rightarrow> redeem_state \<Rightarrow> (go_error, redeem_code) result" where
  "service_GetByCode c s = (case repo_GetByCode c s of Inl e \<Rightarrow> Inl (WrapError ''get redeem code'' e) | Inr r \<Rightarrow> Inr r)"

definition validatePaymentRedeemCode :: "pay_order \<Rightarrow> redeem_code \<Rightarrow> (go_error, unit) result" where
  "validatePaymentRedeemCode o1 code =
     (if RCode code \<noteq> ORechargeCode o1 then Inl (PlainError ''payment redeem code mismatch'')
      else if RType code \<noteq> RedeemTypeBalance then Inl (PlainError ''payment redeem code type mismatch'')
      else if 1 / 10 ^ 8 < \<bar>RValue code - OAmount o1\<bar> then Inl (PlainError ''payment redeem code amount mismatch'')
      else if RStatus code = StatusUnused
      then (if RUsedBy code \<noteq> None then Inl (PlainError ''unused payment redeem code has a user'') else Inr ())
      else if RStatus code = StatusUsed
      then (if RUsedBy code \<noteq> Some (OUserID o1) then Inl (PlainError ''payment redeem code user mismatch'') else Inr ())
      else Inl (PlainError ''payment redeem code has invalid status''))"

definition payment_code :: "pay_order \<Rightarrow> redeem_code" where
  "payment_code o1 = \<lparr>RID = 0, RCode = ORechargeCode o1, RType = RedeemTypeBalance, RValue = OAmount o1,
     RStatus = StatusUnused, RUsedBy = None, RNotes = [], RExpiresAt = None, RGroupID = None, RValidityDays = 0,
     MaxUses = None, UsedCount = 0\<rparr>"

section \<open>Notes of subscriptions\<close>

definition paymentSubscriptionOrderNote :: "int \<Rightarrow> string" where
  "paymentSubscriptionOrderNote orderID = ''payment order '' @ Itoa orderID"

definition newline :: char where "newline = char_of (10 :: nat)"
definition crlf :: string where "crlf = [char_of (13 :: nat), newline]"

definition hasPaymentSubscriptionOrderNote :: "string \<Rightarrow> string \<Rightarrow> bool" where
  "hasPaymentSubscriptionOrderNote notes orderNote =
     list_ex (\<lambda>line. TrimSpace line = orderNote) (Split (ReplaceAll notes crlf [newline]) newline)"

definition appendSubscriptionNotes :: "string \<Rightarrow> string \<Rightarrow> string" where
  "appendSubscriptionNotes existingNotes newNotes =
     (if newNotes = [] then existingNotes else if existingNotes = [] then newNotes else existingNotes @ [newline] @ newNotes)"

section \<open>The state\<close>

text \<open>
  Where a worker stands: before the statement that its name says.  \<open>o1\<close> is the copy of the order that it works
  with, \<open>v\<close> the version of its lease.
\<close>

datatype pay_pc = Off
  | ToPaid string rat pay_order  \<comment> \<open>the update of \<^verbatim>\<open>toPaid\<close>\<close>
  | AlreadyProcessed  \<comment> \<open>the read of \<^verbatim>\<open>alreadyProcessed\<close>\<close>
  | ExecuteFulfillment  \<comment> \<open>the read of \<^verbatim>\<open>executeFulfillment\<close>\<close>
  | Rejecting pay_order  \<comment> \<open>the update of \<^verbatim>\<open>rejectUnsupportedOrderType\<close>\<close>
  | Starting bool  \<comment> \<open>the read of \<^verbatim>\<open>ExecuteBalanceFulfillment\<close> or, if false, \<^verbatim>\<open>ExecuteSubscriptionFulfillment\<close>\<close>
  | Acquiring pay_order  \<comment> \<open>the update of \<^verbatim>\<open>acquirePaymentFulfillmentLease\<close>\<close>
  | NotAcquired  \<comment> \<open>its read after no row was updated\<close>
  | Reloading pay_order  \<comment> \<open>its read of the version\<close>
  | LookingUp pay_order go_time  \<comment> \<open>\<^verbatim>\<open>doBalance\<close>: the lookup of the code\<close>
  | CreatingCode pay_order go_time
  | Redeeming pay_order go_time  \<comment> \<open>the call of \<^verbatim>\<open>redeemForPaymentFulfillment\<close>\<close>
  | AwaitingRedeem pay_order go_time
  | ClaimingRebate pay_order go_time  \<comment> \<open>the look at the claims of \<^verbatim>\<open>applyAffiliateRebateForOrder\<close>\<close>
  | Accruing pay_order go_time rat  \<comment> \<open>the end of its transaction\<close>
  | Completing pay_order go_time  \<comment> \<open>the update of \<^verbatim>\<open>markCompleted\<close>\<close>
  | NotCompleted pay_order go_time  \<comment> \<open>its read after no row was updated\<close>
  | Auditing pay_order  \<comment> \<open>its audit entry\<close>
  | CheckingAssignment pay_order go_time  \<comment> \<open>the reads of \<^verbatim>\<open>doSub\<close> and \<^verbatim>\<open>ensurePaymentSubscriptionAssigned\<close>\<close>
  | Assigning pay_order go_time bool  \<comment> \<open>the end of its transaction; true when the note was found\<close>
  | MarkingFailed go_time go_error  \<comment> \<open>the update of \<^verbatim>\<open>markFailed\<close>\<close>

text \<open>
  \<open>audits\<close> are the actions in the audit log of the order, which are unique, \<open>granted\<close> the committed
  assignments or extensions of a subscription for it, \<open>rebates\<close> the base amounts of committed accruals.
  \<open>accepted\<close> only records the amounts of the notifications that passed the checks.
\<close>

record pay_state =
  order :: pay_order
  rd :: redeem_state
  audits :: "string list"
  granted :: "(int \<times> int \<times> int) list"
  rebates :: "rat list"
  sub_notes :: "string option"
  workers :: "nat \<Rightarrow> pay_pc"
  results :: "nat \<Rightarrow> (go_error, unit) result option"
  accepted :: "rat list"

definition move :: "nat \<Rightarrow> pay_pc \<Rightarrow> pay_state \<Rightarrow> pay_state" where
  "move w p s = s\<lparr>workers := (workers s)(w := p)\<rparr>"

definition finish :: "nat \<Rightarrow> (go_error, unit) result \<Rightarrow> pay_state \<Rightarrow> pay_state" where
  "finish w r s = s\<lparr>workers := (workers s)(w := Off), results := (results s)(w \<mapsto> r)\<rparr>"

text \<open>\<^verbatim>\<open>writeAuditLog\<close>: an entry that exists is only logged as an error.\<close>

definition writeAuditLog :: "string \<Rightarrow> pay_state \<Rightarrow> pay_state" where
  "writeAuditLog action s = (if action \<in> set (audits s) then s else s\<lparr>audits := audits s @ [action]\<rparr>)"

text \<open>
  How a statement ends.  Every update of the order without a time of its own writes the clock into
  \<open>OUpdatedAt\<close> (the default of the column).
\<close>

datatype db_answer = DbOk | DbError go_error | DbLost go_error

text \<open>The inputs of one step of a worker.\<close>

record pay_input =
  p_now :: go_time
  p_db :: db_answer
  p_redeem :: redeem_input
  p_tx :: tx_end
  p_group_ok :: bool
  p_rebate :: "rat option"  \<comment> \<open>\<^verbatim>\<open>AccrueInviteRebateForOrder\<close>; none without an affiliate service\<close>

definition on_db :: "db_answer \<Rightarrow> (go_error \<Rightarrow> 's \<Rightarrow> 's) \<Rightarrow> ('s \<Rightarrow> 's) \<Rightarrow> ('s \<Rightarrow> 's) \<Rightarrow> 's \<Rightarrow> 's" where
  "on_db d handler effect continue s = (case d of
     DbOk \<Rightarrow> continue (effect s) | DbError e \<Rightarrow> handler e s | DbLost e \<Rightarrow> handler e (effect s))"

definition set_order :: "(pay_order \<Rightarrow> pay_order) \<Rightarrow> pay_state \<Rightarrow> pay_state" where
  "set_order f s = s\<lparr>order := f (order s)\<rparr>"

section \<open>From the notification to the lease\<close>

text \<open>The column of the amount keeps two digits.\<close>

definition toPaid_matches :: "go_time \<Rightarrow> pay_order \<Rightarrow> bool" where
  "toPaid_matches now r \<longleftrightarrow> OStatus r = Pending \<or> OStatus r = Cancelled
     \<or> (OStatus r = Expired \<and> now - paymentGraceMinutes * Minute \<le> OUpdatedAt r)"

definition toPaid :: "pay_input \<Rightarrow> nat \<Rightarrow> string \<Rightarrow> rat \<Rightarrow> pay_order \<Rightarrow> pay_state \<Rightarrow> pay_state" where
  "toPaid a w tradeNo paid o1 s =
     (if toPaid_matches (p_now a) (order s)
      then on_db (p_db a) (\<lambda>e. finish w (Inl (WrapError ''update to PAID'' e)))
        (set_order (\<lambda>r. r\<lparr>OStatus := Paid, OPayAmount := round2 paid, OTradeNo := tradeNo, OPaidAt := Some (p_now a), OUpdatedAt := p_now a\<rparr>))
        (\<lambda>s. move w ExecuteFulfillment (writeAuditLog ''ORDER_PAID''
           (if OStatus o1 = Cancelled \<or> OStatus o1 = Expired then writeAuditLog ''ORDER_RECOVERED'' s else s))) s
      else on_db (p_db a) (\<lambda>e. finish w (Inl (WrapError ''update to PAID'' e))) id (move w AlreadyProcessed) s)"

definition alreadyProcessed :: "pay_input \<Rightarrow> nat \<Rightarrow> pay_state \<Rightarrow> pay_state" where
  "alreadyProcessed a w s = on_db (p_db a) (\<lambda>e. finish w (Inr ())) id
     (\<lambda>s. case OStatus (order s) of
        Completed \<Rightarrow> finish w (Inr ()) s
      | Refunded \<Rightarrow> finish w (Inr ()) s
      | Failed \<Rightarrow> move w ExecuteFulfillment s
      | Paid \<Rightarrow> move w ExecuteFulfillment s
      | Recharging \<Rightarrow> move w ExecuteFulfillment s
      | Expired \<Rightarrow> finish w (Inr ()) (writeAuditLog ''PAYMENT_AFTER_EXPIRY'' s)
      | _ \<Rightarrow> finish w (Inr ()) s) s"

definition executeFulfillment :: "pay_input \<Rightarrow> nat \<Rightarrow> pay_state \<Rightarrow> pay_state" where
  "executeFulfillment a w s = on_db (p_db a) (\<lambda>e. finish w (Inl (WrapError ''get order'' e))) id
     (\<lambda>s. if OOrderType (order s) = OrderTypeSubscription then move w (Starting False) s
          else if OOrderType (order s) = OrderTypeBalance then move w (Starting True) s
          else move w (Rejecting (order s)) s) s"

definition rejectUnsupportedOrderType :: "pay_input \<Rightarrow> nat \<Rightarrow> pay_state \<Rightarrow> pay_state" where
  "rejectUnsupportedOrderType a w s =
     (if OStatus (order s) = Paid \<or> OStatus (order s) = Recharging
      then on_db (p_db a) (\<lambda>e. finish w (Inr ())) (set_order (\<lambda>r. r\<lparr>OStatus := Failed, OUpdatedAt := p_now a\<rparr>))
        (\<lambda>s. finish w (Inr ()) (writeAuditLog ''FULFILLMENT_FAILED'' s)) s
      else finish w (Inr ()) s)"

text \<open>What both \<^verbatim>\<open>ExecuteBalanceFulfillment\<close> and \<^verbatim>\<open>ExecuteSubscriptionFulfillment\<close> say to the order that they read.\<close>

datatype start_check = StartDone | StartRefused app_error | StartLease

definition start_check :: "bool \<Rightarrow> pay_order \<Rightarrow> start_check" where
  "start_check balance o1 =
     (if balance \<and> OOrderType o1 \<noteq> OrderTypeBalance
      then StartRefused (BadRequest ''INVALID_ORDER_TYPE'' ''order is not a balance order'')
      else if OStatus o1 = Completed then StartDone
      else if psIsRefundStatus (OStatus o1)
      then StartRefused (BadRequest ''INVALID_STATUS'' ''refund-related order cannot fulfill'')
      else if OStatus o1 \<noteq> Paid \<and> OStatus o1 \<noteq> Failed \<and> OStatus o1 \<noteq> Recharging
      then StartRefused (BadRequest ''INVALID_STATUS'' (''order cannot fulfill in status '' @ status_text (OStatus o1)))
      else if \<not> balance \<and> (OGroupID o1 = None \<or> ODays o1 = None)
      then StartRefused (BadRequest ''INVALID_STATUS'' ''missing subscription info'')
      else StartLease)"

definition startFulfillment :: "pay_input \<Rightarrow> nat \<Rightarrow> bool \<Rightarrow> pay_state \<Rightarrow> pay_state" where
  "startFulfillment a w balance s =
     on_db (p_db a) (\<lambda>e. finish w (Inl (to_error (NotFound ''NOT_FOUND'' ''order not found'')))) id
     (\<lambda>s. case start_check balance (order s) of
        StartDone \<Rightarrow> finish w (Inr ()) s
      | StartRefused e \<Rightarrow> finish w (Inl (to_error e)) s
      | StartLease \<Rightarrow> move w (Acquiring (order s)) s) s"

text \<open>The clock is cut to microseconds for the version.\<close>

definition lease_time :: "go_time \<Rightarrow> go_time" where
  "lease_time now = now - now mod 1000"

definition lease_matches :: "go_time \<Rightarrow> pay_order \<Rightarrow> bool" where
  "lease_matches now r \<longleftrightarrow> OStatus r = Paid \<or> OStatus r = Failed
     \<or> (OStatus r = Recharging \<and> OUpdatedAt r \<le> lease_time now - paymentFulfillmentLeaseDuration)"

definition acquirePaymentFulfillmentLease :: "pay_input \<Rightarrow> nat \<Rightarrow> pay_order \<Rightarrow> pay_state \<Rightarrow> pay_state" where
  "acquirePaymentFulfillmentLease a w o1 s =
     (if lease_matches (p_now a) (order s)
      then on_db (p_db a) (\<lambda>e. finish w (Inl (WrapError ''acquire fulfillment lease'' e)))
        (set_order (\<lambda>r. r\<lparr>OStatus := Recharging, OUpdatedAt := lease_time (p_now a)\<rparr>)) (move w (Reloading o1)) s
      else on_db (p_db a) (\<lambda>e. finish w (Inl (WrapError ''acquire fulfillment lease'' e))) id (move w NotAcquired) s)"

definition lease_not_acquired :: "pay_input \<Rightarrow> nat \<Rightarrow> pay_state \<Rightarrow> pay_state" where
  "lease_not_acquired a w s = on_db (p_db a) (\<lambda>e. finish w (Inl (WrapError ''reload fulfillment lease'' e))) id
     (\<lambda>s. if OStatus (order s) = Completed then finish w (Inr ()) s
          else if OStatus (order s) = Recharging then finish w (Inl (to_error (Conflict ''CONFLICT'' ''order is being processed''))) s
          else finish w (Inl (to_error (Conflict ''CONFLICT'' ''order status changed while acquiring fulfillment lease''))) s) s"

definition lease_reload :: "pay_input \<Rightarrow> nat \<Rightarrow> pay_order \<Rightarrow> pay_state \<Rightarrow> pay_state" where
  "lease_reload a w o1 s = on_db (p_db a) (\<lambda>e. finish w (Inl (WrapError ''reload acquired fulfillment lease'' e))) id
     (\<lambda>s. if OStatus (order s) \<noteq> Recharging then finish w (Inl (to_error (Conflict ''CONFLICT'' ''fulfillment lease was lost''))) s
          else if OOrderType o1 = OrderTypeBalance then move w (LookingUp o1 (OUpdatedAt (order s))) s
          else move w (CheckingAssignment o1 (OUpdatedAt (order s))) s) s"

section \<open>Under the lease\<close>

definition fail :: "nat \<Rightarrow> go_time \<Rightarrow> go_error \<Rightarrow> pay_state \<Rightarrow> pay_state" where
  "fail w v e = move w (MarkingFailed v e)"

definition doBalance :: "pay_input \<Rightarrow> nat \<Rightarrow> pay_order \<Rightarrow> go_time \<Rightarrow> pay_state \<Rightarrow> pay_state" where
  "doBalance a w o1 v s = on_db (p_db a) (\<lambda>e. fail w v (WrapError ''lookup payment redeem code'' e)) id
     (\<lambda>s. let existing = service_GetByCode (ORechargeCode o1) (rd s)
          in case resolveRedeemAction existing of
             Inl e \<Rightarrow> fail w v e s
           | Inr action \<Rightarrow> (case (case existing of Inl _ \<Rightarrow> Inr () | Inr code \<Rightarrow> validatePaymentRedeemCode o1 code) of
               Inl e \<Rightarrow> fail w v e s
             | Inr _ \<Rightarrow> (case action of
                 ActionSkipCompleted \<Rightarrow> move w (ClaimingRebate o1 v) s
               | ActionCreate \<Rightarrow> move w (CreatingCode o1 v) s
               | ActionRedeem \<Rightarrow> move w (Redeeming o1 v) s))) s"

definition createPaymentCode :: "pay_input \<Rightarrow> nat \<Rightarrow> pay_order \<Rightarrow> go_time \<Rightarrow> pay_state \<Rightarrow> pay_state" where
  "createPaymentCode a w o1 v s = (case CreateCode (p_now a) (payment_code o1) (rd s) of
     (Inl e, _) \<Rightarrow> fail w v (WrapError ''create redeem code'' e) s
   | (Inr _, rd1) \<Rightarrow> on_db (p_db a) (\<lambda>e. fail w v (WrapError ''create redeem code'' e)) (\<lambda>s. s\<lparr>rd := rd1\<rparr>) (move w (Redeeming o1 v)) s)"

definition redeem_start :: "pay_input \<Rightarrow> nat \<Rightarrow> pay_order \<Rightarrow> go_time \<Rightarrow> pay_state \<Rightarrow> pay_state" where
  "redeem_start a w o1 v s =
     move w (AwaitingRedeem o1 v) (s\<lparr>rd := redeem_open (p_redeem a) (Fulfil w) (OUserID o1) (ORechargeCode o1) (rd s)\<rparr>)"

definition redeem_continue :: "(string \<Rightarrow> bool) \<Rightarrow> pay_input \<Rightarrow> nat \<Rightarrow> pay_order \<Rightarrow> go_time \<Rightarrow> pay_state \<Rightarrow> pay_state" where
  "redeem_continue backed a w o1 v s =
     (let free = (\<lambda>s. s\<lparr>rd := (rd s)\<lparr>sessions := (sessions (rd s))(Fulfil w := Idle)\<rparr>\<rparr>)
      in case sessions (rd s) (Fulfil w) of
        Idle \<Rightarrow> fail w v (PlainError ''redeem balance'') s
      | Checked u r \<Rightarrow> s\<lparr>rd := redeem_close backed (p_tx a) (Fulfil w) u r (rd s)\<rparr>
      | Answered u code (Inl e) \<Rightarrow> fail w v (WrapError ''redeem balance'' e) (free s)
      | Answered u code (Inr r) \<Rightarrow> move w (ClaimingRebate o1 v) (free s))"

text \<open>
  \<^verbatim>\<open>applyAffiliateRebateForOrder\<close>: the claim inserts the entry \<^verbatim>\<open>AFFILIATE_REBATE_APPLIED\<close> unless it sees one of
  the two; a concurrent claim is only seen by the unique index.
\<close>

definition rebate_claim :: "pay_input \<Rightarrow> nat \<Rightarrow> pay_order \<Rightarrow> go_time \<Rightarrow> pay_state \<Rightarrow> pay_state" where
  "rebate_claim a w o1 v s =
     (if affiliateRebateBaseAmount o1 \<le> 0 \<or> p_rebate a = None then move w (Completing o1 v) s
      else on_db (p_db a) (\<lambda>e s. fail w v (WrapError ''claim affiliate rebate audit'' e) (writeAuditLog ''AFFILIATE_REBATE_FAILED'' s)) id
        (\<lambda>s. if ''AFFILIATE_REBATE_APPLIED'' \<in> set (audits s) \<or> ''AFFILIATE_REBATE_SKIPPED'' \<in> set (audits s)
             then move w (Completing o1 v) s
             else move w (Accruing o1 v (affiliateRebateBaseAmount o1)) s) s)"

definition rebate_commit :: "pay_input \<Rightarrow> nat \<Rightarrow> pay_order \<Rightarrow> go_time \<Rightarrow> rat \<Rightarrow> pay_state \<Rightarrow> pay_state" where
  "rebate_commit a w o1 v baseAmount s =
     (let fails = (\<lambda>e s. fail w v (WrapError ''affiliate rebate'' e) (writeAuditLog ''AFFILIATE_REBATE_FAILED'' s));
          amount = (case p_rebate a of None \<Rightarrow> 0 | Some x \<Rightarrow> x)
      in if ''AFFILIATE_REBATE_APPLIED'' \<in> set (audits s) then move w (Completing o1 v) s
         else if amount \<le> 0
         then (if ''AFFILIATE_REBATE_SKIPPED'' \<in> set (audits s) then fails (PlainError ''constraint'') s
               else on_db (p_db a) fails (\<lambda>s. s\<lparr>audits := audits s @ [''AFFILIATE_REBATE_SKIPPED'']\<rparr>) (move w (Completing o1 v)) s)
         else on_db (p_db a) fails
           (\<lambda>s. s\<lparr>audits := audits s @ [''AFFILIATE_REBATE_APPLIED''], rebates := rebates s @ [baseAmount]\<rparr>)
           (move w (Completing o1 v)) s)"

text \<open>The version must still be the one of the lease.\<close>

definition holds_lease :: "go_time \<Rightarrow> pay_order \<Rightarrow> bool" where
  "holds_lease v r \<longleftrightarrow> OStatus r = Recharging \<and> OUpdatedAt r = v"

definition markCompleted :: "pay_input \<Rightarrow> nat \<Rightarrow> pay_order \<Rightarrow> go_time \<Rightarrow> pay_state \<Rightarrow> pay_state" where
  "markCompleted a w o1 v s =
     (if holds_lease v (order s)
      then on_db (p_db a) (\<lambda>e. fail w v (WrapError ''mark completed'' e))
        (set_order (\<lambda>r. r\<lparr>OStatus := Completed, OUpdatedAt := p_now a\<rparr>)) (move w (Auditing o1)) s
      else on_db (p_db a) (\<lambda>e. fail w v (WrapError ''mark completed'' e)) id (move w (NotCompleted o1 v)) s)"

definition not_completed :: "pay_input \<Rightarrow> nat \<Rightarrow> pay_order \<Rightarrow> go_time \<Rightarrow> pay_state \<Rightarrow> pay_state" where
  "not_completed a w o1 v s =
     (if p_db a = DbOk \<and> OStatus (order s) = Completed then finish w (Inr ()) s
      else fail w v (to_error (Conflict ''CONFLICT'' ''fulfillment lease was lost before completion'')) s)"

definition success_action :: "pay_order \<Rightarrow> string" where
  "success_action o1 = (if OOrderType o1 = OrderTypeBalance then ''RECHARGE_SUCCESS'' else ''SUBSCRIPTION_SUCCESS'')"

definition audit_success :: "pay_input \<Rightarrow> nat \<Rightarrow> pay_order \<Rightarrow> pay_state \<Rightarrow> pay_state" where
  "audit_success a w o1 s = finish w (Inr ()) (writeAuditLog (success_action o1) s)"

definition markFailed :: "pay_input \<Rightarrow> nat \<Rightarrow> go_time \<Rightarrow> go_error \<Rightarrow> pay_state \<Rightarrow> pay_state" where
  "markFailed a w v cause s =
     (if holds_lease v (order s)
      then on_db (p_db a) (\<lambda>e. finish w (Inl cause)) (set_order (\<lambda>r. r\<lparr>OStatus := Failed, OUpdatedAt := p_now a\<rparr>))
        (\<lambda>s. finish w (Inl cause) (writeAuditLog ''FULFILLMENT_FAILED'' s)) s
      else finish w (Inl cause) s)"

section \<open>Subscriptions\<close>

definition hasPaymentSubscriptionAssignmentAudit :: "pay_state \<Rightarrow> bool" where
  "hasPaymentSubscriptionAssignmentAudit s \<longleftrightarrow> ''SUBSCRIPTION_ASSIGNED'' \<in> set (audits s) \<or> ''SUBSCRIPTION_SUCCESS'' \<in> set (audits s)"

definition subscription_check :: "pay_input \<Rightarrow> nat \<Rightarrow> pay_order \<Rightarrow> go_time \<Rightarrow> pay_state \<Rightarrow> pay_state" where
  "subscription_check a w o1 v s =
     (if \<not> p_group_ok a then fail w v (PlainError ''group no longer exists or inactive'') s
      else on_db (p_db a) (\<lambda>e. fail w v (WrapError ''check subscription assignment audit'' e)) id
        (\<lambda>s. if hasPaymentSubscriptionAssignmentAudit s then move w (ClaimingRebate o1 v) s
             else move w (Assigning o1 v (case sub_notes s of None \<Rightarrow> False
               | Some n \<Rightarrow> hasPaymentSubscriptionOrderNote n (paymentSubscriptionOrderNote (OrderID o1)))) s) s)"

text \<open>
  The transaction: the assignment with its note, unless the note was found, and the entry
  \<^verbatim>\<open>SUBSCRIPTION_ASSIGNED\<close>, whose unique index undoes everything when another worker was first.
\<close>

definition assign_effect :: "pay_order \<Rightarrow> bool \<Rightarrow> pay_state \<Rightarrow> pay_state" where
  "assign_effect o1 recoveredFromNote s =
     (let s1 = s\<lparr>audits := audits s @ [''SUBSCRIPTION_ASSIGNED'']\<rparr>
      in if recoveredFromNote then s1
         else s1\<lparr>granted := granted s @ [(OUserID o1, the (OGroupID o1), the (ODays o1))],
                 sub_notes := Some (appendSubscriptionNotes (case sub_notes s of None \<Rightarrow> [] | Some n \<Rightarrow> n)
                   (paymentSubscriptionOrderNote (OrderID o1)))\<rparr>)"

definition ensurePaymentSubscriptionAssigned :: "pay_input \<Rightarrow> nat \<Rightarrow> pay_order \<Rightarrow> go_time \<Rightarrow> bool \<Rightarrow> pay_state \<Rightarrow> pay_state" where
  "ensurePaymentSubscriptionAssigned a w o1 v recoveredFromNote s =
     (if ''SUBSCRIPTION_ASSIGNED'' \<in> set (audits s)
      then on_db (p_db a) (\<lambda>e. fail w v (WrapError ''record subscription assignment audit'' e)) id (move w (ClaimingRebate o1 v)) s
      else on_db (p_db a) (\<lambda>e. fail w v (WrapError ''assign subscription'' e)) (assign_effect o1 recoveredFromNote)
        (move w (ClaimingRebate o1 v)) s)"

section \<open>One step of a worker\<close>

definition worker_step :: "(string \<Rightarrow> bool) \<Rightarrow> pay_input \<Rightarrow> nat \<Rightarrow> pay_state \<Rightarrow> pay_state" where
  "worker_step backed a w s = (case workers s w of
     Off \<Rightarrow> s
   | ToPaid t p o1 \<Rightarrow> toPaid a w t p o1 s
   | AlreadyProcessed \<Rightarrow> alreadyProcessed a w s
   | ExecuteFulfillment \<Rightarrow> executeFulfillment a w s
   | Rejecting o1 \<Rightarrow> rejectUnsupportedOrderType a w s
   | Starting b \<Rightarrow> startFulfillment a w b s
   | Acquiring o1 \<Rightarrow> acquirePaymentFulfillmentLease a w o1 s
   | NotAcquired \<Rightarrow> lease_not_acquired a w s
   | Reloading o1 \<Rightarrow> lease_reload a w o1 s
   | LookingUp o1 v \<Rightarrow> doBalance a w o1 v s
   | CreatingCode o1 v \<Rightarrow> createPaymentCode a w o1 v s
   | Redeeming o1 v \<Rightarrow> redeem_start a w o1 v s
   | AwaitingRedeem o1 v \<Rightarrow> redeem_continue backed a w o1 v s
   | ClaimingRebate o1 v \<Rightarrow> rebate_claim a w o1 v s
   | Accruing o1 v b \<Rightarrow> rebate_commit a w o1 v b s
   | Completing o1 v \<Rightarrow> markCompleted a w o1 v s
   | NotCompleted o1 v \<Rightarrow> not_completed a w o1 v s
   | Auditing o1 \<Rightarrow> audit_success a w o1 s
   | CheckingAssignment o1 v \<Rightarrow> subscription_check a w o1 v s
   | Assigning o1 v r \<Rightarrow> ensurePaymentSubscriptionAssigned a w o1 v r s
   | MarkingFailed v e \<Rightarrow> markFailed a w v e s)"

text \<open>\<^verbatim>\<open>RetryFulfillment\<close> up to its call of \<^verbatim>\<open>executeFulfillment\<close>.\<close>

definition RetryFulfillment_check :: "pay_order \<Rightarrow> (app_error, unit) result" where
  "RetryFulfillment_check o1 =
     (if OPaidAt o1 = None then Inl (BadRequest ''INVALID_STATUS'' ''order is not paid'')
      else if psIsRefundStatus (OStatus o1) then Inl (BadRequest ''INVALID_STATUS'' ''refund-related order cannot retry'')
      else if OStatus o1 = Completed then Inl (BadRequest ''INVALID_STATUS'' ''order already completed'')
      else if OStatus o1 \<noteq> Failed \<and> OStatus o1 \<noteq> Paid \<and> OStatus o1 \<noteq> Recharging
      then Inl (BadRequest ''INVALID_STATUS'' ''only paid, failed, and recoverable recharging orders can retry'')
      else if \<not> isSupportedPaymentOrderType (OOrderType o1) then Inl (BadRequest ''INVALID_ORDER_TYPE'' ''unsupported order type'')
      else Inr ())"

definition RetryFulfillment :: "nat \<Rightarrow> pay_state \<Rightarrow> pay_state" where
  "RetryFulfillment w s = (case RetryFulfillment_check (order s) of
     Inl e \<Rightarrow> finish w (Inl (to_error e)) s | Inr _ \<Rightarrow> move w ExecuteFulfillment (writeAuditLog ''RECHARGE_RETRY'' s))"

text \<open>\<^verbatim>\<open>confirmPayment\<close>: the order is read and checked.\<close>

definition confirmPayment :: "pay_env \<Rightarrow> nat \<Rightarrow> notification \<Rightarrow> string \<Rightarrow> pay_state \<Rightarrow> pay_state" where
  "confirmPayment E w n pk s = (case confirmPayment_check E (order s) n pk of
     Inl (action, e) \<Rightarrow> finish w (Inl e) (case action of None \<Rightarrow> s | Some x \<Rightarrow> writeAuditLog x s)
   | Inr _ \<Rightarrow> (case NAmount n of
       Fin paid \<Rightarrow> (move w (ToPaid (NTradeNo n) paid (order s)) s)\<lparr>accepted := accepted s @ [paid]\<rparr>
     | _ \<Rightarrow> s))"

section \<open>The life of an order outside fulfilment\<close>

text \<open>
  \<^verbatim>\<open>cancelCore\<close>: the update that cancels or expires a pending order.
\<close>

definition cancelCore :: "go_time \<Rightarrow> order_status \<Rightarrow> pay_state \<Rightarrow> pay_state" where
  "cancelCore now fs s =
     (if OStatus (order s) = Pending
      then writeAuditLog (if fs = Expired then ''ORDER_EXPIRED'' else ''ORDER_CANCELLED'')
             (set_order (\<lambda>r. r\<lparr>OStatus := fs, OUpdatedAt := now\<rparr>) s)
      else s)"

definition paymentOrderShouldPersistUpstreamTradeNo ::
    "(string \<Rightarrow> string \<Rightarrow> bool) \<Rightarrow> string \<Rightarrow> string \<Rightarrow> string \<Rightarrow> bool" where
  "paymentOrderShouldPersistUpstreamTradeNo ufold queryRef upstreamTradeNo currentTradeNo =
     (let upstream = TrimSpace upstreamTradeNo
      in if upstream = [] then False
         else if EqualFold ufold upstream (TrimSpace currentTradeNo) then False
         else if EqualFold ufold upstream (TrimSpace queryRef) then False
         else True)"

text \<open>
  \<^verbatim>\<open>checkPaidWithOptions\<close> stores the trade number of a paid upstream order, whatever the status of the order is;
  \<open>o1\<close> is the copy that the caller has read.
\<close>

definition persist_trade_no :: "(string \<Rightarrow> string \<Rightarrow> bool) \<Rightarrow> go_time \<Rightarrow> pay_order \<Rightarrow> string \<Rightarrow> string \<Rightarrow> pay_state \<Rightarrow> pay_state" where
  "persist_trade_no ufold now o1 queryRef upstream s =
     (if paymentOrderShouldPersistUpstreamTradeNo ufold queryRef (TrimSpace upstream) (OTradeNo o1)
      then set_order (\<lambda>r. r\<lparr>OTradeNo := TrimSpace upstream, OUpdatedAt := now\<rparr>) s else s)"

text \<open>\<^verbatim>\<open>CreateOrder\<close>: when the provider cannot be asked for the payment, the order is failed, without a condition.\<close>

definition createOrder_failed :: "go_time \<Rightarrow> pay_state \<Rightarrow> pay_state" where
  "createOrder_failed now = set_order (\<lambda>r. r\<lparr>OStatus := Failed, OUpdatedAt := now\<rparr>)"

text \<open>\<^verbatim>\<open>invokeProvider\<close>: the trade number that the provider gave, and the key of the provider.\<close>

definition createOrder_details :: "go_time \<Rightarrow> string option \<Rightarrow> string option \<Rightarrow> pay_state \<Rightarrow> pay_state" where
  "createOrder_details now tradeNo key = set_order (\<lambda>r. r\<lparr>OTradeNo := (case tradeNo of None \<Rightarrow> OTradeNo r | Some t \<Rightarrow> t),
     OProviderKey := (case key of None \<Rightarrow> OProviderKey r | Some k \<Rightarrow> Some k), OUpdatedAt := now\<rparr>)"

end
