(* ===== verification/Payment_Runs.thy ===== *)
theory Payment_Runs
  imports Payment_Fulfillment
begin

text \<open>
  The runs of one payment order: workers that fulfil it, statement by statement, and everything that may happen
  between their statements (\<^verbatim>\<open>backend/internal/service/payment_fulfillment.go\<close>, \<^verbatim>\<open>payment_order_lifecycle.go\<close>,
  \<^verbatim>\<open>payment_order.go\<close>, \<^verbatim>\<open>payment_refund.go\<close>).  The invariant of the runs and its preservation by every step.
\<close>

section \<open>Runs\<close>

text \<open>
  Refunds move a completed order among the statuses of refunds and back (\<^verbatim>\<open>payment_refund.go\<close>); what they
  pay back is not modelled.
\<close>

definition was_completed :: "order_status \<Rightarrow> bool" where
  "was_completed st \<longleftrightarrow> st = Completed \<or> psIsRefundStatus st"

definition refund_status :: "go_time \<Rightarrow> order_status \<Rightarrow> pay_state \<Rightarrow> pay_state" where
  "refund_status now st s = (if was_completed (OStatus (order s)) \<and> was_completed st
     then set_order (\<lambda>r. r\<lparr>OStatus := st, OUpdatedAt := now\<rparr>) s else s)"

text \<open>The entries of the audit log that fulfilment reads.\<close>

definition guarded_actions :: "string list" where
  "guarded_actions = [''SUBSCRIPTION_ASSIGNED'', ''SUBSCRIPTION_SUCCESS'', ''AFFILIATE_REBATE_APPLIED'', ''AFFILIATE_REBATE_SKIPPED'']"

definition die :: "nat \<Rightarrow> pay_state \<Rightarrow> pay_state" where
  "die w s = move w Off (s\<lparr>rd := (rd s)\<lparr>sessions := (sessions (rd s))(Fulfil w := Idle)\<rparr>\<rparr>)"

definition order_note :: "pay_order \<Rightarrow> string option \<Rightarrow> bool" where
  "order_note o1 n \<longleftrightarrow> (case n of None \<Rightarrow> False | Some x \<Rightarrow> hasPaymentSubscriptionOrderNote x (paymentSubscriptionOrderNote (OrderID o1)))"

text \<open>
  The other calls on redeem codes (without \<^verbatim>\<open>ExpireRedeemCode\<close>) leave those of workers alone and do not create a code with the name of the
  recharge code (a name that is drawn when the order is created); notes of a subscription may change, but
  nobody else writes the note of the order.
\<close>

inductive pay_step :: "pay_env \<Rightarrow> (string \<Rightarrow> bool) \<Rightarrow> pay_state \<Rightarrow> pay_state \<Rightarrow> bool" for E backed where
  notify: "workers s w = Off \<Longrightarrow> pay_step E backed s (confirmPayment E w n pk s)"
| retry: "workers s w = Off \<Longrightarrow> pay_step E backed s (RetryFulfillment w s)"
| work: "pay_step E backed s (worker_step backed a w s)"
| die: "pay_step E backed s (die w s)"
| cancel: "fs \<in> {Cancelled, Expired} \<Longrightarrow> pay_step E backed s (cancelCore now fs s)"
| trade_no: "pay_step E backed s (persist_trade_no (env_fold E) now o1 queryRef upstream s)"
| create_failed: "pay_step E backed s (createOrder_failed now s)"
| create_details: "pay_step E backed s (createOrder_details now t k s)"
| refund: "pay_step E backed s (refund_status now st s)"
| entry: "action \<notin> set guarded_actions \<Longrightarrow> pay_step E backed s (writeAuditLog action s)"
| codes: "redeem_step False backed (rd s) rd1 \<Longrightarrow> (\<forall>w. sessions rd1 (Fulfil w) = sessions (rd s) (Fulfil w))
    \<Longrightarrow> (\<forall>r \<in> set (rcodes rd1). RCode r = ORechargeCode (order s) \<longrightarrow> RID r \<in> RID ` set (rcodes (rd s)))
    \<Longrightarrow> pay_step E backed s (s\<lparr>rd := rd1\<rparr>)"
| noted: "\<not> order_note (order s) n \<Longrightarrow> pay_step E backed s (s\<lparr>sub_notes := n\<rparr>)"

text \<open>At the start a pending order stands in the database, and nothing has been done for it.\<close>

definition new_order :: "(string \<Rightarrow> bool) \<Rightarrow> pay_order \<Rightarrow> bool" where
  "new_order backed o1 \<longleftrightarrow> OStatus o1 = Pending \<and> OPaidAt o1 = None \<and> backed (ORechargeCode o1)
     \<and> TrimSpace (ORechargeCode o1) = ORechargeCode o1"

definition initial_pay :: "pay_order \<Rightarrow> redeem_state \<Rightarrow> string option \<Rightarrow> pay_state" where
  "initial_pay o1 rd0 n = \<lparr>order = o1, rd = rd0, audits = [], granted = [], rebates = [], sub_notes = n,
     workers = (\<lambda>w. Off), results = (\<lambda>w. None), accepted = []\<rparr>"

inductive pay_run :: "pay_env \<Rightarrow> (string \<Rightarrow> bool) \<Rightarrow> pay_order \<Rightarrow> pay_state \<Rightarrow> bool" for E backed o0 where
  start: "new_order backed o0 \<Longrightarrow> redeem_run False backed rd0 \<Longrightarrow> (\<forall>w. sessions rd0 (Fulfil w) = Idle)
    \<Longrightarrow> (\<forall>r \<in> set (rcodes rd0). RCode r \<noteq> ORechargeCode o0) \<Longrightarrow> \<not> order_note o0 n
    \<Longrightarrow> pay_run E backed o0 (initial_pay o0 rd0 n)"
| step: "pay_run E backed o0 s \<Longrightarrow> pay_step E backed s s' \<Longrightarrow> pay_run E backed o0 s'"

section \<open>The invariant\<close>

text \<open>What no step changes of an order.\<close>

definition strip :: "pay_order \<Rightarrow> pay_order" where
  "strip o1 = o1\<lparr>OStatus := Pending, OPaidAt := None, OPayAmount := 0, OTradeNo := [], OProviderKey := None, OUpdatedAt := 0\<rparr>"

lemma strip_fields:
  assumes "strip o1 = strip o0"
  shows "OrderID o1 = OrderID o0" "OUserID o1 = OUserID o0" "OAmount o1 = OAmount o0" "OBonusAmount o1 = OBonusAmount o0"
    "ORechargeCode o1 = ORechargeCode o0" "OOrderType o1 = OOrderType o0" "OGroupID o1 = OGroupID o0" "ODays o1 = ODays o0"
    "OCurrency o1 = OCurrency o0" "OSnapshot o1 = OSnapshot o0"
  using assms by (cases o1; cases o0; simp add: strip_def)+

lemma strip_update [simp]:
  "strip (o1\<lparr>OStatus := st, OUpdatedAt := t\<rparr>) = strip o1"
  "strip (o1\<lparr>OTradeNo := tn, OUpdatedAt := t\<rparr>) = strip o1"
  "strip (o1\<lparr>OTradeNo := tn, OProviderKey := k, OUpdatedAt := t\<rparr>) = strip o1"
  "strip (o1\<lparr>OStatus := st, OPayAmount := a, OTradeNo := tn, OPaidAt := pa, OUpdatedAt := t\<rparr>) = strip o1"
  by (simp_all add: strip_def)

definition credited :: "pay_order \<Rightarrow> redeem_state \<Rightarrow> bool" where
  "credited o0 db \<longleftrightarrow> (\<exists>p \<in> set (payouts db). PCode p = ORechargeCode o0 \<and> PUser p = OUserID o0)"

definition assigned :: "pay_state \<Rightarrow> bool" where
  "assigned s \<longleftrightarrow> ''SUBSCRIPTION_ASSIGNED'' \<in> set (audits s)"

text \<open>What an order has been paid for is done.\<close>

definition served :: "pay_order \<Rightarrow> pay_state \<Rightarrow> bool" where
  "served o0 s \<longleftrightarrow> (if OOrderType o0 = OrderTypeBalance then credited o0 (rd s)
     else OOrderType o0 = OrderTypeSubscription \<and> assigned s)"

definition code_ok :: "pay_order \<Rightarrow> redeem_state \<Rightarrow> bool" where
  "code_ok o0 db \<longleftrightarrow> (\<forall>r \<in> set (rcodes db). RCode r = ORechargeCode o0 \<longrightarrow>
     RType r = RedeemTypeBalance \<and> RValue r = OAmount o0 \<and> MaxUses r = Some 1
     \<and> (RStatus r = StatusUsed \<longrightarrow> (\<exists>p \<in> set (payouts db). PCodeID p = RID r)))"

definition touched :: "pay_order \<Rightarrow> pay_state \<Rightarrow> bool" where
  "touched o0 s \<longleftrightarrow> (\<exists>r \<in> set (rcodes (rd s)). RCode r = ORechargeCode o0) \<or> assigned s \<or> rebates s \<noteq> [] \<or> OPaidAt (order s) \<noteq> None"

definition close_to_due :: "pay_env \<Rightarrow> pay_order \<Rightarrow> rat \<Rightarrow> bool" where
  "close_to_due E o0 a \<longleftrightarrow> 0 < a
     \<and> \<bar>a - OPayAmount o0\<bar> \<le> paymentAmountToleranceForCurrency (env_upper E) (PaymentOrderCurrency (env_upper E) o0)"

definition order_ok :: "pay_env \<Rightarrow> pay_order \<Rightarrow> pay_state \<Rightarrow> bool" where
  "order_ok E o0 s \<longleftrightarrow> strip (order s) = strip o0 \<and> (was_completed (OStatus (order s)) \<longrightarrow> served o0 s)
     \<and> (OPaidAt (order s) = None \<longrightarrow> OPayAmount (order s) = OPayAmount o0)
     \<and> (case accepted s of [] \<Rightarrow> \<not> touched o0 s | a # _ \<Rightarrow> close_to_due E o0 a)"

definition audit_ok :: "pay_order \<Rightarrow> pay_state \<Rightarrow> bool" where
  "audit_ok o0 s \<longleftrightarrow> (if assigned s
       then OOrderType o0 = OrderTypeSubscription \<and> granted s = [(OUserID o0, the (OGroupID o0), the (ODays o0))] else granted s = [])
     \<and> (''SUBSCRIPTION_SUCCESS'' \<in> set (audits s) \<longrightarrow> assigned s)
     \<and> (order_note o0 (sub_notes s) \<longrightarrow> assigned s)
     \<and> (if ''AFFILIATE_REBATE_APPLIED'' \<in> set (audits s)
        then OOrderType o0 = OrderTypeBalance \<and> credited o0 (rd s) \<and> rebates s = [paymentOrderAmountWithoutBonus o0] else rebates s = [])"

definition codes_ok :: "(string \<Rightarrow> bool) \<Rightarrow> pay_order \<Rightarrow> pay_state \<Rightarrow> bool" where
  "codes_ok backed o0 s \<longleftrightarrow> redeem_run False backed (rd s) \<and> code_ok o0 (rd s)"

text \<open>Where a worker stands.\<close>

definition is_balance :: "pay_order \<Rightarrow> pay_order \<Rightarrow> bool" where
  "is_balance o0 o1 \<longleftrightarrow> strip o1 = strip o0 \<and> OOrderType o0 = OrderTypeBalance"

definition is_subscription :: "pay_order \<Rightarrow> pay_order \<Rightarrow> bool" where
  "is_subscription o0 o1 \<longleftrightarrow> strip o1 = strip o0 \<and> OOrderType o0 = OrderTypeSubscription"

definition redeem_ok :: "pay_order \<Rightarrow> session \<Rightarrow> bool" where
  "redeem_ok o0 x \<longleftrightarrow> (case x of Idle \<Rightarrow> True | Checked u r \<Rightarrow> u = OUserID o0 \<and> RCode r = ORechargeCode o0
     | Answered u c res \<Rightarrow> u = OUserID o0 \<and> c = ORechargeCode o0)"

definition place_ok :: "pay_order \<Rightarrow> pay_state \<Rightarrow> pay_pc \<Rightarrow> bool" where
  "place_ok o0 s p = (case p of
     Starting b \<Rightarrow> OOrderType o0 = (if b then OrderTypeBalance else OrderTypeSubscription)
   | Acquiring o1 \<Rightarrow> is_balance o0 o1 \<or> is_subscription o0 o1
   | Reloading o1 \<Rightarrow> is_balance o0 o1 \<or> is_subscription o0 o1
   | LookingUp o1 v \<Rightarrow> is_balance o0 o1
   | CreatingCode o1 v \<Rightarrow> is_balance o0 o1
   | Redeeming o1 v \<Rightarrow> is_balance o0 o1
   | AwaitingRedeem o1 v \<Rightarrow> is_balance o0 o1
   | ClaimingRebate o1 v \<Rightarrow> strip o1 = strip o0 \<and> served o0 s
   | Accruing o1 v b \<Rightarrow> is_balance o0 o1 \<and> served o0 s \<and> b = paymentOrderAmountWithoutBonus o0
   | Completing o1 v \<Rightarrow> strip o1 = strip o0 \<and> served o0 s
   | NotCompleted o1 v \<Rightarrow> strip o1 = strip o0 \<and> served o0 s
   | Auditing o1 \<Rightarrow> strip o1 = strip o0 \<and> served o0 s
   | CheckingAssignment o1 v \<Rightarrow> is_subscription o0 o1
   | Assigning o1 v rec \<Rightarrow> is_subscription o0 o1 \<and> (rec \<longrightarrow> assigned s)
   | _ \<Rightarrow> True)"

definition worker_ok :: "pay_order \<Rightarrow> pay_state \<Rightarrow> nat \<Rightarrow> pay_pc \<Rightarrow> bool" where
  "worker_ok o0 s w p \<longleftrightarrow> (p = Off \<or> accepted s \<noteq> []) \<and> place_ok o0 s p
     \<and> (case p of AwaitingRedeem o1 v \<Rightarrow> redeem_ok o0 (sessions (rd s) (Fulfil w)) | _ \<Rightarrow> sessions (rd s) (Fulfil w) = Idle)"

definition pay_inv :: "pay_env \<Rightarrow> (string \<Rightarrow> bool) \<Rightarrow> pay_order \<Rightarrow> pay_state \<Rightarrow> bool" where
  "pay_inv E backed o0 s \<longleftrightarrow> codes_ok backed o0 s \<and> order_ok E o0 s \<and> audit_ok o0 s \<and> (\<forall>w. worker_ok o0 s w (workers s w))"

section \<open>Changes that keep it\<close>

lemma move_fields [simp]:
  "order (move w p s) = order s" "rd (move w p s) = rd s" "audits (move w p s) = audits s" "granted (move w p s) = granted s"
  "rebates (move w p s) = rebates s" "sub_notes (move w p s) = sub_notes s" "accepted (move w p s) = accepted s"
  "workers (move w p s) = (workers s)(w := p)"
  by (simp_all add: move_def)

lemma finish_fields [simp]:
  "order (finish w r s) = order s" "rd (finish w r s) = rd s" "audits (finish w r s) = audits s" "granted (finish w r s) = granted s"
  "rebates (finish w r s) = rebates s" "sub_notes (finish w r s) = sub_notes s" "accepted (finish w r s) = accepted s"
  "workers (finish w r s) = (workers s)(w := Off)"
  by (simp_all add: finish_def)

lemma set_order_fields [simp]:
  "order (set_order f s) = f (order s)" "rd (set_order f s) = rd s" "audits (set_order f s) = audits s" "granted (set_order f s) = granted s"
  "rebates (set_order f s) = rebates s" "sub_notes (set_order f s) = sub_notes s" "accepted (set_order f s) = accepted s"
  "workers (set_order f s) = workers s"
  by (simp_all add: set_order_def)

lemma writeAuditLog_fields [simp]:
  "order (writeAuditLog x s) = order s" "rd (writeAuditLog x s) = rd s" "set (audits (writeAuditLog x s)) = insert x (set (audits s))"
  "granted (writeAuditLog x s) = granted s" "rebates (writeAuditLog x s) = rebates s" "sub_notes (writeAuditLog x s) = sub_notes s"
  "accepted (writeAuditLog x s) = accepted s" "workers (writeAuditLog x s) = workers s"
  by (auto simp: writeAuditLog_def)

text \<open>The parts of the invariant read only some of the fields.\<close>

lemma worker_ok_cong:
  assumes "rd s' = rd s" and "assigned s' = assigned s" and "accepted s' = accepted s"
  shows "worker_ok o0 s' w p = worker_ok o0 s w p" "served o0 s' = served o0 s"
proof -
  show s: "served o0 s' = served o0 s" using assms by (simp add: served_def)
  show "worker_ok o0 s' w p = worker_ok o0 s w p" unfolding worker_ok_def place_ok_def s using assms by (simp split: pay_pc.split)
qed

lemma worker_frame:
  assumes "worker_ok o0 s w p" and "accepted s \<noteq> [] \<longrightarrow> accepted s' \<noteq> []" and "served o0 s \<longrightarrow> served o0 s'"
    and "assigned s \<longrightarrow> assigned s'" and "sessions (rd s') (Fulfil w) = sessions (rd s) (Fulfil w)"
  shows "worker_ok o0 s' w p"
  using assms by (cases p) (auto simp: worker_ok_def place_ok_def)

lemma inv_worker: "pay_inv E backed o0 s \<Longrightarrow> worker_ok o0 s w (workers s w)"
  by (simp add: pay_inv_def)

text \<open>A change of the places only.\<close>

lemma inv_places:
  assumes inv: "pay_inv E backed o0 s"
    and "order s' = order s" "rd s' = rd s" "audits s' = audits s" "granted s' = granted s" "rebates s' = rebates s"
    and "sub_notes s' = sub_notes s" "accepted s' = accepted s"
    and w: "\<And>v. worker_ok o0 s v (workers s' v)"
  shows "pay_inv E backed o0 s'"
proof -
  have a: "assigned s' = assigned s" using assms(4) by (simp add: assigned_def)
  note k = worker_ok_cong [of s' s, OF assms(3) a assms(8)]
  have t: "touched o0 s' = touched o0 s" unfolding touched_def a assms(2,3,6) by (rule refl)
  have "codes_ok backed o0 s' = codes_ok backed o0 s" unfolding codes_ok_def assms(3) by (rule refl)
  moreover have "order_ok E o0 s' = order_ok E o0 s" unfolding order_ok_def t assms(2,8) k by (rule refl)
  moreover have "audit_ok o0 s' = audit_ok o0 s" unfolding audit_ok_def a assms(3-7) by (rule refl)
  ultimately show ?thesis using inv w unfolding pay_inv_def by (simp add: k)
qed

lemma inv_move [intro]:
  assumes "pay_inv E backed o0 s" and "worker_ok o0 s w p" shows "pay_inv E backed o0 (move w p s)"
  using assms by (intro inv_places [OF assms(1)]) (auto simp: inv_worker)

lemma inv_finish [intro]:
  assumes "pay_inv E backed o0 s" and "sessions (rd s) (Fulfil w) = Idle" shows "pay_inv E backed o0 (finish w r s)"
proof (rule inv_places [OF assms(1)])
  fix v
  have "worker_ok o0 s w Off" using assms(2) by (simp add: worker_ok_def place_ok_def)
  then show "worker_ok o0 s v (workers (finish w r s) v)" using inv_worker [OF assms(1)] by simp
qed simp_all

lemma guarded_simps [simp]:
  "x \<notin> set guarded_actions \<Longrightarrow> assigned (writeAuditLog x s) = assigned s"
  "assigned (set_order f s) = assigned s" "assigned (move w p s) = assigned s" "assigned (finish w r s) = assigned s"
  by (auto simp: assigned_def guarded_actions_def)

lemma worker_ok_simps [simp]:
  "x \<notin> set guarded_actions \<Longrightarrow> worker_ok o0 (writeAuditLog x s) w p = worker_ok o0 s w p"
  "worker_ok o0 (set_order f s) w p = worker_ok o0 s w p"
  "worker_ok o0 (move v q s) w p = worker_ok o0 s w p"
  by (rule worker_ok_cong; simp)+

lemma inv_audit [intro]:
  assumes inv: "pay_inv E backed o0 s" and x: "x \<notin> set guarded_actions" shows "pay_inv E backed o0 (writeAuditLog x s)"
proof -
  have "served o0 (writeAuditLog x s) = served o0 s" using x by (intro worker_ok_cong) simp_all
  then show ?thesis using assms
    by (auto simp: pay_inv_def codes_ok_def order_ok_def audit_ok_def touched_def guarded_actions_def assigned_def split: list.splits)
qed

lemma inv_order:
  assumes inv: "pay_inv E backed o0 s" and "strip (f (order s)) = strip (order s)"
    and "was_completed (OStatus (f (order s))) \<longrightarrow> served o0 s"
    and "OPaidAt (f (order s)) = None \<longrightarrow> OPaidAt (order s) = None \<and> OPayAmount (f (order s)) = OPayAmount (order s)"
    and "accepted s = [] \<longrightarrow> OPaidAt (f (order s)) = OPaidAt (order s)"
  shows "pay_inv E backed o0 (set_order f s)"
proof -
  have "served o0 (set_order f s) = served o0 s" by (intro worker_ok_cong) simp_all
  then show ?thesis using assms
    by (auto simp: pay_inv_def codes_ok_def order_ok_def audit_ok_def touched_def split: list.splits)
qed

lemma inv_on_db:
  assumes "\<And>e. pay_inv E backed o0 (handler e s)" and "\<And>e. pay_inv E backed o0 (handler e (effect s))"
    and "pay_inv E backed o0 (continue (effect s))"
  shows "pay_inv E backed o0 (on_db d handler effect continue s)"
  using assms by (cases d) (simp_all add: on_db_def)

text \<open>A step on the redeem codes.\<close>

lemma credited_mono: "small_step db db1 \<Longrightarrow> credited o0 db \<Longrightarrow> credited o0 db1"
  by (auto simp: credited_def small_step_def)

lemma inv_codes:
  assumes inv: "pay_inv E backed o0 s" and st: "redeem_step False backed (rd s) rd1"
    and other: "\<And>v. v \<noteq> w \<Longrightarrow> sessions rd1 (Fulfil v) = sessions (rd s) (Fulfil v)"
    and own: "worker_ok o0 (s\<lparr>rd := rd1\<rparr>) w (workers s w)"
    and rows: "\<And>r. r \<in> set (rcodes rd1) \<Longrightarrow> RCode r = ORechargeCode o0 \<Longrightarrow> RID r \<notin> RID ` set (rcodes (rd s))
      \<Longrightarrow> accepted s \<noteq> [] \<and> RType r = RedeemTypeBalance \<and> RValue r = OAmount o0 \<and> MaxUses r = Some 1 \<and> RStatus r \<noteq> StatusUsed"
  shows "pay_inv E backed o0 (s\<lparr>rd := rd1\<rparr>)"
proof -
  let ?s = "s\<lparr>rd := rd1\<rparr>"
  have run: "redeem_run False backed (rd s)" and code: "code_ok o0 (rd s)" using inv by (simp_all add: pay_inv_def codes_ok_def)
  have small: "small_step (rd s) rd1" using step_small [OF st] run_inv [OF run] by blast
  have cr: "credited o0 (rd s) \<longrightarrow> credited o0 rd1" using credited_mono [OF small] by blast
  have a: "assigned ?s = assigned s" by (simp add: assigned_def)
  have sv: "served o0 s \<longrightarrow> served o0 ?s" using cr by (simp add: served_def a)
  have kept: "row_kept (rd s) rd1 r" if "r \<in> set (rcodes rd1)" for r using small that by (simp add: small_step_def)
  have code1: "code_ok o0 rd1" unfolding code_ok_def
  proof (intro ballI impI)
    fix r assume r: "r \<in> set (rcodes rd1)" "RCode r = ORechargeCode o0"
    show "RType r = RedeemTypeBalance \<and> RValue r = OAmount o0 \<and> MaxUses r = Some 1
      \<and> (RStatus r = StatusUsed \<longrightarrow> (\<exists>p \<in> set (payouts rd1). PCodeID p = RID r))"
    proof (cases "RID r \<in> RID ` set (rcodes (rd s))")
      case False
      then show ?thesis using rows [OF r] by blast
    next
      case True
      with kept [OF r(1)] obtain q where q: "q \<in> set (rcodes (rd s))" "RID q = RID r" "core q = core r"
        "RStatus r = StatusUsed \<longrightarrow> RStatus q = StatusUsed \<or> RType q = RedeemTypeInvitation \<or> (\<exists>p \<in> set (payouts rd1). PCodeID p = RID r)"
        unfolding row_kept_def by blast
      have "RCode q = ORechargeCode o0" using q(3) r(2) by (simp add: core_def)
      with code q(1) have "RType q = RedeemTypeBalance \<and> RValue q = OAmount o0 \<and> MaxUses q = Some 1
        \<and> (RStatus q = StatusUsed \<longrightarrow> (\<exists>p \<in> set (payouts (rd s)). PCodeID p = RID q))" by (simp add: code_ok_def)
      then show ?thesis using q small by (auto simp: core_def type_names small_step_def)
    qed
  qed
  have touch: "touched o0 s" if "touched o0 ?s" "accepted s = []"
  proof -
    have "\<exists>q \<in> set (rcodes (rd s)). RCode q = ORechargeCode o0" if "r \<in> set (rcodes rd1)" "RCode r = ORechargeCode o0" for r
    proof -
      have "RID r \<in> RID ` set (rcodes (rd s))" using rows [OF that] \<open>accepted s = []\<close> by blast
      with kept [OF that(1)] show ?thesis using that(2) unfolding row_kept_def core_def by force
    qed
    then show ?thesis using that unfolding touched_def by (auto simp: assigned_def)
  qed
  have "worker_ok o0 ?s v (workers ?s v)" for v
  proof (cases "v = w")
    case False
    have "worker_ok o0 ?s v (workers s v)"
      by (rule worker_frame [OF inv_worker [OF inv]]) (use sv a other [OF False] in simp_all)
    then show ?thesis by simp
  qed (simp add: own)
  moreover have "order_ok E o0 ?s" using inv sv touch by (auto simp: pay_inv_def order_ok_def split: list.splits)
  moreover have "audit_ok o0 ?s" using inv cr by (auto simp: pay_inv_def audit_ok_def a split: if_splits)
  moreover have "redeem_run False backed rd1" using run st by (rule redeem_run.step)
  ultimately show ?thesis using code1 by (simp add: pay_inv_def codes_ok_def)
qed

section \<open>Every step keeps it\<close>

lemmas places = worker_ok_def place_ok_def

text \<open>What a worker at work may rely on.\<close>

lemma at_work:
  assumes "pay_inv E backed o0 s" and "workers s w = p" and "p \<noteq> Off"
  shows "accepted s \<noteq> []" "place_ok o0 s p" "(\<forall>o1 v. p \<noteq> AwaitingRedeem o1 v) \<longrightarrow> sessions (rd s) (Fulfil w) = Idle"
  using inv_worker [OF assms(1), of w] assms(2,3) by (auto simp: worker_ok_def split: pay_pc.splits)

lemma guarded_facts [simp]:
  "''ORDER_PAID'' \<notin> set guarded_actions" "''ORDER_RECOVERED'' \<notin> set guarded_actions" "''PAYMENT_AFTER_EXPIRY'' \<notin> set guarded_actions"
  "''FULFILLMENT_FAILED'' \<notin> set guarded_actions" "''RECHARGE_RETRY'' \<notin> set guarded_actions" "''AFFILIATE_REBATE_FAILED'' \<notin> set guarded_actions"
  "''RECHARGE_SUCCESS'' \<notin> set guarded_actions" "''ORDER_EXPIRED'' \<notin> set guarded_actions" "''ORDER_CANCELLED'' \<notin> set guarded_actions"
  "''PAYMENT_PROVIDER_MISMATCH'' \<notin> set guarded_actions" "''PAYMENT_PROVIDER_METADATA_MISMATCH'' \<notin> set guarded_actions"
  "''PAYMENT_INVALID_AMOUNT'' \<notin> set guarded_actions" "''PAYMENT_AMOUNT_MISMATCH'' \<notin> set guarded_actions"
  by (simp_all add: guarded_actions_def)

lemma order_strip: "pay_inv E backed o0 s \<Longrightarrow> strip (order s) = strip o0"
  by (simp add: pay_inv_def order_ok_def)

lemma not_completed_simps [simp]:
  "\<not> was_completed Paid" "\<not> was_completed Failed" "\<not> was_completed Recharging" "\<not> was_completed Pending"
  "\<not> was_completed Cancelled" "\<not> was_completed Expired" "was_completed Completed"
  by (simp_all add: was_completed_def psIsRefundStatus_def)

text \<open>An update of the status that does not complete the order, with the clock.\<close>

lemma inv_status:
  assumes "pay_inv E backed o0 s" and "\<not> was_completed st"
  shows "pay_inv E backed o0 (set_order (\<lambda>r. r\<lparr>OStatus := st, OUpdatedAt := t\<rparr>) s)"
  using assms by (intro inv_order) simp_all

lemma inv_toPaid:
  assumes inv: "pay_inv E backed o0 s" and "workers s w = ToPaid t p o1"
  shows "pay_inv E backed o0 (toPaid a w t p o1 s)"
proof -
  note W = at_work [OF inv assms(2)]
  have "pay_inv E backed o0 (set_order (\<lambda>r. r\<lparr>OStatus := Paid, OPayAmount := round2 p, OTradeNo := t, OPaidAt := Some (p_now a), OUpdatedAt := p_now a\<rparr>) s)"
    using W inv by (intro inv_order) simp_all
  then show ?thesis unfolding toPaid_def using inv W
    by (cases "toPaid_matches (p_now a) (order s)"; cases "OStatus o1 = Cancelled \<or> OStatus o1 = Expired")
      (auto intro!: inv_on_db inv_move inv_finish inv_audit simp: places)
qed

lemma inv_alreadyProcessed:
  assumes inv: "pay_inv E backed o0 s" and "workers s w = AlreadyProcessed"
  shows "pay_inv E backed o0 (alreadyProcessed a w s)"
proof -
  note W = at_work [OF inv assms(2)]
  show ?thesis unfolding alreadyProcessed_def using inv W
    by (cases "OStatus (order s)") (auto intro!: inv_on_db inv_move inv_finish inv_audit simp: places)
qed

lemma inv_executeFulfillment:
  assumes inv: "pay_inv E backed o0 s" and "workers s w = ExecuteFulfillment"
  shows "pay_inv E backed o0 (executeFulfillment a w s)"
proof -
  note W = at_work [OF inv assms(2)] and k = strip_fields(6) [OF order_strip [OF inv]]
  show ?thesis unfolding executeFulfillment_def using inv W
    by (auto intro!: inv_on_db inv_move inv_finish simp: places k)
qed

lemma inv_reject:
  assumes inv: "pay_inv E backed o0 s" and "workers s w = Rejecting o1"
  shows "pay_inv E backed o0 (rejectUnsupportedOrderType a w s)"
proof -
  note W = at_work [OF inv assms(2)]
  show ?thesis unfolding rejectUnsupportedOrderType_def using inv W
    by (auto intro!: inv_on_db inv_finish inv_audit inv_status)
qed

lemma inv_startFulfillment:
  assumes inv: "pay_inv E backed o0 s" and "workers s w = Starting b"
  shows "pay_inv E backed o0 (startFulfillment a w b s)"
proof -
  note W = at_work [OF inv assms(2)] and k = order_strip [OF inv]
  have "is_balance o0 (order s) \<or> is_subscription o0 (order s)"
    using W k by (auto simp: place_ok_def is_balance_def is_subscription_def split: if_splits)
  then show ?thesis unfolding startFulfillment_def using inv W
    by (cases "start_check b (order s)") (auto intro!: inv_on_db inv_move inv_finish simp: places)
qed

lemma inv_acquire:
  assumes inv: "pay_inv E backed o0 s" and "workers s w = Acquiring o1"
  shows "pay_inv E backed o0 (acquirePaymentFulfillmentLease a w o1 s)"
proof -
  note W = at_work [OF inv assms(2)]
  show ?thesis unfolding acquirePaymentFulfillmentLease_def using inv W
    by (auto intro!: inv_on_db inv_move inv_finish inv_status simp: places)
qed

lemma inv_not_acquired:
  assumes inv: "pay_inv E backed o0 s" and "workers s w = NotAcquired"
  shows "pay_inv E backed o0 (lease_not_acquired a w s)"
proof -
  note W = at_work [OF inv assms(2)]
  show ?thesis unfolding lease_not_acquired_def using inv W by (auto intro!: inv_on_db inv_finish)
qed

lemma inv_reload:
  assumes inv: "pay_inv E backed o0 s" and "workers s w = Reloading o1"
  shows "pay_inv E backed o0 (lease_reload a w o1 s)"
proof -
  note W = at_work [OF inv assms(2)]
  have k: "OOrderType o1 = OOrderType o0" using W(2)
    by (auto simp: place_ok_def is_balance_def is_subscription_def dest: strip_fields(6))
  show ?thesis unfolding lease_reload_def using inv W
    by (auto intro!: inv_on_db inv_move inv_finish simp: places k is_balance_def is_subscription_def)
qed

text \<open>A worker under a lease fails.\<close>

lemma inv_fail [intro]:
  assumes "pay_inv E backed o0 s" and "accepted s \<noteq> []" and "sessions (rd s) (Fulfil w) = Idle"
  shows "pay_inv E backed o0 (fail w v e s)"
  using assms unfolding fail_def by (intro inv_move) (simp_all add: places)

text \<open>A used code with the worker's user has been paid to that user.\<close>

lemma used_code_credited:
  assumes inv: "pay_inv E backed o0 s" and "repo_GetByCode (ORechargeCode o1) (rd s) = Inr r" and "is_balance o0 o1"
    and "validatePaymentRedeemCode o1 r = Inr ()" and "IsUsed r"
  shows "credited o0 (rd s)"
proof -
  have o: "OUserID o1 = OUserID o0" "ORechargeCode o1 = ORechargeCode o0"
    using assms(3) strip_fields [of o1 o0] by (simp_all add: is_balance_def)
  have r: "r \<in> set (rcodes (rd s))" "RCode r = ORechargeCode o0" using GetByCode_row [OF assms(2)] o by simp_all
  have u: "RStatus r = StatusUsed" "RUsedBy r = Some (OUserID o0)"
    using assms(4,5) o by (auto simp: validatePaymentRedeemCode_def IsUsed_def status_names split: if_splits)
  have "code_ok o0 (rd s)" "redeem_inv False backed (rd s)"
    using inv run_inv by (auto simp: pay_inv_def codes_ok_def)
  then obtain p where p: "p \<in> set (payouts (rd s))" "PCodeID p = RID r" and m: "MaxUses r = Some 1"
    using r u(1) unfolding code_ok_def by blast
  obtain q where q: "q \<in> set (rcodes (rd s))" "RID q = PCodeID p" "RCode q = PCode p"
    "MaxUses q = Some 1 \<longrightarrow> RUsedBy q = Some (PUser p)"
    using payout_row [OF \<open>redeem_inv False backed (rd s)\<close> p(1)] by blast
  have "q = r" using q(1,2) p(2) r(1) \<open>redeem_inv False backed (rd s)\<close>
    unfolding redeem_inv_def rows_ok_def by (auto simp: distinct_map inj_on_def)
  then show ?thesis using q m u(2) r(2) p(1) unfolding credited_def by auto
qed

lemma served_balance: "is_balance o0 o1 \<Longrightarrow> served o0 s = credited o0 (rd s)"
  by (simp add: served_def is_balance_def)

lemma inv_doBalance:
  assumes inv: "pay_inv E backed o0 s" and "workers s w = LookingUp o1 v"
  shows "pay_inv E backed o0 (doBalance a w o1 v s)"
proof -
  note W = at_work [OF inv assms(2)]
  have b: "is_balance o0 o1" "strip o1 = strip o0" using W(2) by (simp_all add: place_ok_def is_balance_def)
  have i: "accepted s \<noteq> []" "sessions (rd s) (Fulfil w) = Idle" using W by simp_all
  note f = inv_fail [OF inv i]
  have go: "pay_inv E backed o0 (move w (CreatingCode o1 v) s)" "pay_inv E backed o0 (move w (Redeeming o1 v) s)"
    using inv i b by (auto intro!: inv_move simp: places)
  have skip: "pay_inv E backed o0 (move w (ClaimingRebate o1 v) s)" if "credited o0 (rd s)"
    using inv i b that by (auto intro!: inv_move simp: places served_balance)
  show ?thesis unfolding doBalance_def
  proof (rule inv_on_db)
    show "pay_inv E backed o0 (let existing = service_GetByCode (ORechargeCode o1) (rd (id s))
          in case resolveRedeemAction existing of
             Inl e \<Rightarrow> fail w v e (id s)
           | Inr action \<Rightarrow> (case (case existing of Inl _ \<Rightarrow> Inr () | Inr code \<Rightarrow> validatePaymentRedeemCode o1 code) of
               Inl e \<Rightarrow> fail w v e (id s)
             | Inr _ \<Rightarrow> (case action of
                 ActionSkipCompleted \<Rightarrow> move w (ClaimingRebate o1 v) (id s)
               | ActionCreate \<Rightarrow> move w (CreatingCode o1 v) (id s)
               | ActionRedeem \<Rightarrow> move w (Redeeming o1 v) (id s))))"
    proof (cases "repo_GetByCode (ORechargeCode o1) (rd s)")
      case (Inl e)
      then show ?thesis using f go by (simp add: service_GetByCode_def resolveRedeemAction_def)
    next
      case (Inr r)
      have "validatePaymentRedeemCode o1 r = Inr () \<Longrightarrow> IsUsed r \<Longrightarrow> credited o0 (rd s)"
        by (rule used_code_credited [OF inv Inr b(1)])
      with Inr f go skip show ?thesis
        by (cases "validatePaymentRedeemCode o1 r"; cases "IsUsed r") (simp_all add: service_GetByCode_def resolveRedeemAction_def)
    qed
  qed (use f in simp_all)
qed

lemma payment_code_created:
  "snd (CreateCode now (payment_code o1) db) = db
   \<or> (\<exists>r. snd (CreateCode now (payment_code o1) db) = db\<lparr>rcodes := rcodes db @ [r], next_code := next_code db + 1\<rparr>
        \<and> RType r = RedeemTypeBalance \<and> RValue r = OAmount o1 \<and> MaxUses r = Some 1 \<and> RStatus r \<noteq> StatusUsed
        \<and> snd (CreateCode now (payment_code o1) db) = snd (repo_Create ((payment_code o1)\<lparr>RCode := TrimSpace (ORechargeCode o1)\<rparr>) db))"
proof -
  let ?c = "(payment_code o1)\<lparr>RCode := TrimSpace (ORechargeCode o1)\<rparr>"
  have k: "snd (case x of (Inl e, s1) \<Rightarrow> (Inl (WrapError m e), s1) | (Inr r, s1) \<Rightarrow> (Inr r, s1)) = snd x"
    for m and x :: "(go_error, redeem_code) result \<times> redeem_state"
    by (cases x; cases "fst x") simp_all
  have "snd (CreateCode now (payment_code o1) db) = db \<or> snd (CreateCode now (payment_code o1) db) = snd (repo_Create ?c db)"
    unfolding CreateCode_def Let_def if_distrib [of snd] k snd_conv by (simp add: payment_code_def type_names status_names)
  moreover have "snd (repo_Create ?c db) = db \<or> snd (repo_Create ?c db) = db\<lparr>rcodes := rcodes db @ [?c\<lparr>RID := next_code db, MaxUses := Some 1, UsedCount := 0\<rparr>],
      next_code := next_code db + 1\<rparr>"
    by (auto simp: repo_Create_def Let_def payment_code_def)
  ultimately show ?thesis by (fastforce simp: payment_code_def status_names)
qed

lemma inv_createPaymentCode:
  assumes inv: "pay_inv E backed o0 s" and "workers s w = CreatingCode o1 v"
  shows "pay_inv E backed o0 (createPaymentCode a w o1 v s)"
proof -
  note W = at_work [OF inv assms(2)]
  have b: "is_balance o0 o1" using W(2) by (simp add: place_ok_def)
  have i: "accepted s \<noteq> []" "sessions (rd s) (Fulfil w) = Idle" using W by simp_all
  define rd1 where "rd1 = snd (CreateCode (p_now a) (payment_code o1) (rd s))"
  have J: "pay_inv E backed o0 (s\<lparr>rd := rd1\<rparr>)" and i1: "sessions rd1 (Fulfil w) = Idle"
  proof -
    from payment_code_created [of "p_now a" o1 "rd s"] consider "rd1 = rd s"
      | r where "rd1 = (rd s)\<lparr>rcodes := rcodes (rd s) @ [r], next_code := next_code (rd s) + 1\<rparr>"
        "RType r = RedeemTypeBalance" "RValue r = OAmount o1" "MaxUses r = Some 1" "RStatus r \<noteq> StatusUsed"
        "rd1 = snd (repo_Create ((payment_code o1)\<lparr>RCode := TrimSpace (ORechargeCode o1)\<rparr>) (rd s))"
      unfolding rd1_def by blast
    then have "pay_inv E backed o0 (s\<lparr>rd := rd1\<rparr>) \<and> sessions rd1 (Fulfil w) = Idle"
    proof cases
      case 1
      then show ?thesis using inv i by simp
    next
      case 2
      have st: "redeem_step False backed (rd s) rd1" unfolding 2(6) by (rule redeem_step.create)
      have am: "OAmount o1 = OAmount o0" using b strip_fields [of o1 o0] by (simp add: is_balance_def)
      have "pay_inv E backed o0 (s\<lparr>rd := rd1\<rparr>)"
      proof (rule inv_codes [OF inv st, of w])
        show "worker_ok o0 (s\<lparr>rd := rd1\<rparr>) w (workers s w)" using assms(2) b i 2(1) by (simp add: places)
      next
        fix q assume "q \<in> set (rcodes rd1)" "RID q \<notin> RID ` set (rcodes (rd s))"
        then have "q = r" using 2(1) by auto
        then show "accepted s \<noteq> [] \<and> RType q = RedeemTypeBalance \<and> RValue q = OAmount o0 \<and> MaxUses q = Some 1 \<and> RStatus q \<noteq> StatusUsed"
          using 2(2-5) i am by simp
      qed (simp add: 2(1))
      then show ?thesis using 2(1) i by simp
    qed
    then show "pay_inv E backed o0 (s\<lparr>rd := rd1\<rparr>)" "sessions rd1 (Fulfil w) = Idle" by simp_all
  qed
  have f: "pay_inv E backed o0 (fail w v e s)" "pay_inv E backed o0 (fail w v e (s\<lparr>rd := rd1\<rparr>))" for e
    using inv_fail [OF inv i] inv_fail [OF J] i i1 by simp_all
  have g: "pay_inv E backed o0 (move w (Redeeming o1 v) (s\<lparr>rd := rd1\<rparr>))"
    using J b i i1 by (intro inv_move) (simp_all add: places)
  obtain x where x: "CreateCode (p_now a) (payment_code o1) (rd s) = (x, rd1)" by (simp add: rd1_def prod_eq_iff)
  show ?thesis
  proof (cases x)
    case (Inl e)
    then show ?thesis using f x by (simp add: createPaymentCode_def)
  next
    case (Inr y)
    then show ?thesis using f g x by (simp add: createPaymentCode_def) (rule inv_on_db; simp)
  qed
qed

lemma move_rd: "move w p (s\<lparr>rd := db\<rparr>) = (move w p s)\<lparr>rd := db\<rparr>"
  by (simp add: move_def)

lemma known_ids: "r \<in> set xs \<Longrightarrow> RID r \<notin> RID ` set xs \<Longrightarrow> P" by blast

lemma inv_redeem_start:
  assumes inv: "pay_inv E backed o0 s" and "workers s w = Redeeming o1 v"
  shows "pay_inv E backed o0 (redeem_start a w o1 v s)"
proof -
  note W = at_work [OF inv assms(2)]
  have b: "is_balance o0 o1" using W(2) by (simp add: place_ok_def)
  have i: "accepted s \<noteq> []" "sessions (rd s) (Fulfil w) = Idle" using W by simp_all
  have o: "OUserID o1 = OUserID o0" "ORechargeCode o1 = ORechargeCode o0"
    using b strip_fields [of o1 o0] by (simp_all add: is_balance_def)
  define rd1 where "rd1 = redeem_open (p_redeem a) (Fulfil w) (OUserID o1) (ORechargeCode o1) (rd s)"
  have at: "pay_inv E backed o0 (move w (AwaitingRedeem o1 v) s)"
    using inv b i by (intro inv_move) (simp_all add: places redeem_ok_def)
  have st: "redeem_step False backed (rd (move w (AwaitingRedeem o1 v) s)) rd1"
    unfolding rd1_def using i(2) by simp (rule redeem_step.open_call)
  have k: "rcodes rd1 = rcodes (rd s)" "redeem_ok o0 (sessions rd1 (Fulfil w))"
    "\<And>u. u \<noteq> w \<Longrightarrow> sessions rd1 (Fulfil u) = sessions (rd s) (Fulfil u)"
    using open_cases [of "p_redeem a" "Fulfil w" "OUserID o1" "ORechargeCode o1" "rd s"] GetByCode_row o
    unfolding rd1_def by (auto simp: open_fails_def answer_def incrementRedeemErrorCount_def redeem_ok_def)
  show ?thesis unfolding redeem_start_def rd1_def [symmetric] move_rd
  proof (rule inv_codes [OF at st, of w])
    show "worker_ok o0 ((move w (AwaitingRedeem o1 v) s)\<lparr>rd := rd1\<rparr>) w (workers (move w (AwaitingRedeem o1 v) s) w)"
      using b i k(2) by (simp add: places)
  qed (use k in \<open>auto elim: known_ids\<close>)
qed

lemma close_frame:
  "sessions (redeem_close backed t c u r db) = (sessions db)(c := Answered u (RCode r) (fst (redeem_tx backed t r u db)))"
  "RID ` set (rcodes (redeem_close backed t c u r db)) = RID ` set (rcodes db)"
proof -
  have m: "map RID (map (\<lambda>q. if P q then f q else q) xs) = map RID xs" if "\<And>q. RID (f q) = RID q" for P f xs
    using that by simp
  have "map RID (map (\<lambda>q. if P q then count_share q else q) xs) = map RID xs"
    "map RID (map (\<lambda>q. if P q then q\<lparr>RStatus := st, RUsedBy := v\<rparr> else q) xs) = map RID xs" for P xs st v
    by (rule m; simp add: count_share_def)+
  then have "sessions (snd (use_code r u db)) = sessions db \<and> map RID (rcodes (snd (use_code r u db))) = map RID (rcodes db)"
    unfolding use_code_def repo_Use_def repo_UseShared_def Let_def by (simp del: map_map)
  then have k: "sessions (snd (redeem_tx backed t r u db)) = sessions db \<and> map RID (rcodes (snd (redeem_tx backed t r u db))) = map RID (rcodes db)"
    unfolding redeem_tx_def Let_def
    by (cases "use_code r u db"; cases "fst (use_code r u db)"; cases "redeem_benefits backed r"; cases t) simp_all
  have e: "redeem_close backed t c u r db = answer c u (RCode r) (fst (redeem_tx backed t r u db)) (snd (redeem_tx backed t r u db))"
    by (simp add: redeem_close_def case_prod_beta)
  show "sessions (redeem_close backed t c u r db) = (sessions db)(c := Answered u (RCode r) (fst (redeem_tx backed t r u db)))"
    using k by (simp add: e answer_def)
  have "rcodes (redeem_close backed t c u r db) = rcodes (snd (redeem_tx backed t r u db))" by (simp add: e answer_def)
  then show "RID ` set (rcodes (redeem_close backed t c u r db)) = RID ` set (rcodes db)"
    using k by (metis list.set_map)
qed

lemma inv_redeem_continue:
  assumes inv: "pay_inv E backed o0 s" and "workers s w = AwaitingRedeem o1 v"
  shows "pay_inv E backed o0 (redeem_continue backed a w o1 v s)"
proof -
  note W = at_work [OF inv assms(2)]
  have b: "is_balance o0 o1" "accepted s \<noteq> []" using W by (simp_all add: place_ok_def)
  have r: "redeem_ok o0 (sessions (rd s) (Fulfil w))" using inv_worker [OF inv, of w] assms(2) by (simp add: worker_ok_def)
  define s1 where "s1 = s\<lparr>rd := (rd s)\<lparr>sessions := (sessions (rd s))(Fulfil w := Idle)\<rparr>\<rparr>"
  have J: "pay_inv E backed o0 s1" unfolding s1_def
  proof (rule inv_codes [OF inv redeem_step.rest, of w])
    show "worker_ok o0 (s\<lparr>rd := (rd s)\<lparr>sessions := (sessions (rd s))(Fulfil w := Idle)\<rparr>\<rparr>) w (workers s w)"
      using b assms(2) by (simp add: places redeem_ok_def)
  qed (auto elim: known_ids)
  have i: "accepted s1 \<noteq> []" "sessions (rd s1) (Fulfil w) = Idle" using b by (simp_all add: s1_def)
  show ?thesis
  proof (cases "sessions (rd s) (Fulfil w)")
    case Idle
    then show ?thesis using inv_fail [OF inv b(2)] by (simp add: redeem_continue_def)
  next
    case (Checked u c)
    let ?rd1 = "redeem_close backed (p_tx a) (Fulfil w) u c (rd s)"
    have "pay_inv E backed o0 (s\<lparr>rd := ?rd1\<rparr>)"
    proof (rule inv_codes [OF inv redeem_step.close_call [OF Checked], of w])
      show "worker_ok o0 (s\<lparr>rd := ?rd1\<rparr>) w (workers s w)"
        using b r Checked assms(2) by (simp add: places close_frame redeem_ok_def)
    next
      fix q assume "q \<in> set (rcodes ?rd1)" "RID q \<notin> RID ` set (rcodes (rd s))"
      then have "RID q \<in> RID ` set (rcodes ?rd1)" "RID q \<notin> RID ` set (rcodes ?rd1)" by (simp, simp only: close_frame, blast)
      then show "accepted s \<noteq> [] \<and> RType q = RedeemTypeBalance \<and> RValue q = OAmount o0 \<and> MaxUses q = Some 1 \<and> RStatus q \<noteq> StatusUsed"
        by blast
    qed (simp add: close_frame)
    then show ?thesis using Checked by (simp add: redeem_continue_def)
  next
    case (Answered u c res)
    show ?thesis
    proof (cases res)
      case (Inl e)
      then show ?thesis using Answered inv_fail [OF J i] by (simp add: redeem_continue_def s1_def)
    next
      case (Inr x)
      have "session_ok (rd s) (sessions (rd s) (Fulfil w))" using inv run_inv
        unfolding pay_inv_def codes_ok_def redeem_inv_def by blast
      then have "credited o0 (rd s1)" using Answered Inr r by (auto simp: session_ok_def redeem_ok_def credited_def s1_def)
      then have "pay_inv E backed o0 (move w (ClaimingRebate o1 v) s1)"
        using J b i by (intro inv_move) (simp_all add: places served_balance, simp add: is_balance_def)
      then show ?thesis using Answered Inr by (simp add: redeem_continue_def s1_def)
    qed
  qed
qed


text \<open>The entries of the rebate.\<close>

lemma inv_audits:
  assumes inv: "pay_inv E backed o0 s" and x: "x \<notin> {''SUBSCRIPTION_ASSIGNED'', ''SUBSCRIPTION_SUCCESS'', ''AFFILIATE_REBATE_APPLIED''}"
  shows "pay_inv E backed o0 (s\<lparr>audits := audits s @ [x]\<rparr>)"
proof -
  have a: "assigned (s\<lparr>audits := audits s @ [x]\<rparr>) = assigned s" using x by (auto simp: assigned_def)
  note k = worker_ok_cong [of "s\<lparr>audits := audits s @ [x]\<rparr>" s o0, OF _ a]
  show ?thesis using assms k
    by (auto simp: pay_inv_def codes_ok_def order_ok_def audit_ok_def touched_def a split: list.splits)
qed

lemma inv_rebate:
  assumes inv: "pay_inv E backed o0 s" and "accepted s \<noteq> []" and "''AFFILIATE_REBATE_APPLIED'' \<notin> set (audits s)"
    and "OOrderType o0 = OrderTypeBalance" and "credited o0 (rd s)"
  shows "pay_inv E backed o0 (s\<lparr>audits := audits s @ [''AFFILIATE_REBATE_APPLIED''], rebates := rebates s @ [paymentOrderAmountWithoutBonus o0]\<rparr>)"
proof -
  let ?s = "s\<lparr>audits := audits s @ [''AFFILIATE_REBATE_APPLIED''], rebates := rebates s @ [paymentOrderAmountWithoutBonus o0]\<rparr>"
  have a: "assigned (s\<lparr>audits := audits s @ [''AFFILIATE_REBATE_APPLIED''], rebates := x\<rparr>) = assigned s" for x
    by (simp add: assigned_def)
  note k = worker_ok_cong [of ?s s o0, OF _ a]
  have "rebates s = []" using inv assms(3) by (simp add: pay_inv_def audit_ok_def)
  then have "audit_ok o0 ?s" using inv assms(3-5) by (auto simp: pay_inv_def audit_ok_def a split: if_splits)
  moreover have "order_ok E o0 ?s" using inv assms(2) k by (auto simp: pay_inv_def order_ok_def split: list.splits)
  ultimately show ?thesis using inv k by (simp add: pay_inv_def codes_ok_def)
qed

lemma rebate_amount:
  assumes "strip o1 = strip o0" and "\<not> affiliateRebateBaseAmount o1 \<le> 0"
  shows "OOrderType o0 = OrderTypeBalance" "affiliateRebateBaseAmount o1 = paymentOrderAmountWithoutBonus o0"
  using assms strip_fields [OF assms(1)] by (auto simp: affiliateRebateBaseAmount_def paymentOrderAmountWithoutBonus_def split: if_splits)

lemma inv_rebate_claim:
  assumes inv: "pay_inv E backed o0 s" and "workers s w = ClaimingRebate o1 v"
  shows "pay_inv E backed o0 (rebate_claim a w o1 v s)"
proof -
  note W = at_work [OF inv assms(2)]
  have b: "strip o1 = strip o0" "served o0 s" using W(2) by (simp_all add: place_ok_def)
  have i: "accepted s \<noteq> []" "sessions (rd s) (Fulfil w) = Idle" using W by simp_all
  have f: "pay_inv E backed o0 (fail w v e (writeAuditLog ''AFFILIATE_REBATE_FAILED'' s))" for e
    using i by (intro inv_fail inv_audit inv) simp_all
  have c: "pay_inv E backed o0 (move w (Completing o1 v) s)" using inv i b by (intro inv_move) (simp_all add: places)
  have d: "pay_inv E backed o0 (move w (Accruing o1 v (affiliateRebateBaseAmount o1)) s)" if "\<not> affiliateRebateBaseAmount o1 \<le> 0"
    using inv i b rebate_amount [OF b(1) that] by (intro inv_move) (simp_all add: places is_balance_def)
  show ?thesis using f c d unfolding rebate_claim_def by (auto intro!: inv_on_db)
qed

lemma inv_rebate_commit:
  assumes inv: "pay_inv E backed o0 s" and "workers s w = Accruing o1 v b"
  shows "pay_inv E backed o0 (rebate_commit a w o1 v b s)"
proof -
  note W = at_work [OF inv assms(2)]
  have p: "is_balance o0 o1" "strip o1 = strip o0" "served o0 s" "b = paymentOrderAmountWithoutBonus o0"
    using W(2) by (simp_all add: place_ok_def is_balance_def)
  have i: "accepted s \<noteq> []" "sessions (rd s) (Fulfil w) = Idle" using W by simp_all
  have f: "pay_inv E backed o0 (fail w v e (writeAuditLog ''AFFILIATE_REBATE_FAILED'' t))"
    and c: "pay_inv E backed o0 (move w (Completing o1 v) t)"
    if "pay_inv E backed o0 t" "rd t = rd s" "accepted t = accepted s" "assigned t = assigned s" for e t
  proof -
    have "served o0 t" using worker_ok_cong(2) [of t s o0] that p by simp
    then show "pay_inv E backed o0 (fail w v e (writeAuditLog ''AFFILIATE_REBATE_FAILED'' t))" "pay_inv E backed o0 (move w (Completing o1 v) t)"
      using i p that by (intro inv_fail inv_audit inv_move; simp add: places)+
  qed
  let ?k = "s\<lparr>audits := audits s @ [''AFFILIATE_REBATE_SKIPPED'']\<rparr>"
  let ?r = "s\<lparr>audits := audits s @ [''AFFILIATE_REBATE_APPLIED''], rebates := rebates s @ [b]\<rparr>"
  have K: "pay_inv E backed o0 ?k" using inv by (rule inv_audits) simp
  have ka: "assigned ?k = assigned s" "assigned ?r = assigned s" by (simp_all add: assigned_def)
  have skip: "pay_inv E backed o0 (on_db (p_db a) (\<lambda>e t. fail w v (WrapError m e) (writeAuditLog ''AFFILIATE_REBATE_FAILED'' t))
      (\<lambda>s. s\<lparr>audits := audits s @ [''AFFILIATE_REBATE_SKIPPED'']\<rparr>) (move w (Completing o1 v)) s)" for m
    by (rule inv_on_db) (use f [OF inv] f [OF K] c [OF K] ka in simp_all)
  have accrue: "pay_inv E backed o0 (on_db (p_db a) (\<lambda>e t. fail w v (WrapError m e) (writeAuditLog ''AFFILIATE_REBATE_FAILED'' t))
      (\<lambda>s. s\<lparr>audits := audits s @ [''AFFILIATE_REBATE_APPLIED''], rebates := rebates s @ [b]\<rparr>) (move w (Completing o1 v)) s)"
    if "''AFFILIATE_REBATE_APPLIED'' \<notin> set (audits s)" for m
  proof -
    have R: "pay_inv E backed o0 ?r" using p i served_balance [OF p(1)] unfolding p(4) by (intro inv_rebate inv that) (simp_all add: is_balance_def)
    show ?thesis by (rule inv_on_db) (use f [OF inv] f [OF R] c [OF R] ka in simp_all)
  qed
  show ?thesis using f [OF inv] c [OF inv] skip accrue unfolding rebate_commit_def Let_def by simp
qed

text \<open>The end.\<close>

lemma inv_markCompleted:
  assumes inv: "pay_inv E backed o0 s" and "workers s w = Completing o1 v"
  shows "pay_inv E backed o0 (markCompleted a w o1 v s)"
proof -
  note W = at_work [OF inv assms(2)]
  have b: "strip o1 = strip o0" "served o0 s" using W(2) by (simp_all add: place_ok_def)
  have i: "accepted s \<noteq> []" "sessions (rd s) (Fulfil w) = Idle" using W by simp_all
  let ?s = "set_order (\<lambda>r. r\<lparr>OStatus := Completed, OUpdatedAt := p_now a\<rparr>) s"
  have C: "pay_inv E backed o0 ?s" using inv b by (intro inv_order) simp_all
  have "served o0 ?s" using worker_ok_cong(2) [of ?s s o0] b by simp
  then have "pay_inv E backed o0 (move w (Auditing o1) ?s)" using C i b by (intro inv_move) (simp_all add: places)
  moreover have "pay_inv E backed o0 (move w (NotCompleted o1 v) s)" using inv i b by (intro inv_move) (simp_all add: places)
  moreover have "pay_inv E backed o0 (fail w v e s)" "pay_inv E backed o0 (fail w v e ?s)" for e
    using i by (intro inv_fail inv C; simp)+
  ultimately show ?thesis unfolding markCompleted_def by (auto intro!: inv_on_db)
qed

lemma inv_not_completed:
  assumes inv: "pay_inv E backed o0 s" and "workers s w = NotCompleted o1 v"
  shows "pay_inv E backed o0 (not_completed a w o1 v s)"
proof -
  note W = at_work [OF inv assms(2)]
  show ?thesis unfolding not_completed_def using inv W by auto
qed

lemma inv_audit_success:
  assumes inv: "pay_inv E backed o0 s" and "workers s w = Auditing o1"
  shows "pay_inv E backed o0 (audit_success a w o1 s)"
proof -
  note W = at_work [OF inv assms(2)]
  have b: "OOrderType o1 = OOrderType o0" "served o0 s" using W(2) strip_fields [of o1 o0] by (simp_all add: place_ok_def)
  have "pay_inv E backed o0 (writeAuditLog (success_action o1) s)"
  proof (cases "OOrderType o0 = OrderTypeBalance")
    case True
    then show ?thesis using inv b by (intro inv_audit) (simp_all add: success_action_def)
  next
    case False
    then have s: "assigned s" "success_action o1 = ''SUBSCRIPTION_SUCCESS''" using b by (simp_all add: served_def success_action_def)
    let ?s = "writeAuditLog ''SUBSCRIPTION_SUCCESS'' s"
    have a: "assigned ?s = assigned s" by (auto simp: assigned_def)
    note k = worker_ok_cong [of ?s s o0, OF _ a]
    show ?thesis using inv s(1) k unfolding s(2)
      by (auto simp: pay_inv_def codes_ok_def order_ok_def audit_ok_def touched_def a split: list.splits if_splits)
  qed
  then show ?thesis unfolding audit_success_def using W by (intro inv_finish) simp_all
qed

lemma inv_markFailed:
  assumes inv: "pay_inv E backed o0 s" and "workers s w = MarkingFailed v e"
  shows "pay_inv E backed o0 (markFailed a w v e s)"
proof -
  note W = at_work [OF inv assms(2)]
  show ?thesis unfolding markFailed_def using inv W
    by (auto intro!: inv_on_db inv_finish inv_audit inv_status)
qed

text \<open>Subscriptions.\<close>

lemma inv_subscription_check:
  assumes inv: "pay_inv E backed o0 s" and "workers s w = CheckingAssignment o1 v"
  shows "pay_inv E backed o0 (subscription_check a w o1 v s)"
proof -
  note W = at_work [OF inv assms(2)]
  have b: "is_subscription o0 o1" "strip o1 = strip o0" "OrderID o1 = OrderID o0"
    using W(2) strip_fields [of o1 o0] by (simp_all add: place_ok_def is_subscription_def)
  have i: "accepted s \<noteq> []" "sessions (rd s) (Fulfil w) = Idle" using W by simp_all
  have f: "pay_inv E backed o0 (fail w v e s)" for e by (rule inv_fail [OF inv i])
  have "assigned s" if "hasPaymentSubscriptionAssignmentAudit s"
    using inv that unfolding pay_inv_def audit_ok_def hasPaymentSubscriptionAssignmentAudit_def assigned_def by blast
  then have "pay_inv E backed o0 (move w (ClaimingRebate o1 v) s)" if "hasPaymentSubscriptionAssignmentAudit s"
    using inv i b that by (intro inv_move) (simp_all add: places served_def, simp add: is_subscription_def)
  moreover have "(case sub_notes s of None \<Rightarrow> False
      | Some n \<Rightarrow> hasPaymentSubscriptionOrderNote n (paymentSubscriptionOrderNote (OrderID o1))) \<longrightarrow> assigned s"
    using inv unfolding b(3) order_note_def [symmetric] by (simp add: pay_inv_def audit_ok_def)
  then have "pay_inv E backed o0 (move w (Assigning o1 v (case sub_notes s of None \<Rightarrow> False
               | Some n \<Rightarrow> hasPaymentSubscriptionOrderNote n (paymentSubscriptionOrderNote (OrderID o1)))) s)"
    using inv i b by (intro inv_move) (simp_all add: places)
  ultimately show ?thesis unfolding subscription_check_def using f by (auto intro!: inv_on_db)
qed

lemma inv_assign:
  assumes inv: "pay_inv E backed o0 s" and "accepted s \<noteq> []" and o1: "is_subscription o0 o1" and "\<not> assigned s"
  shows "pay_inv E backed o0 (assign_effect o1 False s)"
proof -
  let ?s = "assign_effect o1 False s"
  have k: "order ?s = order s" "rd ?s = rd s" "rebates ?s = rebates s" "accepted ?s = accepted s" "workers ?s = workers s"
    "granted ?s = granted s @ [(OUserID o1, the (OGroupID o1), the (ODays o1))]" "set (audits ?s) = insert ''SUBSCRIPTION_ASSIGNED'' (set (audits s))"
    by (simp_all add: assign_effect_def Let_def)
  have a: "assigned ?s" by (simp add: assigned_def k)
  have g: "granted s = []" using inv assms(4) by (simp add: pay_inv_def audit_ok_def)
  have sv: "served o0 s \<longrightarrow> served o0 ?s" using a by (simp add: served_def k)
  have o: "OUserID o1 = OUserID o0" "OGroupID o1 = OGroupID o0" "ODays o1 = ODays o0" "OOrderType o0 = OrderTypeSubscription"
    using o1 strip_fields [of o1 o0] by (simp_all add: is_subscription_def)
  have "audit_ok o0 ?s" using inv a g o by (auto simp: pay_inv_def audit_ok_def k split: if_splits)
  moreover have "order_ok E o0 ?s" using inv assms(2) sv by (auto simp: pay_inv_def order_ok_def k split: list.splits)
  moreover have "worker_ok o0 ?s w (workers ?s w)" for w unfolding k
    by (rule worker_frame [OF inv_worker [OF inv]]) (simp_all add: k sv a)
  ultimately show ?thesis using inv by (simp add: pay_inv_def codes_ok_def k)
qed

lemma inv_ensure:
  assumes inv: "pay_inv E backed o0 s" and "workers s w = Assigning o1 v rec"
  shows "pay_inv E backed o0 (ensurePaymentSubscriptionAssigned a w o1 v rec s)"
proof -
  note W = at_work [OF inv assms(2)]
  have b: "is_subscription o0 o1" "strip o1 = strip o0" "OOrderType o0 = OrderTypeSubscription" and r: "rec \<longrightarrow> assigned s"
    using W(2) by (simp_all add: place_ok_def is_subscription_def)
  have i: "accepted s \<noteq> []" "sessions (rd s) (Fulfil w) = Idle" using W by simp_all
  have f: "pay_inv E backed o0 (fail w v e s)" for e by (rule inv_fail [OF inv i])
  have g: "pay_inv E backed o0 (move w (ClaimingRebate o1 v) t)"
    if "pay_inv E backed o0 t" "assigned t" "accepted t = accepted s" "rd t = rd s" for t
    using that i b by (intro inv_move) (simp_all add: places served_def)
  show ?thesis
  proof (cases "assigned s")
    case True
    then show ?thesis using f g [OF inv] unfolding ensurePaymentSubscriptionAssigned_def
      by (auto intro!: inv_on_db simp: assigned_def)
  next
    case False
    then have n: "''SUBSCRIPTION_ASSIGNED'' \<notin> set (audits s)" "\<not> rec" using r by (simp_all add: assigned_def)
    let ?t = "assign_effect o1 False s"
    have T: "pay_inv E backed o0 ?t" by (rule inv_assign [OF inv i(1) b(1) False])
    have t: "assigned ?t" "accepted ?t = accepted s" "rd ?t = rd s" by (simp_all add: assign_effect_def assigned_def)
    have "pay_inv E backed o0 (fail w v e ?t)" for e using i t by (intro inv_fail T) simp_all
    then show ?thesis using f g [OF T t] n unfolding ensurePaymentSubscriptionAssigned_def
      by (auto intro!: inv_on_db)
  qed
qed

lemma inv_worker_step:
  assumes inv: "pay_inv E backed o0 s" shows "pay_inv E backed o0 (worker_step backed a w s)"
  using inv by (cases "workers s w")
    (simp_all add: worker_step_def inv_toPaid inv_alreadyProcessed inv_executeFulfillment inv_reject inv_startFulfillment inv_acquire
      inv_not_acquired inv_reload inv_doBalance inv_createPaymentCode inv_redeem_start inv_redeem_continue inv_rebate_claim
      inv_rebate_commit inv_markCompleted inv_not_completed inv_audit_success inv_subscription_check inv_ensure inv_markFailed)

text \<open>The steps outside of workers.\<close>

lemma at_rest: "pay_inv E backed o0 s \<Longrightarrow> workers s w = Off \<Longrightarrow> sessions (rd s) (Fulfil w) = Idle"
  using inv_worker [of E backed o0 s w] by (simp add: worker_ok_def)

lemma refused_action:
  assumes "confirmPayment_check E o1 n pk = Inl (Some x, e)" shows "x \<notin> set guarded_actions"
  using assms by (auto simp: confirmPayment_check_def Let_def split: if_splits sum.splits)

lemma inv_accept:
  assumes inv: "pay_inv E backed o0 s" and "confirmPayment_check E (order s) n pk = Inr ()" and "NAmount n = Fin a"
  shows "pay_inv E backed o0 (s\<lparr>accepted := accepted s @ [a]\<rparr>)"
proof -
  let ?s = "s\<lparr>accepted := accepted s @ [a]\<rparr>"
  have k: "assigned ?s = assigned s" "served o0 ?s = served o0 s" "touched o0 ?s = touched o0 s"
    by (simp_all add: assigned_def served_def touched_def)
  have st: "strip (order s) = strip o0" by (rule order_strip [OF inv])
  have due: "close_to_due E o0 a" if "accepted s = []"
  proof -
    have "OPaidAt (order s) = None" using inv that by (simp add: pay_inv_def order_ok_def touched_def)
    then have "OPayAmount (order s) = OPayAmount o0" using inv by (simp add: pay_inv_def order_ok_def)
    moreover have "PaymentOrderCurrency u (order s) = PaymentOrderCurrency u o0" for u
      unfolding PaymentOrderCurrency_def strip_fields [OF st] by (rule refl)
    moreover obtain b where "NAmount n = Fin b" "0 < b"
      "\<bar>b - OPayAmount (order s)\<bar> \<le> paymentAmountToleranceForCurrency (env_upper E) (PaymentOrderCurrency (env_upper E) (order s))"
      by (rule confirmed_amount [OF assms(2)])
    ultimately show ?thesis using assms(3) by (simp add: close_to_due_def)
  qed
  have "order_ok E o0 ?s" using inv due k by (auto simp: pay_inv_def order_ok_def split: list.splits)
  moreover have "worker_ok o0 ?s w (workers s w)" for w
    by (rule worker_frame [OF inv_worker [OF inv]]) (simp_all add: k)
  ultimately show ?thesis using inv by (simp add: pay_inv_def codes_ok_def audit_ok_def k)
qed

lemma inv_confirmPayment:
  assumes inv: "pay_inv E backed o0 s" and "workers s w = Off"
  shows "pay_inv E backed o0 (confirmPayment E w n pk s)"
proof (cases "confirmPayment_check E (order s) n pk")
  case (Inl x)
  obtain y e where x: "x = (y, e)" by (cases x)
  have "pay_inv E backed o0 (case y of None \<Rightarrow> s | Some z \<Rightarrow> writeAuditLog z s)"
    using inv refused_action [of E "order s" n pk] Inl x by (cases y) auto
  then show ?thesis unfolding confirmPayment_def Inl x using at_rest [OF inv assms(2)]
    by (cases y) (simp_all add: inv_finish)
next
  case (Inr u)
  then have c: "confirmPayment_check E (order s) n pk = Inr ()" by simp
  obtain a where a: "NAmount n = Fin a" by (rule confirmed_amount [OF c])
  let ?s = "s\<lparr>accepted := accepted s @ [a]\<rparr>"
  have "confirmPayment E w n pk s = move w (ToPaid (NTradeNo n) a (order s)) ?s"
    by (simp add: confirmPayment_def c a move_def)
  moreover have "pay_inv E backed o0 ?s" by (rule inv_accept [OF inv c a])
  ultimately show ?thesis using at_rest [OF inv assms(2)] by (simp add: inv_move places)
qed

lemma inv_retry:
  assumes inv: "pay_inv E backed o0 s" and "workers s w = Off"
  shows "pay_inv E backed o0 (RetryFulfillment w s)"
proof (cases "RetryFulfillment_check (order s)")
  case (Inl e)
  then show ?thesis using inv at_rest [OF inv assms(2)] by (simp add: RetryFulfillment_def inv_finish)
next
  case (Inr u)
  then have "OPaidAt (order s) \<noteq> None" by (auto simp: RetryFulfillment_check_def split: if_splits)
  then have "touched o0 s" by (simp add: touched_def)
  then have "accepted s \<noteq> []" using inv by (auto simp: pay_inv_def order_ok_def split: list.splits)
  then show ?thesis using inv at_rest [OF inv assms(2)] Inr
    by (auto simp: RetryFulfillment_def places intro!: inv_move inv_audit)
qed

lemma inv_die:
  assumes inv: "pay_inv E backed o0 s" shows "pay_inv E backed o0 (die w s)"
proof -
  define db where "db = (rd s)\<lparr>sessions := (sessions (rd s))(Fulfil w := Idle)\<rparr>"
  have "pay_inv E backed o0 (s\<lparr>rd := db\<rparr>)"
  proof (rule inv_codes [OF inv, of _ w])
    show "redeem_step False backed (rd s) db" unfolding db_def by (rule redeem_step.rest)
    have "served o0 (s\<lparr>rd := db\<rparr>) = served o0 s" "assigned (s\<lparr>rd := db\<rparr>) = assigned s" "sessions db (Fulfil w) = Idle"
      by (simp_all add: served_def credited_def assigned_def db_def)
    then have "worker_ok o0 (s\<lparr>rd := db\<rparr>) w (workers s w)"
      using inv_worker [OF inv, of w] unfolding worker_ok_def place_ok_def
      by (simp add: redeem_ok_def split: pay_pc.splits)
    then show "worker_ok o0 (s\<lparr>rd := db\<rparr>) w (workers s w)" .
  qed (auto simp: db_def elim: known_ids)
  then show ?thesis unfolding die_def db_def [symmetric] by (intro inv_move) (simp_all add: places, simp add: db_def)
qed

lemma inv_other_codes:
  assumes inv: "pay_inv E backed o0 s" and st: "redeem_step False backed (rd s) rd1"
    and same: "\<And>v. sessions rd1 (Fulfil v) = sessions (rd s) (Fulfil v)"
    and rows: "\<And>r. r \<in> set (rcodes rd1) \<Longrightarrow> RCode r = ORechargeCode (order s) \<Longrightarrow> RID r \<in> RID ` set (rcodes (rd s))"
  shows "pay_inv E backed o0 (s\<lparr>rd := rd1\<rparr>)"
proof (rule inv_codes [OF inv st, of 0])
  have "redeem_inv False backed (rd s)" using inv run_inv by (simp add: pay_inv_def codes_ok_def)
  then have "credited o0 (rd s) \<longrightarrow> credited o0 rd1" using credited_mono step_small [OF st] by blast
  then have "served o0 s \<longrightarrow> served o0 (s\<lparr>rd := rd1\<rparr>)" by (simp add: served_def assigned_def)
  then show "worker_ok o0 (s\<lparr>rd := rd1\<rparr>) 0 (workers s 0)"
    by (intro worker_frame [OF inv_worker [OF inv]]) (simp_all add: assigned_def same)
next
  fix r assume "r \<in> set (rcodes rd1)" "RCode r = ORechargeCode o0" "RID r \<notin> RID ` set (rcodes (rd s))"
  then show "accepted s \<noteq> [] \<and> RType r = RedeemTypeBalance \<and> RValue r = OAmount o0 \<and> MaxUses r = Some 1 \<and> RStatus r \<noteq> StatusUsed"
    using rows [of r] strip_fields(5) [OF order_strip [OF inv]] by simp
qed (rule same)

lemma inv_noted:
  assumes inv: "pay_inv E backed o0 s" and "\<not> order_note (order s) n"
  shows "pay_inv E backed o0 (s\<lparr>sub_notes := n\<rparr>)"
proof -
  let ?s = "s\<lparr>sub_notes := n\<rparr>"
  have a: "assigned ?s = assigned s" by (simp add: assigned_def)
  have "order_note o0 n = order_note (order s) n"
    unfolding order_note_def strip_fields(1) [OF order_strip [OF inv]] by (rule refl)
  moreover note k = worker_ok_cong [of ?s s o0, OF _ a]
  moreover have "touched o0 ?s = touched o0 s" by (simp add: touched_def a)
  ultimately show ?thesis using assms by (cases "accepted s") (simp_all add: pay_inv_def codes_ok_def order_ok_def audit_ok_def a)
qed

lemma inv_served: "pay_inv E backed o0 s \<Longrightarrow> was_completed (OStatus (order s)) \<longrightarrow> served o0 s"
  by (simp add: pay_inv_def order_ok_def)

lemma inv_refund:
  assumes inv: "pay_inv E backed o0 s" shows "pay_inv E backed o0 (refund_status now st s)"
proof -
  show ?thesis using inv inv_served [OF inv] unfolding refund_status_def by (auto intro!: inv_order)
qed

lemma inv_pay_step: "pay_step E backed s s' \<Longrightarrow> pay_inv E backed o0 s \<Longrightarrow> pay_inv E backed o0 s'"
proof (induction rule: pay_step.induct)
  case (notify s w n pk)
  then show ?case by (intro inv_confirmPayment)
next
  case (retry s w)
  then show ?case by (intro inv_retry)
next
  case (cancel fs now s)
  then show ?case unfolding cancelCore_def by (auto intro!: inv_audit inv_status simp: guarded_actions_def)
next
  case (trade_no s now o1 queryRef upstream)
  then show ?case unfolding persist_trade_no_def by (auto intro!: inv_order dest: inv_served)
next
  case (create_failed s now)
  then show ?case unfolding createOrder_failed_def by (intro inv_status) simp_all
next
  case (create_details s now t k)
  then show ?case unfolding createOrder_details_def by (intro inv_order) (auto dest: inv_served)
next
  case (codes s rd1)
  then show ?case by (intro inv_other_codes) blast+
qed (simp_all add: inv_worker_step inv_die inv_refund inv_audit inv_noted)

lemma inv_initial_pay:
  assumes "redeem_run False backed rd0" and "new_order backed o0" and "\<forall>w. sessions rd0 (Fulfil w) = Idle"
    and "\<forall>r \<in> set (rcodes rd0). RCode r \<noteq> ORechargeCode o0" and "\<not> order_note o0 n"
  shows "pay_inv E backed o0 (initial_pay o0 rd0 n)"
  using assms by (auto simp: pay_inv_def codes_ok_def order_ok_def audit_ok_def initial_pay_def assigned_def touched_def places
      code_ok_def new_order_def)

lemma run_pay_inv: "pay_run E backed o0 s \<Longrightarrow> pay_inv E backed o0 s"
proof (induction rule: pay_run.induct)
  case (start rd0 n)
  then show ?case by (intro inv_initial_pay) simp_all
next
  case (step s s')
  then show ?case by (intro inv_pay_step [OF step.hyps(2)])
qed

end
