(* ===== verification/Payments.thy ===== *)
theory Payments
  imports Payment_Runs
begin

text \<open>
  What the fulfilment of payments guarantees (\<^verbatim>\<open>backend/internal/service/payment_fulfillment.go\<close>): an undisturbed
  fulfilment ends with the order completed, and in every run an order is served at most once and only after a
  notification of the right amount.  Three runs show what the leases and the statuses do not exclude.
\<close>

section \<open>An undisturbed fulfilment\<close>

definition calm :: "pay_input \<Rightarrow> bool" where
  "calm a \<longleftrightarrow> p_db a = DbOk \<and> in_lock (p_redeem a) \<and> in_user (p_redeem a) = None \<and> p_tx a = Committed"

text \<open>The recharge code can still be created.\<close>

definition code_free :: "pay_order \<Rightarrow> redeem_state \<Rightarrow> bool" where
  "code_free o1 db \<longleftrightarrow> ORechargeCode o1 \<noteq> [] \<and> length (ORechargeCode o1) \<le> 32 \<and> TrimSpace (ORechargeCode o1) = ORechargeCode o1
     \<and> OAmount o1 \<noteq> 0 \<and> list_all (\<lambda>r. RCode r \<noteq> ORechargeCode o1 \<and> RID r \<noteq> next_code db) (rcodes db)"

definition order_payout :: "pay_order \<Rightarrow> redeem_state \<Rightarrow> payout" where
  "order_payout o1 db = \<lparr>PCodeID = next_code db, PCode = ORechargeCode o1, PUser = OUserID o1, PBenefits = [BalanceChange (OAmount o1)]\<rparr>"

definition order_rebate :: "pay_input \<Rightarrow> pay_order \<Rightarrow> rat list" where
  "order_rebate a o1 = (if affiliateRebateBaseAmount o1 \<le> 0 \<or> (case p_rebate a of None \<Rightarrow> True | Some x \<Rightarrow> x \<le> 0) then [] else [affiliateRebateBaseAmount o1])"

abbreviation work_steps :: "(string \<Rightarrow> bool) \<Rightarrow> pay_input \<Rightarrow> nat \<Rightarrow> nat \<Rightarrow> pay_state \<Rightarrow> pay_state" where
  "work_steps backed a w n s \<equiv> (worker_step backed a w ^^ n) s"

lemma run_steps: "pay_run E backed o0 s \<Longrightarrow> pay_run E backed o0 (work_steps backed a w n s)"
  by (induction n) (auto intro: pay_run.step pay_step.work)

lemma create_free:
  assumes "code_free o1 db"
  shows "\<exists>r. CreateCode now (payment_code o1) db = (Inr r, db\<lparr>rcodes := rcodes db @ [r], next_code := next_code db + 1\<rparr>)
    \<and> r = (payment_code o1)\<lparr>RID := next_code db, MaxUses := Some 1\<rparr>"
  using assms by (auto simp: code_free_def CreateCode_def Let_def payment_code_def repo_Create_def type_names status_names
      IsExpiredAt_def list_all_iff list_ex_iff)

text \<open>The lease.\<close>

definition can_fulfil :: "pay_order \<Rightarrow> bool" where
  "can_fulfil o1 \<longleftrightarrow> OOrderType o1 = OrderTypeBalance \<or> (OOrderType o1 = OrderTypeSubscription \<and> OGroupID o1 \<noteq> None \<and> ODays o1 \<noteq> None)"

lemma acquire_steps:
  assumes "calm a" and "workers s w = ExecuteFulfillment" and "can_fulfil (order s)" and "lease_matches (p_now a) (order s)"
  shows "work_steps backed a w 3 s = move w (Reloading (order s))
    (set_order (\<lambda>r. r\<lparr>OStatus := Recharging, OUpdatedAt := lease_time (p_now a)\<rparr>) s)"
proof -
  let ?b = "OOrderType (order s) = OrderTypeBalance"
  have c: "p_db a = DbOk" using assms(1) by (simp add: calm_def)
  have 1: "worker_step backed a w s = move w (Starting ?b) s"
    using assms(2,3) by (auto simp: worker_step_def executeFulfillment_def on_db_def c can_fulfil_def)
  have "start_check ?b (order s) = StartLease"
    using assms(3,4) by (auto simp: start_check_def psIsRefundStatus_def can_fulfil_def lease_matches_def)
  then have 2: "worker_step backed a w (move w (Starting ?b) s) = move w (Acquiring (order s)) s"
    by (simp add: worker_step_def startFulfillment_def on_db_def c) (simp add: move_def)
  have 3: "worker_step backed a w (move w (Acquiring (order s)) s)
      = move w (Reloading (order s)) (set_order (\<lambda>r. r\<lparr>OStatus := Recharging, OUpdatedAt := lease_time (p_now a)\<rparr>) s)"
    using assms(4) by (simp add: worker_step_def acquirePaymentFulfillmentLease_def on_db_def c) (simp add: move_def set_order_def)
  show ?thesis by (simp add: numeral_eq_Suc 1 2 3)
qed

lemma reload_step:
  assumes "calm a" and "workers s w = Reloading o1" and "OStatus (order s) = Recharging"
  shows "worker_step backed a w s = move w (if OOrderType o1 = OrderTypeBalance then LookingUp o1 (OUpdatedAt (order s))
    else CheckingAssignment o1 (OUpdatedAt (order s))) s"
  using assms by (simp add: calm_def worker_step_def lease_reload_def on_db_def)

lemma lease_steps:
  assumes "calm a" and "workers s w = ExecuteFulfillment" and "can_fulfil (order s)" and "lease_matches (p_now a) (order s)"
  shows "work_steps backed a w 4 s = move w (if OOrderType (order s) = OrderTypeBalance then LookingUp (order s) (lease_time (p_now a))
      else CheckingAssignment (order s) (lease_time (p_now a)))
    (set_order (\<lambda>r. r\<lparr>OStatus := Recharging, OUpdatedAt := lease_time (p_now a)\<rparr>) s)"
proof -
  have "work_steps backed a w 4 s = worker_step backed a w (work_steps backed a w 3 s)" by (simp add: numeral_eq_Suc)
  then show ?thesis unfolding acquire_steps [OF assms] using assms(1) by (simp add: reload_step) (simp add: move_def)
qed

lemma find_snoc: "find P xs = None \<Longrightarrow> find P (xs @ [r]) = (if P r then Some r else None)"
  by (induction xs) (auto split: if_splits)

text \<open>From the lookup to the credit.\<close>

lemma credit_steps:
  assumes "calm a" and "workers s w = LookingUp o1 v" and "code_free o1 (rd s)" and "sessions (rd s) (Fulfil w) = Idle"
    and "backed (ORechargeCode o1)"
  obtains db where "work_steps backed a w 5 s = move w (ClaimingRebate o1 v) (s\<lparr>rd := db\<rparr>)"
    "payouts db = payouts (rd s) @ [order_payout o1 (rd s)]" "sessions db = sessions (rd s)"
proof -
  have c: "p_db a = DbOk" and t: "p_tx a = Committed" using assms(1) by (simp_all add: calm_def)
  have none: "find (\<lambda>r. RCode r = ORechargeCode o1) (rcodes (rd s)) = None"
    using assms(3) by (auto simp: find_None_iff code_free_def list_all_iff)
  have 1: "worker_step backed a w s = move w (CreatingCode o1 v) s"
    using assms(2) by (simp add: worker_step_def doBalance_def on_db_def c service_GetByCode_def repo_GetByCode_def none
        resolveRedeemAction_def Is_def)
  obtain r where r: "CreateCode (p_now a) (payment_code o1) (rd s) = (Inr r, (rd s)\<lparr>rcodes := rcodes (rd s) @ [r], next_code := next_code (rd s) + 1\<rparr>)"
    "r = (payment_code o1)\<lparr>RID := next_code (rd s), MaxUses := Some 1\<rparr>"
    using create_free [OF assms(3)] by blast
  let ?db = "(rd s)\<lparr>rcodes := rcodes (rd s) @ [r], next_code := next_code (rd s) + 1\<rparr>"
  have 2: "worker_step backed a w (move w (CreatingCode o1 v) s) = move w (Redeeming o1 v) (s\<lparr>rd := ?db\<rparr>)"
    by (simp add: worker_step_def createPaymentCode_def on_db_def c r(1)) (simp add: move_def)
  have fields: "RCode r = ORechargeCode o1" "RID r = next_code (rd s)" "RType r = RedeemTypeBalance" "RValue r = OAmount o1"
    "RStatus r = StatusUnused" "MaxUses r = Some 1" "RExpiresAt r = None"
    by (simp_all add: r(2) payment_code_def)
  have g: "repo_GetByCode (ORechargeCode o1) ?db = Inr r" using none fields by (simp add: repo_GetByCode_def find_snoc)
  have o: "redeem_open (p_redeem a) (Fulfil w) (OUserID o1) (ORechargeCode o1) ?db = ?db\<lparr>sessions := (sessions ?db)(Fulfil w := Checked (OUserID o1) r)\<rparr>"
    by (rule open_usable [OF _ g]) (use assms(1) fields in \<open>simp_all add: calm_def undisturbed_def redeem_refusal_def IsExpiredAt_def
        CanUse_def status_names type_names\<close>)
  let ?db1 = "?db\<lparr>sessions := (sessions (rd s))(Fulfil w := Checked (OUserID o1) r)\<rparr>"
  have 3: "worker_step backed a w (move w (Redeeming o1 v) (s\<lparr>rd := ?db\<rparr>)) = move w (AwaitingRedeem o1 v) (s\<lparr>rd := ?db1\<rparr>)"
    using o by (simp add: worker_step_def redeem_start_def) (simp add: move_def)
  have b: "redeem_benefits backed r = Inr [BalanceChange (OAmount o1)]"
    using assms(5) fields by (simp add: redeem_benefits_def)
  obtain db2 where k: "redeem_close backed Committed (Fulfil w) (OUserID o1) r ?db1 = db2"
    "payouts db2 = payouts (rd s) @ [order_payout o1 (rd s)]"
    "sessions db2 = (sessions (rd s))(Fulfil w := Answered (OUserID o1) (ORechargeCode o1) (Inr r))"
    using close_single [of r ?db1 backed "[BalanceChange (OAmount o1)]" "Fulfil w" "OUserID o1"] fields b
    by (simp add: answer_def order_payout_def)
  have 4: "worker_step backed a w (move w (AwaitingRedeem o1 v) (s\<lparr>rd := ?db1\<rparr>)) = move w (AwaitingRedeem o1 v) (s\<lparr>rd := db2\<rparr>)"
    using k by (simp add: worker_step_def redeem_continue_def Let_def t) (simp add: move_def)
  let ?db3 = "db2\<lparr>sessions := (sessions db2)(Fulfil w := Idle)\<rparr>"
  have 5: "worker_step backed a w (move w (AwaitingRedeem o1 v) (s\<lparr>rd := db2\<rparr>)) = move w (ClaimingRebate o1 v) (s\<lparr>rd := ?db3\<rparr>)"
    using k by (simp add: worker_step_def redeem_continue_def Let_def) (simp add: move_def)
  have "work_steps backed a w 5 s = move w (ClaimingRebate o1 v) (s\<lparr>rd := ?db3\<rparr>)" by (simp add: numeral_eq_Suc 1 2 3 4 5)
  moreover have "sessions ?db3 = sessions (rd s)" using k(3) assms(4) by (auto simp: fun_eq_iff)
  ultimately show thesis using k(2) that [of ?db3] by simp
qed

text \<open>From the credit to the end.\<close>

lemma completing_steps:
  assumes "calm a" and "workers s w = Completing o1 v" and "holds_lease v (order s)"
  shows "work_steps backed a w 2 s
    = finish w (Inr ()) (writeAuditLog (success_action o1) (set_order (\<lambda>r. r\<lparr>OStatus := Completed, OUpdatedAt := p_now a\<rparr>) s))"
proof -
  let ?s = "set_order (\<lambda>r. r\<lparr>OStatus := Completed, OUpdatedAt := p_now a\<rparr>) s"
  have c: "p_db a = DbOk" using assms(1) by (simp add: calm_def)
  have 1: "worker_step backed a w s = move w (Auditing o1) ?s"
    using assms(2,3) by (simp add: worker_step_def markCompleted_def on_db_def c)
  have 2: "worker_step backed a w (move w (Auditing o1) ?s) = finish w (Inr ()) (writeAuditLog (success_action o1) ?s)"
    by (simp add: worker_step_def audit_success_def) (simp add: move_def finish_def writeAuditLog_def)
  show ?thesis by (simp add: numeral_eq_Suc 1 2)
qed

lemma off_step: "worker_step backed a w (finish w r s) = finish w r s"
  by (simp add: worker_step_def)

lemma rebate_steps:
  assumes "calm a" and "workers s w = ClaimingRebate o1 v"
    and "''AFFILIATE_REBATE_APPLIED'' \<notin> set (audits s)" "''AFFILIATE_REBATE_SKIPPED'' \<notin> set (audits s)"
  obtains t k where "work_steps backed a w k s = t" "k = 1 \<or> k = 2" "workers t w = Completing o1 v" "order t = order s" "rd t = rd s"
    "rebates t = rebates s @ order_rebate a o1" "accepted t = accepted s"
proof -
  have c: "p_db a = DbOk" using assms(1) by (simp add: calm_def)
  note that1 = that [of 1] and that2 = that [of 2]
  show thesis
  proof (cases "affiliateRebateBaseAmount o1 \<le> 0 \<or> p_rebate a = None")
    case True
    then have "worker_step backed a w s = move w (Completing o1 v) s" using assms(2) by (simp add: worker_step_def rebate_claim_def)
    moreover have "order_rebate a o1 = []" using True by (auto simp: order_rebate_def)
    ultimately show thesis using that1 by simp
  next
    case False
    then obtain x where x: "p_rebate a = Some x" and p: "\<not> affiliateRebateBaseAmount o1 \<le> 0" by blast
    let ?b = "affiliateRebateBaseAmount o1"
    have 1: "worker_step backed a w s = move w (Accruing o1 v ?b) s"
      using assms(2-4) x p by (simp add: worker_step_def rebate_claim_def on_db_def c)
    show thesis
    proof (cases "x \<le> 0")
      case True
      have "worker_step backed a w (move w (Accruing o1 v ?b) s)
          = move w (Completing o1 v) (move w (Accruing o1 v ?b) (s\<lparr>audits := audits s @ [''AFFILIATE_REBATE_SKIPPED'']\<rparr>))"
        using assms(3,4) x True by (simp add: worker_step_def rebate_commit_def Let_def on_db_def c) (simp add: move_def)
      moreover have "order_rebate a o1 = []" using True x by (simp add: order_rebate_def)
      ultimately show thesis using that2 by (simp add: numeral_eq_Suc 1)
    next
      case False
      have "worker_step backed a w (move w (Accruing o1 v ?b) s)
          = move w (Completing o1 v) (move w (Accruing o1 v ?b) (s\<lparr>audits := audits s @ [''AFFILIATE_REBATE_APPLIED''], rebates := rebates s @ [?b]\<rparr>))"
        using assms(3,4) x False by (simp add: worker_step_def rebate_commit_def Let_def on_db_def c) (simp add: move_def)
      moreover have "order_rebate a o1 = [?b]" using False x p by (simp add: order_rebate_def)
      ultimately show thesis using that2 by (simp add: numeral_eq_Suc 1)
    qed
  qed
qed

lemma finish_steps:
  assumes "calm a" and "workers s w = ClaimingRebate o1 v" and "holds_lease v (order s)"
    and "''AFFILIATE_REBATE_APPLIED'' \<notin> set (audits s)" "''AFFILIATE_REBATE_SKIPPED'' \<notin> set (audits s)"
  shows "order (work_steps backed a w 4 s) = (order s)\<lparr>OStatus := Completed, OUpdatedAt := p_now a\<rparr>
    \<and> rd (work_steps backed a w 4 s) = rd s \<and> rebates (work_steps backed a w 4 s) = rebates s @ order_rebate a o1
    \<and> results (work_steps backed a w 4 s) w = Some (Inr ())"
proof -
  obtain t k where t: "work_steps backed a w k s = t" "k = 1 \<or> k = 2" "workers t w = Completing o1 v" "order t = order s" "rd t = rd s"
    "rebates t = rebates s @ order_rebate a o1" by (rule rebate_steps [OF assms(1,2,4,5)])
  let ?u = "finish w (Inr ()) (writeAuditLog (success_action o1) (set_order (\<lambda>r. r\<lparr>OStatus := Completed, OUpdatedAt := p_now a\<rparr>) t))"
  have u: "work_steps backed a w 2 t = ?u" using completing_steps [OF assms(1) t(3)] assms(3) t(4) by simp
  have "work_steps backed a w 4 s = ?u"
    using t(2)
  proof
    assume "k = 2"
    moreover have "work_steps backed a w (2 + 2) s = work_steps backed a w 2 (work_steps backed a w 2 s)" by (simp only: funpow_add comp_apply)
    ultimately show ?thesis using t(1) u by simp
  next
    assume "k = 1"
    moreover have "work_steps backed a w (1 + (2 + 1)) s = work_steps backed a w 1 (work_steps backed a w 2 (work_steps backed a w 1 s))" by (simp only: funpow_add comp_apply)
    ultimately show ?thesis using t(1) u by (simp add: off_step)
  qed
  then show ?thesis using t by (simp add: finish_def)
qed

text \<open>All together.\<close>

lemma fulfil_steps:
  assumes "calm a" and "workers s w = ExecuteFulfillment" and "OOrderType (order s) = OrderTypeBalance"
    and "OStatus (order s) = Paid \<or> OStatus (order s) = Failed" and "code_free (order s) (rd s)"
    and "sessions (rd s) (Fulfil w) = Idle" and "backed (ORechargeCode (order s))"
    and "''AFFILIATE_REBATE_APPLIED'' \<notin> set (audits s)" "''AFFILIATE_REBATE_SKIPPED'' \<notin> set (audits s)"
  shows "order (work_steps backed a w 13 s) = (order s)\<lparr>OStatus := Completed, OUpdatedAt := p_now a\<rparr>
    \<and> payouts (rd (work_steps backed a w 13 s)) = payouts (rd s) @ [order_payout (order s) (rd s)]
    \<and> rebates (work_steps backed a w 13 s) = rebates s @ order_rebate a (order s)
    \<and> results (work_steps backed a w 13 s) w = Some (Inr ())"
proof -
  let ?v = "lease_time (p_now a)" and ?o = "order s"
  let ?s1 = "work_steps backed a w 4 s"
  have s1: "?s1 = move w (LookingUp ?o ?v) (set_order (\<lambda>r. r\<lparr>OStatus := Recharging, OUpdatedAt := ?v\<rparr>) s)"
    using lease_steps [OF assms(1,2)] assms(3,4) by (auto simp: can_fulfil_def lease_matches_def)
  have k1: "workers ?s1 w = LookingUp ?o ?v" "rd ?s1 = rd s" "order ?s1 = (order s)\<lparr>OStatus := Recharging, OUpdatedAt := ?v\<rparr>"
    "audits ?s1 = audits s" "rebates ?s1 = rebates s" by (simp_all add: s1)
  obtain db where s2: "work_steps backed a w 5 ?s1 = move w (ClaimingRebate ?o ?v) (?s1\<lparr>rd := db\<rparr>)"
    and db: "payouts db = payouts (rd s) @ [order_payout ?o (rd s)]"
    using credit_steps [OF assms(1) k1(1), of backed] assms(5-7) k1(2) by metis
  let ?s2 = "work_steps backed a w 5 ?s1"
  have k2: "workers ?s2 w = ClaimingRebate ?o ?v" "order ?s2 = order ?s1" "rd ?s2 = db" "audits ?s2 = audits s" "rebates ?s2 = rebates s"
    unfolding s2 by (simp_all add: k1)
  have h: "holds_lease ?v (order ?s2)" by (simp add: k1 k2 holds_lease_def)
  have "work_steps backed a w (4 + (5 + 4)) s = work_steps backed a w 4 (work_steps backed a w 5 (work_steps backed a w 4 s))"
    by (metis comp_apply funpow_add add.commute)
  then have "work_steps backed a w 13 s = work_steps backed a w 4 ?s2" by simp
  then show ?thesis using finish_steps [OF assms(1) k2(1) h] assms(8,9) k1 k2 db by simp
qed

lemma notification_steps:
  assumes "confirmPayment_check E (order s) n pk = Inr ()" and "toPaid_matches (p_now a) (order s)"
    and "OOrderType (order s) = OrderTypeBalance" and "calm a" and "code_free (order s) (rd s)" and "backed (ORechargeCode (order s))"
    and "sessions (rd s) (Fulfil w) = Idle"
    and "''AFFILIATE_REBATE_APPLIED'' \<notin> set (audits s)" "''AFFILIATE_REBATE_SKIPPED'' \<notin> set (audits s)"
  shows "let s' = (worker_step backed a w ^^ 14) (confirmPayment E w n pk s); b = paymentOrderAmountWithoutBonus (order s) in
    OStatus (order s') = Completed \<and> results s' w = Some (Inr ()) \<and> NAmount n \<in> {Fin paid |paid. OPayAmount (order s') = round2 paid}
    \<and> payouts (rd s') = payouts (rd s) @ [\<lparr>PCodeID = next_code (rd s), PCode = ORechargeCode (order s), PUser = OUserID (order s),
        PBenefits = [BalanceChange (OAmount (order s))]\<rparr>]
    \<and> rebates s' = rebates s @ (case p_rebate a of None \<Rightarrow> [] | Some x \<Rightarrow> if 0 < x \<and> 0 < b \<and> 0 < OPayAmount (order s') then [b] else [])"
proof -
  obtain p where p: "NAmount n = Fin p" "0 < p" by (rule confirmed_amount [OF assms(1)])
  have c: "p_db a = DbOk" using assms(4) by (simp add: calm_def)
  let ?s0 = "confirmPayment E w n pk s" and ?o = "order s"
  let ?s1 = "worker_step backed a w ?s0"
  have k0: "workers ?s0 w = ToPaid (NTradeNo n) p ?o" "order ?s0 = ?o" "rd ?s0 = rd s" "set (audits ?s0) = set (audits s)" "rebates ?s0 = rebates s"
    by (simp_all add: confirmPayment_def assms(1) p)
  let ?o1 = "?o\<lparr>OStatus := Paid, OPayAmount := round2 p, OTradeNo := NTradeNo n, OPaidAt := Some (p_now a), OUpdatedAt := p_now a\<rparr>"
  have k1: "workers ?s1 w = ExecuteFulfillment" "order ?s1 = ?o1" "rd ?s1 = rd s" "rebates ?s1 = rebates s"
    "''AFFILIATE_REBATE_APPLIED'' \<notin> set (audits ?s1)" "''AFFILIATE_REBATE_SKIPPED'' \<notin> set (audits ?s1)"
    using assms(2,8,9) by (simp_all add: worker_step_def k0 toPaid_def on_db_def c)
  have free: "code_free ?o1 (rd s)" using assms(5) by (simp add: code_free_def)
  have "(worker_step backed a w ^^ 14) ?s0 = work_steps backed a w 13 ?s1"
    by (simp only: numeral_eq_Suc funpow_Suc_right comp_apply pred_numeral_simps BitM.simps)
  moreover have "order_rebate a ?o1 = (case p_rebate a of None \<Rightarrow> [] | Some x \<Rightarrow>
      if 0 < x \<and> 0 < paymentOrderAmountWithoutBonus ?o \<and> 0 < round2 p then [paymentOrderAmountWithoutBonus ?o] else [])"
    using assms(3) p by (auto simp: order_rebate_def affiliateRebateBaseAmount_def paymentOrderAmountWithoutBonus_def split: option.splits)
  ultimately show ?thesis
    using fulfil_steps [OF assms(4) k1(1), of backed] assms(3,6,7) free k1
    by (cases "p_rebate a") (simp_all add: Let_def order_payout_def p)
qed

section \<open>Once, and only for a payment\<close>

lemma inv_codes_of:
  assumes "pay_inv E backed o0 s" shows "redeem_inv False backed (rd s)" "code_ok o0 (rd s)"
  using assms run_inv by (auto simp: pay_inv_def codes_ok_def)

lemma run_new: "pay_run E backed o0 s \<Longrightarrow> new_order backed o0"
  by (induction rule: pay_run.induct)

text \<open>A payout of the recharge code, with its row.\<close>

lemma order_payouts:
  assumes inv: "pay_inv E backed o0 s" and p: "p \<in> set (payouts (rd s))" "PCode p = ORechargeCode o0"
  obtains r where "r \<in> set (rcodes (rd s))" "RID r = PCodeID p" "RCode r = ORechargeCode o0" "RValue r = OAmount o0"
    "RType r = RedeemTypeBalance" "filter (\<lambda>q. PCode q = ORechargeCode o0) (payouts (rd s)) = [p]" "redeem_benefits backed r = Inr (PBenefits p)"
proof -
  note db = inv_codes_of [OF inv]
  have row: "\<exists>r \<in> set (rcodes (rd s)). RID r = PCodeID q \<and> RCode r = PCode q" if "q \<in> set (payouts (rd s))" for q
    using payout_row [OF db(1) that] by blast
  obtain r where r: "r \<in> set (rcodes (rd s))" "RID r = PCodeID p" "RCode r = ORechargeCode o0"
    and more: "MaxUses r = Some 1 \<longrightarrow> filter (\<lambda>q. PCodeID q = RID r) (payouts (rd s)) = [p]"
      "RType r = RedeemTypeBalance \<longrightarrow> redeem_benefits backed r = Inr (PBenefits p)"
    using payout_row [OF db(1) p(1)] p(2) by auto
  have c: "RType r = RedeemTypeBalance" "RValue r = OAmount o0" "MaxUses r = Some 1" using db(2) r(1,3) by (simp_all add: code_ok_def)
  have f: "filter (\<lambda>q. PCodeID q = RID r) (payouts (rd s)) = [p]" using more(1) c(3) by blast
  have uniq: "y = r" if "y \<in> set (rcodes (rd s))" "RCode y = RCode r" for y
    using db(1) that r(1) unfolding redeem_inv_def rows_ok_def by (auto simp: distinct_map inj_on_def)
  have "PCode q = ORechargeCode o0 \<longleftrightarrow> PCodeID q = RID r" if q: "q \<in> set (payouts (rd s))" for q
  proof
    assume "PCode q = ORechargeCode o0"
    with row [OF q] uniq r(3) show "PCodeID q = RID r" by auto
  next
    assume "PCodeID q = RID r"
    then have "q \<in> set (filter (\<lambda>q. PCodeID q = RID r) (payouts (rd s)))" using q by simp
    then show "PCode q = ORechargeCode o0" unfolding f using p(2) by simp
  qed
  then have "filter (\<lambda>q. PCode q = ORechargeCode o0) (payouts (rd s)) = filter (\<lambda>q. PCodeID q = RID r) (payouts (rd s))"
    by (rule filter_cong [OF refl])
  then have "filter (\<lambda>q. PCode q = ORechargeCode o0) (payouts (rd s)) = [p]" using f by simp
  then show thesis using that r c more(2) by blast
qed

text \<open>
  C14. A notification of a balance order that passes the checks of \<^verbatim>\<open>confirmPayment\<close>, while the order is pending,
  cancelled or expired for at most five minutes, completes it, when nothing fails and nothing else happens:
  after fourteen statements the order is completed with the amount that was paid, the call has succeeded, the recharge code has been created
  and has paid the amount of the order to its user, and the inviter's rebate is accrued on the amount without
  the bonus.
\<close>

theorem notified_order_completes:
  assumes "confirmPayment_check E (order s) n pk = Inr ()" and "toPaid_matches (p_now a) (order s)"
    and "OOrderType (order s) = OrderTypeBalance" and "calm a" and "code_free (order s) (rd s)" and "backed (ORechargeCode (order s))"
    and "sessions (rd s) (Fulfil w) = Idle"
    and "''AFFILIATE_REBATE_APPLIED'' \<notin> set (audits s)" "''AFFILIATE_REBATE_SKIPPED'' \<notin> set (audits s)"
  shows "let s' = (worker_step backed a w ^^ 14) (confirmPayment E w n pk s); b = paymentOrderAmountWithoutBonus (order s) in
    OStatus (order s') = Completed \<and> results s' w = Some (Inr ()) \<and> NAmount n \<in> {Fin paid |paid. OPayAmount (order s') = round2 paid}
    \<and> payouts (rd s') = payouts (rd s) @ [\<lparr>PCodeID = next_code (rd s), PCode = ORechargeCode (order s), PUser = OUserID (order s),
        PBenefits = [BalanceChange (OAmount (order s))]\<rparr>]
    \<and> rebates s' = rebates s @ (case p_rebate a of None \<Rightarrow> [] | Some x \<Rightarrow> if 0 < x \<and> 0 < b \<and> 0 < OPayAmount (order s') then [b] else [])"
  using assms by (rule notification_steps)

text \<open>
  C2. A balance order is credited at most once, in every interleaving of notifications, retries, workers with
  expired leases, crashes, cancellations, refunds and calls on redeem codes other than \<^verbatim>\<open>ExpireRedeemCode\<close>: at most
  one committed payout belongs to its recharge code, which grants the amount of the order and nothing else, and as soon as the order is
  completed, or a rebate is accrued for it, that payout exists and went to the user of the order.  The rebate is
  accrued at most once, on the amount without the bonus, and no subscription is granted.
\<close>

theorem balance_credited_once:
  assumes "pay_run E backed o0 s" and "OOrderType o0 = OrderTypeBalance"
  shows "(case filter (\<lambda>p. PCode p = ORechargeCode o0) (payouts (rd s)) of
       [] \<Rightarrow> \<not> was_completed (OStatus (order s)) \<and> rebates s = []
     | [p] \<Rightarrow> PBenefits p = [BalanceChange (OAmount o0)]
         \<and> (was_completed (OStatus (order s)) \<or> rebates s \<noteq> [] \<longrightarrow> PUser p = OUserID o0)
     | _ \<Rightarrow> False)
   \<and> (rebates s = [] \<or> rebates s = [paymentOrderAmountWithoutBonus o0]) \<and> granted s = []"
proof -
  note inv = run_pay_inv [OF assms(1)]
  have au: "audit_ok o0 s" using inv by (simp add: pay_inv_def)
  then have g: "granted s = []" and re: "rebates s = [] \<or> rebates s = [paymentOrderAmountWithoutBonus o0] \<and> credited o0 (rd s)"
    using assms(2) by (auto simp: audit_ok_def split: if_splits)
  have due: "credited o0 (rd s)" if "was_completed (OStatus (order s)) \<or> rebates s \<noteq> []"
    using that re inv_served [OF inv] assms(2) by (auto simp: served_def)
  have "case filter (\<lambda>p. PCode p = ORechargeCode o0) (payouts (rd s)) of
       [] \<Rightarrow> \<not> was_completed (OStatus (order s)) \<and> rebates s = []
     | [p] \<Rightarrow> PBenefits p = [BalanceChange (OAmount o0)]
         \<and> (was_completed (OStatus (order s)) \<or> rebates s \<noteq> [] \<longrightarrow> PUser p = OUserID o0)
     | _ \<Rightarrow> False"
  proof (cases "\<exists>p \<in> set (payouts (rd s)). PCode p = ORechargeCode o0")
    case False
    then have "filter (\<lambda>p. PCode p = ORechargeCode o0) (payouts (rd s)) = []" by (simp add: filter_empty_conv)
    moreover have "\<not> credited o0 (rd s)" using False by (auto simp: credited_def)
    ultimately show ?thesis using due by auto
  next
    case True
    then obtain p where p: "p \<in> set (payouts (rd s))" "PCode p = ORechargeCode o0" by blast
    obtain r where r: "RValue r = OAmount o0" "RType r = RedeemTypeBalance" "RCode r = ORechargeCode o0"
      "redeem_benefits backed r = Inr (PBenefits p)" and f: "filter (\<lambda>q. PCode q = ORechargeCode o0) (payouts (rd s)) = [p]"
      by (rule order_payouts [OF inv p])
    have "PBenefits p = [BalanceChange (OAmount o0)]" using r run_new [OF assms(1)] by (simp add: redeem_benefits_def new_order_def)
    moreover have "PUser p = OUserID o0" if "credited o0 (rd s)"
    proof -
      from that obtain q where "q \<in> set (payouts (rd s))" "PCode q = ORechargeCode o0" "PUser q = OUserID o0" by (auto simp: credited_def)
      then have "q \<in> set (filter (\<lambda>q. PCode q = ORechargeCode o0) (payouts (rd s)))" by simp
      then show ?thesis using f \<open>PUser q = OUserID o0\<close> by simp
    qed
    ultimately show ?thesis using due unfolding f by simp
  qed
  then show ?thesis using g re by blast
qed

text \<open>
  C12. The subscription of an order is granted at most once, to the user, for the group and the days of the order,
  exactly when its entry in the audit log is written, and an order is not completed without it.
\<close>

theorem subscription_granted_once:
  assumes "pay_run E backed o0 s" and "OOrderType o0 = OrderTypeSubscription"
  shows "granted s = (if ''SUBSCRIPTION_ASSIGNED'' \<in> set (audits s) then [(OUserID o0, the (OGroupID o0), the (ODays o0))] else [])
    \<and> (was_completed (OStatus (order s)) \<longrightarrow> granted s \<noteq> []) \<and> rebates s = []"
proof -
  note inv = run_pay_inv [OF assms(1)]
  have au: "audit_ok o0 s" using inv by (simp add: pay_inv_def)
  then have g: "granted s = (if assigned s then [(OUserID o0, the (OGroupID o0), the (ODays o0))] else [])" and "rebates s = []"
    using assms(2) by (auto simp: audit_ok_def split: if_splits)
  moreover have "was_completed (OStatus (order s)) \<longrightarrow> assigned s" using inv_served [OF inv] assms(2) by (simp add: served_def)
  ultimately show ?thesis by (simp add: assigned_def)
qed

text \<open>
  C13. Nothing is done for an order without a payment: before a notification has passed the checks, the recharge
  code has paid nothing, no subscription is granted, no rebate is accrued, the order is neither paid nor
  completed and no worker is at work; and the first notification that passed reported a positive amount that
  differs from the amount due by at most a hundredth of the currency's unit.
\<close>

theorem nothing_without_payment:
  assumes "pay_run E backed o0 s"
  shows "case accepted s of
      [] \<Rightarrow> filter (\<lambda>p. PCode p = ORechargeCode o0) (payouts (rd s)) = [] \<and> granted s = [] \<and> rebates s = []
        \<and> OPaidAt (order s) = None \<and> \<not> was_completed (OStatus (order s)) \<and> workers s = (\<lambda>w. Off)
    | paid # _ \<Rightarrow> 0 < paid \<and> \<bar>paid - OPayAmount o0\<bar> \<le> 1 / 100"
proof (cases "accepted s")
  case (Cons a as)
  have "close_to_due E o0 a" using run_pay_inv [OF assms] Cons by (simp add: pay_inv_def order_ok_def)
  then show ?thesis using Cons tolerance_bound [of "env_upper E" "PaymentOrderCurrency (env_upper E) o0"] by (simp add: close_to_due_def)
next
  case Nil
  note inv = run_pay_inv [OF assms]
  have t: "\<not> touched o0 s" and au: "audit_ok o0 s" using inv Nil by (simp_all add: pay_inv_def order_ok_def)
  have none: "PCode p \<noteq> ORechargeCode o0" if "p \<in> set (payouts (rd s))" for p
    using order_payouts [OF inv that] t by (auto simp: touched_def)
  moreover have "workers s w = Off" for w using inv_worker [OF inv, of w] Nil by (simp add: worker_ok_def)
  moreover have "\<not> served o0 s" using none t by (auto simp: served_def credited_def touched_def)
  ultimately show ?thesis using Nil t au inv_served [OF inv]
    by (auto simp: touched_def audit_ok_def filter_empty_conv fun_eq_iff split: if_splits)
qed

section \<open>Concrete orders\<close>

definition sample_env :: pay_env where
  "sample_env = \<lparr>env_fold = (\<lambda>x y. x = y), env_upper = (\<lambda>x. x), env_registry = (\<lambda>x. []), env_instance = (\<lambda>x. [])\<rparr>"

definition sample_order :: "string \<Rightarrow> pay_order" where
  "sample_order ty = \<lparr>OrderID = 1, OUserID = 7, OAmount = 12, OPayAmount = 10, OBonusAmount = 2, ORechargeCode = ''pay1'',
     OOutTradeNo = ''sub2_1'', OPaymentType = ''alipay'', OTradeNo = [], OOrderType = ty, OSource = ''provider'', OCurrency = ''CNY'',
     OProviderKey = None, OSnapshot = None, OGroupID = Some 3, ODays = Some 30, OStatus = Pending, OPaidAt = None, OUpdatedAt = 0\<rparr>"

definition sample_note :: notification where
  "sample_note = \<lparr>NTradeNo = ''t1'', NAmount = Fin 10, NMetadata = []\<rparr>"

definition sample_input :: "go_time \<Rightarrow> pay_input" where
  "sample_input t = \<lparr>p_now = t, p_db = DbOk,
     p_redeem = \<lparr>in_cache = True, in_lock = True, in_now = t, in_now1 = t, in_user = None\<rparr>,
     p_tx = Committed, p_group_ok = True, p_rebate = Some 1\<rparr>"

abbreviation all_backed :: "string \<Rightarrow> bool" where "all_backed \<equiv> \<lambda>c. True"

abbreviation sample_start :: "string \<Rightarrow> pay_state" where
  "sample_start ty \<equiv> initial_pay (sample_order ty) initial_redeem None"

lemma sample_fields [simp]:
  "OrderID (sample_order ty) = 1" "OUserID (sample_order ty) = 7" "OAmount (sample_order ty) = 12" "ORechargeCode (sample_order ty) = ''pay1''"
  "OOrderType (sample_order ty) = ty" "OStatus (sample_order ty) = Pending" "OUpdatedAt (sample_order ty) = 0" "OPaidAt (sample_order ty) = None"
  "OGroupID (sample_order ty) = Some 3" "ODays (sample_order ty) = Some 30" "OTradeNo (sample_order ty) = []"
  by (simp_all add: sample_order_def)

lemma sample_note_fields [simp]: "NAmount sample_note = Fin 10" "NTradeNo sample_note = ''t1''"
  by (simp_all add: sample_note_def)

lemma sample_round [simp]: "round2 10 = 10"
  by (simp add: round2_def floor_eq_iff)

lemma sample_calm: "calm (sample_input t)" "p_now (sample_input t) = t" "p_db (sample_input t) = DbOk" "p_rebate (sample_input t) = Some 1"
  "p_group_ok (sample_input t)"
  by (simp_all add: calm_def sample_input_def)

lemma start_fields [simp]:
  "order (initial_pay o1 db n) = o1" "rd (initial_pay o1 db n) = db" "audits (initial_pay o1 db n) = []" "granted (initial_pay o1 db n) = []"
  "rebates (initial_pay o1 db n) = []" "sub_notes (initial_pay o1 db n) = n" "workers (initial_pay o1 db n) = (\<lambda>w. Off)"
  "accepted (initial_pay o1 db n) = []"
  by (simp_all add: initial_pay_def)

lemma sample_trim: "TrimSpace ''pay1'' = ''pay1''"
  by (rule plain_TrimSpace) (simp add: plain_name_def is_graphic_def)

lemma sample_run: "pay_run sample_env all_backed (sample_order ty) (sample_start ty)"
  by (rule pay_run.start) (simp_all add: new_order_def sample_trim redeem_run.start order_note_def)

text \<open>The check passes for the sample order in any status.\<close>

lemma sample_check:
  "confirmPayment_check sample_env ((sample_order ty)\<lparr>OStatus := st, OPayAmount := 10, OTradeNo := tn, OPaidAt := pa, OUpdatedAt := t\<rparr>) sample_note ''alipay'' = Inr ()"
proof -
  have "CurrencyMinorUnit (\<lambda>x. x) ''CNY'' = 2" by code_simp
  then have c: "paymentAmountToleranceForCurrency (\<lambda>x. x) ''CNY'' = 1 / 100"
    by (simp add: paymentAmountToleranceForCurrency_def amountToleranceCNY_def)
  have p: "plain_name ''alipay''" "plain_name []" by (simp_all add: plain_name_def is_graphic_def)
  have k: "TrimSpace ''alipay'' = ''alipay''" "TrimSpace [] = []" using p by (simp_all add: plain_TrimSpace)
  have "EqualFold (\<lambda>x y. x = y) ''alipay'' ''alipay''" using p by (simp add: plain_EqualFold)
  then show ?thesis
    by (simp add: confirmPayment_check_def Let_def expectedNotificationProviderKeyForOrder_def expectedNotificationProviderKey_def
        validateProviderSnapshotMetadata_def isValidProviderAmount_def within_tolerance_def PaymentOrderCurrency_def
        sample_env_def sample_order_def sample_note_def OrderSourceRedeem_def psStringValue_def k c)
qed

lemma sample_check_start: "confirmPayment_check sample_env (sample_order ty) sample_note ''alipay'' = Inr ()"
  using sample_check [where ty = ty and st = Pending and tn = "[]" and pa = None and t = 0] by (simp add: sample_order_def)

text \<open>A notification of the sample order, and what is left of it after some statements.\<close>

definition sample_notified :: "string \<Rightarrow> pay_state" where
  "sample_notified ty = confirmPayment sample_env 2 sample_note ''alipay'' (sample_start ty)"

definition sample_final :: pay_state where
  "sample_final = work_steps all_backed (sample_input 0) 2 14 (sample_notified OrderTypeBalance)"

lemma sample_notified_run: "pay_run sample_env all_backed (sample_order ty) (sample_notified ty)"
  unfolding sample_notified_def by (rule pay_run.step [OF sample_run pay_step.notify]) simp

lemma sample_free: "code_free (sample_order ty) initial_redeem"
  by (simp add: code_free_def sample_trim)

lemma sample_rebate: "paymentOrderAmountWithoutBonus (sample_order OrderTypeBalance) = 10"
  by (simp add: paymentOrderAmountWithoutBonus_def round2_def sample_order_def Let_def floor_eq_iff)

lemmas sample_premises = sample_check_start sample_calm sample_free

theorem notified_order_completes_witness:
  "OStatus (order sample_final) = Completed \<and> results sample_final 2 = Some (Inr ()) \<and> rebates sample_final = [10]
   \<and> map (\<lambda>p. (PUser p, PBenefits p)) (payouts (rd sample_final)) = [(7, [BalanceChange 12])]"
  using notified_order_completes [of sample_env "sample_start OrderTypeBalance" sample_note "''alipay''" "sample_input 0" all_backed 2]
  unfolding sample_final_def sample_notified_def
  by (simp add: sample_premises toPaid_matches_def sample_rebate Let_def)

lemma sample_final_facts:
  "pay_run sample_env all_backed (sample_order OrderTypeBalance) sample_final"
  "OStatus (order sample_final) = Completed" "map PUser (payouts (rd sample_final)) = [7]" "map PCode (payouts (rd sample_final)) = [''pay1'']"
proof -
  show "pay_run sample_env all_backed (sample_order OrderTypeBalance) sample_final"
    unfolding sample_final_def by (rule run_steps [OF sample_notified_run])
  note k = notification_steps [of sample_env "sample_start OrderTypeBalance" sample_note "''alipay''" "sample_input 0" all_backed 2]
  show "OStatus (order sample_final) = Completed" "map PUser (payouts (rd sample_final)) = [7]" "map PCode (payouts (rd sample_final)) = [''pay1'']"
    using k unfolding sample_final_def sample_notified_def
    by (simp_all add: sample_premises toPaid_matches_def Let_def)
qed

theorem balance_credited_once_witness:
  "OStatus (order sample_final) = Completed
   \<and> map (\<lambda>p. (PUser p, PBenefits p)) (filter (\<lambda>p. PCode p = ''pay1'') (payouts (rd sample_final))) = [(7, [BalanceChange 12])]"
proof -
  note b = balance_credited_once [OF sample_final_facts(1)]
  obtain p where p: "payouts (rd sample_final) = [p]" "PUser p = 7" "PCode p = ''pay1''"
    using sample_final_facts(3,4) by (cases "payouts (rd sample_final)") auto
  then show ?thesis using b sample_final_facts(2) by simp
qed

theorem nothing_without_payment_witness:
  "granted (sample_start OrderTypeBalance) = [] \<and> accepted (sample_notified OrderTypeBalance) = [10]
   \<and> \<bar>10 - OPayAmount (sample_order OrderTypeBalance)\<bar> \<le> 1 / 100"
proof -
  have a: "accepted (sample_notified OrderTypeBalance) = [10]"
    by (simp add: sample_notified_def confirmPayment_def sample_check_start)
  have "granted (sample_start OrderTypeBalance) = []" using nothing_without_payment [OF sample_run, of OrderTypeBalance] by simp
  moreover have "\<bar>10 - OPayAmount (sample_order OrderTypeBalance)\<bar> \<le> 1 / 100"
    using nothing_without_payment [OF sample_notified_run, of OrderTypeBalance] unfolding a by simp
  ultimately show ?thesis using a by blast
qed

text \<open>The worker after it has marked the sample order as paid.\<close>

lemma sample_paid:
  "worker_step all_backed (sample_input t) 2 (sample_notified ty)
   = move 2 ExecuteFulfillment ((set_order (\<lambda>r. r\<lparr>OStatus := Paid, OPayAmount := 10, OTradeNo := ''t1'', OPaidAt := Some t, OUpdatedAt := t\<rparr>)
       (sample_start ty))\<lparr>audits := [''ORDER_PAID''], accepted := [10]\<rparr>)"
  by (simp add: sample_notified_def confirmPayment_def sample_check_start worker_step_def toPaid_def toPaid_matches_def on_db_def sample_calm)
    (simp add: move_def set_order_def writeAuditLog_def initial_pay_def)

theorem subscription_granted_once_witness:
  "\<exists>s. pay_run sample_env all_backed (sample_order OrderTypeSubscription) s \<and> ''SUBSCRIPTION_ASSIGNED'' \<in> set (audits s)
     \<and> granted s = [(7, 3, 30)]"
proof -
  let ?a = "sample_input 0" and ?s0 = "sample_notified OrderTypeSubscription"
  let ?s1 = "worker_step all_backed ?a 2 ?s0"
  have k1: "workers ?s1 2 = ExecuteFulfillment" "can_fulfil (order ?s1)" "lease_matches (p_now ?a) (order ?s1)" "audits ?s1 = [''ORDER_PAID'']"
    "sub_notes ?s1 = None" "OOrderType (order ?s1) = OrderTypeSubscription"
    unfolding sample_paid by (simp_all add: can_fulfil_def lease_matches_def)
  let ?s2 = "work_steps all_backed ?a 2 4 ?s1"
  have k2: "workers ?s2 2 = CheckingAssignment (order ?s1) (lease_time 0)" "audits ?s2 = [''ORDER_PAID'']" "sub_notes ?s2 = None"
    using k1 by (simp_all add: lease_steps [OF sample_calm(1) k1(1-3)] sample_calm)
  let ?s3 = "worker_step all_backed ?a 2 ?s2"
  have s3: "?s3 = move 2 (Assigning (order ?s1) (lease_time 0) False) ?s2"
    by (simp add: worker_step_def [of _ _ _ ?s2] k2 subscription_check_def on_db_def sample_calm hasPaymentSubscriptionAssignmentAudit_def)
  let ?s4 = "worker_step all_backed ?a 2 ?s3"
  have s4: "?s4 = move 2 (ClaimingRebate (order ?s1) (lease_time 0)) (assign_effect (order ?s1) False ?s3)"
    unfolding s3 by (simp add: worker_step_def [of _ _ _ "move _ _ _"] k2 ensurePaymentSubscriptionAssigned_def on_db_def sample_calm)
  have a: "''SUBSCRIPTION_ASSIGNED'' \<in> set (audits ?s4)" unfolding s4 by (simp add: assign_effect_def Let_def)
  have run: "pay_run sample_env all_backed (sample_order OrderTypeSubscription) ?s4"
    by (intro pay_run.step [OF _ pay_step.work] run_steps sample_notified_run)
  have "granted ?s4 = [(7, 3, 30)]" using subscription_granted_once [OF run] a by simp
  with run a show ?thesis by blast
qed

section \<open>What leases and statuses do not exclude\<close>

text \<open>A failed lookup of the code is marked on the order by whoever has the version of the lease.\<close>

lemma fails_order:
  assumes "workers s w = LookingUp o1 v" and "holds_lease v (order s)" and "calm a"
  shows "OStatus (order (worker_step backed a w (worker_step backed (a\<lparr>p_db := DbError e\<rparr>) w s))) = Failed"
proof -
  have 1: "worker_step backed (a\<lparr>p_db := DbError e\<rparr>) w s = move w (MarkingFailed v (WrapError ''lookup payment redeem code'' e)) s"
    using assms(1) by (simp add: worker_step_def doBalance_def on_db_def fail_def)
  show ?thesis unfolding 1 using assms(2,3) by (simp add: worker_step_def markFailed_def on_db_def calm_def)
qed

text \<open>
  C34. The lease does not name its owner: a worker that acquired it and stalled for five minutes before it reads the
  version back reads the version of the worker that took the lease over.  Then both are at work under one
  lease, and the stale worker's failure fails the order of the newer owner, against the comment in \<^verbatim>\<open>markFailed\<close>.
\<close>

theorem lease_shared_by_two:
  "\<exists>s o1 o2 v. pay_run sample_env all_backed (sample_order OrderTypeBalance) s \<and> holds_lease v (order s)
     \<and> workers s 2 = LookingUp o1 v \<and> workers s 3 = LookingUp o2 v
     \<and> OStatus (order (worker_step all_backed (sample_input 0) 2 (worker_step all_backed ((sample_input 0)\<lparr>p_db := DbError e\<rparr>) 2 s))) = Failed"
proof -
  let ?a = "sample_input 0" and ?b = "sample_input (5 * Minute)" and ?B = OrderTypeBalance
  let ?t1 = "worker_step all_backed ?a 2 (sample_notified ?B)"
  have k1: "workers ?t1 2 = ExecuteFulfillment" "can_fulfil (order ?t1)" "lease_matches (p_now ?a) (order ?t1)" "workers ?t1 3 = Off"
    unfolding sample_paid by (simp_all add: can_fulfil_def lease_matches_def)
  let ?t2 = "work_steps all_backed ?a 2 3 ?t1"
  have z: "lease_time 0 = 0" "lease_time (5 * Minute) = 5 * Minute" by (simp_all add: lease_time_def Minute_def Second_def)
  have t2: "?t2 = move 2 (Reloading (order ?t1)) (set_order (\<lambda>r. r\<lparr>OStatus := Recharging, OUpdatedAt := 0\<rparr>) ?t1)"
    using acquire_steps [OF sample_calm(1) k1(1-3)] z by (simp add: sample_calm)
  have k2: "order ?t2 = (sample_order ?B)\<lparr>OStatus := Recharging, OPayAmount := 10, OTradeNo := ''t1'', OPaidAt := Some 0, OUpdatedAt := 0\<rparr>"
    "workers ?t2 2 = Reloading (order ?t1)" "workers ?t2 3 = Off" "OOrderType (order ?t1) = ?B"
    using k1(4) unfolding t2 unfolding sample_paid by simp_all
  let ?t3 = "confirmPayment sample_env 3 sample_note ''alipay'' ?t2"
  have k3: "order ?t3 = order ?t2" "workers ?t3 = (workers ?t2)(3 := ToPaid ''t1'' 10 (order ?t2))"
    using k2(1) by (simp_all add: confirmPayment_def sample_check)
  let ?t4 = "worker_step all_backed ?b 3 ?t3"
  have t4: "?t4 = move 3 AlreadyProcessed ?t3"
    using k3 k2(1) by (simp add: worker_step_def [of _ _ _ ?t3] toPaid_def toPaid_matches_def on_db_def sample_calm)
  let ?t5 = "worker_step all_backed ?b 3 ?t4"
  have t5: "?t5 = move 3 ExecuteFulfillment ?t4"
    unfolding t4 using k3 k2(1) by (simp add: worker_step_def [of _ _ _ "move _ _ _"] alreadyProcessed_def on_db_def sample_calm)
  have k5: "order ?t5 = order ?t2" "workers ?t5 2 = Reloading (order ?t1)" "workers ?t5 3 = ExecuteFulfillment"
    unfolding t5 unfolding t4 using k3 k2 by simp_all
  have m5: "can_fulfil (order ?t5)" "lease_matches (p_now ?b) (order ?t5)"
    unfolding k5(1) k2(1) by (simp_all add: can_fulfil_def lease_matches_def z sample_calm paymentFulfillmentLeaseDuration_def)
  let ?t6 = "work_steps all_backed ?b 3 4 ?t5"
  have t6: "?t6 = move 3 (LookingUp (order ?t5) (5 * Minute)) (set_order (\<lambda>r. r\<lparr>OStatus := Recharging, OUpdatedAt := 5 * Minute\<rparr>) ?t5)"
    using lease_steps [OF sample_calm(1) k5(3) m5] z k5(1) k2(1) by (simp add: sample_calm)
  have k6: "workers ?t6 2 = Reloading (order ?t1)" "OStatus (order ?t6) = Recharging" "OUpdatedAt (order ?t6) = 5 * Minute"
    unfolding t6 using k5 by simp_all
  let ?t7 = "worker_step all_backed ?b 2 ?t6"
  have t7: "?t7 = move 2 (LookingUp (order ?t1) (5 * Minute)) ?t6"
    using reload_step [OF sample_calm(1) k6(1,2)] k6(3) k2(4) by simp
  have run: "pay_run sample_env all_backed (sample_order ?B) ?t7"
    by (intro pay_run.step [OF _ pay_step.work] run_steps pay_run.step [OF _ pay_step.notify] sample_notified_run k2(3))
  have w: "workers ?t7 2 = LookingUp (order ?t1) (5 * Minute)" "workers ?t7 3 = LookingUp (order ?t5) (5 * Minute)"
    unfolding t7 by (simp_all add: t6)
  have h: "holds_lease (5 * Minute) (order ?t7)" unfolding t7 using k6 by (simp add: holds_lease_def)
  show ?thesis using run w h fails_order [OF w(1) h sample_calm(1)] by blast
qed

text \<open>
  C38. The grace period of five minutes restarts whenever the row is written: an order that expired an hour ago is
  not paid by a notification, but it is when the reconciliation has stored the provider's trade number first,
  because that update writes \<^verbatim>\<open>updated_at\<close>.
\<close>

theorem expired_order_revived:
  "let s1 = cancelCore 0 Expired (sample_start OrderTypeBalance);
       s2 = persist_trade_no (env_fold sample_env) (60 * Minute) (order s1) ''sub2_1'' ''t1'' s1;
       late = (\<lambda>s. worker_step all_backed (sample_input (60 * Minute)) 2 (confirmPayment sample_env 2 sample_note ''alipay'' s))
   in pay_run sample_env all_backed (sample_order OrderTypeBalance) (late s1) \<and> OStatus (order (late s1)) = Expired
    \<and> pay_run sample_env all_backed (sample_order OrderTypeBalance) (late s2) \<and> OStatus (order (late s2)) = Paid"
proof -
  let ?s1 = "cancelCore 0 Expired (sample_start OrderTypeBalance)"
  let ?s2 = "persist_trade_no (env_fold sample_env) (60 * Minute) (order ?s1) ''sub2_1'' ''t1'' ?s1"
  let ?late = "\<lambda>s. worker_step all_backed (sample_input (60 * Minute)) 2 (confirmPayment sample_env 2 sample_note ''alipay'' s)"
  let ?o = "\<lambda>tn t. (sample_order OrderTypeBalance)\<lparr>OStatus := Expired, OTradeNo := tn, OUpdatedAt := t\<rparr>"
  have k1: "order ?s1 = ?o [] 0" "workers ?s1 = (\<lambda>w. Off)" by (simp_all add: cancelCore_def)
  have p: "plain_name ''t1''" "plain_name ''sub2_1''" "plain_name []" by (simp_all add: plain_name_def is_graphic_def)
  then have "paymentOrderShouldPersistUpstreamTradeNo (env_fold sample_env) ''sub2_1'' ''t1'' []" "TrimSpace ''t1'' = ''t1''"
    by (simp_all add: paymentOrderShouldPersistUpstreamTradeNo_def Let_def plain_TrimSpace plain_EqualFold)
  then have k2: "order ?s2 = ?o ''t1'' (60 * Minute)" "workers ?s2 = (\<lambda>w. Off)"
    by (simp_all add: persist_trade_no_def k1)
  have c: "confirmPayment_check sample_env (?o tn t) sample_note ''alipay'' = Inr ()" for tn t
    using sample_check [where ty = OrderTypeBalance and st = Expired and tn = tn and pa = None and t = t] by (simp add: sample_order_def)
  have l: "OStatus (order (?late s)) = (if 55 * Minute \<le> t then Paid else Expired)" if "order s = ?o tn t" for s tn t
    using that c [of t tn] by (simp add: confirmPayment_def worker_step_def toPaid_def toPaid_matches_def on_db_def sample_calm
        paymentGraceMinutes_def)
  have r1: "pay_run sample_env all_backed (sample_order OrderTypeBalance) ?s1" by (rule pay_run.step [OF sample_run pay_step.cancel]) simp
  have r2: "pay_run sample_env all_backed (sample_order OrderTypeBalance) ?s2" by (rule pay_run.step [OF r1 pay_step.trade_no])
  have "pay_run sample_env all_backed (sample_order OrderTypeBalance) (?late s)"
    if "pay_run sample_env all_backed (sample_order OrderTypeBalance) s" "workers s = (\<lambda>w. Off)" for s
    by (intro pay_run.step [OF _ pay_step.work] pay_run.step [OF that(1) pay_step.notify]) (simp add: that)
  then show ?thesis using r1 r2 k1(2) k2(2) l [OF k1(1)] l [OF k2(1)] by (simp add: Let_def Minute_def Second_def)
qed

text \<open>
  C39. An order that \<^verbatim>\<open>CreateOrder\<close> has failed, because the provider could not be asked, is fulfilled by a later
  notification without ever being marked as paid: it is completed, the balance is credited, but \<^verbatim>\<open>paid_at\<close> is
  missing, and the inviter's rebate, whose base needs it, is never accrued.
\<close>

theorem failed_order_completes_unpaid:
  "let s = work_steps all_backed (sample_input 0) 2 15 (confirmPayment sample_env 2 sample_note ''alipay''
         (createOrder_failed 0 (sample_start OrderTypeBalance)))
   in pay_run sample_env all_backed (sample_order OrderTypeBalance) s \<and> OStatus (order s) = Completed \<and> OPaidAt (order s) = None
    \<and> map PUser (payouts (rd s)) = [7] \<and> p_rebate (sample_input 0) = Some 1 \<and> rebates s = []"
proof -
  let ?a = "sample_input 0"
  let ?s0 = "createOrder_failed 0 (sample_start OrderTypeBalance)"
  let ?o = "(sample_order OrderTypeBalance)\<lparr>OStatus := Failed\<rparr>"
  have k0: "order ?s0 = ?o" "workers ?s0 = (\<lambda>w. Off)" "rd ?s0 = initial_redeem" "audits ?s0 = []" "rebates ?s0 = []"
    by (simp_all add: createOrder_failed_def)
  have c: "confirmPayment_check sample_env ?o sample_note ''alipay'' = Inr ()"
    using sample_check [where ty = OrderTypeBalance and st = Failed and tn = "[]" and pa = None and t = 0] by (simp add: sample_order_def)
  let ?s1 = "confirmPayment sample_env 2 sample_note ''alipay'' ?s0"
  have k1: "order ?s1 = ?o" "workers ?s1 2 = ToPaid ''t1'' 10 ?o" "rd ?s1 = initial_redeem" "audits ?s1 = []" "rebates ?s1 = []"
    using c k0 by (simp_all add: confirmPayment_def)
  let ?s2 = "worker_step all_backed ?a 2 ?s1"
  have s2: "?s2 = move 2 AlreadyProcessed ?s1"
    by (simp add: worker_step_def [of _ _ _ ?s1] k1 toPaid_def toPaid_matches_def on_db_def sample_calm)
  let ?s3 = "worker_step all_backed ?a 2 ?s2"
  have s3: "?s3 = move 2 ExecuteFulfillment ?s2"
    unfolding s2 by (simp add: worker_step_def [of _ _ _ "move _ _ _"] k1 alreadyProcessed_def on_db_def sample_calm)
  have k3: "order ?s3 = ?o" "workers ?s3 2 = ExecuteFulfillment" "rd ?s3 = initial_redeem" "audits ?s3 = []" "rebates ?s3 = []"
    unfolding s3 unfolding s2 using k1 by simp_all
  have f: "code_free (order ?s3) (rd ?s3)" unfolding k3 by (simp add: code_free_def sample_trim)
  have "work_steps all_backed ?a 2 15 ?s1 = work_steps all_backed ?a 2 13 ?s3"
    by (simp only: numeral_eq_Suc funpow_Suc_right comp_apply pred_numeral_simps BitM.simps)
  moreover have "order_rebate ?a ?o = []" by (simp add: order_rebate_def affiliateRebateBaseAmount_def)
  ultimately have "OStatus (order (work_steps all_backed ?a 2 15 ?s1)) = Completed" "OPaidAt (order (work_steps all_backed ?a 2 15 ?s1)) = None"
    "map PUser (payouts (rd (work_steps all_backed ?a 2 15 ?s1))) = [7]" "rebates (work_steps all_backed ?a 2 15 ?s1) = []"
    using fulfil_steps [OF sample_calm(1) k3(2), of all_backed 0] f by (simp_all add: k3 order_payout_def)
  moreover have "pay_run sample_env all_backed (sample_order OrderTypeBalance) (work_steps all_backed ?a 2 15 ?s1)"
    by (intro run_steps pay_run.step [OF _ pay_step.notify] pay_run.step [OF sample_run pay_step.create_failed]) (simp add: k0)
  ultimately show ?thesis by (simp add: Let_def sample_calm)
qed

end
