(* ===== verification/Spec2Isabelle.thy ===== *)
theory Spec2Isabelle
  imports Idempotency_Once Idempotency_Leases System_Lock Keyword_Search Account_Selection Proxy_Circuit
    Abuse_Flat Model_Allowlist Composite_Admin Email_Registration Effort_Policy Payments
begin

text \<open>
  Verification of the core logic of gotocc-router, a gateway that sells access to the accounts of
  several providers of language models (Go, \<^verbatim>\<open>src/backend/internal\<close>; the paths below are relative to it).

  \<^bold>\<open>The program.\<close>  A request reaches the gateway with an API key.  Keys that do not exist are counted per
  client and block the client (\<open>Abuse_Limiter\<close>).  The group of the key says which models it may use
  (\<open>Model_Allowlist\<close>, with the names that OpenAI models go by in \<open>Codex_Models\<close>) and how much reasoning
  effort a request may ask for (\<open>Effort_Policy\<close>); a composite group routes a model to a platform (\<open>Platforms\<close>, \<open>Composite_Routes\<close>,
  with the administrator's operations on the routes in \<open>Composite_Admin\<close>).  The text of a request is
  searched for blocked keywords (\<open>Keyword_Matcher\<close>).  Among the accounts of the platform one is selected
  by priority, load and last use, with a slot of its concurrency (\<open>Account_Order\<close>, \<open>Account_Selection\<close>);
  accounts behind a proxy whose streams break are avoided (\<open>Proxy_Circuit\<close>).  Administrative requests
  run at most once per idempotency key (\<open>Idempotency\<close>) and system operations exclude each other
  (\<open>System_Lock\<close>), both on one table (\<open>Idempotency_Store\<close>).  New users must have an allowed address that
  is not an alias of a registered one (\<open>Email_Policy\<close>), and concurrent registrations
  are serialised by locks on what they claim (\<open>Scoped_Locks\<close>, \<open>Email_Registration\<close>).  Balances and
  subscriptions are granted by redeem codes (\<open>Redeem_Codes\<close>) and by payment orders, whose balance goes
  through a redeem code of the order (\<open>Payments\<close>).

  \<^bold>\<open>The theories.\<close>
  \<^item> \<open>Go_Prelude\<close> and \<open>Go_Strings\<close>: what the program uses of Go: integers of 64 bits that wrap around, time
    and durations, maps with their order of iteration, stable sorting, errors, and the functions on
    strings, with globs as the reference for wildcards.  A Go string is a list of bytes.  The parts of
    Unicode that only matter for other than ASCII strings are arguments (\<open>ulow\<close>, \<open>ufold\<close>).
  \<^item> \<open>App_Errors\<close> (\<^verbatim>\<open>pkg/errors\<close>): the application error with its constructors and readers; the errors of
    every other component are values of it.
  \<^item> \<open>Idempotency_Store\<close> (\<^verbatim>\<open>repository/idempotency_repo.go\<close>): the table and one definition per statement;
    the locale of the laws that its clients use is interpreted on the statements there.  A fault of the
    database may strike before or after the effect of a statement.
  \<^item> \<open>Idempotency\<close>, \<open>Idempotency_Once\<close> (\<^verbatim>\<open>service/idempotency.go\<close>): \<^verbatim>\<open>Execute\<close>, with a hook \<open>interfere\<close> for
    what the other processes do to the table between two of its statements.  Replays, conflicts, retries
    and the errors at the limits of the stored response.
  \<^item> \<open>Idempotency_Leases\<close>: the processes that share the table as a transition system.  Outcomes are written by
    the identifier alone, so a process may write one after its lease; two live leases of one record never
    coexist unless that has happened to the record, and then they can.
  \<^item> \<open>System_Lock\<close> (\<^verbatim>\<open>service/system_operation_lock_service.go\<close>, \<^verbatim>\<open>idempotency_cleanup_service.go\<close>): as long
    as the record of the lock stays in processing nobody else gets it, with faults and other processes.
  \<^item> \<open>Keyword_Matcher\<close> (\<^verbatim>\<open>service/content_moderation_keyword_matcher.go\<close>) holds the code, every index
    expression checked; \<open>Keyword_Trie\<close>, \<open>Keyword_Links\<close>, \<open>Keyword_Search\<close> follow its phases and end in the
    equivalence with searching for every keyword.  The loops run on fuel (the number of nodes or edges),
    and the equivalence shows that the fuel suffices, since the result is always \<^const>\<open>Some\<close>.
  \<^item> \<open>Account_Order\<close> (\<^verbatim>\<open>service/account.go\<close>, \<^verbatim>\<open>service/gateway_scheduling.go\<close>): the checks of an account, the
    filters, sorts and shuffles.  Random draws are a stream that the definitions consume.
  \<^item> \<open>Account_Selection\<close> (\<^verbatim>\<open>service/gateway_scheduling.go\<close>): the selection with loads, slots, sessions and
    the waiting plan.
  \<^item> \<open>Proxy_Circuit\<close> (\<^verbatim>\<open>service/openai_proxy_stream_circuit.go\<close>): the entries of the circuit; a block is
    justified by a history of failures, the table is bounded.
  \<^item> \<open>Abuse_Limiter\<close> (\<^verbatim>\<open>service/invalid_auth_abuse_limiter.go\<close>): the sharded table with its counters.  \<open>Abuse_Flat\<close>
    is an independent specification, one map from clients to entries that counts its own clients; whole runs
    of the limiter refine its runs.
  \<^item> \<open>Model_Allowlist\<close> (\<^verbatim>\<open>service/group_model_allowlist.go\<close>): matching is glob matching, what is listed is
    admitted, normalising keeps the meaning.
  \<^item> \<open>Codex_Models\<close> (\<^verbatim>\<open>pkg/openai/constants.go\<close>, \<^verbatim>\<open>service/openai_model_alias.go\<close>,
    \<^verbatim>\<open>openai_codex_transform.go\<close>, \<^verbatim>\<open>openai_compat_model.go\<close>): spellings of model names; the loop over dashes
    terminates and equals a one-pass reference, mapping a name and normalising a request are stable.
  \<^item> \<open>Effort_Policy\<close> (\<^verbatim>\<open>service/openai_reasoning_effort_policy.go\<close>): no request passes with an effort above the
    ceiling; the stored mappings are in normal form and keep the meaning of the submitted ones.  \<^verbatim>\<open>gjson\<close>
    and \<^verbatim>\<open>sjson\<close> are the functions of a record, with their documented behaviour as the hypothesis
    \<open>json_laws\<close>.
  \<^item> \<open>Platforms\<close> (\<^verbatim>\<open>domain/platforms.go\<close>, \<^verbatim>\<open>service/composite_platform.go\<close>), \<open>Composite_Routes\<close>
    (\<^verbatim>\<open>service/composite_model_route.go\<close>, \<^verbatim>\<open>composite_route_resolver.go\<close>), \<open>Composite_Admin\<close>
    (\<^verbatim>\<open>service/admin_group.go\<close>, \<^verbatim>\<open>repository/composite_model_route_repo.go\<close>): the order of the candidates of
    a route is a strict order on keys (an interpretation of the locale of sorting by a key), the
    resolver's decision is the best route or what the accounts or the detector give, the table keeps its normal form, and the two together say
    what an administrator's route does to requests.
  \<^item> \<open>Email_Policy\<close> (\<^verbatim>\<open>service/registration_email_policy.go\<close>, \<^verbatim>\<open>registration_email_alias.go\<close>,
    \<^verbatim>\<open>repository/user_repo.go\<close>): the whitelist and the query for aliases with its limit.
  \<^item> \<open>Scoped_Locks\<close> (\<^verbatim>\<open>repository/user_profile_identity_repo.go\<close>): the registry of locks by key within one
    process; mutual exclusion, the exact count of users, no deadlock.
  \<^item> \<open>Email_Registration\<close> (\<^verbatim>\<open>repository/user_repo.go\<close>, \<^verbatim>\<open>service/auth_service.go\<close>): the transactions that create
    a user or change an address, with and without the guard against aliases, statement by statement, under
    advisory locks.  Among the addresses (printable ASCII) that were last written under the guard one per
    inbox while no check was cut, and among those last written under a domain's quota one per domain.
  \<^item> \<open>Redeem_Codes\<close> (\<^verbatim>\<open>service/redeem_service.go\<close>, \<^verbatim>\<open>service/admin_user.go\<close>,
    \<^verbatim>\<open>repository/redeem_code_repo.go\<close>, \<^verbatim>\<open>redeem_code_share_gotocc.go\<close>): calls of users, administrators and
    fulfilments on one table of codes, as sessions that read a copy and later run one transaction; what a
    payout makes of a balance and a concurrency, with the floor at zero and the cashback
    (\<^verbatim>\<open>service/balance_cashback_gotocc.go\<close>).
  \<^item> \<open>Payment_Orders\<close> (\<^verbatim>\<open>service/payment_fulfillment.go\<close>, \<^verbatim>\<open>payment_order_provider_snapshot.go\<close>, \<^verbatim>\<open>payment/currency.go\<close>)
    holds the order and the checks on a notification, \<open>Payment_Fulfillment\<close> one definition per statement that a
    fulfilment runs on the database (\<^verbatim>\<open>service/payment_fulfillment.go\<close>, \<^verbatim>\<open>payment_order_lifecycle.go\<close>), \<open>Payment_Runs\<close> the runs
    of several workers under leases that may expire, with everything that may happen in between, and their
    invariant, which rests on the one of \<open>Redeem_Codes\<close>; \<open>Payments\<close> what follows: an order is served once and
    only for a payment, an undisturbed notification completes it, and what leases do not exclude.

  \<^bold>\<open>Concurrency.\<close>  A method under a mutex is one step.  Where processes meet at the database, their
  statements are the steps (\<open>Idempotency_Leases\<close>, \<open>interfere\<close>, \<open>Email_Registration\<close>,
  \<open>Redeem_Codes\<close>, \<open>Payment_Runs\<close>); where goroutines meet
  at a lock, taking it and giving it back are steps (\<open>Scoped_Locks\<close>).

  \<^bold>\<open>Not modelled.\<close>  The forwarding of requests and streams to the providers and the conversion between
  their formats; the generated database client; services whose work is a script in Redis or a query
  with aggregates; prices and quotas in floating point; the protocols of payment
  providers, the creation of orders and the money of refunds; the wiring of the program.
  They consist of input and output, or of code that is not under \<^verbatim>\<open>src/\<close>.
\<close>

end
